(* ===== verification/SP_Prelude.thy ===== *)
theory SP_Prelude
  imports Main "HOL-Library.Word"
begin

text \<open>
  Shared vocabulary of the development.

  \<^item> \<open>byte\<close>, \<open>bytes\<close>: C++ \<open>uint8_t\<close> and byte buffers.  Buffer sizes and
    indices (\<open>size_t\<close>) are natural numbers.
  \<^item> \<open>u64\<close>, \<open>u32\<close>: reduction of a natural number to a 64-bit or 32-bit
    unsigned counter, used where a counter of the program may wrap.
  \<^item> \<open>seg\<close> and \<open>overwrite\<close>: the two directions of \<open>memcpy\<close> on a buffer.
  \<^item> \<open>be_val\<close>, \<open>be_bytes\<close> and \<open>le_val\<close>, \<open>le_bytes\<close>: multi-byte fields.
  \<^item> \<open>strtoll10\<close>: the C library's \<open>strtoll(s, &endp, 10)\<close>.

  The collections \<open>buf_simps\<close> and \<open>enc_simps\<close> hold the rewrite rules that the
  component theories hand to the simplifier.
\<close>

named_theorems buf_simps \<open>length and element rules for buffer operations\<close>
named_theorems enc_simps \<open>rules for fixed-width encodings\<close>

type_synonym byte = "8 word"
type_synonym bytes = "byte list"

unbundle bit_operations_syntax

section \<open>Unsigned counters\<close>

definition u64 :: "nat \<Rightarrow> nat" where
  "u64 n = n mod 18446744073709551616"

definition u32 :: "nat \<Rightarrow> nat" where
  "u32 n = n mod 4294967296"

lemma u64_id [simp]: "n < 18446744073709551616 \<Longrightarrow> u64 n = n"
  by (simp add: u64_def)

lemma u32_id [simp]: "n < 4294967296 \<Longrightarrow> u32 n = n"
  by (simp add: u32_def)

lemma u64_less [simp]: "u64 n < 18446744073709551616"
  by (simp add: u64_def)

lemma u32_less [simp]: "u32 n < 4294967296"
  by (simp add: u32_def)

section \<open>Buffers\<close>

definition seg :: "'a list \<Rightarrow> nat \<Rightarrow> nat \<Rightarrow> 'a list" where
  "seg xs a n = take n (drop a xs)"

definition overwrite :: "'a list \<Rightarrow> nat \<Rightarrow> 'a list \<Rightarrow> 'a list" where
  "overwrite xs a ys = take a xs @ ys @ drop (a + length ys) xs"

lemma length_seg [buf_simps]: "length (seg xs a n) = min n (length xs - a)"
  by (simp add: seg_def min.commute)

lemma nth_seg [buf_simps]:
  "i < n \<Longrightarrow> a + i < length xs \<Longrightarrow> seg xs a n ! i = xs ! (a + i)"
  by (simp add: seg_def)

lemma length_overwrite [buf_simps]:
  "a + length ys \<le> length xs \<Longrightarrow> length (overwrite xs a ys) = length xs"
  by (simp add: overwrite_def)

lemma nth_overwrite [buf_simps]:
  "a + length ys \<le> length xs \<Longrightarrow> i < length xs \<Longrightarrow>
     overwrite xs a ys ! i = (if a \<le> i \<and> i < a + length ys then ys ! (i - a) else xs ! i)"
  by (auto simp: overwrite_def nth_append min_def)

lemma seg_append_seg:
  "seg xs a m @ seg xs (a + m) n = seg xs a (m + n)"
  by (simp add: seg_def take_add add.commute)

lemma take_drop_append_drop:
  "p \<le> length xs \<Longrightarrow> take n (drop p (xs @ ys)) = take n (drop p xs @ ys)"
  by simp

section \<open>Multi-byte fields\<close>

text \<open>Big endian: the first byte is the most significant.\<close>

definition be_val :: "bytes \<Rightarrow> nat" where
  "be_val bs = foldl (\<lambda>acc b. acc * 256 + unat b) 0 bs"

fun be_bytes :: "nat \<Rightarrow> nat \<Rightarrow> bytes" where
  "be_bytes 0 v = []"
| "be_bytes (Suc k) v = be_bytes k (v div 256) @ [word_of_nat (v mod 256)]"

text \<open>Little endian: the first byte is the least significant.\<close>

fun le_val :: "bytes \<Rightarrow> nat" where
  "le_val [] = 0"
| "le_val (b # bs) = unat b + 256 * le_val bs"

fun le_bytes :: "nat \<Rightarrow> nat \<Rightarrow> bytes" where
  "le_bytes 0 v = []"
| "le_bytes (Suc k) v = word_of_nat (v mod 256) # le_bytes k (v div 256)"

lemma unat_byte_less [simp]: "unat (b :: byte) < 256"
  using unsigned_less [of b] by simp

lemma unat_byte_of_mod [simp]: "unat (word_of_nat (v mod 256) :: byte) = v mod 256"
  by (simp add: unat_of_nat)

lemma byte_of_unat_mod [simp]: "(word_of_nat (unat (b :: byte) mod 256) :: byte) = b"
  by simp

lemma be_val_Nil [simp]: "be_val [] = 0"
  by (simp add: be_val_def)

lemma be_val_snoc [simp]: "be_val (bs @ [b]) = be_val bs * 256 + unat b"
  by (simp add: be_val_def)

lemma length_be_bytes [simp]: "length (be_bytes k v) = k"
  by (induction k arbitrary: v) auto

lemma length_le_bytes [simp]: "length (le_bytes k v) = k"
  by (induction k arbitrary: v) auto

lemma be_val_be_bytes [enc_simps]: "be_val (be_bytes k v) = v mod 256 ^ k"
proof (induction k arbitrary: v)
  case (Suc k)
  have "be_val (be_bytes (Suc k) v) = (v div 256 mod 256 ^ k) * 256 + v mod 256"
    using Suc by simp
  also have "\<dots> = v mod 256 ^ Suc k"
    by (metis mod_mult2_eq mult.commute power_Suc)
  finally show ?case .
qed simp

lemma le_val_le_bytes [enc_simps]: "le_val (le_bytes k v) = v mod 256 ^ k"
proof (induction k arbitrary: v)
  case (Suc k)
  have "le_val (le_bytes (Suc k) v) = v mod 256 + 256 * (v div 256 mod 256 ^ k)"
    using Suc by simp
  also have "\<dots> = v mod 256 ^ Suc k"
    by (simp add: mod_mult2_eq)
  finally show ?case .
qed simp

lemma le_val_less: "le_val bs < 256 ^ length bs"
proof (induction bs)
  case (Cons b bs)
  have "unat b < 256" by (rule unat_byte_less)
  moreover have "256 * le_val bs + 256 \<le> 256 * 256 ^ length bs"
    using Cons by (metis Suc_leI add.commute mult_Suc_right mult_le_mono2)
  ultimately have "unat b + 256 * le_val bs < 256 * 256 ^ length bs" by linarith
  then show ?case by simp
qed simp

lemma le_bytes_le_val [enc_simps]: "le_bytes (length bs) (le_val bs) = bs"
  by (induction bs) auto

lemma le_val_append [enc_simps]: "le_val (xs @ ys) = le_val xs + 256 ^ length xs * le_val ys"
  by (induction xs) (auto simp: algebra_simps)

section \<open>Masks\<close>

lemma unat_and_mask: "unat (w AND mask n) = unat w mod 2 ^ n"
  by (simp only: unsigned_take_bit_eq [symmetric] take_bit_eq_mask [symmetric] take_bit_eq_mod [symmetric])

lemma unat_byte_and:
  "unat ((b :: byte) AND 0x0F) = unat b mod 16" "unat (b AND 0x1F) = unat b mod 32"
  "unat (b AND 3) = unat b mod 4" "unat (b AND 0x3F) = unat b mod 64"
  "unat (b AND 0x7F) = unat b mod 128"
proof -
  have m: "(0x0F :: byte) = mask 4" "(0x1F :: byte) = mask 5" "(3 :: byte) = mask 2"
    "(0x3F :: byte) = mask 6" "(0x7F :: byte) = mask 7"
    by (simp_all add: mask_eq_exp_minus_1)
  show "unat (b AND 0x0F) = unat b mod 16" "unat (b AND 0x1F) = unat b mod 32"
    "unat (b AND 3) = unat b mod 4" "unat (b AND 0x3F) = unat b mod 64"
    "unat (b AND 0x7F) = unat b mod 128"
    unfolding m unat_and_mask by simp_all
qed

lemma byte_test_bit:
  "(b :: byte) AND 1 \<noteq> 0 \<longleftrightarrow> odd (unat b)" "b AND 0x40 \<noteq> 0 \<longleftrightarrow> odd (unat b div 64)"
  "b AND 0x80 \<noteq> 0 \<longleftrightarrow> odd (unat b div 128)"
proof -
  have e: "(1 :: byte) = 2 ^ 0" "(0x40 :: byte) = 2 ^ 6" "(0x80 :: byte) = 2 ^ 7" by simp_all
  have u: "bit b n \<longleftrightarrow> odd (unat b div 2 ^ n)" for n
    by (simp only: flip: bit_iff_odd) (simp add: bit_simps)
  show "b AND 1 \<noteq> 0 \<longleftrightarrow> odd (unat b)" "b AND 0x40 \<noteq> 0 \<longleftrightarrow> odd (unat b div 64)"
    "b AND 0x80 \<noteq> 0 \<longleftrightarrow> odd (unat b div 128)"
    unfolding e and_exp_eq_0_iff_not_bit not_not u by simp_all
qed

lemma unat_byte_drop: "unat (drop_bit n (b :: byte)) = unat b div 2 ^ n"
  by (simp only: unsigned_drop_bit_eq drop_bit_eq_div [symmetric]) (simp add: take_bit_drop_bit take_bit_nat_eq_self)

lemmas byte_fields = unat_byte_and byte_test_bit unat_byte_drop

text \<open>The conversion \<open>uint8_t(n)\<close>.\<close>

definition byte_of :: "nat \<Rightarrow> byte" where
  "byte_of n = word_of_nat n"

lemma unat_byte_of [simp]: "unat (byte_of n) = n mod 256"
  by (simp add: byte_of_def unat_of_nat)

lemma byte_of_unat [simp]: "byte_of (unat b) = b"
  by (simp add: byte_of_def)

section \<open>The C library\<close>

definition is_space :: "char \<Rightarrow> bool" where
  "is_space c = (c \<in> {CHR '' '', CHR 0x09, CHR 0x0A, CHR 0x0B, CHR 0x0C, CHR 0x0D})"

definition is_digit :: "char \<Rightarrow> bool" where
  "is_digit c = (48 \<le> (of_char c :: nat) \<and> (of_char c :: nat) \<le> 57)"

definition digit_val :: "char \<Rightarrow> int" where
  "digit_val c = int (of_char c) - 48"

definition dec_val :: "string \<Rightarrow> int" where
  "dec_val ds = foldl (\<lambda>acc c. acc * 10 + digit_val c) 0 ds"

text \<open>
  \<open>strtoll10 s\<close> is \<open>(v, rest, erange)\<close>: leading white space and an optional
  sign are skipped, then the longest run of digits is converted; with no digit
  \<open>rest\<close> is the whole input (\<open>endp == s\<close>).  A value outside the 64-bit signed
  range is clamped and reported through \<open>errno = ERANGE\<close>.
\<close>

definition strtoll10 :: "string \<Rightarrow> int \<times> string \<times> bool" where
  "strtoll10 s = (let t = dropWhile is_space s;
       neg = (t \<noteq> [] \<and> hd t = CHR ''-'');
       t' = (if t \<noteq> [] \<and> (hd t = CHR ''-'' \<or> hd t = CHR ''+'') then tl t else t);
       ds = takeWhile is_digit t'; rest = dropWhile is_digit t';
       v = (if neg then - dec_val ds else dec_val ds)
     in if ds = [] then (0, s, False)
        else if v > 9223372036854775807 then (9223372036854775807, rest, True)
        else if v < - 9223372036854775808 then (- 9223372036854775808, rest, True)
        else (v, rest, False))"

text \<open>
  The idiom shared by every numeric environment variable of the program: set,
  non-empty, \<open>errno == 0\<close>, at least one digit, nothing after the number.
\<close>

definition env_number :: "string option \<Rightarrow> int option" where
  "env_number env = (case env of None \<Rightarrow> None
     | Some s \<Rightarrow> (let (v, rest, erange) = strtoll10 s in
         if s \<noteq> [] \<and> \<not> erange \<and> rest = [] then Some v else None))"

section \<open>Strings\<close>

text \<open>The bytes of a string literal, and a byte buffer as a \<open>std::string\<close>.\<close>

definition str_bytes :: "string \<Rightarrow> bytes" where
  "str_bytes s = map (\<lambda>c. byte_of (of_char c)) s"

definition bytes_str :: "bytes \<Rightarrow> string" where
  "bytes_str bs = map (\<lambda>b. char_of (unat b)) bs"

lemma length_str_bytes [simp]: "length (str_bytes s) = length s"
  by (simp add: str_bytes_def)

lemma length_bytes_str [simp]: "length (bytes_str bs) = length bs"
  by (simp add: bytes_str_def)

lemma bytes_str_str_bytes: "bytes_str (str_bytes s) = s"
proof -
  have "char_of ((of_char c :: nat) mod 256) = c" for c :: char by (metis char_of_char char_of_mod_256)
  then show ?thesis by (simp add: bytes_str_def str_bytes_def comp_def)
qed

text \<open>\<open>std::string::find\<close>: the first position at which \<open>pat\<close> occurs.\<close>

fun find_sub :: "'a list \<Rightarrow> 'a list \<Rightarrow> nat option" where
  "find_sub pat [] = (if pat = [] then Some 0 else None)"
| "find_sub pat (x # xs) = (if take (length pat) (x # xs) = pat then Some 0
                            else map_option Suc (find_sub pat xs))"

definition find_sub_from :: "'a list \<Rightarrow> 'a list \<Rightarrow> nat \<Rightarrow> nat option" where
  "find_sub_from pat xs pos = (if pos > length xs then None
     else map_option (\<lambda>i. i + pos) (find_sub pat (drop pos xs)))"

lemma find_sub_Some:
  "find_sub pat xs = Some i \<Longrightarrow> i + length pat \<le> length xs \<and> seg xs i (length pat) = pat"
proof (induction xs arbitrary: i)
  case (Cons x xs)
  then show ?case
    by (auto simp: seg_def min_def split: if_splits dest: arg_cong [of _ _ length])
qed (auto simp: seg_def split: if_splits)

text \<open>Decimal output, as \<open>printf\<close> writes it.\<close>

function show_nat :: "nat \<Rightarrow> string" where
  "show_nat n = (if n < 10 then [char_of (48 + n)] else show_nat (n div 10) @ [char_of (48 + n mod 10)])"
  by pat_completeness auto
termination by (relation "measure id") auto

declare show_nat.simps [simp del]

definition show_int :: "int \<Rightarrow> string" where
  "show_int i = (if i < 0 then CHR ''-'' # show_nat (nat (- i)) else show_nat (nat i))"

lemma digit_char: "d < 10 \<Longrightarrow> is_digit (char_of (48 + d)) \<and> digit_val (char_of (48 + d)) = int d"
  by (simp add: is_digit_def digit_val_def of_char_of take_bit_eq_mod)

lemma show_nat_digits: "list_all is_digit (show_nat n) \<and> show_nat n \<noteq> []"
proof (induction n rule: show_nat.induct)
  case (1 n)
  then show ?case
    using digit_char [of n] digit_char [of "n mod 10"] by (subst (1 2) show_nat.simps) auto
qed

lemma dec_val_snoc: "dec_val (ds @ [c]) = dec_val ds * 10 + digit_val c"
  by (simp add: dec_val_def)

lemma dec_val_show: "dec_val (show_nat n) = int n"
proof (induction n rule: show_nat.induct)
  case (1 n)
  show ?case
  proof (cases "n < 10")
    case True
    then show ?thesis using digit_char [of n] by (subst show_nat.simps) (simp add: dec_val_def)
  next
    case False
    then show ?thesis
      using 1 digit_char [of "n mod 10"] by (subst show_nat.simps) (simp add: dec_val_snoc zdiv_int zmod_int)
  qed
qed

lemma takeWhile_digits:
  "list_all is_digit ds \<Longrightarrow> rest = [] \<or> \<not> is_digit (hd rest) \<Longrightarrow>
     takeWhile is_digit (ds @ rest) = ds \<and> dropWhile is_digit (ds @ rest) = rest"
  by (induction ds) (auto simp: neq_Nil_conv takeWhile_eq_Nil_iff dropWhile_eq_self_iff)

text \<open>\<open>strtoll\<close> reads back what \<open>printf\<close> wrote.\<close>

lemma strtoll10_show:
  assumes "int n \<le> 9223372036854775807" "rest = [] \<or> \<not> is_digit (hd rest)"
  shows "strtoll10 (show_nat n @ rest) = (int n, rest, False)"
proof -
  have d: "list_all is_digit (show_nat n)" "show_nat n \<noteq> []" using show_nat_digits by auto
  then obtain c cs where c: "show_nat n = c # cs" "is_digit c" by (cases "show_nat n") auto
  then have s: "\<not> is_space c" "c \<noteq> CHR ''-''" "c \<noteq> CHR ''+''"
    by (auto simp: is_digit_def is_space_def)
  have t: "takeWhile is_digit (c # cs @ rest) = c # cs" "dropWhile is_digit (c # cs @ rest) = rest"
    using takeWhile_digits [OF d(1) assms(2)] c(1) by simp_all
  have v: "dec_val (c # cs) = int n" using dec_val_show [of n] c(1) by simp
  show ?thesis
    using s t v assms(1) unfolding strtoll10_def c(1) Let_def by simp
qed

lemma length_show_nat: "n < 10 ^ k \<Longrightarrow> 0 < k \<Longrightarrow> length (show_nat n) \<le> k"
proof (induction k arbitrary: n)
  case (Suc k)
  show ?case
  proof (cases "n < 10")
    case True
    then show ?thesis by (subst show_nat.simps) simp
  next
    case False
    then have "k > 0" using Suc.prems by (cases k) auto
    moreover have "n div 10 < 10 ^ k" using Suc.prems by (simp add: less_mult_imp_div_less mult.commute)
    ultimately show ?thesis using Suc.IH [of "n div 10"] False by (subst show_nat.simps) simp
  qed
qed simp

section \<open>Answers of a non-blocking socket\<close>

text \<open>
  A read yields bytes, \<open>EAGAIN\<close>, or the end of the link (an error or EOF); a
  write accepts some bytes, would block, or fails.  Operations that talk to a
  socket take the list of answers the kernel will give; a list that has run out
  answers \<open>EAGAIN\<close>.
\<close>

datatype net_read = R_data bytes | R_again | R_fail
datatype net_write = W_sent nat | W_again | W_fail

end
