(* ===== verification/Video_Ring.thy ===== *)
theory Video_Ring
  imports SP_Prelude
begin

text \<open>
  The per-slot ring buffer of \<open>src/videostream.cpp\<close> (class \<open>VideoRing\<close>), with
  positions as absolute stream offsets.  The locale \<open>byte_history\<close> states what
  the viewers and the recorder rely on: the ring is the tail of the publisher's
  byte history.  The interpretation \<open>ring\<close> discharges it for the model.
\<close>

section \<open>The ring\<close>

record video_ring =
  ring_buf :: bytes
  ring_wpos :: nat

definition VIDEO_RING_DEFAULT :: nat where
  "VIDEO_RING_DEFAULT = 8 * 1024 * 1024"

text \<open>The result and the new value of the function's static \<open>cached\<close>.\<close>

definition video_ring_bytes :: "nat \<Rightarrow> string option \<Rightarrow> nat \<times> nat" where
  "video_ring_bytes cached env =
     (if cached = 0 then
        let c = (case env_number env of
                   Some v \<Rightarrow> if v > 0 then nat v else VIDEO_RING_DEFAULT
                 | None \<Rightarrow> VIDEO_RING_DEFAULT)
        in (c, c)
      else (cached, cached))"

definition ring_init :: "nat \<Rightarrow> video_ring" where
  "ring_init n = (let n' = (if n < 4096 then 4096 else n) in
     \<lparr> ring_buf = replicate n' 0, ring_wpos = 0 \<rparr>)"

definition capacity :: "video_ring \<Rightarrow> nat" where
  "capacity r = length (ring_buf r)"

definition ring_write :: "video_ring \<Rightarrow> bytes \<Rightarrow> video_ring" where
  "ring_write r src =
     (let cap = capacity r in
      if cap = 0 \<or> length src = 0 then r
      else
        let skip = (if length src \<ge> cap then length src - cap else 0);
            src' = drop skip src;
            wp = u64 (ring_wpos r + skip);
            n = length src';
            start = wp mod cap;
            first = (if cap - start < n then cap - start else n);
            b1 = overwrite (ring_buf r) start (take first src');
            b2 = (if n > first then overwrite b1 0 (drop first src') else b1)
        in \<lparr> ring_buf = b2, ring_wpos = u64 (wp + n) \<rparr>)"

definition oldest :: "video_ring \<Rightarrow> nat" where
  "oldest r = (if ring_wpos r > capacity r then ring_wpos r - capacity r else 0)"

definition resident :: "video_ring \<Rightarrow> nat \<Rightarrow> bool" where
  "resident r pos = (pos \<ge> oldest r \<and> pos \<le> ring_wpos r)"

definition read_at :: "video_ring \<Rightarrow> nat \<Rightarrow> nat \<Rightarrow> bytes" where
  "read_at r pos n =
     (let cap = capacity r in
      if cap = 0 \<or> \<not> resident r pos then []
      else
        let avail64 = ring_wpos r - pos;
            avail = (if avail64 > n then n else avail64)
        in if avail = 0 then []
           else
             let start = pos mod cap;
                 first = (if cap - start < avail then cap - start else avail)
             in seg (ring_buf r) start first
                @ (if avail > first then seg (ring_buf r) 0 (avail - first) else []))"

definition ring_reset :: "video_ring \<Rightarrow> video_ring" where
  "ring_reset r = r\<lparr> ring_wpos := 0 \<rparr>"

section \<open>The ring is the tail of the byte history\<close>

text \<open>
  \<open>ring_holds r h\<close>: after the bytes \<open>h\<close> were written since the last reset, the
  ring holds the last \<open>capacity r\<close> of them, each at its offset modulo the
  capacity.
\<close>

definition ring_holds :: "video_ring \<Rightarrow> bytes \<Rightarrow> bool" where
  "ring_holds r h = (capacity r > 0 \<and> ring_wpos r = length h \<and> length h < 2 ^ 64
     \<and> (\<forall>p < length h. length h - capacity r \<le> p \<longrightarrow> ring_buf r ! (p mod capacity r) = h ! p))"

lemma ring_init_holds: "ring_holds (ring_init n) []"
  by (simp add: ring_holds_def ring_init_def capacity_def Let_def)

lemma ring_reset_holds: "ring_holds r h \<Longrightarrow> ring_holds (ring_reset r) []"
  by (simp add: ring_holds_def ring_reset_def capacity_def)

lemma oldest_holds: "ring_holds r h \<Longrightarrow> oldest r = length h - capacity r"
  by (simp add: ring_holds_def oldest_def)

lemma resident_holds:
  "ring_holds r h \<Longrightarrow> resident r p = (length h - capacity r \<le> p \<and> p \<le> length h)"
  by (simp add: oldest_holds resident_def) (simp add: ring_holds_def)

text \<open>The buffer after the one or two \<open>memcpy\<close> calls, by stream offset.\<close>

lemma wrapped_index:
  fixes wp cap k :: nat
  assumes "cap > 0" "k < cap"
  shows "(wp + k) mod cap = (if wp mod cap + k < cap then wp mod cap + k else wp mod cap + k - cap)"
proof -
  have *: "(wp + k) mod cap = (wp mod cap + k) mod cap"
    by (simp add: mod_simps)
  have lt: "wp mod cap < cap" using assms by simp
  show ?thesis
  proof (cases "wp mod cap + k < cap")
    case True then show ?thesis unfolding * by simp
  next
    case False
    then have "(wp mod cap + k) mod cap = (wp mod cap + k - cap) mod cap"
      by (simp add: le_mod_geq)
    also have "\<dots> = wp mod cap + k - cap"
      using lt assms by (intro mod_less) linarith
    finally show ?thesis unfolding * using False by simp
  qed
qed

lemma wrapped_overwrite:
  fixes wp cap k :: nat
  defines "start \<equiv> wp mod cap"
  assumes cap: "length b = cap" "cap > 0" and n: "length src \<le> cap" and k: "k < cap"
    and first: "first = min (cap - start) (length src)"
    and b2: "b2 = (if length src > first
                   then overwrite (overwrite b start (take first src)) 0 (drop first src)
                   else overwrite b start (take first src))"
  shows "length b2 = cap"
    and "b2 ! ((wp + k) mod cap) = (if k < length src then src ! k else b ! ((wp + k) mod cap))"
proof -
  have start: "start < cap" using cap by (simp add: start_def)
  have len1: "length (overwrite b start (take first src)) = cap"
    using cap start first by (simp add: length_overwrite)
  show "length b2 = cap"
    using len1 cap first n unfolding b2 by (auto simp: length_overwrite)
  have idx: "(wp + k) mod cap = (if start + k < cap then start + k else start + k - cap)"
    using wrapped_index [OF cap(2) k] by (simp add: start_def)
  show "b2 ! ((wp + k) mod cap) = (if k < length src then src ! k else b ! ((wp + k) mod cap))"
  proof (cases "start + k < cap")
    case True
    then show ?thesis
      unfolding idx b2 using cap start first n k len1 by (auto simp: nth_overwrite)
  next
    case False
    show ?thesis
    proof (cases "k < length src")
      case True
      then have f: "first = cap - start" "first < length src" using False first by linarith+
      moreover have "start + k - cap < length src - first" using f True False start by linarith
      ultimately show ?thesis
        unfolding idx b2 using True False cap start n k len1 by (simp add: nth_overwrite)
    next
      case past: False
      have j: "start + k - cap < cap" "start + k - cap < start"
        using False k start by linarith+
      then have b1: "overwrite b start (take first src) ! (start + k - cap) = b ! (start + k - cap)"
        using cap start first by (simp add: nth_overwrite)
      have "start + k - cap \<ge> length src - first" if "length src > first"
        using that past False first by linarith
      then show ?thesis
        unfolding idx b2 using False past j b1 len1 cap first n by (auto simp: nth_overwrite)
    qed
  qed
qed

text \<open>The arguments of the two copies: what is skipped, and where it lands.\<close>

definition ring_skip :: "video_ring \<Rightarrow> bytes \<Rightarrow> nat" where
  "ring_skip r xs = (if length xs \<ge> capacity r then length xs - capacity r else 0)"

lemma ring_write_buf:
  assumes cap: "capacity r > 0" and xs: "xs \<noteq> []"
    and room: "ring_wpos r + length xs < 2 ^ 64"
  defines "wp \<equiv> ring_wpos r + ring_skip r xs"
  shows "capacity (ring_write r xs) = capacity r"
    and "ring_wpos (ring_write r xs) = ring_wpos r + length xs"
    and "k < capacity r \<Longrightarrow> ring_buf (ring_write r xs) ! ((wp + k) mod capacity r)
           = (if k < length xs - ring_skip r xs then xs ! (ring_skip r xs + k)
              else ring_buf r ! ((wp + k) mod capacity r))"
proof -
  let ?src = "drop (ring_skip r xs) xs"
  have skip: "ring_skip r xs \<le> length xs" by (simp add: ring_skip_def)
  have n: "length ?src \<le> capacity r" by (simp add: ring_skip_def)
  have wp: "u64 (ring_wpos r + ring_skip r xs) = wp"
    using room skip by (simp add: wp_def)
  let ?first = "min (capacity r - wp mod capacity r) (length ?src)"
  let ?b2 = "ring_buf (ring_write r xs)"
  have w: "ring_write r xs = \<lparr> ring_buf = ?b2, ring_wpos = u64 (wp + length ?src) \<rparr>"
    using cap xs wp by (simp add: ring_write_def Let_def ring_skip_def)
  have b2: "?b2 = (if length ?src > ?first
      then overwrite (overwrite (ring_buf r) (wp mod capacity r) (take ?first ?src)) 0 (drop ?first ?src)
      else overwrite (ring_buf r) (wp mod capacity r) (take ?first ?src))"
    using cap xs unfolding ring_write_def Let_def ring_skip_def [symmetric] wp
    by (auto simp: min_def)
  have len: "length (ring_buf r) = capacity r" by (simp add: capacity_def)
  note wo = wrapped_overwrite [OF len cap n _ refl b2]
  show "capacity (ring_write r xs) = capacity r"
    using wo(1) [OF cap] by (simp add: capacity_def)
  show "ring_wpos (ring_write r xs) = ring_wpos r + length xs"
    using w wp_def skip room by (cases "ring_write r xs") simp
  show "?b2 ! ((wp + k) mod capacity r) = (if k < length xs - ring_skip r xs
          then xs ! (ring_skip r xs + k) else ring_buf r ! ((wp + k) mod capacity r))"
    if "k < capacity r"
    using wo(2) [OF that] skip by simp
qed

lemma ring_write_holds:
  assumes h: "ring_holds r h" and room: "length h + length xs < 2 ^ 64"
  shows "ring_holds (ring_write r xs) (h @ xs) \<and> capacity (ring_write r xs) = capacity r"
proof (cases "xs = []")
  case True
  then show ?thesis using h by (simp add: ring_write_def)
next
  case False
  have cap: "capacity r > 0" and wpos: "ring_wpos r = length h"
    and old: "\<And>p. p < length h \<Longrightarrow> length h - capacity r \<le> p \<Longrightarrow>
      ring_buf r ! (p mod capacity r) = h ! p"
    using h by (auto simp: ring_holds_def)
  let ?cap = "capacity r" and ?skip = "ring_skip r xs"
  note W = ring_write_buf [OF cap False, unfolded wpos, OF room]
  have "ring_buf (ring_write r xs) ! (p mod ?cap) = (h @ xs) ! p"
    if p: "p < length (h @ xs)" "length (h @ xs) - ?cap \<le> p" for p
  proof (cases "length h + ?skip \<le> p")
    case True
    then obtain k where k: "p = length h + ?skip + k" using le_Suc_ex by blast
    then have "k < length xs - ?skip" "k < ?cap" using p by (auto simp: ring_skip_def split: if_splits)
    then show ?thesis using W(3) [of k] k by (simp add: nth_append)
  next
    case new: False
    then have skip0: "?skip = 0" and small: "length xs < ?cap"
      using p by (auto simp: ring_skip_def split: if_splits)
    have ph: "p < length h" using new skip0 by simp
    define k where "k = p + ?cap - length h"
    have k: "length h + k = p + ?cap" "k < ?cap" "\<not> k < length xs"
      using p ph small by (auto simp: k_def)
    then show ?thesis
      using W(3) [OF k(2)] skip0 old [OF ph] p ph by (simp add: nth_append)
  qed
  then show ?thesis using W(1,2) room cap by (simp add: ring_holds_def)
qed

lemma if_less_min: "(if a < b then a else b) = min a (b :: nat)"
  by (simp add: min_def)

lemma seg_if: "(if f < a then seg xs 0 (a - f) else []) = seg xs 0 (a - f)"
  by (simp add: seg_def)

lemma min_eq_0_nat: "min a b = (0 :: nat) \<longleftrightarrow> a = 0 \<or> b = 0"
  by (auto simp: min_def)

lemma read_at_holds:
  assumes h: "ring_holds r h"
  shows "read_at r pos n = (if length h - capacity r \<le> pos \<and> pos \<le> length h
                            then take n (drop pos h) else [])"
proof (cases "resident r pos \<and> pos < length h \<and> 0 < n")
  case False
  then show ?thesis
    using h by (auto simp: read_at_def Let_def resident_holds) (simp_all add: ring_holds_def)
next
  case True
  let ?cap = "capacity r" and ?start = "pos mod capacity r" and ?avail = "min n (length h - pos)"
  let ?first = "min (?cap - ?start) ?avail"
  have cap: "?cap > 0" and wpos: "ring_wpos r = length h" and len: "length (ring_buf r) = ?cap"
    and old: "\<And>p. p < length h \<Longrightarrow> length h - ?cap \<le> p \<Longrightarrow> ring_buf r ! (p mod ?cap) = h ! p"
    using h by (auto simp: ring_holds_def capacity_def)
  have res: "length h - ?cap \<le> pos" using True resident_holds [OF h] by simp
  have start: "?start < ?cap" using cap by simp
  have eq: "read_at r pos n = seg (ring_buf r) ?start ?first
                              @ seg (ring_buf r) 0 (?avail - ?first)"
    using True cap wpos unfolding read_at_def Let_def if_less_min seg_if
    by (simp add: min_eq_0_nat)
  have "seg (ring_buf r) ?start ?first @ seg (ring_buf r) 0 (?avail - ?first)
          = take n (drop pos h)"
  proof (rule nth_equalityI)
    have "?avail \<le> ?cap" using res True by auto
    then have "length (seg (ring_buf r) ?start ?first) = ?first"
      "length (seg (ring_buf r) 0 (?avail - ?first)) = ?avail - ?first"
      using start len by (simp_all add: length_seg)
    then show l: "length (seg (ring_buf r) ?start ?first @ seg (ring_buf r) 0 (?avail - ?first))
          = length (take n (drop pos h))"
      by (simp only: length_append length_take length_drop le_add_diff_inverse
          min.cobounded2 min.commute [of "length h - pos"])
    fix i assume "i < length (seg (ring_buf r) ?start ?first @ seg (ring_buf r) 0 (?avail - ?first))"
    then have i: "i < ?avail" unfolding l by simp
    then have ic: "i < ?cap" using \<open>?avail \<le> ?cap\<close> by (rule less_le_trans)
    have val: "ring_buf r ! ((pos + i) mod ?cap) = h ! (pos + i)"
      using old [of "pos + i"] i res by (simp add: less_diff_conv add.commute)
    have rhs: "take n (drop pos h) ! i = h ! (pos + i)" using i True by simp
    have l1: "length (seg (ring_buf r) ?start ?first) = ?first"
      using start len by (simp add: length_seg)
    show "(seg (ring_buf r) ?start ?first @ seg (ring_buf r) 0 (?avail - ?first)) ! i
        = take n (drop pos h) ! i"
    proof (cases "?start + i < ?cap")
      case True
      then have "i < ?first" using i by simp
      then show ?thesis
        using True val rhs l1 len unfolding wrapped_index [OF cap ic] by (simp add: nth_append nth_seg)
    next
      case False
      then have f: "?first = ?cap - ?start"
        using i by (intro min_absorb1) linarith
      have ge: "?cap - ?start \<le> i" using False by linarith
      then have "\<not> i < ?first" "i - ?first < ?avail - ?first" "i - ?first < ?cap"
        "i - ?first = ?start + i - ?cap"
        unfolding f using diff_less_mono [OF i ge] ic start by linarith+
      then show ?thesis
        using False val rhs l1 len unfolding wrapped_index [OF cap ic]
        by (simp only: nth_append if_False nth_seg add_0)
    qed
  qed
  then show ?thesis using eq res True by simp
qed

section \<open>What the readers of a ring rely on\<close>

text \<open>
  A reader sees a store of the most recent bytes of one publisher.  \<open>holds r h\<close>
  relates the store to the whole history; \<open>get\<close> answers from the history or not
  at all.
\<close>

locale byte_history =
  fixes holds :: "'r \<Rightarrow> bytes \<Rightarrow> bool"
    and put :: "'r \<Rightarrow> bytes \<Rightarrow> 'r"
    and get :: "'r \<Rightarrow> nat \<Rightarrow> nat \<Rightarrow> bytes"
    and window :: "'r \<Rightarrow> nat"
  assumes put_holds: "holds r h \<Longrightarrow> length h + length xs < 2 ^ 64 \<Longrightarrow>
      holds (put r xs) (h @ xs) \<and> window (put r xs) = window r"
    and get_holds: "holds r h \<Longrightarrow> get r pos n =
      (if length h - window r \<le> pos \<and> pos \<le> length h then take n (drop pos h) else [])"
begin

lemma puts_hold:
  "holds r h \<Longrightarrow> length h + length (concat ws) < 2 ^ 64 \<Longrightarrow>
     holds (foldl put r ws) (h @ concat ws) \<and> window (foldl put r ws) = window r"
proof (induction ws arbitrary: r h)
  case (Cons w ws)
  then have "holds (put r w) (h @ w)" "window (put r w) = window r"
    using put_holds [of r h w] by simp_all
  then show ?case using Cons.IH [of "put r w" "h @ w"] Cons.prems(2) by simp
qed simp

lemma get_after_puts:
  assumes "holds r []" "length (concat ws) < 2 ^ 64"
  shows "get (foldl put r ws) pos n =
    (if length (concat ws) - window r \<le> pos \<and> pos \<le> length (concat ws)
     then take n (drop pos (concat ws)) else [])"
proof -
  have "holds (foldl put r ws) (concat ws)" "window (foldl put r ws) = window r"
    using puts_hold [of r "[]" ws] assms by simp_all
  then show ?thesis using get_holds by metis
qed

text \<open>A non-empty answer is the run of history bytes that starts at \<open>pos\<close>.\<close>

lemma get_is_history:
  assumes "holds r h" "get r pos n = bs" "bs \<noteq> []"
  shows "bs = seg h pos (length bs)" "pos + length bs \<le> length h"
proof -
  have "bs = take n (drop pos h)" "pos \<le> length h"
    using assms get_holds [of r h pos n] by (auto split: if_splits)
  then show "bs = seg h pos (length bs)" "pos + length bs \<le> length h"
    by (auto simp: seg_def min_def)
qed

end

interpretation ring: byte_history ring_holds ring_write read_at capacity
  using ring_write_holds read_at_holds by unfold_locales auto

lemma capacity_init [simp]: "capacity (ring_init n) = max 4096 n"
  by (simp add: capacity_def ring_init_def Let_def)

text \<open>
  C8.  Whatever the publisher writes, in whatever pieces, a read from the ring
  returns exactly the bytes of the publisher's history at the requested offset
  while that offset is among the last \<open>capacity\<close> ones, and nothing otherwise:
  it never returns overwritten, reordered or stale bytes.
\<close>

theorem ring_read_verbatim:
  assumes "length (concat ws) < 2 ^ 64"
  shows "read_at (foldl ring_write (ring_init cap) ws) pos n =
    (if length (concat ws) - max 4096 cap \<le> pos \<and> pos \<le> length (concat ws)
     then take n (drop pos (concat ws)) else [])"
  using ring.get_after_puts [OF ring_init_holds assms] by simp

theorem ring_read_verbatim_witness:
  "read_at (foldl ring_write (ring_init 1) [[1, 2, 3], [4, 5]]) 1 3 = [2, 3, 4]"
  using ring_read_verbatim [of "[[1, 2, 3], [4, 5]]" 1 1 3] by simp

end
