(* ===== verification/Ts_Scanner.thy ===== *)
theory Ts_Scanner
  imports SP_Prelude
begin

text \<open>
  The MPEG-TS scanner of \<open>src/videots.cpp\<close>: the section CRC, the reassembly of
  PSI sections (class \<open>PSIAssembler\<close>), the confirmation of a random access
  point, the PAT and PMT parsers, the per-packet step and the resynchronising
  feed loop (class \<open>TSScanner\<close>).  Stream offsets and the statistics, 64-bit
  counters bounded by the number of bytes ever fed, are natural numbers.
\<close>

unbundle bit_operations_syntax

section \<open>CRC\<close>

definition crc_shift :: "32 word \<Rightarrow> 32 word" where
  "crc_shift c = (if c AND 0x80000000 \<noteq> 0 then (push_bit 1 c) XOR 0x04C11DB7 else push_bit 1 c)"

definition crc_table :: "byte \<Rightarrow> 32 word" where
  "crc_table i = (crc_shift ^^ 8) (push_bit 24 (ucast i))"

definition crc_step :: "32 word \<Rightarrow> byte \<Rightarrow> 32 word" where
  "crc_step crc d = (push_bit 8 crc) XOR crc_table (ucast (((drop_bit 24 crc) XOR ucast d) AND 0xFF))"

definition ts_crc32 :: "bytes \<Rightarrow> 32 word" where
  "ts_crc32 data = foldl crc_step 0xFFFFFFFF data"

section \<open>PSI sections\<close>

definition TS_PACKET_SIZE :: nat where "TS_PACKET_SIZE = 188"
definition TS_SYNC_BYTE :: byte where "TS_SYNC_BYTE = 0x47"
definition TS_MAX_SECTION :: nat where "TS_MAX_SECTION = 1027"

lemmas ts_consts = TS_PACKET_SIZE_def TS_SYNC_BYTE_def TS_MAX_SECTION_def

record psi_assembler =
  asm_buf :: bytes
  asm_len :: nat
  asm_want :: nat
  asm_active :: bool

definition psi_new :: psi_assembler where
  "psi_new = \<lparr> asm_buf = replicate TS_MAX_SECTION 0, asm_len = 0, asm_want = 0,
               asm_active = False \<rparr>"

definition psi_reset :: "psi_assembler \<Rightarrow> psi_assembler" where
  "psi_reset a = a\<lparr> asm_len := 0, asm_want := 0, asm_active := False \<rparr>"

text \<open>\<open>section_length\<close> is 12 bits and excludes the three bytes before it.\<close>

definition section_want :: "bytes \<Rightarrow> nat" where
  "section_want buf = unat (buf ! 1 AND 0x0F) * 256 + unat (buf ! 2) + 3"

text \<open>
  The part of \<open>PSIAssembler::feed\<close> after the pointer field: append, learn the
  section length, and hand out a complete section that passes its CRC.  The
  result is the assembler, the section, and whether \<open>crc_errors\<close> is incremented.
\<close>

definition psi_complete :: "psi_assembler \<Rightarrow> psi_assembler \<times> bytes option \<times> bool" where
  "psi_complete a =
     (if asm_len a < asm_want a then (a, None, False)
      else
        let seclen = asm_want a;
            a' = a\<lparr> asm_active := False, asm_len := 0, asm_want := 0 \<rparr>
        in if ts_crc32 (take seclen (asm_buf a)) \<noteq> 0 then (a', None, True)
           else (a', Some (take seclen (asm_buf a)), False))"

definition psi_copy :: "psi_assembler \<Rightarrow> bytes \<Rightarrow> psi_assembler" where
  "psi_copy a payload =
     (let space = TS_MAX_SECTION - asm_len a;
          n = (if length payload < space then length payload else space)
      in a\<lparr> asm_buf := overwrite (asm_buf a) (asm_len a) (take n payload),
            asm_len := asm_len a + n \<rparr>)"

definition psi_append :: "psi_assembler \<Rightarrow> bytes \<Rightarrow> psi_assembler \<times> bytes option \<times> bool" where
  "psi_append a payload =
     (if payload = [] then (a, None, False)
      else
        let a1 = psi_copy a payload
        in if asm_want a1 = 0 then
             if asm_len a1 < 3 then (a1, None, False)
             else
               let w = section_want (asm_buf a1);
                   a2 = a1\<lparr> asm_want := w \<rparr>
               in if w > TS_MAX_SECTION \<or> w < 4 then (psi_reset a2, None, False)
                  else psi_complete a2
           else psi_complete a1)"

definition psi_feed :: "psi_assembler \<Rightarrow> bytes \<Rightarrow> bool \<Rightarrow> psi_assembler \<times> bytes option \<times> bool" where
  "psi_feed a payload pusi =
     (if payload = [] then (a, None, False)
      else if pusi then
        let ptr = unat (hd payload) in
        if ptr + 1 > length payload then (psi_reset a, None, False)
        else psi_append (a\<lparr> asm_len := 0, asm_active := True, asm_want := 0 \<rparr>)
               (drop (1 + ptr) payload)
      else if \<not> asm_active a then (a, None, False)
      else psi_append a payload)"

section \<open>Random access points\<close>

definition TS_STREAM_MPEG2_VIDEO :: nat where "TS_STREAM_MPEG2_VIDEO = 0x02"
definition TS_STREAM_AAC_ADTS :: nat where "TS_STREAM_AAC_ADTS = 0x0F"
definition TS_STREAM_AAC_LATM :: nat where "TS_STREAM_AAC_LATM = 0x11"
definition TS_STREAM_H264 :: nat where "TS_STREAM_H264 = 0x1B"
definition TS_STREAM_HEVC :: nat where "TS_STREAM_HEVC = 0x24"

lemmas ts_stream_types = TS_STREAM_MPEG2_VIDEO_def TS_STREAM_AAC_ADTS_def
  TS_STREAM_AAC_LATM_def TS_STREAM_H264_def TS_STREAM_HEVC_def

definition nal_is_random_access :: "nat \<Rightarrow> byte \<Rightarrow> bool" where
  "nal_is_random_access st b =
     (if st = TS_STREAM_H264 then unat (b AND 0x1F) \<in> {9, 7, 8, 5}
      else (let nal = unat ((drop_bit 1 b) AND 0x3F) in
            nal = 35 \<or> (nal \<ge> 32 \<and> nal \<le> 34) \<or> (nal \<ge> 16 \<and> nal \<le> 21)))"

fun annexb_scan :: "nat \<Rightarrow> bytes \<Rightarrow> bool" where
  "annexb_scan st (a # b # c # d # e # rest) =
     ((a = 0 \<and> b = 0 \<and> c = 1 \<and> nal_is_random_access st d)
      \<or> annexb_scan st (b # c # d # e # rest))"
| "annexb_scan st _ = False"

definition ts_payload_is_random_access :: "bytes \<Rightarrow> nat \<Rightarrow> bool" where
  "ts_payload_is_random_access p st =
     (if st \<noteq> TS_STREAM_H264 \<and> st \<noteq> TS_STREAM_HEVC then True else annexb_scan st p)"

definition stream_type_playable :: "nat \<Rightarrow> bool" where
  "stream_type_playable st = (st = TS_STREAM_H264 \<or> st = TS_STREAM_AAC_ADTS \<or> st = TS_STREAM_AAC_LATM)"

section \<open>The scanner\<close>

record ts_stats =
  st_bytes :: nat
  st_packets :: nat
  st_bad_sync :: nat
  st_resyncs :: nat
  st_cc_errors :: nat
  st_pat_seen :: nat
  st_pmt_seen :: nat
  st_rai_seen :: nat
  st_crc_errors :: nat

definition ts_stats_zero :: ts_stats where
  "ts_stats_zero = \<lparr> st_bytes = 0, st_packets = 0, st_bad_sync = 0, st_resyncs = 0,
     st_cc_errors = 0, st_pat_seen = 0, st_pmt_seen = 0, st_rai_seen = 0, st_crc_errors = 0 \<rparr>"

text \<open>
  \<open>ts_partial\<close> is the first \<open>partial_len_\<close> bytes of \<open>partial_\<close>; the continuity
  counters, indexed by the 13-bit PID, are functions.
\<close>

record ts_scanner =
  ts_stats :: ts_stats
  pat_asm :: psi_assembler
  pmt_asm :: psi_assembler
  pmt_pid :: nat
  have_pat :: bool
  have_pmt :: bool
  pat_version :: nat
  pmt_version :: nat
  video_pid :: nat
  video_stream_type :: nat
  last_pat_off :: nat
  last_pmt_off :: nat
  have_pat_off :: bool
  have_pmt_off :: bool
  anchor :: nat
  have_anchor :: bool
  ts_cc :: "nat \<Rightarrow> nat"
  ts_cc_seen :: "nat \<Rightarrow> bool"
  ts_partial :: bytes
  partial_off :: nat
  synced :: bool

definition ts_reset :: "ts_scanner \<Rightarrow> ts_scanner" where
  "ts_reset s = \<lparr> ts_stats = ts_stats_zero, pat_asm = psi_reset (pat_asm s),
     pmt_asm = psi_reset (pmt_asm s), pmt_pid = 0, have_pat = False, have_pmt = False,
     pat_version = 0xFF, pmt_version = 0xFF, video_pid = 0, video_stream_type = 0,
     last_pat_off = 0, last_pmt_off = 0, have_pat_off = False, have_pmt_off = False,
     anchor = 0, have_anchor = False, ts_cc = (\<lambda>_. 0), ts_cc_seen = (\<lambda>_. False),
     ts_partial = [], partial_off = 0, synced = False \<rparr>"

text \<open>A freshly constructed scanner (the default member initialisers).\<close>

definition ts_new :: ts_scanner where
  "ts_new = \<lparr> ts_stats = ts_stats_zero, pat_asm = psi_new, pmt_asm = psi_new, pmt_pid = 0,
     have_pat = False, have_pmt = False, pat_version = 0xFF, pmt_version = 0xFF,
     video_pid = 0, video_stream_type = 0, last_pat_off = 0, last_pmt_off = 0,
     have_pat_off = False, have_pmt_off = False, anchor = 0, have_anchor = False,
     ts_cc = (\<lambda>_. 0), ts_cc_seen = (\<lambda>_. False), ts_partial = [], partial_off = 0,
     synced = False \<rparr>"

text \<open>A 13-bit PID from two bytes, and a 12-bit length from two bytes.\<close>

definition pid13 :: "byte \<Rightarrow> byte \<Rightarrow> nat" where
  "pid13 hi lo = unat (hi AND 0x1F) * 256 + unat lo"

definition len12 :: "byte \<Rightarrow> byte \<Rightarrow> nat" where
  "len12 hi lo = unat (hi AND 0x0F) * 256 + unat lo"

text \<open>The PID of the first program entry with a non-zero program number.\<close>

fun pat_program :: "bytes \<Rightarrow> nat option" where
  "pat_program (a # b # c # d # rest) =
     (if unat a * 256 + unat b \<noteq> 0 then Some (pid13 c d) else pat_program rest)"
| "pat_program _ = None"

definition parse_pat :: "ts_scanner \<Rightarrow> bytes \<Rightarrow> nat \<Rightarrow> ts_scanner" where
  "parse_pat s sec off =
     (if length sec < 12 \<or> sec ! 0 \<noteq> 0 then s
      else
        let version = unat ((drop_bit 1 (sec ! 5)) AND 0x1F);
            current = (sec ! 5 AND 1 \<noteq> 0)
        in if \<not> current then s
           else
             let s1 = s\<lparr> ts_stats := (ts_stats s)\<lparr> st_pat_seen := st_pat_seen (ts_stats s) + 1 \<rparr>,
                         last_pat_off := off, have_pat_off := True \<rparr>
             in if have_pat s1 \<and> version = pat_version s1 then s1
                else
                  let s2 = s1\<lparr> pat_version := version \<rparr>
                  in case pat_program (drop 8 (take (length sec - 4) sec)) of
                       None \<Rightarrow> s2
                     | Some pid \<Rightarrow>
                         let s3 = (if pmt_pid s2 \<noteq> pid
                                   then s2\<lparr> have_pmt := False, pmt_version := 0xFF,
                                            pmt_asm := psi_reset (pmt_asm s2) \<rparr>
                                   else s2)
                         in s3\<lparr> pmt_pid := pid, have_pat := True \<rparr>)"

definition is_video_type :: "nat \<Rightarrow> bool" where
  "is_video_type st = (st = TS_STREAM_H264 \<or> st = TS_STREAM_HEVC \<or> st = TS_STREAM_MPEG2_VIDEO)"

text \<open>The elementary-stream loop of \<open>parse_pmt\<close>: the first video PID and its type.\<close>

function pmt_loop :: "bytes \<Rightarrow> nat \<Rightarrow> nat \<Rightarrow> nat \<times> nat \<Rightarrow> nat \<times> nat" where
  "pmt_loop sec i lim v =
     (if i + 5 \<le> lim then
        let st = unat (sec ! i);
            pid = pid13 (sec ! (i + 1)) (sec ! (i + 2));
            es_len = len12 (sec ! (i + 3)) (sec ! (i + 4));
            v' = (if fst v = 0 \<and> is_video_type st then (pid, st) else v)
        in pmt_loop sec (i + 5 + es_len) lim v'
      else v)"
  by pat_completeness auto
termination by (relation "measure (\<lambda>(sec, i, lim, v). lim - i)") auto

declare pmt_loop.simps [simp del]

definition parse_pmt :: "ts_scanner \<Rightarrow> bytes \<Rightarrow> nat \<Rightarrow> ts_scanner" where
  "parse_pmt s sec off =
     (if length sec < 16 \<or> sec ! 0 \<noteq> 2 then s
      else
        let version = unat ((drop_bit 1 (sec ! 5)) AND 0x1F);
            current = (sec ! 5 AND 1 \<noteq> 0)
        in if \<not> current then s
           else
             let s1 = s\<lparr> ts_stats := (ts_stats s)\<lparr> st_pmt_seen := st_pmt_seen (ts_stats s) + 1 \<rparr>,
                         last_pmt_off := off, have_pmt_off := True \<rparr>
             in if have_pmt s1 \<and> version = pmt_version s1 then s1
                else
                  let s2 = s1\<lparr> pmt_version := version \<rparr>;
                      prog_info_len = len12 (sec ! 10) (sec ! 11);
                      (vpid, vst) = pmt_loop sec (12 + prog_info_len) (length sec - 4) (0, 0)
                  in if vpid \<noteq> 0
                     then s2\<lparr> video_pid := vpid, video_stream_type := vst, have_pmt := True \<rparr>
                     else s2)"

section \<open>One packet\<close>

definition count_cc :: "ts_scanner \<Rightarrow> nat \<Rightarrow> nat \<Rightarrow> ts_scanner" where
  "count_cc s pid cc =
     (let err = ts_cc_seen s pid \<and> cc \<noteq> (ts_cc s pid + 1) mod 16 in
      s\<lparr> ts_stats := (ts_stats s)\<lparr> st_cc_errors := st_cc_errors (ts_stats s) + (if err then 1 else 0) \<rparr>,
         ts_cc := (ts_cc s)(pid := cc), ts_cc_seen := (ts_cc_seen s)(pid := True) \<rparr>)"

definition add_crc_error :: "ts_scanner \<Rightarrow> bool \<Rightarrow> ts_scanner" where
  "add_crc_error s e = s\<lparr> ts_stats := (ts_stats s)\<lparr> st_crc_errors :=
      st_crc_errors (ts_stats s) + (if e then 1 else 0) \<rparr> \<rparr>"

text \<open>The random access branch of \<open>packet\<close>.\<close>

definition note_rai :: "ts_scanner \<Rightarrow> nat \<Rightarrow> ts_scanner" where
  "note_rai s off =
     (let s1 = s\<lparr> ts_stats := (ts_stats s)\<lparr> st_rai_seen := st_rai_seen (ts_stats s) + 1 \<rparr> \<rparr>
      in if have_pat_off s1 \<and> have_pmt_off s1 \<and> last_pat_off s1 \<le> off \<and> last_pmt_off s1 \<le> off
         then s1\<lparr> anchor := (if last_pat_off s1 < last_pmt_off s1 then last_pat_off s1
                                                            else last_pmt_off s1),
                  have_anchor := True \<rparr>
         else s1)"

text \<open>What \<open>packet\<close> does with a payload.\<close>

definition packet_payload :: "ts_scanner \<Rightarrow> nat \<Rightarrow> bool \<Rightarrow> bool \<Rightarrow> bytes \<Rightarrow> nat \<Rightarrow> ts_scanner" where
  "packet_payload s pid pusi rai payload off =
     (if pid = 0 then
        let (a, sec, e) = psi_feed (pat_asm s) payload pusi;
            s1 = add_crc_error (s\<lparr> pat_asm := a \<rparr>) e
        in (case sec of None \<Rightarrow> s1 | Some x \<Rightarrow> parse_pat s1 x off)
      else if have_pat s \<and> pid = pmt_pid s then
        let (a, sec, e) = psi_feed (pmt_asm s) payload pusi;
            s1 = add_crc_error (s\<lparr> pmt_asm := a \<rparr>) e
        in (case sec of None \<Rightarrow> s1 | Some x \<Rightarrow> parse_pmt s1 x off)
      else if have_pmt s \<and> pid = video_pid s \<and> rai
              \<and> (\<not> pusi \<or> ts_payload_is_random_access payload (video_stream_type s))
      then note_rai s off
      else s)"

definition packet :: "ts_scanner \<Rightarrow> bytes \<Rightarrow> nat \<Rightarrow> ts_scanner" where
  "packet s p off =
     (let s0 = s\<lparr> ts_stats := (ts_stats s)\<lparr> st_packets := st_packets (ts_stats s) + 1 \<rparr> \<rparr>
      in if p ! 0 \<noteq> TS_SYNC_BYTE
         then s0\<lparr> ts_stats := (ts_stats s0)\<lparr> st_bad_sync := st_bad_sync (ts_stats s0) + 1 \<rparr>,
                  synced := False \<rparr>
         else
           let pusi = (p ! 1 AND 0x40 \<noteq> 0);
               pid = pid13 (p ! 1) (p ! 2);
               afc = unat ((drop_bit 4 (p ! 3)) AND 3);
               cc = unat (p ! 3 AND 0x0F);
               s1 = (if afc = 0 \<or> afc = 2 then s0 else count_cc s0 pid cc);
               has_af = (afc = 2 \<or> afc = 3);
               af_len = unat (p ! 4);
               rai = (has_af \<and> af_len > 0 \<and> 5 + af_len \<le> TS_PACKET_SIZE \<and> p ! 5 AND 0x40 \<noteq> 0);
               off_in = (if has_af then 5 + af_len else 4)
           in if has_af \<and> off_in > TS_PACKET_SIZE then s1
              else if afc = 0 \<or> afc = 2 \<or> off_in \<ge> TS_PACKET_SIZE then s1
              else packet_payload s1 pid pusi rai (drop off_in p) off)"

section \<open>The feed loop\<close>

text \<open>
  The hunt for a sync byte that is followed by another one a packet later (or
  by the end of the chunk); the result is the number of bytes skipped.
\<close>

fun sync_hunt :: "bytes \<Rightarrow> nat option" where
  "sync_hunt [] = None"
| "sync_hunt (b # bs) =
     (if b = TS_SYNC_BYTE \<and> (TS_PACKET_SIZE \<ge> length (b # bs) \<or> (b # bs) ! TS_PACKET_SIZE = TS_SYNC_BYTE)
      then Some 0 else map_option Suc (sync_hunt bs))"

text \<open>\<open>xs\<close> is what is left of the chunk and \<open>off\<close> its absolute offset.\<close>

definition ts_sync :: "ts_scanner \<Rightarrow> bytes \<Rightarrow> (ts_scanner \<times> nat) option" where
  "ts_sync s xs =
     (if synced s then Some (s, 0)
      else case sync_hunt xs of
             None \<Rightarrow> None
           | Some j \<Rightarrow> Some (s\<lparr> ts_stats := (ts_stats s)\<lparr> st_resyncs := st_resyncs (ts_stats s)
                                  + (if j \<noteq> 0 then 1 else 0) \<rparr>, synced := True \<rparr>, j))"

function ts_loop :: "ts_scanner \<Rightarrow> bytes \<Rightarrow> nat \<Rightarrow> ts_scanner" where
  "ts_loop s xs off =
     (if xs = [] then s
      else case ts_sync s xs of
             None \<Rightarrow> s
           | Some (s1, j) \<Rightarrow>
               if length xs - j < TS_PACKET_SIZE
               then s1\<lparr> ts_partial := drop j xs, partial_off := off + j \<rparr>
               else ts_loop (packet s1 (seg xs j TS_PACKET_SIZE) (off + j))
                      (drop (j + TS_PACKET_SIZE) xs) (off + j + TS_PACKET_SIZE))"
  by pat_completeness auto
termination
  by (relation "measure (\<lambda>(s, xs, off). length xs)") (auto simp: ts_consts)

declare ts_loop.simps [simp del]

definition ts_feed :: "ts_scanner \<Rightarrow> bytes \<Rightarrow> nat \<Rightarrow> ts_scanner" where
  "ts_feed s buf base =
     (let s0 = s\<lparr> ts_stats := (ts_stats s)\<lparr> st_bytes := st_bytes (ts_stats s) + length buf \<rparr> \<rparr>
      in if length (ts_partial s0) > 0 then
           let need = TS_PACKET_SIZE - length (ts_partial s0);
               n = (if length buf < need then length buf else need);
               s1 = s0\<lparr> ts_partial := ts_partial s0 @ take n buf \<rparr>
           in if length (ts_partial s1) < TS_PACKET_SIZE then s1
              else ts_loop ((packet s1 (ts_partial s1) (partial_off s1))\<lparr> ts_partial := [] \<rparr>)
                     (drop n buf) (base + n)
         else ts_loop s0 buf base)"

definition join_offset :: "ts_scanner \<Rightarrow> nat option" where
  "join_offset s = (if \<not> have_anchor s \<or> \<not> have_pmt s then None else Some (anchor s))"

section \<open>The CRC against its bit-serial definition\<close>

text \<open>The reference: shift the byte in from the top, one bit at a time.\<close>

definition crc_bitwise :: "32 word \<Rightarrow> byte \<Rightarrow> 32 word" where
  "crc_bitwise crc d = (crc_shift ^^ 8) (crc XOR push_bit 24 (ucast d))"

lemma top_bit: "(c :: 32 word) AND 0x80000000 \<noteq> 0 \<longleftrightarrow> bit c 31"
proof -
  have "(0x80000000 :: 32 word) = 2 ^ 31" by simp
  then show ?thesis
    by (simp only: and_exp_eq_0_iff_not_bit not_not)
qed

lemma crc_shift_bit: "crc_shift c = push_bit 1 c XOR (if bit c 31 then 0x04C11DB7 else 0)"
  by (simp only: crc_shift_def top_bit) simp

lemma crc_shift_xor: "crc_shift (a XOR b) = crc_shift a XOR crc_shift b"
  by (simp only: crc_shift_bit bit_xor_iff push_bit_xor) (simp add: xor.assoc xor.left_commute)

lemma crc_shifts_xor: "(crc_shift ^^ n) (a XOR b) = (crc_shift ^^ n) a XOR (crc_shift ^^ n) b"
  by (induction n) (simp_all add: crc_shift_xor)

lemma crc_shifts_low:
  assumes "\<And>k. 32 - n \<le> k \<Longrightarrow> k < 32 \<Longrightarrow> \<not> bit c k" "n \<le> 32"
  shows "(crc_shift ^^ n) (c :: 32 word) = push_bit n c"
  using assms
proof (induction n)
  case (Suc n)
  then have IH: "(crc_shift ^^ n) c = push_bit n c" by simp
  have "\<not> bit (push_bit n c) 31" using Suc.prems by (simp add: bit_simps)
  then show ?case
    unfolding funpow.simps comp_apply IH crc_shift_bit [of "push_bit n c"] by simp
qed simp

lemma crc_split:
  "(c :: 32 word) XOR push_bit 24 (ucast (d :: byte)) =
     push_bit 24 (ucast (ucast ((drop_bit 24 c XOR ucast d) AND 0xFF) :: byte)) XOR (c AND 0x00FFFFFF)"
proof -
  have m: "(0xFF :: 32 word) = mask 8" "(0x00FFFFFF :: 32 word) = mask 24" by (simp_all add: mask_eq_exp_minus_1)
  show ?thesis unfolding m
    by (rule bit_word_eqI) (auto simp: bit_simps)
qed

lemma crc_step_bitwise: "crc_step c d = crc_bitwise c d"
proof -
  have m: "(0x00FFFFFF :: 32 word) = mask 24" by (simp add: mask_eq_exp_minus_1)
  have "(crc_shift ^^ 8) (c AND 0x00FFFFFF) = push_bit 8 (c AND 0x00FFFFFF)"
    by (rule crc_shifts_low) (simp_all add: m bit_simps)
  also have "\<dots> = push_bit 8 c"
    unfolding m by (rule bit_word_eqI) (auto simp: bit_simps)
  finally show ?thesis
    unfolding crc_bitwise_def crc_split crc_shifts_xor crc_step_def crc_table_def
    by (simp only: xor.commute)
qed

lemma crc_shifts_0: "(crc_shift ^^ n) 0 = 0"
  by (induction n) (simp_all add: crc_shift_def)

lemma crc_table_0: "crc_table 0 = 0"
  by (simp add: crc_table_def crc_shifts_0)

text \<open>The four CRC bytes that end a section, most significant first.\<close>

definition crc_trailer :: "32 word \<Rightarrow> bytes" where
  "crc_trailer c = [ucast (drop_bit 24 c), ucast (drop_bit 16 c), ucast (drop_bit 8 c), ucast c]"

lemma crc_step_own: "drop_bit 24 c = ucast d \<Longrightarrow> crc_step c d = push_bit 8 c"
  by (simp add: crc_step_def crc_table_0)

lemma crc_residue: "foldl crc_step c (crc_trailer c) = 0"
proof -
  have 1: "crc_step c (ucast (drop_bit 24 c)) = push_bit 8 c"
    by (rule crc_step_own, rule bit_word_eqI) (auto simp: bit_simps dest: bit_imp_le_length)
  have 2: "crc_step (push_bit 8 c) (ucast (drop_bit 16 c)) = push_bit 16 c"
    by (subst crc_step_own, rule bit_word_eqI) (auto simp: bit_simps)
  have 3: "crc_step (push_bit 16 c) (ucast (drop_bit 8 c)) = push_bit 24 c"
    by (subst crc_step_own, rule bit_word_eqI) (auto simp: bit_simps)
  have 4: "crc_step (push_bit 24 c) (ucast c) = push_bit 32 c"
    by (subst crc_step_own, rule bit_word_eqI) (auto simp: bit_simps)
  have "push_bit 32 c = 0" by (rule bit_word_eqI) (auto simp: bit_simps)
  then show ?thesis by (simp add: crc_trailer_def 1 2 3 4)
qed

section \<open>Section reassembly\<close>

definition psi_inv :: "psi_assembler \<Rightarrow> bool" where
  "psi_inv a = (length (asm_buf a) = TS_MAX_SECTION \<and> asm_len a \<le> TS_MAX_SECTION
     \<and> (asm_active a \<longrightarrow> (if asm_want a = 0 then asm_len a < 3
          else 4 \<le> asm_want a \<and> asm_want a \<le> TS_MAX_SECTION \<and> asm_len a < asm_want a)))"

text \<open>A section that is handed out is complete and passes its CRC.\<close>

definition good_section :: "bytes \<Rightarrow> bool" where
  "good_section sec = (4 \<le> length sec \<and> length sec \<le> TS_MAX_SECTION \<and> ts_crc32 sec = 0)"

lemma psi_new_inv [simp]: "psi_inv psi_new"
  by (simp add: psi_inv_def psi_new_def)

lemma psi_reset_inv [simp]: "psi_inv a \<Longrightarrow> psi_inv (psi_reset a)"
  by (simp add: psi_inv_def psi_reset_def)

lemma psi_complete_inv:
  assumes "psi_complete a = (a', sec, e)" "length (asm_buf a) = TS_MAX_SECTION"
    "asm_len a \<le> TS_MAX_SECTION" "4 \<le> asm_want a" "asm_want a \<le> TS_MAX_SECTION"
  shows "psi_inv a' \<and> (\<forall>x. sec = Some x \<longrightarrow> good_section x)"
  using assms by (auto simp: psi_complete_def psi_inv_def good_section_def Let_def split: if_splits)

lemma psi_append_inv:
  assumes r: "psi_append a payload = (a', sec, e)" and inv: "psi_inv a" and act: "asm_active a"
  shows "psi_inv a' \<and> (\<forall>x. sec = Some x \<longrightarrow> good_section x)"
proof (cases "payload = []")
  case False
  define a1 where "a1 = psi_copy a payload"
  have buf: "length (asm_buf a1) = TS_MAX_SECTION" and len: "asm_len a1 \<le> TS_MAX_SECTION"
    and want: "asm_want a1 = asm_want a"
    using inv by (auto simp: a1_def psi_copy_def Let_def psi_inv_def length_overwrite)
  have r': "(if asm_want a1 = 0 then if asm_len a1 < 3 then (a1, None, False)
             else let w = section_want (asm_buf a1); a2 = a1\<lparr> asm_want := w \<rparr>
                  in if w > TS_MAX_SECTION \<or> w < 4 then (psi_reset a2, None, False) else psi_complete a2
           else psi_complete a1) = (a', sec, e)"
    using r False unfolding psi_append_def Let_def a1_def by (simp only: if_False)
  show ?thesis
  proof (cases "asm_want a1 = 0")
    case True
    then show ?thesis
      using r' buf len psi_complete_inv [of "a1\<lparr> asm_want := section_want (asm_buf a1) \<rparr>" a' sec e]
      by (auto simp: Let_def psi_inv_def psi_reset_def not_less split: if_splits)
  next
    case opened: False
    then have "4 \<le> asm_want a1" "asm_want a1 \<le> TS_MAX_SECTION"
      using inv act want by (auto simp: psi_inv_def)
    then show ?thesis using r' opened psi_complete_inv [OF _ buf len] by simp
  qed
qed (use r inv in \<open>simp add: psi_append_def\<close>)

lemma psi_feed_inv:
  assumes "psi_feed a payload pusi = (a', sec, e)" "psi_inv a"
  shows "psi_inv a'" "sec = Some x \<Longrightarrow> good_section x"
proof -
  have start: "psi_inv (a\<lparr> asm_len := 0, asm_active := True, asm_want := 0 \<rparr>)"
    using assms(2) by (simp add: psi_inv_def)
  have "psi_inv a' \<and> (\<forall>x. sec = Some x \<longrightarrow> good_section x)"
    using assms psi_append_inv [OF _ start] psi_append_inv [of a payload a' sec e]
    by (auto simp: psi_feed_def Let_def split: if_splits)
  then show "psi_inv a'" "sec = Some x \<Longrightarrow> good_section x" by blast+
qed

section \<open>What the scanner knows of the stream\<close>

definition ts_packet_at :: "bytes \<Rightarrow> nat \<Rightarrow> bool" where
  "ts_packet_at h off = (off + TS_PACKET_SIZE \<le> length h \<and> h ! off = TS_SYNC_BYTE)"

text \<open>
  The part of the invariant that every packet keeps: assembler bounds, a video
  PID whenever a program is announced, and recorded offsets that are the start
  of a packet already received.
\<close>

definition ts_core :: "ts_scanner \<Rightarrow> bytes \<Rightarrow> bool" where
  "ts_core s h = (psi_inv (pat_asm s) \<and> psi_inv (pmt_asm s)
     \<and> (have_pmt s \<longrightarrow> 0 < video_pid s \<and> video_pid s < 8192)
     \<and> (have_pat_off s \<longrightarrow> ts_packet_at h (last_pat_off s))
     \<and> (have_pmt_off s \<longrightarrow> ts_packet_at h (last_pmt_off s))
     \<and> (have_anchor s \<longrightarrow> ts_packet_at h (anchor s)))"

text \<open>The fields only the feed loop changes.\<close>

definition ts_same :: "ts_scanner \<Rightarrow> ts_scanner \<Rightarrow> bool" where
  "ts_same s s' = (ts_partial s' = ts_partial s \<and> partial_off s' = partial_off s
     \<and> st_bytes (ts_stats s') = st_bytes (ts_stats s)
     \<and> st_packets (ts_stats s') = st_packets (ts_stats s) \<and> synced s' = synced s)"

lemma ts_core_mono: "ts_core s h \<Longrightarrow> ts_core s (h @ xs)"
  by (auto simp: ts_core_def ts_packet_at_def nth_append ts_consts)

lemma pid13_less: "pid13 a b < 8192"
proof -
  have "unat a mod 32 < 32" "unat b < 256" by simp_all
  then show ?thesis unfolding pid13_def unat_byte_and by linarith
qed

lemma parse_pat_core:
  "ts_core s h \<Longrightarrow> ts_packet_at h off \<Longrightarrow> ts_core (parse_pat s sec off) h \<and> ts_same s (parse_pat s sec off)"
  by (simp add: parse_pat_def Let_def ts_core_def ts_same_def split: option.split)

lemma pmt_loop_pid:
  "fst v < 8192 \<Longrightarrow> fst (pmt_loop sec i lim v) < 8192"
proof (induction sec i lim v rule: pmt_loop.induct)
  case (1 sec i lim v)
  then show ?case
    by (subst pmt_loop.simps) (auto simp: Let_def pid13_less)
qed

lemma parse_pmt_core:
  assumes "ts_core s h" "ts_packet_at h off"
  shows "ts_core (parse_pmt s sec off) h \<and> ts_same s (parse_pmt s sec off)"
proof -
  obtain vpid vst where v: "pmt_loop sec (12 + len12 (sec ! 10) (sec ! 11)) (length sec - 4) (0, 0) = (vpid, vst)"
    by force
  then have "vpid < 8192" using pmt_loop_pid [of "(0, 0)" sec] by (metis fst_conv zero_less_numeral)
  then show ?thesis
    using assms by (simp add: parse_pmt_def Let_def v ts_core_def ts_same_def)
qed

lemma note_rai_core:
  "ts_core s h \<Longrightarrow> ts_core (note_rai s off) h \<and> ts_same s (note_rai s off)"
  by (simp add: note_rai_def Let_def ts_core_def ts_same_def)

lemma packet_payload_core:
  assumes "ts_core s h" "ts_packet_at h off"
  shows "ts_core (packet_payload s pid pusi rai payload off) h
         \<and> ts_same s (packet_payload s pid pusi rai payload off)"
proof -
  obtain a sec e where 1: "psi_feed (pat_asm s) payload pusi = (a, sec, e)" by (cases "psi_feed (pat_asm s) payload pusi")
  obtain a2 sec2 e2 where 2: "psi_feed (pmt_asm s) payload pusi = (a2, sec2, e2)" by (cases "psi_feed (pmt_asm s) payload pusi")
  have "psi_inv a" "psi_inv a2"
    using assms psi_feed_inv(1) [OF 1] psi_feed_inv(1) [OF 2] by (auto simp: ts_core_def)
  then have c: "ts_core (add_crc_error (s\<lparr> pat_asm := a \<rparr>) e) h" "ts_same s (add_crc_error (s\<lparr> pat_asm := a \<rparr>) e)"
    "ts_core (add_crc_error (s\<lparr> pmt_asm := a2 \<rparr>) e2) h" "ts_same s (add_crc_error (s\<lparr> pmt_asm := a2 \<rparr>) e2)"
    using assms by (simp_all add: ts_core_def ts_same_def add_crc_error_def)
  have tr: "ts_same x y \<Longrightarrow> ts_same y z \<Longrightarrow> ts_same x z" for x y z by (simp add: ts_same_def)
  have refl: "ts_same s s" by (simp add: ts_same_def)
  show ?thesis
    unfolding packet_payload_def 1 2 Let_def prod.case
    using c parse_pat_core [OF c(1) assms(2)] parse_pmt_core [OF c(3) assms(2)]
      note_rai_core [OF assms(1)] assms(1) refl
    by (auto split: option.split intro: tr)
qed

lemma ts_same_fields:
  "ts_same s s' \<Longrightarrow> ts_partial s' = ts_partial s" "ts_same s s' \<Longrightarrow> partial_off s' = partial_off s"
  "ts_same s s' \<Longrightarrow> st_bytes (ts_stats s') = st_bytes (ts_stats s)"
  "ts_same s s' \<Longrightarrow> st_packets (ts_stats s') = st_packets (ts_stats s)"
  "ts_same s s' \<Longrightarrow> synced s' = synced s"
  by (simp_all add: ts_same_def)

text \<open>A payload never touches the fields of the feed loop.\<close>

lemma packet_payload_same: "ts_same s (packet_payload s pid pusi rai payload off)"
proof -
  have rai: "ts_same s (note_rai s off)"
    by (simp add: note_rai_def Let_def ts_same_def)
  have pat: "ts_same s (parse_pat (add_crc_error (s\<lparr> pat_asm := a \<rparr>) e) sec off)" for a e sec
    by (simp add: parse_pat_def add_crc_error_def Let_def ts_same_def split: option.split)
  have pmt: "ts_same s (parse_pmt (add_crc_error (s\<lparr> pmt_asm := a \<rparr>) e) sec off)" for a e sec
    by (simp add: parse_pmt_def add_crc_error_def Let_def ts_same_def split: prod.split)
  have err: "ts_same s (add_crc_error (s\<lparr> pat_asm := a \<rparr>) e)"
    "ts_same s (add_crc_error (s\<lparr> pmt_asm := a \<rparr>) e)" "ts_same s s" for a e
    by (simp_all add: add_crc_error_def ts_same_def)
  obtain a sec e where 1: "psi_feed (pat_asm s) payload pusi = (a, sec, e)" by (cases "psi_feed (pat_asm s) payload pusi")
  obtain a2 sec2 e2 where 2: "psi_feed (pmt_asm s) payload pusi = (a2, sec2, e2)" by (cases "psi_feed (pmt_asm s) payload pusi")
  show ?thesis
    unfolding packet_payload_def 1 2 Let_def prod.case
    using rai pat pmt err by (simp split: option.split)
qed

lemmas payload_frame = ts_same_fields [OF packet_payload_same]

lemma packet_frame:
  "ts_partial (packet s p off) = ts_partial s" "partial_off (packet s p off) = partial_off s"
  "st_bytes (ts_stats (packet s p off)) = st_bytes (ts_stats s)"
  "st_packets (ts_stats (packet s p off)) = Suc (st_packets (ts_stats s))"
  "p ! 0 = TS_SYNC_BYTE \<Longrightarrow> synced (packet s p off) = synced s"
  by (simp_all add: packet_def Let_def payload_frame count_cc_def)

lemma packet_core:
  assumes "ts_core s h" "off + TS_PACKET_SIZE \<le> length h"
  shows "ts_core (packet s (seg h off TS_PACKET_SIZE) off) h"
    and "ts_partial (packet s p off) = ts_partial s"
    and "partial_off (packet s p off) = partial_off s"
    and "st_bytes (ts_stats (packet s p off)) = st_bytes (ts_stats s)"
    and "st_packets (ts_stats (packet s p off)) = Suc (st_packets (ts_stats s))"
    and "p ! 0 = TS_SYNC_BYTE \<Longrightarrow> synced (packet s p off) = synced s"
proof -
  let ?p = "seg h off TS_PACKET_SIZE"
  let ?s0 = "s\<lparr> ts_stats := (ts_stats s)\<lparr> st_packets := st_packets (ts_stats s) + 1 \<rparr> \<rparr>"
  have c0: "ts_core ?s0 h" using assms(1) by (simp add: ts_core_def)
  then have cc: "ts_core (count_cc ?s0 pid cc) h" for pid cc
    by (simp add: ts_core_def count_cc_def Let_def)
  have p0: "?p ! 0 = h ! off" using assms(2) by (simp add: nth_seg ts_consts)
  show "ts_core (packet s ?p off) h"
  proof (cases "?p ! 0 = TS_SYNC_BYTE")
    case True
    then have "ts_packet_at h off" using assms(2) p0 by (simp add: ts_packet_at_def)
    note pp = packet_payload_core [OF c0 this] packet_payload_core [OF cc this]
    show ?thesis using True c0 cc pp by (simp add: packet_def Let_def)
  next
    case False
    then show ?thesis using c0 by (simp add: packet_def Let_def ts_core_def)
  qed
  show "ts_partial (packet s p off) = ts_partial s" "partial_off (packet s p off) = partial_off s"
    "st_bytes (ts_stats (packet s p off)) = st_bytes (ts_stats s)"
    "st_packets (ts_stats (packet s p off)) = Suc (st_packets (ts_stats s))"
    "p ! 0 = TS_SYNC_BYTE \<Longrightarrow> synced (packet s p off) = synced s"
    by (simp_all add: packet_frame)
qed

lemma sync_hunt_less: "sync_hunt xs = Some j \<Longrightarrow> j < length xs \<and> xs ! j = TS_SYNC_BYTE"
  by (induction xs arbitrary: j) (auto split: if_splits)

lemma ts_sync_core:
  assumes "ts_sync s xs = Some (s1, j)" "xs \<noteq> []"
  shows "j < length xs" "ts_core s h \<Longrightarrow> ts_core s1 h" "ts_partial s1 = ts_partial s"
    "st_bytes (ts_stats s1) = st_bytes (ts_stats s)"
    "st_packets (ts_stats s1) = st_packets (ts_stats s)"
  using assms sync_hunt_less [of xs j]
  by (auto simp: ts_sync_def ts_core_def split: if_splits option.splits)

definition ts_scanned :: "ts_scanner \<Rightarrow> bytes \<Rightarrow> bool" where
  "ts_scanned s h = (ts_core s h \<and> st_bytes (ts_stats s) = length h
     \<and> length (ts_partial s) < TS_PACKET_SIZE
     \<and> (ts_partial s = [] \<longrightarrow> st_packets (ts_stats s) * TS_PACKET_SIZE \<le> length h)
     \<and> (ts_partial s \<noteq> [] \<longrightarrow> partial_off s + length (ts_partial s) = length h
          \<and> ts_partial s = drop (partial_off s) h
          \<and> st_packets (ts_stats s) * TS_PACKET_SIZE \<le> partial_off s))"

lemma ts_loop_scanned:
  assumes "ts_core s h" "st_bytes (ts_stats s) = length h" "ts_partial s = []"
    "st_packets (ts_stats s) * TS_PACKET_SIZE \<le> off" "off \<le> length h"
  shows "ts_scanned (ts_loop s (drop off h) off) h"
  using assms
proof (induction s "drop off h" off rule: ts_loop.induct)
  case (1 s off)
  show ?case
  proof (cases "drop off h = [] \<or> ts_sync s (drop off h) = None")
    case True
    then show ?thesis
      using "1.prems" by (subst ts_loop.simps) (auto simp: ts_scanned_def ts_consts)
  next
    case False
    then obtain s1 j where j: "ts_sync s (drop off h) = Some (s1, j)" by auto
    note S = ts_sync_core [OF j]
    have ne: "drop off h \<noteq> []" using False by simp
    show ?thesis
    proof (cases "length (drop off h) - j < TS_PACKET_SIZE")
      case True
      have "ts_loop s (drop off h) off = s1\<lparr> ts_partial := drop j (drop off h), partial_off := off + j \<rparr>"
        using True ne j by (subst ts_loop.simps) simp
      then show ?thesis
        using True "1.prems" S [OF ne] by (auto simp: ts_scanned_def ts_core_def add.commute)
    next
      case full: False
      have room: "off + j + TS_PACKET_SIZE \<le> length h" using full by (auto simp: not_less ts_consts)
      have pk: "seg (drop off h) j TS_PACKET_SIZE = seg h (off + j) TS_PACKET_SIZE"
        by (simp add: seg_def add.commute)
      have rest: "drop (j + TS_PACKET_SIZE) (drop off h) = drop (off + j + TS_PACKET_SIZE) h"
        by (simp add: add_ac)
      have step: "ts_loop s (drop off h) off = ts_loop (packet s1 (seg h (off + j) TS_PACKET_SIZE) (off + j))
           (drop (off + j + TS_PACKET_SIZE) h) (off + j + TS_PACKET_SIZE)"
        using ne full j by (subst ts_loop.simps) (simp only: pk rest if_False option.case prod.case)
      note P = packet_core [OF S(2) [OF ne] room, OF "1.prems"(1)]
      show ?thesis
        unfolding step
      proof (rule "1.hyps" [OF ne j refl, unfolded pk rest])
        show "\<not> length (drop off h) - j < TS_PACKET_SIZE" by (rule full)
      qed (use P S [OF ne] "1.prems" room in simp_all)
    qed
  qed
qed

lemma ts_feed_scanned:
  assumes sc: "ts_scanned s h"
  shows "ts_scanned (ts_feed s xs (length h)) (h @ xs)"
proof -
  let ?H = "h @ xs"
  let ?s0 = "s\<lparr> ts_stats := (ts_stats s)\<lparr> st_bytes := st_bytes (ts_stats s) + length xs \<rparr> \<rparr>"
  have core: "ts_core ?s0 ?H" using ts_core_mono [of s h xs] sc by (simp add: ts_scanned_def ts_core_def)
  show ?thesis
  proof (cases "ts_partial s = []")
    case True
    then have "ts_feed s xs (length h) = ts_loop ?s0 (drop (length h) ?H) (length h)"
      by (simp add: ts_feed_def Let_def)
    then show ?thesis
      using ts_loop_scanned [OF core, of "length h"] True sc by (simp add: ts_scanned_def)
  next
    case False
    let ?part = "ts_partial s" and ?o = "partial_off s"
    let ?n = "min (length xs) (TS_PACKET_SIZE - length ?part)"
    let ?s1 = "?s0\<lparr> ts_partial := ?part @ take ?n xs \<rparr>"
    have P: "?o + length ?part = length h" "?part = drop ?o h" "length ?part < TS_PACKET_SIZE"
      "st_packets (ts_stats s) * TS_PACKET_SIZE \<le> ?o"
      using sc False by (auto simp: ts_scanned_def)
    have c1: "ts_core ?s1 ?H" using core by (simp add: ts_core_def)
    have feed: "ts_feed s xs (length h) =
        (if length ?part + ?n < TS_PACKET_SIZE then ?s1
         else ts_loop ((packet ?s1 (?part @ take ?n xs) ?o)\<lparr> ts_partial := [] \<rparr>)
                (drop ?n xs) (length h + ?n))"
      using False by (simp add: ts_feed_def Let_def min_def)
    show ?thesis
    proof (cases "length ?part + ?n < TS_PACKET_SIZE")
      case True
      then have n: "?n = length xs" by linarith
      have "?part @ xs = drop ?o ?H" using P by simp
      then show ?thesis
        using True P c1 sc feed n by (simp add: ts_scanned_def ts_core_def False)
    next
      case full: False
      then have n: "?n = TS_PACKET_SIZE - length ?part" "length ?part + ?n = TS_PACKET_SIZE"
        using P(3) by linarith+
      then have room: "?o + TS_PACKET_SIZE \<le> length ?H" using P(1) by simp
      have "seg ?H ?o TS_PACKET_SIZE = ?part @ take ?n xs"
        using P n by (simp add: seg_def)
      note pk = packet_core [OF c1 room, unfolded this]
      let ?s2 = "(packet ?s1 (?part @ take ?n xs) ?o)\<lparr> ts_partial := [] \<rparr>"
      have "ts_core ?s2 ?H" using pk(1) by (simp add: ts_core_def)
      moreover have "length h + ?n = ?o + TS_PACKET_SIZE" using P(1) n by linarith
      moreover have "drop ?n xs = drop (length h + ?n) ?H" by simp
      ultimately show ?thesis
        using ts_loop_scanned [of ?s2 ?H "length h + ?n"] feed full pk(2-5) P sc room
        by (simp add: ts_scanned_def)
    qed
  qed
qed

text \<open>The scanner over a sequence of chunks, each at its absolute offset.\<close>

fun ts_feeds :: "ts_scanner \<Rightarrow> nat \<Rightarrow> bytes list \<Rightarrow> ts_scanner" where
  "ts_feeds s base [] = s"
| "ts_feeds s base (w # ws) = ts_feeds (ts_feed s w base) (base + length w) ws"

lemma ts_feeds_scanned:
  "ts_scanned s h \<Longrightarrow> ts_scanned (ts_feeds s (length h) ws) (h @ concat ws)"
proof (induction ws arbitrary: s h)
  case (Cons w ws)
  from Cons.IH [OF ts_feed_scanned [OF Cons.prems, of w]] show ?case by simp
qed simp

lemma ts_new_scanned: "ts_scanned ts_new []"
  by (simp add: ts_scanned_def ts_new_def ts_core_def ts_stats_zero_def ts_consts)

lemma ts_reset_scanned: "ts_scanned s h \<Longrightarrow> ts_scanned (ts_reset s) []"
  by (simp add: ts_scanned_def ts_reset_def ts_core_def ts_stats_zero_def ts_consts)

section \<open>Independence of the chunk boundaries\<close>

text \<open>
  \<open>ts_set\<close> overwrites exactly the fields of the feed loop; a packet with a
  correct sync byte neither reads nor changes them.
\<close>

definition ts_set :: "nat \<Rightarrow> nat \<Rightarrow> bytes \<Rightarrow> bool \<Rightarrow> ts_scanner \<Rightarrow> ts_scanner" where
  "ts_set b po pa y s = s\<lparr> ts_stats := (ts_stats s)\<lparr> st_bytes := b \<rparr>,
     ts_partial := pa, partial_off := po, synced := y \<rparr>"

lemma ts_set_fields [simp]:
  "pat_asm (ts_set b po pa y s) = pat_asm s" "pmt_asm (ts_set b po pa y s) = pmt_asm s"
  "have_pat (ts_set b po pa y s) = have_pat s" "have_pmt (ts_set b po pa y s) = have_pmt s"
  "pmt_pid (ts_set b po pa y s) = pmt_pid s" "video_pid (ts_set b po pa y s) = video_pid s"
  "video_stream_type (ts_set b po pa y s) = video_stream_type s"
  "ts_partial (ts_set b po pa y s) = pa" "partial_off (ts_set b po pa y s) = po"
  "synced (ts_set b po pa y s) = y" "st_bytes (ts_stats (ts_set b po pa y s)) = b"
  by (simp_all add: ts_set_def)

lemma ts_set_set [simp]: "ts_set b po pa y (ts_set b' po' pa' y' s) = ts_set b po pa y s"
  by (simp add: ts_set_def)

lemma parse_pat_set:
  "parse_pat (ts_set b po pa y s) sec off = ts_set b po pa y (parse_pat s sec off)"
  by (simp add: parse_pat_def Let_def ts_set_def split: option.split)

lemma parse_pmt_set:
  "parse_pmt (ts_set b po pa y s) sec off = ts_set b po pa y (parse_pmt s sec off)"
  by (simp add: parse_pmt_def Let_def ts_set_def split: prod.split)

lemma note_rai_set: "note_rai (ts_set b po pa y s) off = ts_set b po pa y (note_rai s off)"
  by (simp add: note_rai_def Let_def ts_set_def)

lemma count_cc_set: "count_cc (ts_set b po pa y s) pid cc = ts_set b po pa y (count_cc s pid cc)"
  by (simp add: count_cc_def Let_def ts_set_def)

lemma add_crc_error_set:
  "add_crc_error ((ts_set b po pa y s)\<lparr> pat_asm := a \<rparr>) e = ts_set b po pa y (add_crc_error (s\<lparr> pat_asm := a \<rparr>) e)"
  "add_crc_error ((ts_set b po pa y s)\<lparr> pmt_asm := a \<rparr>) e = ts_set b po pa y (add_crc_error (s\<lparr> pmt_asm := a \<rparr>) e)"
  by (simp_all add: add_crc_error_def ts_set_def)

lemma packet_payload_set:
  "packet_payload (ts_set b po pa y s) pid pusi rai payload off
     = ts_set b po pa y (packet_payload s pid pusi rai payload off)"
proof -
  obtain a sec e where 1: "psi_feed (pat_asm s) payload pusi = (a, sec, e)" by (cases "psi_feed (pat_asm s) payload pusi")
  obtain a2 sec2 e2 where 2: "psi_feed (pmt_asm s) payload pusi = (a2, sec2, e2)" by (cases "psi_feed (pmt_asm s) payload pusi")
  show ?thesis
    unfolding packet_payload_def ts_set_fields 1 2 Let_def prod.case
    by (auto simp: add_crc_error_set parse_pat_set parse_pmt_set note_rai_set split: option.split)
qed

lemma packet_set:
  assumes "p ! 0 = TS_SYNC_BYTE"
  shows "packet (ts_set b po pa y s) p off = ts_set b po pa y (packet s p off)"
proof -
  let ?up = "\<lambda>s. s\<lparr> ts_stats := (ts_stats s)\<lparr> st_packets := st_packets (ts_stats s) + 1 \<rparr> \<rparr>"
  have "?up (ts_set b po pa y s) = ts_set b po pa y (?up s)" by (simp add: ts_set_def)
  then show ?thesis
    using assms unfolding packet_def Let_def
    by (simp only: count_cc_set packet_payload_set if_distrib [of "ts_set b po pa y"]
        if_distrib [of "\<lambda>s. packet_payload s _ _ _ _ _"]) simp
qed

text \<open>Every packet boundary carries a sync byte.\<close>

definition ts_aligned :: "bytes \<Rightarrow> bool" where
  "ts_aligned h = (\<forall>i. i * TS_PACKET_SIZE < length h \<longrightarrow> h ! (i * TS_PACKET_SIZE) = TS_SYNC_BYTE)"

text \<open>The reference: the packets of \<open>h\<close>, one after the other.\<close>

fun ts_run :: "bytes \<Rightarrow> nat \<Rightarrow> ts_scanner" where
  "ts_run h 0 = ts_new"
| "ts_run h (Suc k) = packet (ts_run h k) (seg h (k * TS_PACKET_SIZE) TS_PACKET_SIZE) (k * TS_PACKET_SIZE)"

lemma ts_run_append:
  "k * TS_PACKET_SIZE \<le> length h \<Longrightarrow> ts_run (h @ xs) k = ts_run h k"
  by (induction k) (simp_all add: seg_def)

definition ts_canon :: "ts_scanner \<Rightarrow> bytes \<Rightarrow> bool" where
  "ts_canon s h = (let k = length h div TS_PACKET_SIZE; pa = drop (k * TS_PACKET_SIZE) h in
     \<exists>po. s = ts_set (length h) po pa (h \<noteq> []) (ts_run h k) \<and> (pa \<noteq> [] \<longrightarrow> po = k * TS_PACKET_SIZE))"

lemma ts_aligned_hunt:
  assumes "ts_aligned h" "m * TS_PACKET_SIZE < length h"
  shows "sync_hunt (drop (m * TS_PACKET_SIZE) h) = Some 0"
proof -
  let ?xs = "drop (m * TS_PACKET_SIZE) h"
  obtain b bs where xs: "?xs = b # bs" using assms(2) by (cases ?xs) auto
  have 0: "?xs ! 0 = TS_SYNC_BYTE" using assms by (simp add: ts_aligned_def)
  have "?xs ! TS_PACKET_SIZE = TS_SYNC_BYTE" if "TS_PACKET_SIZE < length ?xs"
  proof -
    have "Suc m * TS_PACKET_SIZE < length h" using that by simp
    then have "h ! (Suc m * TS_PACKET_SIZE) = TS_SYNC_BYTE" using assms(1) unfolding ts_aligned_def by blast
    then show ?thesis using assms(2) by (simp add: add.commute)
  qed
  then show ?thesis using 0 unfolding xs by (auto simp: not_le)
qed

lemma ts_loop_aligned:
  assumes "ts_aligned h" "m * TS_PACKET_SIZE \<le> length h"
  shows "\<exists>po. ts_loop (ts_set b p0 [] y (ts_run h m)) (drop (m * TS_PACKET_SIZE) h) (m * TS_PACKET_SIZE)
      = ts_set b po (drop (length h div TS_PACKET_SIZE * TS_PACKET_SIZE) h)
          (y \<or> m * TS_PACKET_SIZE < length h) (ts_run h (length h div TS_PACKET_SIZE))
    \<and> (drop (length h div TS_PACKET_SIZE * TS_PACKET_SIZE) h \<noteq> [] \<longrightarrow>
         po = length h div TS_PACKET_SIZE * TS_PACKET_SIZE)"
  using assms(2)
proof (induction "length h - m * TS_PACKET_SIZE" arbitrary: m y p0 rule: less_induct)
  case less
  let ?P = TS_PACKET_SIZE and ?off = "m * TS_PACKET_SIZE" and ?s = "ts_set b p0 [] y (ts_run h m)"
  have P: "?P > 0" by (simp add: ts_consts)
  show ?case
  proof (cases "?off = length h")
    case True
    then have "length h div ?P = m" using P by (metis nonzero_mult_div_cancel_right less_not_refl)
    then show ?thesis using True by (subst ts_loop.simps) auto
  next
    case False
    then have lt: "?off < length h" using less.prems by simp
    have sync: "ts_sync ?s (drop ?off h) = Some (ts_set b p0 [] True (ts_run h m), 0)"
      using ts_aligned_hunt [OF assms(1) lt] by (auto simp: ts_sync_def) (simp_all add: ts_set_def)
    show ?thesis
    proof (cases "length h - ?off < ?P")
      case True
      then have "length h div ?P = m"
        using lt P by (intro div_nat_eqI) (auto simp: algebra_simps)
      then show ?thesis
        using True lt sync by (subst ts_loop.simps) (auto simp: ts_set_def)
    next
      case full: False
      have nx: "Suc m * ?P \<le> length h" using full lt by simp
      have p0: "seg h ?off ?P ! 0 = TS_SYNC_BYTE"
        using assms(1) lt P nx by (simp add: nth_seg ts_aligned_def)
      have step: "ts_loop ?s (drop ?off h) ?off
          = ts_loop (ts_set b p0 [] True (ts_run h (Suc m))) (drop (Suc m * ?P) h) (Suc m * ?P)"
        using lt full sync p0 by (subst ts_loop.simps) (simp add: packet_set seg_def add.commute)
      have "length h - Suc m * ?P < length h - ?off" using lt P by simp
      from less.hyps [OF this nx, of p0 True] show ?thesis
        unfolding step using lt by simp
    qed
  qed
qed

lemma ts_feed_canon:
  assumes c: "ts_canon s h" and al: "ts_aligned (h @ xs)"
  shows "ts_canon (ts_feed s xs (length h)) (h @ xs)"
proof -
  let ?P = TS_PACKET_SIZE and ?H = "h @ xs"
  define k where "k = length h div ?P"
  define pa where "pa = drop (k * ?P) h"
  have P: "?P > 0" by (simp add: ts_consts)
  have kh: "k * ?P \<le> length h" by (simp add: k_def)
  have pa_len: "length pa = length h mod ?P" "length h = k * ?P + length pa"
    by (simp_all add: pa_def k_def minus_div_mult_eq_mod)
  obtain po where s: "s = ts_set (length h) po pa (h \<noteq> []) (ts_run ?H k)" "pa \<noteq> [] \<Longrightarrow> po = k * ?P"
    using c ts_run_append [OF kh] by (auto simp: ts_canon_def Let_def k_def pa_def)
  define s0 where "s0 = ts_set (length ?H) po pa (h \<noteq> []) (ts_run ?H k)"
  have s0: "s\<lparr> ts_stats := (ts_stats s)\<lparr> st_bytes := st_bytes (ts_stats s) + length xs \<rparr> \<rparr> = s0"
    by (simp add: s s0_def ts_set_def)
  note L = ts_loop_aligned [OF al]
  show ?thesis
  proof (cases "pa = []")
    case True
    then have off: "length h = k * ?P" using pa_len by simp
    have feed: "ts_feed s xs (length h) = ts_loop s0 (drop (k * ?P) ?H) (k * ?P)"
      using True s0 off by (simp add: ts_feed_def Let_def s0_def)
    have y: "(h \<noteq> [] \<or> k * ?P < length ?H) = (?H \<noteq> [])" unfolding off [symmetric] by auto
    have "k * ?P \<le> length ?H" using kh by simp
    from L [OF this, of "length ?H" po "h \<noteq> []", unfolded y] show ?thesis
      unfolding ts_canon_def Let_def feed s0_def True .
  next
    case False
    then have hne: "h \<noteq> []" by (auto simp: pa_def)
    let ?n = "min (length xs) (?P - length pa)"
    let ?s1 = "s0\<lparr> ts_partial := pa @ take ?n xs \<rparr>"
    have s1: "?s1 = ts_set (length ?H) (k * ?P) (pa @ take ?n xs) True (ts_run ?H k)"
      using s(2) [OF False] hne by (simp add: s0_def ts_set_def)
    have feed: "ts_feed s xs (length h) =
        (if length pa + ?n < ?P then ?s1
         else ts_loop ((packet ?s1 (pa @ take ?n xs) (k * ?P))\<lparr> ts_partial := [] \<rparr>)
                (drop ?n xs) (length h + ?n))"
      using False s0 s(2) by (simp add: ts_feed_def Let_def min_def s0_def)
    have drops: "drop (k * ?P) ?H = pa @ xs" using kh by (simp add: pa_def)
    show ?thesis
    proof (cases "length pa + ?n < ?P")
      case True
      then have n: "?n = length xs" by linarith
      have "length ?H div ?P = k"
        using True n pa_len(2) by (intro div_nat_eqI) (auto simp: algebra_simps)
      moreover have "ts_feed s xs (length h) = ts_set (length ?H) (k * ?P) (pa @ xs) True (ts_run ?H k)"
        using True feed s1 n by simp
      ultimately show ?thesis
        unfolding ts_canon_def Let_def using drops hne by auto
    next
      case full: False
      then have n: "?n = ?P - length pa" "length pa + ?n = ?P"
        using mod_less_divisor [OF P, of "length h"] pa_len(1) by linarith+
      have nx: "length h + ?n = Suc k * ?P" "Suc k * ?P \<le> length ?H" using n pa_len(2) by simp_all
      have p: "pa @ take ?n xs = seg ?H (k * ?P) ?P" using n drops by (simp add: seg_def)
      have "?H ! (k * ?P) = TS_SYNC_BYTE" using al nx P by (simp add: ts_aligned_def)
      then have p0: "seg ?H (k * ?P) ?P ! 0 = TS_SYNC_BYTE" using nx P by (simp add: nth_seg)
      have "(packet ?s1 (pa @ take ?n xs) (k * ?P))\<lparr> ts_partial := [] \<rparr>
          = ts_set (length ?H) (k * ?P) [] True (ts_run ?H (Suc k))"
        unfolding s1 unfolding p packet_set [OF p0] by (simp add: ts_set_def)
      moreover have "drop ?n xs = drop (Suc k * ?P) ?H"
        unfolding nx(1) [symmetric] by simp
      ultimately show ?thesis
        using L [OF nx(2), of "length ?H" "k * ?P" True] feed full nx(1) hne
        by (simp add: ts_canon_def Let_def)
    qed
  qed
qed

lemma ts_feeds_canon:
  "ts_canon s h \<Longrightarrow> ts_aligned (h @ concat ws) \<Longrightarrow> ts_canon (ts_feeds s (length h) ws) (h @ concat ws)"
proof (induction ws arbitrary: s h)
  case (Cons w ws)
  have "ts_aligned (h @ w)"
    unfolding ts_aligned_def
  proof (intro allI impI)
    fix i assume "i * TS_PACKET_SIZE < length (h @ w)"
    then show "(h @ w) ! (i * TS_PACKET_SIZE) = TS_SYNC_BYTE"
      using Cons.prems(2) by (auto simp: ts_aligned_def nth_append split: if_splits)
  qed
  from Cons.IH [OF ts_feed_canon [OF Cons.prems(1) this]] Cons.prems(2) show ?case by simp
qed simp

lemma ts_new_canon: "ts_canon ts_new []"
  by (simp add: ts_canon_def ts_set_def ts_new_def ts_stats_zero_def)

lemma ts_canon_unique:
  "ts_canon s h \<Longrightarrow> ts_canon s' h \<Longrightarrow> s\<lparr> partial_off := 0 \<rparr> = s'\<lparr> partial_off := 0 \<rparr>"
  by (auto simp: ts_canon_def Let_def ts_set_def)

section \<open>What a stream's consumers rely on\<close>

text \<open>
  The contract between a scanner and the code that starts viewers: \<open>knows s h\<close>
  relates the scanner to the bytes it was fed, and a join offset it reports is
  an offset of those bytes at which a viewer may start.
\<close>

locale join_scanner =
  fixes knows :: "'s \<Rightarrow> bytes \<Rightarrow> bool"
    and observe :: "'s \<Rightarrow> bytes \<Rightarrow> nat \<Rightarrow> 's"
    and join :: "'s \<Rightarrow> nat option"
    and startable :: "bytes \<Rightarrow> nat \<Rightarrow> bool"
  assumes observe_knows: "knows s h \<Longrightarrow> knows (observe s xs (length h)) (h @ xs)"
    and join_startable: "knows s h \<Longrightarrow> join s = Some a \<Longrightarrow> a < length h \<and> startable h a"
begin

primrec observes :: "'s \<Rightarrow> nat \<Rightarrow> bytes list \<Rightarrow> 's" where
  "observes s base [] = s"
| "observes s base (w # ws) = observes (observe s w base) (base + length w) ws"

lemma observes_knows: "knows s h \<Longrightarrow> knows (observes s (length h) ws) (h @ concat ws)"
proof (induction ws arbitrary: s h)
  case (Cons w ws)
  from Cons.IH [OF observe_knows [OF Cons.prems, of w]] show ?case by simp
qed simp

lemma observes_join:
  assumes "knows s []" "join (observes s 0 ws) = Some a"
  shows "a < length (concat ws) \<and> startable (concat ws) a"
  using join_startable [OF observes_knows [OF assms(1), of ws]] assms(2) by simp

end

lemma ts_join_startable:
  "ts_scanned s h \<Longrightarrow> join_offset s = Some a \<Longrightarrow> a < length h \<and> ts_packet_at h a"
  by (auto simp: join_offset_def ts_scanned_def ts_core_def ts_packet_at_def ts_consts split: if_splits)

interpretation ts: join_scanner ts_scanned ts_feed join_offset ts_packet_at
  using ts_feed_scanned ts_join_startable by unfold_locales auto

lemma ts_observes [simp]: "ts.observes s base ws = ts_feeds s base ws"
  by (induction ws arbitrary: s base) simp_all

section \<open>Properties\<close>

text \<open>
  For every input: the packets counted account for no more bytes than were
  fed, the carried partial packet is shorter than a packet, the byte count is
  exact, and the section assemblers stay within their 1027-byte buffers.
\<close>

theorem ts_feed_bounds:
  "let s = ts_feeds ts_new 0 ws in
     st_bytes (ts_stats s) = length (concat ws)
     \<and> st_packets (ts_stats s) * 188 + length (ts_partial s) \<le> length (concat ws)
     \<and> length (ts_partial s) < 188 \<and> psi_inv (pat_asm s) \<and> psi_inv (pmt_asm s)"
proof -
  have "ts_scanned (ts_feeds ts_new 0 ws) (concat ws)"
    using ts_feeds_scanned [OF ts_new_scanned, of ws] by simp
  then show ?thesis
    by (cases "ts_partial (ts_feeds ts_new 0 ws) = []")
      (auto simp: ts_scanned_def ts_core_def ts_consts Let_def)
qed

text \<open>
  C15.  On a stream whose packet boundaries all carry the sync byte the scanner's
  conclusions do not depend on how the transport cut the stream: two chunkings
  of the same bytes lead to the same state, statistics, program and anchor
  included (\<open>partial_off_\<close> is stale while no partial packet is held).
\<close>

theorem ts_chunking_invariant:
  assumes "concat ws = concat ws'" "ts_aligned (concat ws)"
  shows "(ts_feeds ts_new 0 ws)\<lparr> partial_off := 0 \<rparr> = (ts_feeds ts_new 0 ws')\<lparr> partial_off := 0 \<rparr>"
  using assms ts_feeds_canon [OF ts_new_canon, of ws] ts_feeds_canon [OF ts_new_canon, of ws']
  by (intro ts_canon_unique [of _ "concat ws"]) simp_all

theorem ts_chunking_invariant_witness:
  "(ts_feeds ts_new 0 [[0x47, 1], [2, 3]])\<lparr> partial_off := 0 \<rparr>
     = (ts_feeds ts_new 0 [[0x47], [1, 2, 3]])\<lparr> partial_off := 0 \<rparr>"
proof (rule ts_chunking_invariant)
  have "[0x47, 1, 2, 3 :: byte] ! (i * 188) = 0x47" if "i * 188 < length [0x47, 1, 2, 3 :: byte]" for i
    using that by (cases i) auto
  then show "ts_aligned (concat [[0x47, 1], [2, 3]])"
    unfolding ts_aligned_def ts_consts concat.simps append.simps by blast
qed simp

text \<open>
  The table-driven section CRC is the bit-serial MPEG-2 CRC, and a section
  followed by the four bytes of its CRC, most significant first, checks to zero:
  the test \<open>PSIAssembler::feed\<close> applies accepts every well-formed section.
\<close>

theorem ts_crc32_correct:
  "ts_crc32 data = foldl crc_bitwise 0xFFFFFFFF data
   \<and> ts_crc32 (data @ crc_trailer (ts_crc32 data)) = 0"
proof -
  have "crc_step = crc_bitwise" by (intro ext) (rule crc_step_bitwise)
  then show ?thesis using crc_residue [of "ts_crc32 data"] by (simp add: ts_crc32_def)
qed

end
