(* ===== verification/Ts_Builder.thy ===== *)
theory Ts_Builder
  imports Ts_Scanner
begin

text \<open>
  The transport-stream builder of the scanner's self-test
  (\<open>src/videots.cpp\<close>, struct \<open>TSBuilder\<close>): it lays out PAT, PMT and video packets
  byte by byte.  The continuity counters, indexed by PID, are its state.
\<close>

type_synonym ts_builder = "nat \<Rightarrow> nat"

definition hi5 :: "nat \<Rightarrow> nat" where
  "hi5 pid = (pid div 256) mod 32"

definition lo8 :: "nat \<Rightarrow> nat" where
  "lo8 v = v mod 256"

text \<open>
  One packet: header, stuffing adaptation field when \<open>rai\<close> is set, payload, and
  \<open>0xFF\<close> fill.  The counter of the PID advances modulo 16.
\<close>

definition build_pkt :: "ts_builder \<Rightarrow> nat \<Rightarrow> bool \<Rightarrow> bytes \<Rightarrow> bool \<Rightarrow> ts_builder \<times> bytes" where
  "build_pkt cc pid pusi payload rai =
     (let out = replicate TS_PACKET_SIZE (0xFF :: byte);
          plen = length payload;
          af_len = TS_PACKET_SIZE - 5 - plen;
          hdr = [TS_SYNC_BYTE, byte_of ((if pusi then 64 else 0) + hi5 pid), byte_of (lo8 pid)];
          hdr2 = (if rai then hdr @ [byte_of (48 + cc pid mod 16), byte_of af_len, 0x40]
                         else hdr @ [byte_of (16 + cc pid mod 16)]);
          body = (if rai then 5 + af_len else 4);
          out1 = overwrite out 0 hdr2;
          out2 = (if payload \<noteq> [] then overwrite out1 body payload else out1)
      in (cc(pid := (cc pid + 1) mod 16), out2))"

definition finish_section :: "bytes \<Rightarrow> bytes" where
  "finish_section sec = sec @ crc_trailer (ts_crc32 sec)"

definition pat_section :: "nat \<Rightarrow> nat \<Rightarrow> bytes" where
  "pat_section pmt version =
     finish_section [0x00, 0xB0, 13, 0x00, 0x01, 0xC1 OR byte_of (2 * version), 0x00, 0x00,
       0x00, 0x01, byte_of (0xE0 + hi5 pmt), byte_of (lo8 pmt)]"

definition pmt_section :: "nat \<Rightarrow> nat \<Rightarrow> nat \<Rightarrow> bytes" where
  "pmt_section vpid stype version =
     finish_section [0x02, 0xB0, 18, 0x00, 0x01, 0xC1 OR byte_of (2 * version), 0x00, 0x00,
       byte_of (0xE0 + hi5 vpid), byte_of (lo8 vpid), 0xF0, 0x00,
       byte_of stype, byte_of (0xE0 + hi5 vpid), byte_of (lo8 vpid), 0xF0, 0x00]"

definition build_pat :: "ts_builder \<Rightarrow> nat \<Rightarrow> nat \<Rightarrow> ts_builder \<times> bytes" where
  "build_pat cc pmt version = build_pkt cc 0 True (0x00 # pat_section pmt version) False"

definition build_pmt :: "ts_builder \<Rightarrow> nat \<Rightarrow> nat \<Rightarrow> nat \<Rightarrow> nat \<Rightarrow> ts_builder \<times> bytes" where
  "build_pmt cc pmt vpid stype version =
     build_pkt cc pmt True (0x00 # pmt_section vpid stype version) False"

definition build_video :: "ts_builder \<Rightarrow> nat \<Rightarrow> bool \<Rightarrow> nat \<Rightarrow> bool option \<Rightarrow> ts_builder \<times> bytes" where
  "build_video cc vpid key stype rai =
     (let nal = (if stype = TS_STREAM_HEVC then [if key then 70 else 2, 0x01]
                 else [if key then 0x09 else 0x41]);
          payload = [0x00, 0x00, 0x01, 0xE0, 0x00, 0x00, 0x80, 0x00, 0x00, 0x00, 0x00, 0x01] @ nal @ [0x10]
      in build_pkt cc vpid True payload (case rai of None \<Rightarrow> key | Some r \<Rightarrow> r))"

section \<open>The layout of a packet\<close>

lemma pkt_plain:
  assumes "length payload \<le> 184"
  shows "snd (build_pkt cc pid pusi payload False) =
    [TS_SYNC_BYTE, byte_of ((if pusi then 64 else 0) + hi5 pid), byte_of (lo8 pid),
     byte_of (16 + cc pid mod 16)] @ payload @ replicate (184 - length payload) 0xFF"
proof -
  have d: "drop (4 + n) (a # b # c # d # xs) = drop n xs" for n and a b c d :: byte and xs
    by (subst add.commute) (simp add: numeral_eq_Suc)
  show ?thesis using assms by (simp add: build_pkt_def Let_def overwrite_def ts_consts d)
qed

lemma pkt_rai:
  assumes "length payload \<le> 180" "payload \<noteq> []"
  shows "snd (build_pkt cc pid pusi payload True) =
    [TS_SYNC_BYTE, byte_of ((if pusi then 64 else 0) + hi5 pid), byte_of (lo8 pid),
     byte_of (48 + cc pid mod 16), byte_of (183 - length payload), 0x40]
     @ replicate (182 - length payload) 0xFF @ payload"
  using assms by (simp add: build_pkt_def Let_def overwrite_def ts_consts)

lemma hi5_less: "hi5 p < 32" and lo8_less: "lo8 p < 256"
  by (simp_all add: hi5_def lo8_def)

lemma pid13_build:
  assumes "p < 8192" "k = 0 \<or> k = 64 \<or> k = 224"
  shows "pid13 (byte_of (k + hi5 p)) (byte_of (lo8 p)) = p"
proof -
  have m: "(64 + x) mod 32 = x mod 32" "(224 + x) mod 32 = x mod 32" for x :: nat
    using mod_mult_self4 [of 32 2 x] mod_mult_self4 [of 32 7 x] by simp_all
  have "(k + hi5 p) mod 256 mod 32 = hi5 p"
    using assms(2) hi5_less [of p] by (auto simp: m)
  moreover have "hi5 p * 256 + lo8 p = p"
    using assms(1) by (simp add: hi5_def lo8_def)
  ultimately show ?thesis by (simp add: pid13_def byte_fields lo8_def)
qed

lemma pusi_build: "(byte_of (64 + hi5 p) :: byte) AND 0x40 \<noteq> 0"
proof -
  have "(64 + hi5 p) div 64 = 1" using hi5_less [of p] by (intro div_nat_eqI) simp_all
  then show ?thesis using hi5_less [of p] by (simp add: byte_fields)
qed

section \<open>A section in one packet\<close>

lemma psi_feed_whole:
  assumes inv: "length (asm_buf a) = TS_MAX_SECTION" and len: "length sec + length pad \<le> 183"
    and want: "section_want sec = length sec" "4 \<le> length sec" and crc: "ts_crc32 sec = 0"
  shows "\<exists>a'. psi_feed a (0 # sec @ pad) True = (a', Some sec, False)"
proof -
  let ?a0 = "a\<lparr> asm_len := 0, asm_active := True, asm_want := 0 \<rparr>"
  let ?a1 = "psi_copy ?a0 (sec @ pad)"
  have a1: "asm_buf ?a1 = sec @ pad @ drop (length (sec @ pad)) (asm_buf a)"
    "asm_len ?a1 = length (sec @ pad)" "asm_want ?a1 = 0"
    using len by (simp_all add: psi_copy_def Let_def ts_consts overwrite_def)
  have sw: "section_want (asm_buf ?a1) = length sec"
    using want by (simp add: section_want_def a1 nth_append)
  have "sec @ pad \<noteq> []" using want(2) by auto
  then have "psi_append ?a0 (sec @ pad) = psi_complete (?a1\<lparr> asm_want := length sec \<rparr>)"
    using want(2) len unfolding psi_append_def Let_def a1(2,3) sw
    by (auto simp: ts_consts)
  also have "\<dots> = (?a1\<lparr> asm_active := False, asm_len := 0, asm_want := 0 \<rparr>, Some sec, False)"
    using crc by (simp add: psi_complete_def Let_def a1)
  finally show ?thesis by (simp add: psi_feed_def)
qed

section \<open>The scanner on built packets\<close>

text \<open>The state after the packet counter and the continuity check.\<close>

definition counted :: "ts_scanner \<Rightarrow> nat \<Rightarrow> nat \<Rightarrow> ts_scanner" where
  "counted s pid cc = count_cc (s\<lparr> ts_stats := (ts_stats s)\<lparr> st_packets := st_packets (ts_stats s) + 1 \<rparr> \<rparr>) pid cc"

lemma counted_fields [simp]:
  "pat_asm (counted s pid cc) = pat_asm s" "pmt_asm (counted s pid cc) = pmt_asm s"
  "have_pat (counted s pid cc) = have_pat s" "have_pmt (counted s pid cc) = have_pmt s"
  "pmt_pid (counted s pid cc) = pmt_pid s" "video_pid (counted s pid cc) = video_pid s"
  "video_stream_type (counted s pid cc) = video_stream_type s"
  "have_pat_off (counted s pid cc) = have_pat_off s" "have_pmt_off (counted s pid cc) = have_pmt_off s"
  "last_pat_off (counted s pid cc) = last_pat_off s" "last_pmt_off (counted s pid cc) = last_pmt_off s"
  by (simp_all add: counted_def count_cc_def Let_def)

lemma cc_byte:
  fixes c k :: nat
  assumes "c < 16" "k < 4"
  shows "(16 * k + c) mod 256 div 16 mod 4 = k" "(16 * k + c) mod 256 mod 16 = c"
  using assms by (simp_all add: mod_less)

lemma packet_plain:
  assumes "pid < 8192" "length pl = 184" "c < 16"
  shows "packet s ([TS_SYNC_BYTE, byte_of (64 + hi5 pid), byte_of (lo8 pid), byte_of (16 + c)] @ pl) off
    = packet_payload (counted s pid c) pid True False pl off"
proof -
  let ?b = "byte_of (16 + c)"
  have "unat ((drop_bit 4 ?b) AND 3) = 1" "unat (?b AND 0x0F) = c"
    using cc_byte [of c 1] assms(3) by (simp_all add: byte_fields)
  moreover have "pid13 (byte_of (64 + hi5 pid)) (byte_of (lo8 pid)) = pid"
    using pid13_build [OF assms(1), of 64] by simp
  ultimately show ?thesis
    using pusi_build [of pid] by (simp add: packet_def Let_def ts_consts counted_def)
qed

lemma byte_40: "(0x40 :: byte) AND 0x40 \<noteq> 0"
  by simp

lemma packet_rai:
  assumes "pid < 8192" "0 < length pl" "length pl \<le> 180" "c < 16"
  shows "packet s ([TS_SYNC_BYTE, byte_of (64 + hi5 pid), byte_of (lo8 pid), byte_of (48 + c),
             byte_of (183 - length pl), 0x40] @ replicate (182 - length pl) 0xFF @ pl) off
    = packet_payload (counted s pid c) pid True True pl off"
proof -
  let ?b = "byte_of (48 + c)" and ?p = "[TS_SYNC_BYTE, byte_of (64 + hi5 pid), byte_of (lo8 pid),
    byte_of (48 + c), byte_of (183 - length pl), 0x40] @ replicate (182 - length pl) 0xFF @ pl"
  have "unat ((drop_bit 4 ?b) AND 3) = 3" "unat (?b AND 0x0F) = c"
    using cc_byte [of c 3] assms(4) by (simp_all add: byte_fields)
  moreover have "pid13 (byte_of (64 + hi5 pid)) (byte_of (lo8 pid)) = pid"
    using pid13_build [OF assms(1), of 64] by simp
  moreover have "unat (byte_of (183 - length pl)) = 183 - length pl" using assms by simp
  moreover have "drop (5 + (183 - length pl)) ?p = pl"
  proof -
    let ?pre = "[TS_SYNC_BYTE, byte_of (64 + hi5 pid), byte_of (lo8 pid),
      byte_of (48 + c), byte_of (183 - length pl), 0x40] @ replicate (182 - length pl) 0xFF"
    have "length ?pre = 5 + (183 - length pl)" using assms by simp
    then have "drop (5 + (183 - length pl)) (?pre @ pl) = pl" by (metis append_eq_conv_conj)
    then show ?thesis by simp
  qed
  moreover have "5 + (183 - length pl) < 188" "0 < 183 - length pl" using assms by simp_all
  ultimately show ?thesis
    using pusi_build [of pid] byte_40
    by (simp add: packet_def Let_def ts_consts counted_def del: diff_diff_left)
qed

lemma current_build: "((0xC1 :: byte) OR b) AND 1 \<noteq> 0"
proof -
  have "bit ((0xC1 :: byte) OR b) 0" by (simp add: bit_simps)
  then show ?thesis by (simp only: flip: power_0 [of 2] add: and_exp_eq_0_iff_not_bit not_not)
qed

lemma section_crc: "ts_crc32 (finish_section sec) = 0"
  using crc_residue [of "ts_crc32 sec"] by (simp add: finish_section_def ts_crc32_def)

lemma length_finish [simp]: "length (finish_section sec) = length sec + 4"
  by (simp add: finish_section_def crc_trailer_def)

lemma nth_finish: "i < length sec \<Longrightarrow> finish_section sec ! i = sec ! i"
  by (simp add: finish_section_def nth_append)

lemma scan_pat:
  fixes cc version off
  assumes "pmt < 8192" "pmt \<noteq> 0" "\<not> have_pat s" "\<not> have_pmt s" "pmt_pid s = 0"
    "length (asm_buf (pat_asm s)) = TS_MAX_SECTION"
  defines "s' \<equiv> packet s (snd (build_pat cc pmt version)) off"
  shows "have_pat s' \<and> \<not> have_pmt s' \<and> pmt_pid s' = pmt \<and> have_pat_off s' \<and> last_pat_off s' = off
    \<and> asm_buf (pmt_asm s') = asm_buf (pmt_asm s)"
proof -
  let ?sec = "pat_section pmt version"
  have len: "length ?sec = 16" by (simp add: pat_section_def)
  obtain a where feed: "psi_feed (pat_asm s) (0 # ?sec @ replicate 167 0xFF) True = (a, Some ?sec, False)"
    using psi_feed_whole [OF assms(6), of ?sec "replicate 167 0xFF"] len
    by (auto simp: section_crc pat_section_def section_want_def nth_finish byte_fields)
  have prog: "pat_program (drop 8 (take (length ?sec - 4) ?sec)) = Some pmt"
    using pid13_build [OF assms(1), of 224] by (simp add: pat_section_def finish_section_def crc_trailer_def)
  have hd: "?sec ! 0 = 0" "?sec ! 5 AND 1 \<noteq> 0"
    using current_build by (simp_all add: pat_section_def nth_finish)
  have "s' = packet_payload (counted s 0 (cc 0 mod 16)) 0 True False (0 # ?sec @ replicate 167 0xFF) off"
    unfolding s'_def build_pat_def
    using len pkt_plain [of "0 # ?sec" cc 0 True] packet_plain [of 0 "(0 # ?sec) @ replicate 167 0xFF" "cc 0 mod 16" s off]
    by simp
  then have s': "s' = parse_pat (add_crc_error ((counted s 0 (cc 0 mod 16))\<lparr> pat_asm := a \<rparr>) False) ?sec off"
    by (simp add: packet_payload_def feed)
  show ?thesis
    unfolding s' parse_pat_def Let_def prog using len hd assms(2-5)
    by (simp add: add_crc_error_def psi_reset_def)
qed

lemma scan_pmt:
  fixes cc version off
  assumes "pmt < 8192" "pmt \<noteq> 0" "vpid < 8192" "vpid \<noteq> 0" "is_video_type st"
    "have_pat s" "\<not> have_pmt s" "pmt_pid s = pmt" "length (asm_buf (pmt_asm s)) = TS_MAX_SECTION"
  defines "s' \<equiv> packet s (snd (build_pmt cc pmt vpid st version)) off"
  shows "have_pat s' \<and> have_pmt s' \<and> pmt_pid s' = pmt \<and> video_pid s' = vpid \<and> video_stream_type s' = st
    \<and> have_pat_off s' = have_pat_off s \<and> last_pat_off s' = last_pat_off s
    \<and> have_pmt_off s' \<and> last_pmt_off s' = off"
proof -
  let ?sec = "pmt_section vpid st version"
  have len: "length ?sec = 21" by (simp add: pmt_section_def)
  obtain a where feed: "psi_feed (pmt_asm s) (0 # ?sec @ replicate 162 0xFF) True = (a, Some ?sec, False)"
    using psi_feed_whole [OF assms(9), of ?sec "replicate 162 0xFF"] len
    by (auto simp: section_crc pmt_section_def section_want_def nth_finish byte_fields)
  have hd: "?sec ! 0 = 2" "?sec ! 5 AND 1 \<noteq> 0" "len12 (?sec ! 10) (?sec ! 11) = 0"
    using current_build by (simp_all add: pmt_section_def nth_finish len12_def byte_fields)
  have st: "st mod 256 = st" using assms(5) by (auto simp: is_video_type_def ts_stream_types)
  have "pid13 (?sec ! 13) (?sec ! 14) = vpid"
    using pid13_build [OF assms(3), of 224] by (simp add: pmt_section_def nth_finish)
  then have loop: "pmt_loop ?sec 12 17 (0, 0) = (vpid, st)"
    using assms(5) st by (simp add: pmt_loop.simps Let_def pmt_section_def nth_finish len12_def byte_fields)
  have "s' = packet_payload (counted s pmt (cc pmt mod 16)) pmt True False (0 # ?sec @ replicate 162 0xFF) off"
    unfolding s'_def build_pmt_def
    using len pkt_plain [of "0 # ?sec" cc pmt True]
      packet_plain [OF assms(1), of "(0 # ?sec) @ replicate 162 0xFF" "cc pmt mod 16" s off]
    by simp
  then have s': "s' = parse_pmt (add_crc_error ((counted s pmt (cc pmt mod 16))\<lparr> pmt_asm := a \<rparr>) False) ?sec off"
    using assms(2,6,8) by (simp add: packet_payload_def feed)
  show ?thesis
    unfolding s' parse_pmt_def Let_def hd(3) using len hd(1,2) assms(4,6-8) loop
    by (simp add: add_crc_error_def)
qed

lemma key_payload_scan:
  "annexb_scan TS_STREAM_H264 [0, 0, 1, 0xE0, 0, 0, 0x80, 0, 0, 0, 0, 1, 9, 0x10]"
  "annexb_scan TS_STREAM_HEVC [0, 0, 1, 0xE0, 0, 0, 0x80, 0, 0, 0, 0, 1, 70, 1, 0x10]"
  by (simp_all add: nal_is_random_access_def ts_stream_types byte_fields Let_def)

lemma scan_key:
  assumes "vpid < 8192" "vpid \<noteq> 0" "vpid \<noteq> pmt_pid s" "have_pmt s" "video_pid s = vpid"
    "video_stream_type s = st" "is_video_type st"
    "have_pat_off s" "have_pmt_off s" "last_pat_off s < last_pmt_off s" "last_pmt_off s \<le> off"
  shows "join_offset (packet s (snd (build_video cc vpid True st None)) off) = Some (last_pat_off s)"
proof -
  define pl :: bytes where "pl = [0x00, 0x00, 0x01, 0xE0, 0x00, 0x00, 0x80, 0x00, 0x00, 0x00, 0x00, 0x01]
      @ (if st = TS_STREAM_HEVC then [70, 1] else [9]) @ [0x10]"
  have len: "0 < length pl" "length pl \<le> 180" by (simp_all add: pl_def)
  have "snd (build_video cc vpid True st None) = snd (build_pkt cc vpid True pl True)"
    by (simp add: build_video_def Let_def pl_def)
  then have "packet s (snd (build_video cc vpid True st None)) off
      = packet_payload (counted s vpid (cc vpid mod 16)) vpid True True pl off"
    using pkt_rai [OF len(2), of cc vpid True] packet_rai [OF assms(1) len, of "cc vpid mod 16" s off] len
    by simp
  also have "\<dots> = note_rai (counted s vpid (cc vpid mod 16)) off"
    using assms(2-7) key_payload_scan
    by (auto simp: packet_payload_def ts_payload_is_random_access_def is_video_type_def pl_def ts_stream_types)
  finally show ?thesis
    using assms(4,8-11) by (simp add: note_rai_def Let_def join_offset_def)
qed

section \<open>A well-formed stream is joined at its PAT\<close>

definition build_start :: "ts_builder \<Rightarrow> nat \<Rightarrow> nat \<Rightarrow> nat \<Rightarrow> nat \<Rightarrow> bytes" where
  "build_start cc pmt vpid st version =
     (let (c1, p1) = build_pat cc pmt version;
          (c2, p2) = build_pmt c1 pmt vpid st version;
          (c3, p3) = build_video c2 vpid True st None
      in p1 @ p2 @ p3)"

lemma length_pkt:
  "length (snd (build_pat cc pmt version)) = 188" "length (snd (build_pmt cc pmt vpid st version)) = 188"
  "length (snd (build_video cc vpid True st None)) = 188"
proof -
  show "length (snd (build_pat cc pmt version)) = 188"
    using pkt_plain [of "0 # pat_section pmt version" cc 0 True] by (simp add: build_pat_def pat_section_def)
  show "length (snd (build_pmt cc pmt vpid st version)) = 188"
    using pkt_plain [of "0 # pmt_section vpid st version" cc pmt True] by (simp add: build_pmt_def pmt_section_def)
  show "length (snd (build_video cc vpid True st None)) = 188"
    by (simp add: build_video_def Let_def pkt_rai)
qed

lemma sync_pkt:
  "snd (build_pat cc pmt version) ! 0 = TS_SYNC_BYTE" "snd (build_pmt cc pmt vpid st version) ! 0 = TS_SYNC_BYTE"
  "snd (build_video cc vpid True st None) ! 0 = TS_SYNC_BYTE"
proof -
  show "snd (build_pat cc pmt version) ! 0 = TS_SYNC_BYTE"
    using pkt_plain [of "0 # pat_section pmt version" cc 0 True] by (simp add: build_pat_def pat_section_def)
  show "snd (build_pmt cc pmt vpid st version) ! 0 = TS_SYNC_BYTE"
    using pkt_plain [of "0 # pmt_section vpid st version" cc pmt True] by (simp add: build_pmt_def pmt_section_def)
  show "snd (build_video cc vpid True st None) ! 0 = TS_SYNC_BYTE"
    by (simp add: build_video_def Let_def pkt_rai)
qed

lemma aligned_three:
  assumes "length p1 = 188" "length p2 = 188" "length p3 = 188"
    "p1 ! 0 = TS_SYNC_BYTE" "p2 ! 0 = TS_SYNC_BYTE" "p3 ! 0 = TS_SYNC_BYTE"
  shows "ts_aligned (p1 @ p2 @ p3)"
  unfolding ts_aligned_def
proof (intro allI impI)
  fix i assume "i * TS_PACKET_SIZE < length (p1 @ p2 @ p3)"
  then have "i = 0 \<or> i = 1 \<or> i = 2" using assms(1-3) by (simp add: ts_consts) linarith
  then show "(p1 @ p2 @ p3) ! (i * TS_PACKET_SIZE) = TS_SYNC_BYTE"
    using assms by (elim disjE) (simp_all add: ts_consts nth_append)
qed

lemma join_canon: "ts_canon s h \<Longrightarrow> join_offset s = join_offset (ts_run h (length h div TS_PACKET_SIZE))"
  by (auto simp: ts_canon_def Let_def join_offset_def ts_set_def)

lemma run_three:
  assumes "length p1 = 188" "length p2 = 188" "length p3 = 188"
  shows "ts_run (p1 @ p2 @ p3) 3 = packet (packet (packet ts_new p1 0) p2 188) p3 376"
  using assms by (simp add: numeral_3_eq_3 seg_def ts_consts)

lemma build_start_join:
  assumes pids: "0 < pmt" "pmt < 8192" "0 < vpid" "vpid < 8192" "vpid \<noteq> pmt" and st: "is_video_type st"
    and ws: "concat ws = build_start cc pmt vpid st version"
  shows "join_offset (ts_feeds ts_new 0 ws) = Some 0"
proof -
  obtain c1 p1 where 1: "build_pat cc pmt version = (c1, p1)" by force
  obtain c2 p2 where 2: "build_pmt c1 pmt vpid st version = (c2, p2)" by force
  obtain c3 p3 where 3: "build_video c2 vpid True st None = (c3, p3)" by force
  have h: "concat ws = p1 @ p2 @ p3" using ws by (simp add: build_start_def 1 2 3)
  have L: "length p1 = 188" "length p2 = 188" "length p3 = 188"
    using length_pkt(1) [of cc pmt version] length_pkt(2) [of c1 pmt vpid st version]
      length_pkt(3) [of c2 vpid st] by (simp_all add: 1 2 3)
  have S: "p1 ! 0 = TS_SYNC_BYTE" "p2 ! 0 = TS_SYNC_BYTE" "p3 ! 0 = TS_SYNC_BYTE"
    using sync_pkt(1) [of cc pmt version] sync_pkt(2) [of c1 pmt vpid st version]
      sync_pkt(3) [of c2 vpid st] by (simp_all add: 1 2 3)
  have "ts_canon (ts_feeds ts_new 0 ws) (p1 @ p2 @ p3)"
    using ts_feeds_canon [OF ts_new_canon, of ws] aligned_three [OF L S] by (simp add: h)
  then have run: "join_offset (ts_feeds ts_new 0 ws) = join_offset (packet (packet (packet ts_new p1 0) p2 188) p3 376)"
    using join_canon run_three [OF L] L by (simp add: ts_consts)
  let ?s1 = "packet ts_new p1 0" let ?s2 = "packet ?s1 p2 188"
  have buf: "length (asm_buf (pat_asm ts_new)) = TS_MAX_SECTION" "length (asm_buf (pmt_asm ts_new)) = TS_MAX_SECTION"
    by (simp_all add: ts_new_def psi_new_def)
  have s1: "have_pat ?s1" "\<not> have_pmt ?s1" "pmt_pid ?s1 = pmt" "have_pat_off ?s1" "last_pat_off ?s1 = 0"
    "length (asm_buf (pmt_asm ?s1)) = TS_MAX_SECTION"
    using scan_pat [of pmt ts_new cc version 0] pids buf by (simp_all add: 1 ts_new_def)
  have s2: "have_pmt ?s2" "pmt_pid ?s2 = pmt" "video_pid ?s2 = vpid" "video_stream_type ?s2 = st"
    "have_pat_off ?s2" "last_pat_off ?s2 = 0" "have_pmt_off ?s2" "last_pmt_off ?s2 = 188"
    using scan_pmt [of pmt vpid st ?s1 c1 version 188] pids st s1 by (simp_all add: 2)
  show ?thesis
    using run scan_key [of vpid ?s2 st 376 c2] s2 pids st by (simp add: 3)
qed



text \<open>
  C13.  For every input, however corrupted and however it is cut into chunks: a
  join offset handed to a viewer is the offset of a packet that was received in
  full and starts with the sync byte, and it is only ever reported once a
  program with a non-zero video PID is known.
\<close>

theorem ts_join_sound:
  assumes "join_offset (ts_feeds ts_new 0 ws) = Some a"
  shows "a + 188 \<le> length (concat ws) \<and> concat ws ! a = 0x47
    \<and> have_pmt (ts_feeds ts_new 0 ws) \<and> video_pid (ts_feeds ts_new 0 ws) \<noteq> 0"
proof -
  have "ts_packet_at (concat ws) a"
    using ts.observes_join [OF ts_new_scanned, of ws a] assms by simp
  moreover have "ts_scanned (ts_feeds ts_new 0 ws) (concat ws)"
    using ts_feeds_scanned [OF ts_new_scanned, of ws] by simp
  moreover have "have_pmt (ts_feeds ts_new 0 ws)"
    using assms by (simp add: join_offset_def split: if_splits)
  ultimately show ?thesis
    by (auto simp: ts_packet_at_def ts_consts ts_scanned_def ts_core_def)
qed

theorem ts_join_sound_witness:
  "build_start (\<lambda>_. 0) 256 257 TS_STREAM_H264 3 ! 0 = 0x47
   \<and> have_pmt (ts_feeds ts_new 0 [build_start (\<lambda>_. 0) 256 257 TS_STREAM_H264 3])"
  using ts_join_sound [OF build_start_join [of 256 257 TS_STREAM_H264
      "[build_start (\<lambda>_. 0) 256 257 TS_STREAM_H264 3]" "\<lambda>_. 0" 3]]
  by (simp add: is_video_type_def)

end
