(* ===== verification/Mkv_Scanner.thy ===== *)
theory Mkv_Scanner
  imports Ts_Scanner
begin

text \<open>
  The scanner a video slot really uses (\<open>src/videomkv.h\<close>): class \<open>VideoScanner\<close>
  is the transport-stream scanner or, for a Matroska publisher, a strict parser
  of the live profile (EBML header, unknown-size Segment, Info, Tracks, then
  Clusters); class \<open>VideoChunks\<close> is the HTTP chunk decoder of that publisher.
  The \<open>cluster\<close> callback becomes the list of clusters a call hands out.
\<close>

section \<open>Variable-length integers\<close>

datatype vint_result = V_bad | V_more | V_ok nat nat

text \<open>\<open>while (!(p[0] & mask)) { len++; mask >>= 1; }\<close> for a non-zero byte.\<close>

function vint_len :: "byte \<Rightarrow> nat \<Rightarrow> nat" where
  "vint_len b len = (if len \<ge> 8 \<or> bit b (8 - len) then len else vint_len b (len + 1))"
  by pat_completeness auto
termination by (relation "measure (\<lambda>(b, len). 8 - len)") auto

declare vint_len.simps [simp del]

definition mkv_vint :: "bytes \<Rightarrow> bool \<Rightarrow> vint_result" where
  "mkv_vint p is_id =
     (if p = [] then V_more
      else if hd p = 0 then V_bad
      else
        let len = vint_len (hd p) 1
        in if len > (if is_id then 4 else 8) then V_bad
           else if length p < len then V_more
           else V_ok (foldl (\<lambda>v x. v * 256 + unat x)
                       (unat (if is_id then hd p else hd p AND NOT (push_bit (8 - len) 1)))
                       (take (len - 1) (tl p))) len)"

section \<open>The scanner\<close>

record video_scanner =
  sc_ts :: ts_scanner
  sc_matroska :: bool
  sc_failed :: bool
  sc_prefix :: bytes
  mkv_stage :: nat
  mkv_offset :: nat
  mkv_anchor :: nat
  mkv_have_anchor :: bool
  mkv_pending :: bytes

definition sc_new :: video_scanner where
  "sc_new = \<lparr> sc_ts = ts_new, sc_matroska = False, sc_failed = False, sc_prefix = [], mkv_stage = 0,
     mkv_offset = 0, mkv_anchor = 0, mkv_have_anchor = False, mkv_pending = [] \<rparr>"

definition sc_reset :: "video_scanner \<Rightarrow> video_scanner" where
  "sc_reset s = sc_new"

definition sc_join_offset :: "video_scanner \<Rightarrow> nat option" where
  "sc_join_offset s = (if \<not> sc_matroska s then join_offset (sc_ts s)
     else if mkv_have_anchor s \<and> \<not> sc_failed s then Some (mkv_anchor s) else None)"

definition CLUSTER_ID :: nat where "CLUSTER_ID = 0x1f43b675"
definition header_ids :: "nat list" where "header_ids = [0x1a45dfa3, 0x18538067, 0x1549a966, 0x1654ae6b]"

text \<open>What the parser finds at the head of the pending bytes: more bytes are
  needed, an error, or a complete element of the given length.\<close>

datatype mkv_element = E_wait | E_fail | E_elem nat

definition mkv_element :: "video_scanner \<Rightarrow> mkv_element" where
  "mkv_element s =
     (case mkv_vint (mkv_pending s) True of V_bad \<Rightarrow> E_fail | V_more \<Rightarrow> E_wait
      | V_ok eid a \<Rightarrow>
        (case mkv_vint (drop a (mkv_pending s)) False of V_bad \<Rightarrow> E_fail | V_more \<Rightarrow> E_wait
         | V_ok n b \<Rightarrow>
           let unknown = (n = 2 ^ (7 * b) - 1)
           in if mkv_stage s = 1 \<and> (eid \<noteq> 0x18538067 \<or> \<not> unknown) then E_fail
              else if mkv_stage s \<noteq> 1
                      \<and> (unknown \<or> n > 4 * 1024 * 1024 \<or> mkv_stage s < 4 \<and> n > 65536) then E_fail
              else
                let tot = a + b + (if mkv_stage s = 1 then 0 else n)
                in if length (mkv_pending s) < tot then E_wait
                   else if mkv_stage s < 4 then
                     if eid \<noteq> header_ids ! mkv_stage s \<or> length (sc_prefix s) + tot > 131072
                     then E_fail else E_elem tot
                   else if eid \<noteq> CLUSTER_ID then E_fail else E_elem tot))"

definition mkv_take :: "video_scanner \<Rightarrow> nat \<Rightarrow> video_scanner" where
  "mkv_take s tot =
     (let s1 = (if mkv_stage s < 4
                then s\<lparr> sc_prefix := sc_prefix s @ take tot (mkv_pending s), mkv_stage := mkv_stage s + 1 \<rparr>
                else s\<lparr> mkv_anchor := mkv_offset s, mkv_have_anchor := True \<rparr>)
      in s1\<lparr> mkv_pending := drop tot (mkv_pending s), mkv_offset := mkv_offset s + tot \<rparr>)"

lemma vint_len_ge: "len \<le> vint_len b len"
  by (induction b len rule: vint_len.induct) (subst vint_len.simps, fastforce)

lemma mkv_vint_len: "mkv_vint p i = V_ok v n \<Longrightarrow> 0 < n \<and> n \<le> length p \<and> n \<le> (if i then 4 else 8)"
  using vint_len_ge [of 1 "hd p"] by (auto simp: mkv_vint_def Let_def split: if_splits)

lemma mkv_element_total: "mkv_element s = E_elem t \<Longrightarrow> 0 < t \<and> t \<le> length (mkv_pending s)"
  by (auto simp: mkv_element_def Let_def split: vint_result.splits if_splits dest!: mkv_vint_len)

text \<open>The loop; the second result is what went to the \<open>cluster\<close> callback.\<close>

function mkv_loop :: "video_scanner \<Rightarrow> video_scanner \<times> bytes list" where
  "mkv_loop s =
     (if mkv_pending s = [] then (s, [])
      else case mkv_element s of E_wait \<Rightarrow> (s, [])
        | E_fail \<Rightarrow> (s\<lparr> sc_failed := True \<rparr>, [])
        | E_elem tot \<Rightarrow>
            let (s', cs) = mkv_loop (mkv_take s tot)
            in (s', (if mkv_stage s < 4 then [] else [take tot (mkv_pending s)]) @ cs))"
  by pat_completeness auto
termination
  by (relation "measure (\<lambda>s. length (mkv_pending s))") (auto simp: mkv_take_def Let_def dest!: mkv_element_total)

declare mkv_loop.simps [simp del]

definition sc_feed :: "video_scanner \<Rightarrow> bytes \<Rightarrow> nat \<Rightarrow> video_scanner \<times> bytes list" where
  "sc_feed s buf base =
     (if \<not> sc_matroska s then (s\<lparr> sc_ts := ts_feed (sc_ts s) buf base \<rparr>, [])
      else if sc_failed s then (s, [])
      else
        let s1 = (if mkv_pending s = [] then s\<lparr> mkv_offset := base \<rparr> else s)
        in mkv_loop (s1\<lparr> mkv_pending := mkv_pending s1 @ buf \<rparr>))"

fun sc_feeds :: "video_scanner \<Rightarrow> nat \<Rightarrow> bytes list \<Rightarrow> video_scanner \<times> bytes list" where
  "sc_feeds s base [] = (s, [])"
| "sc_feeds s base (w # ws) =
     (let (s1, cs) = sc_feed s w base; (s2, cs') = sc_feeds s1 (base + length w) ws in (s2, cs @ cs'))"

section \<open>HTTP chunks\<close>

record video_chunks =
  ch_line :: string
  ch_remaining :: nat
  ch_ending :: nat

definition ch_new :: video_chunks where
  "ch_new = \<lparr> ch_line = [], ch_remaining = 0, ch_ending = 0 \<rparr>"

definition chunk_digit :: "char \<Rightarrow> nat" where
  "chunk_digit h = (let c = of_char h :: nat in
     if 48 \<le> c \<and> c \<le> 57 then c - 48 else if 97 \<le> c \<and> c \<le> 102 then c - 97 + 10
     else if 65 \<le> c \<and> c \<le> 70 then c - 65 + 10 else 16)"

fun chunk_length :: "string \<Rightarrow> nat \<Rightarrow> nat option" where
  "chunk_length [] len = Some len"
| "chunk_length (h # hs) len =
     (if chunk_digit h > 15 \<or> len > 4 * 1024 * 1024 div 16 then None else chunk_length hs (len * 16 + chunk_digit h))"

text \<open>The decoder, with the bytes it has emitted; \<open>None\<close> in the state when it returns false.\<close>

function ch_feed :: "video_chunks \<Rightarrow> bytes \<Rightarrow> video_chunks option \<times> bytes" where
  "ch_feed c [] = (Some c, [])"
| "ch_feed c (x # xs) =
     (if ch_remaining c > 0 then
        let n = min (length (x # xs)) (ch_remaining c);
            c1 = c\<lparr> ch_remaining := ch_remaining c - n,
                    ch_ending := (if ch_remaining c - n = 0 then 2 else ch_ending c) \<rparr>;
            (r, out) = ch_feed c1 (drop n (x # xs))
        in (r, take n (x # xs) @ out)
      else if ch_ending c > 0 then
        if x \<noteq> (if ch_ending c = 2 then 13 else 10) then (None, [])
        else ch_feed (c\<lparr> ch_ending := ch_ending c - 1 \<rparr>) xs
      else
        if x = 10 then
          if length (ch_line c) < 2 \<or> last (ch_line c) \<noteq> CHR 0x0D then (None, [])
          else case chunk_length (butlast (ch_line c)) 0 of None \<Rightarrow> (None, [])
            | Some len \<Rightarrow>
                if len = 0 \<or> len > 4 * 1024 * 1024 then (None, [])
                else ch_feed (c\<lparr> ch_remaining := len, ch_line := [] \<rparr>) xs
        else
          let line = ch_line c @ [char_of (unat x)]
          in if length line > 10 then (None, []) else ch_feed (c\<lparr> ch_line := line \<rparr>) xs)"
  by pat_completeness auto
termination
  by (relation "measure (\<lambda>(c, xs). length xs)") auto

section \<open>Clusters\<close>

definition cluster_head :: bytes where "cluster_head = [0x1f, 0x43, 0xb6, 0x75]"

text \<open>A complete Cluster element, at most 4 MiB of payload behind at most 12 bytes of head.\<close>

definition mkv_cluster :: "bytes \<Rightarrow> bool" where
  "mkv_cluster c = (take 4 c = cluster_head \<and> length c \<le> 12 + 4 * 1024 * 1024)"

lemma be_val_foldl: "foldl (\<lambda>v x. v * 256 + unat x) a (bs :: bytes) = a * 256 ^ length bs + be_val bs"
proof (induction bs rule: rev_induct)
  case (snoc b bs)
  then show ?case by (simp add: algebra_simps)
qed simp

lemma be_val_Cons: "be_val (b # bs) = unat b * 256 ^ length bs + be_val bs"
  using be_val_foldl [of "unat b" bs] by (simp add: be_val_def)

lemma be_val_less: "be_val bs < 256 ^ length bs"
proof (induction bs rule: rev_induct)
  case (snoc b bs)
  then have "be_val bs * 256 + 256 \<le> 256 ^ length bs * 256" by (metis Suc_leI mult_Suc mult_le_mono1 add.commute)
  moreover have "unat b < 256" by simp
  ultimately show ?case by (simp only: be_val_snoc length_append_singleton power_Suc2)
qed simp

lemma be_bytes_be_val: "be_bytes (length bs) (be_val bs) = bs"
  by (induction bs rule: rev_induct) (simp_all del: be_val_def)

lemma mkv_vint_id: "mkv_vint p True = V_ok v n \<Longrightarrow> v = be_val (take n p) \<and> n \<le> 4 \<and> n \<le> length p \<and> 0 < n"
  using mkv_vint_len [of p True v n]
  by (cases p; cases n) (auto simp: mkv_vint_def Let_def be_val_foldl be_val_Cons split: if_splits)

lemma be_bytes_4: "be_bytes 4 v = map word_of_nat [v div 16777216 mod 256, v div 65536 mod 256, v div 256 mod 256, v mod 256]"
proof -
  have "4 = Suc (Suc (Suc (Suc 0)))" by simp
  then have "be_bytes 4 v = be_bytes (Suc (Suc (Suc (Suc 0)))) v" by (rule arg_cong)
  then show ?thesis by (simp add: div_mult2_eq [symmetric])
qed

lemma cluster_vint: assumes "mkv_vint p True = V_ok CLUSTER_ID n" shows "n = 4 \<and> take 4 p = cluster_head"
proof -
  note v = mkv_vint_id [OF assms]
  have "CLUSTER_ID < 256 ^ n" using v be_val_less [of "take n p"] by simp
  then have "\<not> n \<le> 3" using power_increasing [of n 3 "256 :: nat"] by (auto simp: CLUSTER_ID_def)
  then have n: "n = 4" using v by simp
  have "take 4 p = be_bytes 4 CLUSTER_ID" using be_bytes_be_val [of "take 4 p"] v n by simp
  also have "\<dots> = cluster_head" by (simp add: be_bytes_4 CLUSTER_ID_def cluster_head_def)
  finally show ?thesis using n by simp
qed

lemma mkv_element_cluster:
  assumes "mkv_element s = E_elem t" "\<not> mkv_stage s < 4" shows "mkv_cluster (take t (mkv_pending s))"
proof -
  obtain a b n where v: "mkv_vint (mkv_pending s) True = V_ok CLUSTER_ID a"
    "mkv_vint (drop a (mkv_pending s)) False = V_ok n b" "n \<le> 4 * 1024 * 1024" "t = a + b + n"
    using assms by (auto simp: mkv_element_def Let_def split: vint_result.splits if_splits)
  then show ?thesis
    using cluster_vint [OF v(1)] mkv_vint_len [OF v(2)] by (auto simp: mkv_cluster_def min_def)
qed

lemma mkv_element_prefix:
  "mkv_element s = E_elem t \<Longrightarrow> mkv_stage s < 4 \<Longrightarrow> length (sc_prefix s) + t \<le> 131072"
  by (auto simp: mkv_element_def Let_def split: vint_result.splits if_splits)

section \<open>The invariant: nothing is lost\<close>

text \<open>
  The bytes fed so far are the stored prefix, the clusters handed out and the
  pending tail, in this order; the anchor is the offset of the last cluster.
\<close>

definition mkv_inv :: "bytes list \<Rightarrow> video_scanner \<Rightarrow> bytes \<Rightarrow> bool" where
  "mkv_inv cs s h =
     (h = sc_prefix s @ concat cs @ mkv_pending s \<and> mkv_offset s = length (sc_prefix s @ concat cs)
      \<and> (mkv_stage s < 4 \<longrightarrow> cs = []) \<and> mkv_have_anchor s = (cs \<noteq> [])
      \<and> (cs \<noteq> [] \<longrightarrow> mkv_anchor s = length (sc_prefix s @ concat (butlast cs)))
      \<and> (\<forall>c \<in> set cs. mkv_cluster c) \<and> length (sc_prefix s) \<le> 131072)"

definition mkv_settled :: "video_scanner \<Rightarrow> bool" where
  "mkv_settled s = (sc_failed s \<or> mkv_pending s = [] \<or> mkv_element s = E_wait)"

lemma mkv_take_inv:
  assumes "mkv_inv cs s h" "mkv_element s = E_elem t"
  shows "mkv_inv (cs @ (if mkv_stage s < 4 then [] else [take t (mkv_pending s)])) (mkv_take s t) h"
proof (cases "mkv_stage s < 4")
  case True
  then show ?thesis
    using assms mkv_element_prefix [OF assms(2) True] mkv_element_total [OF assms(2)]
    by (auto simp: mkv_inv_def mkv_take_def)
next
  case False
  then show ?thesis
    using assms mkv_element_cluster [OF assms(2) False] mkv_element_total [OF assms(2)]
    by (auto simp: mkv_inv_def mkv_take_def butlast_append)
qed

lemma mkv_loop_inv:
  "mkv_inv cs s h \<Longrightarrow> mkv_loop s = (s', cs') \<Longrightarrow> mkv_inv (cs @ cs') s' h \<and> mkv_settled s'"
proof (induction s arbitrary: cs cs' s' rule: mkv_loop.induct)
  case (1 s)
  show ?case
  proof (cases "mkv_pending s = [] \<or> mkv_element s = E_wait")
    case True
    then show ?thesis using 1 by (auto simp: mkv_loop.simps [of s] mkv_settled_def split: if_splits)
  next
    case False
    show ?thesis
    proof (cases "mkv_element s")
      case E_fail
      then show ?thesis
        using 1 False by (auto simp: mkv_loop.simps [of s] mkv_settled_def mkv_inv_def split: if_splits)
    next
      case (E_elem t)
      obtain s1 cs1 where r: "mkv_loop (mkv_take s t) = (s1, cs1)" by fastforce
      have "s' = s1" "cs' = (if mkv_stage s < 4 then [] else [take t (mkv_pending s)]) @ cs1"
        using "1.prems"(2) False E_elem r by (auto simp: mkv_loop.simps [of s])
      then show ?thesis
        using "1.IH" [OF _ E_elem mkv_take_inv [OF "1.prems"(1) E_elem] r] False by auto
    qed (use False in simp)
  qed
qed

lemma sc_feed_eq:
  assumes "mkv_inv cs s h" "sc_matroska s" "\<not> sc_failed s"
  shows "sc_feed s buf (length h) = mkv_loop (s\<lparr> mkv_pending := mkv_pending s @ buf \<rparr>)"
proof -
  have "mkv_pending s = [] \<Longrightarrow> mkv_offset s = length h" using assms(1) by (simp add: mkv_inv_def)
  then have "(if mkv_pending s = [] then s\<lparr> mkv_offset := length h \<rparr> else s) = s" by auto
  then show ?thesis using assms(2,3) by (simp add: sc_feed_def Let_def)
qed

lemma sc_feed_inv:
  assumes "mkv_inv cs s h" "sc_matroska s" "\<not> sc_failed s" "sc_feed s buf (length h) = (s', cs')"
  shows "mkv_inv (cs @ cs') s' (h @ buf) \<and> mkv_settled s'"
proof -
  have "mkv_inv cs (s\<lparr> mkv_pending := mkv_pending s @ buf \<rparr>) (h @ buf)"
    using assms(1) by (simp add: mkv_inv_def)
  then show ?thesis using sc_feed_eq [OF assms(1-3)] assms(4) mkv_loop_inv by simp
qed

lemma mkv_take_mode [simp]: "sc_matroska (mkv_take s t) = sc_matroska s" "sc_ts (mkv_take s t) = sc_ts s"
  "sc_failed (mkv_take s t) = sc_failed s"
  by (simp_all add: mkv_take_def Let_def)

lemma mkv_loop_mode: "mkv_loop s = (s', cs) \<Longrightarrow> sc_matroska s' = sc_matroska s \<and> sc_ts s' = sc_ts s"
proof (induction s arbitrary: cs s' rule: mkv_loop.induct)
  case (1 s)
  show ?case
  proof (cases "mkv_pending s = []")
    case False
    show ?thesis
    proof (cases "mkv_element s")
      case (E_elem t)
      obtain s1 cs1 where r: "mkv_loop (mkv_take s t) = (s1, cs1)" by fastforce
      then have "s' = s1" using "1.prems" False E_elem by (simp add: mkv_loop.simps [of s])
      then show ?thesis using "1.IH" [OF False E_elem r] by simp
    qed (use 1 False in \<open>auto simp: mkv_loop.simps [of s]\<close>)
  qed (use 1 in \<open>simp add: mkv_loop.simps [of s]\<close>)
qed

lemma sc_feed_mode: "sc_matroska (fst (sc_feed s buf base)) = sc_matroska s"
  using mkv_loop_mode [OF surjective_pairing] by (auto simp: sc_feed_def Let_def)

section \<open>The contract of a slot's scanner\<close>

definition sc_startable :: "bytes \<Rightarrow> nat \<Rightarrow> bool" where
  "sc_startable h a = (ts_packet_at h a \<or> a + 4 \<le> length h \<and> seg h a 4 = cluster_head)"

definition sc_knows :: "video_scanner \<Rightarrow> bytes \<Rightarrow> bool" where
  "sc_knows s h = (if sc_matroska s then sc_failed s \<or> (\<exists>cs. mkv_inv cs s h) else ts_scanned (sc_ts s) h)"

lemma sc_feed_knows: assumes "sc_knows s h" shows "sc_knows (fst (sc_feed s buf (length h))) (h @ buf)"
proof (cases "sc_matroska s \<and> \<not> sc_failed s")
  case True
  then obtain cs where "mkv_inv cs s h" using assms by (auto simp: sc_knows_def)
  then show ?thesis
    using True sc_feed_inv [of cs s h buf] sc_feed_mode [of s buf "length h"]
    by (auto simp: sc_knows_def) (metis prod.collapse)
next
  case False
  then show ?thesis
    using assms ts_feed_scanned [of "sc_ts s" h buf] by (auto simp: sc_knows_def sc_feed_def split: if_splits)
qed

lemma sc_join_startable: assumes "sc_knows s h" "sc_join_offset s = Some a"
  shows "a < length h \<and> sc_startable h a"
proof (cases "sc_matroska s")
  case True
  then obtain cs where i: "mkv_inv cs s h" and a: "mkv_have_anchor s" "a = mkv_anchor s"
    using assms by (auto simp: sc_knows_def sc_join_offset_def split: if_splits)
  then obtain cs0 c where c: "cs = cs0 @ [c]" by (metis mkv_inv_def rev_exhaust)
  have cl: "take 4 c = cluster_head" using i c by (simp add: mkv_inv_def mkv_cluster_def)
  then have "4 \<le> length c" by (metis cluster_head_def length_take length_Cons list.size(3) min.cobounded1 One_nat_def
        eval_nat_numeral(2,3) BitM.simps numeral_One)
  then show ?thesis
    using i a c cl by (auto simp: mkv_inv_def sc_startable_def seg_def butlast_append)
next
  case False
  then show ?thesis
    using assms ts_join_startable [of "sc_ts s" h a] by (auto simp: sc_knows_def sc_join_offset_def sc_startable_def)
qed

interpretation sc: join_scanner sc_knows "\<lambda>s xs base. fst (sc_feed s xs base)" sc_join_offset sc_startable
  using sc_feed_knows sc_join_startable by unfold_locales auto

section \<open>Chunk boundaries do not matter\<close>

lemma mkv_vint_append: "mkv_vint p i \<noteq> V_more \<Longrightarrow> mkv_vint (p @ y) i = mkv_vint p i"
  by (cases p) (auto simp: mkv_vint_def Let_def split: if_splits)

lemma mkv_element_append:
  assumes "mkv_element s \<noteq> E_wait"
  shows "mkv_element (s\<lparr> mkv_pending := mkv_pending s @ y \<rparr>) = mkv_element s"
proof (cases "mkv_vint (mkv_pending s) True")
  case (V_ok eid a)
  note n = mkv_vint_len [OF V_ok]
  have v1: "mkv_vint (mkv_pending s @ y) True = V_ok eid a" using V_ok mkv_vint_append by fastforce
  show ?thesis
  proof (cases "mkv_vint (drop a (mkv_pending s)) False")
    case v2: (V_ok m b)
    have v3: "mkv_vint (drop a (mkv_pending s) @ y) False = V_ok m b" using v2 mkv_vint_append by fastforce
    show ?thesis using assms n by (auto simp: mkv_element_def V_ok v1 v2 v3 Let_def split: if_splits)
  next
    case V_bad
    then have "mkv_vint (drop a (mkv_pending s) @ y) False = V_bad" using mkv_vint_append by fastforce
    then show ?thesis using n by (simp add: mkv_element_def V_ok v1 V_bad)
  qed (use assms V_ok in \<open>simp add: mkv_element_def\<close>)
next
  case V_bad
  then have "mkv_vint (mkv_pending s @ y) True = V_bad" using mkv_vint_append by fastforce
  then show ?thesis by (simp add: mkv_element_def V_bad)
qed (use assms in \<open>simp add: mkv_element_def\<close>)

lemma mkv_take_append: "t \<le> length (mkv_pending s) \<Longrightarrow>
    mkv_take (s\<lparr> mkv_pending := mkv_pending s @ y \<rparr>) t
    = (mkv_take s t)\<lparr> mkv_pending := mkv_pending (mkv_take s t) @ y \<rparr>"
  by (simp add: mkv_take_def Let_def)

text \<open>Bytes that arrive later continue the loop where it stopped.\<close>

lemma mkv_loop_append:
  assumes "mkv_loop s = (s1, cs1)" "\<not> sc_failed s"
  shows "if sc_failed s1
    then sc_failed (fst (mkv_loop (s\<lparr> mkv_pending := mkv_pending s @ y \<rparr>)))
       \<and> snd (mkv_loop (s\<lparr> mkv_pending := mkv_pending s @ y \<rparr>)) = cs1
    else mkv_loop (s\<lparr> mkv_pending := mkv_pending s @ y \<rparr>)
       = (let (s2, cs2) = mkv_loop (s1\<lparr> mkv_pending := mkv_pending s1 @ y \<rparr>) in (s2, cs1 @ cs2))"
  using assms
proof (induction s arbitrary: s1 cs1 rule: mkv_loop.induct)
  case (1 s)
  show ?case
  proof (cases "mkv_pending s = [] \<or> mkv_element s = E_wait")
    case True
    then have "s1 = s" "cs1 = []" using "1.prems" by (auto simp: mkv_loop.simps [of s] split: if_splits)
    then show ?thesis using "1.prems"(2) by simp
  next
    case False
    let ?s = "s\<lparr> mkv_pending := mkv_pending s @ y \<rparr>"
    have el: "mkv_element ?s = mkv_element s" using False by (intro mkv_element_append) simp
    show ?thesis
    proof (cases "mkv_element s")
      case E_fail
      then show ?thesis using "1.prems" False el by (auto simp: mkv_loop.simps [of s] mkv_loop.simps [of ?s])
    next
      case (E_elem t)
      note t = mkv_element_total [OF E_elem]
      obtain s2 cs2 where r: "mkv_loop (mkv_take s t) = (s2, cs2)" by fastforce
      define c where "c = (if mkv_stage s < 4 then [] else [take t (mkv_pending s)])"
      have s1: "s1 = s2" "cs1 = c @ cs2"
        using "1.prems"(1) False E_elem r by (auto simp: mkv_loop.simps [of s] c_def)
      have l: "mkv_loop ?s = (let (a, b) = mkv_loop ((mkv_take s t)\<lparr> mkv_pending := mkv_pending (mkv_take s t) @ y \<rparr>)
          in (a, c @ b))"
        using False E_elem el t mkv_take_append [of t s y] by (simp add: mkv_loop.simps [of ?s] c_def)
      have "mkv_pending s \<noteq> []" using False by simp
      from "1.IH" [OF this E_elem r] "1.prems"(2) show ?thesis
        by (auto simp: l s1 Let_def split: prod.splits if_splits)
    qed (use False in simp)
  qed
qed

lemma sc_feeds_failed: "sc_matroska s \<Longrightarrow> sc_failed s \<Longrightarrow> sc_feeds s base ws = (s, [])"
  by (induction ws arbitrary: base) (simp_all add: sc_feed_def)

lemma mkv_loop_settled: "mkv_settled s \<Longrightarrow> \<not> sc_failed s \<Longrightarrow> mkv_loop s = (s, [])"
  by (subst mkv_loop.simps) (auto simp: mkv_settled_def)

lemma sc_feeds_one:
  assumes "mkv_inv cs0 s h" "sc_matroska s" "\<not> sc_failed s" "mkv_settled s"
    and "sc_feeds s (length h) ws = (s1, cs1)" "sc_feed s (concat ws) (length h) = (s2, cs2)"
  shows "sc_failed s1 = sc_failed s2 \<and> cs1 = cs2 \<and> (\<not> sc_failed s2 \<longrightarrow> s1 = s2)"
  using assms
proof (induction ws arbitrary: s h cs0 cs1 s1 s2 cs2)
  case Nil
  then show ?case
    using mkv_loop_settled [OF Nil.prems(4,3)] sc_feed_eq [OF Nil.prems(1-3), of "[]"] by simp
next
  case (Cons w ws)
  define sw where "sw = s\<lparr> mkv_pending := mkv_pending s @ w \<rparr>"
  obtain sa ca where fa: "mkv_loop sw = (sa, ca)" by fastforce
  obtain sb cb where fb: "sc_feeds sa (length (h @ w)) ws = (sb, cb)" by fastforce
  have w: "sc_feed s w (length h) = (sa, ca)" using sc_feed_eq [OF Cons.prems(1-3)] fa by (simp add: sw_def)
  have r1: "s1 = sb" "cs1 = ca @ cb" using Cons.prems(5) w fb by simp_all
  have r2: "mkv_loop (sw\<lparr> mkv_pending := mkv_pending sw @ concat ws \<rparr>) = (s2, cs2)"
    using sc_feed_eq [OF Cons.prems(1-3)] Cons.prems(6) by (simp add: sw_def)
  have nf: "\<not> sc_failed sw" using Cons.prems(3) by (simp add: sw_def)
  have m: "sc_matroska sa" using mkv_loop_mode [OF fa] Cons.prems(2) by (simp add: sw_def)
  show ?case
  proof (cases "sc_failed sa")
    case True
    then have "sb = sa" "cb = []" using fb sc_feeds_failed m by simp_all
    then show ?thesis using mkv_loop_append [OF fa nf, of "concat ws"] True r1 r2 by simp
  next
    case False
    have inv: "mkv_inv (cs0 @ ca) sa (h @ w)" "mkv_settled sa" using sc_feed_inv [OF Cons.prems(1,2,3) w] by simp_all
    obtain sc cc where fc: "sc_feed sa (concat ws) (length (h @ w)) = (sc, cc)" by fastforce
    then have "mkv_loop (sa\<lparr> mkv_pending := mkv_pending sa @ concat ws \<rparr>) = (sc, cc)"
      using sc_feed_eq [OF inv(1) m False] by simp
    then have "s2 = sc" "cs2 = ca @ cc" using mkv_loop_append [OF fa nf, of "concat ws"] False r2 by simp_all
    then show ?thesis using Cons.IH [OF inv(1) m False inv(2) fb fc] r1 by simp
  qed
qed

section \<open>A well-formed publisher\<close>

text \<open>The encoder of a camera: elements with eight-byte sizes and an open Segment.\<close>

definition mkv_elem :: "nat \<Rightarrow> bytes \<Rightarrow> bytes" where
  "mkv_elem eid payload = be_bytes 4 eid @ (1 # be_bytes 7 (length payload)) @ payload"

definition mkv_segment :: bytes where
  "mkv_segment = be_bytes 4 0x18538067 @ (1 # be_bytes 7 (2 ^ 56 - 1))"

definition mkv_header :: "bytes \<Rightarrow> bytes \<Rightarrow> bytes \<Rightarrow> bytes" where
  "mkv_header ebml info tracks =
     mkv_elem 0x1a45dfa3 ebml @ mkv_segment @ mkv_elem 0x1549a966 info @ mkv_elem 0x1654ae6b tracks"

lemma vint_len_1: "vint_len 1 (Suc 0) = 8"
proof -
  have "vint_len 1 (8 - k) = 8" if "k < 8" for k
    using that by (induction k) (subst vint_len.simps, auto simp: bit_1_iff Suc_diff_Suc)+
  from this [of 7] show ?thesis by simp
qed

lemma mkv_vint_size: assumes "n < 256 ^ 7" shows "mkv_vint (1 # be_bytes 7 n @ r) False = V_ok n 8"
  using assms by (simp add: mkv_vint_def vint_len_1 Let_def be_val_foldl be_val_be_bytes)

lemma vint_len_4:
  assumes "b \<in> {0x1a, 0x18, 0x15, 0x16, 0x1f}" shows "vint_len b (Suc 0) = 4"
proof -
  have "\<not> bit b 7" "\<not> bit b 6" "\<not> bit b 5" "bit b 4" using assms by auto
  then show ?thesis
    by (subst vint_len.simps, simp, subst vint_len.simps, simp, subst vint_len.simps, simp, subst vint_len.simps, simp)
qed

lemma mkv_vint_eid: assumes "v \<in> insert CLUSTER_ID (set header_ids)" shows "mkv_vint (be_bytes 4 v @ r) True = V_ok v 4"
proof -
  obtain b bs where b: "be_bytes 4 v = b # bs" "b \<in> {0x1a, 0x18, 0x15, 0x16, 0x1f}" "v < 256 ^ 4"
    using assms by (auto simp: be_bytes_4 CLUSTER_ID_def header_ids_def)
  have l: "length bs = 3" using length_be_bytes [of 4 v] b(1) by simp
  have "be_val (b # bs) = v" using be_val_be_bytes [of 4 v] b by simp
  then have f: "foldl (\<lambda>v x. v * 256 + unat x) (unat b) bs = v" by (simp add: be_val_foldl be_val_Cons)
  have "b \<noteq> 0" using b(2) by auto
  then show ?thesis using l f vint_len_4 [OF b(2)] by (simp add: mkv_vint_def b(1))
qed

text \<open>One element at the head of the pending bytes, by stage.\<close>

lemma element_header:
  assumes "mkv_stage s < 4" "mkv_stage s \<noteq> 1" "mkv_pending s = mkv_elem (header_ids ! mkv_stage s) p @ r"
    and "length p \<le> 65536" "length (sc_prefix s) + (12 + length p) \<le> 131072"
  shows "mkv_element s = E_elem (12 + length p)"
proof -
  have "header_ids ! mkv_stage s \<in> insert CLUSTER_ID (set header_ids)"
    using assms(1) by (intro insertI2 nth_mem) (simp add: header_ids_def)
  note v = mkv_vint_eid [OF this] mkv_vint_size [of "length p"]
  show ?thesis using assms v by (simp add: mkv_element_def mkv_elem_def)
qed

lemma element_segment:
  assumes "mkv_stage s = 1" "mkv_pending s = mkv_segment @ r" "length (sc_prefix s) + 12 \<le> 131072"
  shows "mkv_element s = E_elem 12"
proof -
  have "header_ids ! 1 \<in> insert CLUSTER_ID (set header_ids)" "header_ids ! 1 = 0x18538067" by (simp_all add: header_ids_def)
  note v = mkv_vint_eid [OF this(1)] this(2)
  have "mkv_vint (1 # be_bytes 7 72057594037927935 @ r) False = V_ok 72057594037927935 8" by (rule mkv_vint_size) simp
  then show ?thesis using assms v by (simp add: mkv_element_def mkv_segment_def)
qed

lemma element_cluster:
  assumes "mkv_stage s = 4" "mkv_pending s = mkv_elem CLUSTER_ID p @ r" "length p \<le> 4 * 1024 * 1024"
  shows "mkv_element s = E_elem (12 + length p)"
proof -
  note v = mkv_vint_eid [of CLUSTER_ID] mkv_vint_size [of "length p"]
  show ?thesis using assms v by (simp add: mkv_element_def mkv_elem_def)
qed

lemma length_mkv_elem [simp]: "length (mkv_elem v p) = 12 + length p"
  by (simp add: mkv_elem_def)

lemma length_mkv_segment [simp]: "length mkv_segment = 12"
  by (simp add: mkv_segment_def)

lemma mkv_loop_elem:
  assumes "mkv_element s = E_elem t"
  shows "mkv_loop s = (fst (mkv_loop (mkv_take s t)),
    (if mkv_stage s < 4 then [] else [take t (mkv_pending s)]) @ snd (mkv_loop (mkv_take s t)))"
proof -
  have "mkv_pending s \<noteq> []" using mkv_element_total [OF assms] by auto
  then show ?thesis using assms by (subst mkv_loop.simps) (simp add: case_prod_beta)
qed

lemma mkv_loop_clusters:
  "mkv_stage s = 4 \<Longrightarrow> mkv_pending s = concat (map (mkv_elem CLUSTER_ID) ps) \<Longrightarrow> \<not> sc_failed s \<Longrightarrow>
   \<forall>p \<in> set ps. length p \<le> 4 * 1024 * 1024 \<Longrightarrow>
   snd (mkv_loop s) = map (mkv_elem CLUSTER_ID) ps \<and> \<not> sc_failed (fst (mkv_loop s))
     \<and> mkv_pending (fst (mkv_loop s)) = [] \<and> sc_prefix (fst (mkv_loop s)) = sc_prefix s"
proof (induction ps arbitrary: s)
  case (Cons p ps)
  have e: "mkv_element s = E_elem (12 + length p)"
    using Cons.prems by (intro element_cluster [where r = "concat (map (mkv_elem CLUSTER_ID) ps)"]) auto
  have "take (12 + length p) (mkv_pending s) = mkv_elem CLUSTER_ID p"
    "drop (12 + length p) (mkv_pending s) = concat (map (mkv_elem CLUSTER_ID) ps)" using Cons.prems by simp_all
  then show ?case using Cons.IH [of "mkv_take s (12 + length p)"] Cons.prems
    by (simp add: mkv_loop_elem [OF e]) (simp add: mkv_take_def Let_def)
qed (simp add: mkv_loop.simps)

text \<open>One header element moves to the prefix.\<close>

lemma mkv_loop_header:
  assumes "mkv_element s = E_elem (length x)" "mkv_stage s < 4" "mkv_pending s = x @ r"
  shows "mkv_loop s = mkv_loop (s\<lparr> sc_prefix := sc_prefix s @ x, mkv_stage := mkv_stage s + 1,
    mkv_pending := r, mkv_offset := mkv_offset s + length x \<rparr>)"
  using mkv_loop_elem [OF assms(1)] assms(2,3) by (simp add: mkv_take_def)

definition mkv_new :: video_scanner where
  "mkv_new = sc_new\<lparr> sc_matroska := True \<rparr>"

lemma mkv_new_inv: "mkv_inv [] mkv_new []" "sc_matroska mkv_new" "\<not> sc_failed mkv_new" "mkv_settled mkv_new"
  by (simp_all add: mkv_new_def sc_new_def mkv_inv_def mkv_settled_def)

lemma mkv_loop_stream:
  assumes "length ebml \<le> 65536" "length info \<le> 65536" "length tracks \<le> 65536"
    and "length (mkv_header ebml info tracks) \<le> 131072" "\<forall>p \<in> set ps. length p \<le> 4 * 1024 * 1024"
    and "s = mkv_new\<lparr> mkv_pending := mkv_header ebml info tracks @ concat (map (mkv_elem CLUSTER_ID) ps) \<rparr>"
  shows "snd (mkv_loop s) = map (mkv_elem CLUSTER_ID) ps \<and> \<not> sc_failed (fst (mkv_loop s))
     \<and> mkv_pending (fst (mkv_loop s)) = [] \<and> sc_prefix (fst (mkv_loop s)) = mkv_header ebml info tracks"
proof -
  let ?e = "mkv_elem 0x1a45dfa3 ebml" and ?i = "mkv_elem 0x1549a966 info" and ?t = "mkv_elem 0x1654ae6b tracks"
    and ?cs = "concat (map (mkv_elem CLUSTER_ID) ps)"
  define s1 where "s1 = s\<lparr> sc_prefix := ?e, mkv_stage := 1, mkv_pending := mkv_segment @ ?i @ ?t @ ?cs, mkv_offset := length ?e \<rparr>"
  define s2 where "s2 = s1\<lparr> sc_prefix := ?e @ mkv_segment, mkv_stage := 2, mkv_pending := ?i @ ?t @ ?cs,
    mkv_offset := mkv_offset s1 + 12 \<rparr>"
  define s3 where "s3 = s2\<lparr> sc_prefix := ?e @ mkv_segment @ ?i, mkv_stage := 3, mkv_pending := ?t @ ?cs,
    mkv_offset := mkv_offset s2 + length ?i \<rparr>"
  define s4 where "s4 = s3\<lparr> sc_prefix := mkv_header ebml info tracks, mkv_stage := 4, mkv_pending := ?cs,
    mkv_offset := mkv_offset s3 + length ?t \<rparr>"
  note st = assms(6) mkv_new_def sc_new_def mkv_header_def header_ids_def
  have "mkv_element s = E_elem (length ?e)"
    using element_header [of s ebml "mkv_segment @ ?i @ ?t @ ?cs"] assms(1,4) by (simp add: st)
  from mkv_loop_header [OF this, of "mkv_segment @ ?i @ ?t @ ?cs"] have "mkv_loop s = mkv_loop s1"
    by (simp add: s1_def st)
  also have "mkv_element s1 = E_elem (length mkv_segment)"
    using element_segment [of s1 "?i @ ?t @ ?cs"] assms(4) by (simp add: s1_def mkv_header_def)
  from mkv_loop_header [OF this, of "?i @ ?t @ ?cs"] have "mkv_loop s1 = mkv_loop s2"
    by (simp add: s2_def s1_def numeral_2_eq_2)
  also have "mkv_element s2 = E_elem (length ?i)"
    using element_header [of s2 info "?t @ ?cs"] assms(2,4) by (simp add: s2_def mkv_header_def header_ids_def)
  from mkv_loop_header [OF this, of "?t @ ?cs"] have "mkv_loop s2 = mkv_loop s3"
    by (simp add: s3_def s2_def)
  also have "mkv_element s3 = E_elem (length ?t)"
    using element_header [of s3 tracks ?cs] assms(3,4) by (simp add: s3_def mkv_header_def header_ids_def)
  from mkv_loop_header [OF this, of ?cs] have "mkv_loop s3 = mkv_loop s4"
    by (simp add: s4_def s3_def mkv_header_def)
  finally have l: "mkv_loop s = mkv_loop s4" .
  have "\<not> sc_failed s4" by (simp add: s4_def s3_def s2_def s1_def st)
  then show ?thesis using mkv_loop_clusters [of s4 ps] assms(5) by (simp add: l) (simp add: s4_def)
qed

text \<open>
  Nothing the Matroska scanner takes in is lost or reordered: for every
  input and every way it is cut into reads, as long as the scanner has not
  failed, the input is the stored codec prefix followed by the clusters handed
  out and the bytes still pending.  Each cluster starts with the Cluster id and
  is at most 4 MiB and 12 bytes, the prefix at most 128 KiB, and the join offset
  is the offset of the last cluster.
\<close>

theorem mkv_conserves:
  assumes "sc_feeds mkv_new 0 ws = (s, cs)" "\<not> sc_failed s"
  shows "concat ws = sc_prefix s @ concat cs @ mkv_pending s
    \<and> (\<forall>c \<in> set cs. mkv_cluster c) \<and> length (sc_prefix s) \<le> 131072
    \<and> sc_join_offset s = (if cs = [] then None else Some (length (sc_prefix s @ concat (butlast cs))))"
proof -
  obtain s2 cs2 where f: "sc_feed mkv_new (concat ws) 0 = (s2, cs2)" by fastforce
  have f0: "sc_feed mkv_new (concat ws) (length ([] :: bytes)) = (s2, cs2)" using f by simp
  have eq: "sc_failed s = sc_failed s2" "cs = cs2" "s = s2"
    using sc_feeds_one [OF mkv_new_inv, of ws s cs s2 cs2] assms f by auto
  have i: "mkv_inv cs s (concat ws)" using sc_feed_inv [OF mkv_new_inv(1-3) f0] eq by simp
  have "sc_matroska s" using sc_feed_mode [of mkv_new "concat ws" 0] f eq mkv_new_inv(2) by simp
  then show ?thesis using i assms(2) by (auto simp: mkv_inv_def sc_join_offset_def)
qed



theorem mkv_conserves_witness:
  "let x = mkv_header [1] [2] [3] @ mkv_elem CLUSTER_ID [9, 9]; s = fst (sc_feeds mkv_new 0 [x])
   in sc_join_offset s = Some (length (sc_prefix s))"
proof -
  let ?x = "mkv_header [1] [2] [3] @ mkv_elem CLUSTER_ID [9, 9]"
  obtain s cs where f: "sc_feeds mkv_new 0 [?x] = (s, cs)" by fastforce
  have "\<not> sc_failed s" "cs = [mkv_elem CLUSTER_ID [9, 9]]"
    using mkv_loop_stream [of "[1]" "[2]" "[3]" "[[9, 9]]", OF _ _ _ _ _ refl] sc_feed_eq [OF mkv_new_inv(1-3), of ?x] f
    by (auto simp: mkv_header_def mkv_new_def sc_new_def split: prod.splits)
  then show ?thesis using mkv_conserves [OF f] f by simp
qed

section \<open>The chunk decoder\<close>

lemma ch_feed_data:
  assumes "ch_remaining c > 0"
  shows "length xs < ch_remaining c \<Longrightarrow> ch_feed c xs = (Some (c\<lparr> ch_remaining := ch_remaining c - length xs \<rparr>), xs)"
    and "ch_remaining c \<le> length xs \<Longrightarrow> ch_feed c xs =
      (let (r, out) = ch_feed (c\<lparr> ch_remaining := 0, ch_ending := 2 \<rparr>) (drop (ch_remaining c) xs)
       in (r, take (ch_remaining c) xs @ out))"
proof -
  show "ch_feed c xs = (Some (c\<lparr> ch_remaining := ch_remaining c - length xs \<rparr>), xs)" if "length xs < ch_remaining c"
    using that by (cases xs) (auto simp: min_absorb1 Let_def)
  show "ch_feed c xs = (let (r, out) = ch_feed (c\<lparr> ch_remaining := 0, ch_ending := 2 \<rparr>) (drop (ch_remaining c) xs)
       in (r, take (ch_remaining c) xs @ out))" if "ch_remaining c \<le> length xs"
    using that assms by (cases xs) (auto simp: min_absorb2 Let_def)
qed

lemma ch_feed_append:
  "ch_feed c (xs @ ys) = (case ch_feed c xs of (None, out) \<Rightarrow> (None, out)
     | (Some c', out) \<Rightarrow> (let (r, out') = ch_feed c' ys in (r, out @ out')))"
proof (induction "length xs" arbitrary: c xs rule: less_induct)
  case less
  show ?case
  proof (cases "ch_remaining c > 0")
    case True
    show ?thesis
    proof (cases "length xs < ch_remaining c")
      case short: True
      define c1 where "c1 = c\<lparr> ch_remaining := ch_remaining c - length xs \<rparr>"
      have c1: "ch_remaining c1 > 0" "ch_remaining c1 = ch_remaining c - length xs"
        "c1\<lparr> ch_remaining := n \<rparr> = c\<lparr> ch_remaining := n \<rparr>" for n using short by (simp_all add: c1_def)
      show ?thesis
      proof (cases "length (xs @ ys) < ch_remaining c")
        case True
        then show ?thesis
          using ch_feed_data(1) [OF \<open>0 < ch_remaining c\<close>] ch_feed_data(1) [OF c1(1), of ys] short c1
          by (simp flip: c1_def)
      next
        case False
        then show ?thesis
          using ch_feed_data(1) [OF \<open>0 < ch_remaining c\<close> short] ch_feed_data(2) [OF \<open>0 < ch_remaining c\<close>, of "xs @ ys"]
            ch_feed_data(2) [OF c1(1), of ys] short c1
          by (simp flip: c1_def split: prod.splits)
      qed
    next
      case False
      then have "length (drop (ch_remaining c) xs) < length xs" using True by simp
      from less [OF this] show ?thesis
        using False True ch_feed_data(2) [OF True, of xs] ch_feed_data(2) [OF True, of "xs @ ys"]
        by (auto simp: Let_def split: prod.splits option.splits)
    qed
  next
    case False
    show ?thesis
    proof (cases xs)
      case (Cons x xr)
      then show ?thesis using False less [of xr] by (auto simp: Let_def split: option.splits)
    qed (simp split: prod.splits)
  qed
qed

fun ch_feeds :: "video_chunks \<Rightarrow> bytes list \<Rightarrow> video_chunks option \<times> bytes" where
  "ch_feeds c [] = (Some c, [])"
| "ch_feeds c (w # ws) = (case ch_feed c w of (None, out) \<Rightarrow> (None, out)
     | (Some c', out) \<Rightarrow> (let (r, out') = ch_feeds c' ws in (r, out @ out')))"

lemma ch_feeds_concat: "ch_feeds c ws = ch_feed c (concat ws)"
  by (induction ws arbitrary: c) (simp_all add: ch_feed_append split: prod.splits option.splits)

text \<open>The encoder of a publisher: a lower-case hexadecimal length line, the data, a line end.\<close>

definition hex_char :: "nat \<Rightarrow> char" where
  "hex_char d = char_of (if d < 10 then 48 + d else 87 + d)"

function show_hex :: "nat \<Rightarrow> string" where
  "show_hex n = (if n < 16 then [hex_char n] else show_hex (n div 16) @ [hex_char (n mod 16)])"
  by pat_completeness auto
termination by (relation "measure id") auto

declare show_hex.simps [simp del]

definition chunk_enc :: "bytes \<Rightarrow> bytes" where
  "chunk_enc d = str_bytes (show_hex (length d)) @ [13, 10] @ d @ [13, 10]"

lemma hex_char_digit: "d < 16 \<Longrightarrow> chunk_digit (hex_char d) = d"
  by (simp add: hex_char_def chunk_digit_def of_char_of Let_def)

lemma chunk_length_append: "chunk_length (xs @ ys) a = (case chunk_length xs a of None \<Rightarrow> None | Some b \<Rightarrow> chunk_length ys b)"
  by (induction xs arbitrary: a) auto

lemma chunk_length_show: "n \<le> 4 * 1024 * 1024 \<Longrightarrow> chunk_length (show_hex n) 0 = Some n"
proof (induction n rule: show_hex.induct)
  case (1 n)
  show ?case
  proof (cases "n < 16")
    case True
    then show ?thesis by (subst show_hex.simps) (simp add: hex_char_digit)
  next
    case False
    have "n div 16 \<le> 262144" using 1(2) by (simp add: div_le_mono [of n 4194304 16, simplified])
    then show ?thesis using 1 False by (subst show_hex.simps) (simp add: chunk_length_append hex_char_digit)
  qed
qed

lemma length_show_hex: "n < 16 ^ k \<Longrightarrow> 0 < k \<Longrightarrow> length (show_hex n) \<le> k"
proof (induction n arbitrary: k rule: show_hex.induct)
  case (1 n)
  show ?case
  proof (cases "n < 16")
    case False
    then obtain k' where k: "k = Suc k'" "0 < k'" using 1(2,3) by (cases k; cases "k - 1") auto
    have "n div 16 < 16 ^ k'" using 1(2) k by (simp add: div_less_iff_less_mult mult.commute)
    then show ?thesis using 1(1) [OF False] k False by (subst show_hex.simps) simp
  qed (use 1 in \<open>subst show_hex.simps, simp\<close>)
qed

lemma show_hex_bytes: "show_hex n \<noteq> [] \<and> (\<forall>c \<in> set (show_hex n). byte_of (of_char c) \<noteq> 10)"
proof (induction n rule: show_hex.induct)
  case (1 n)
  have h: "byte_of (of_char (hex_char d)) \<noteq> 10" if "d < 16" for d
  proof
    assume "byte_of (of_char (hex_char d)) = 10"
    then have "unat (byte_of (of_char (hex_char d))) = unat (10 :: byte)" by (rule arg_cong)
    then show False using that by (auto simp: hex_char_def of_char_of split: if_splits)
  qed
  show ?case using 1 h [of n] h [of "n mod 16"] by (cases "n < 16") (subst (1 2) show_hex.simps, simp)+
qed

text \<open>The decoder collects a length line of at most ten characters.\<close>

lemma ch_feed_line:
  assumes "ch_remaining c = 0" "ch_ending c = 0" "\<forall>b \<in> set bs. b \<noteq> 10" "length (ch_line c) + length bs \<le> 10"
  shows "ch_feed c (bs @ r) = ch_feed (c\<lparr> ch_line := ch_line c @ bytes_str bs \<rparr>) r"
  using assms
proof (induction bs arbitrary: c)
  case (Cons b bs)
  have "ch_feed c ((b # bs) @ r) = ch_feed (c\<lparr> ch_line := ch_line c @ [char_of (unat b)] \<rparr>) (bs @ r)"
    using Cons.prems by (simp add: Let_def)
  also have "\<dots> = ch_feed (c\<lparr> ch_line := ch_line c @ bytes_str (b # bs) \<rparr>) r"
    using Cons.IH [of "c\<lparr> ch_line := ch_line c @ [char_of (unat b)] \<rparr>"] Cons.prems by (simp add: bytes_str_def)
  finally show ?case .
qed (simp add: bytes_str_def)

lemma ch_feed_enc:
  assumes "d \<noteq> []" "length d \<le> 4 * 1024 * 1024"
  shows "ch_feed ch_new (chunk_enc d @ r) = (let (x, out) = ch_feed ch_new r in (x, d @ out))"
proof -
  let ?h = "show_hex (length d)"
  define c1 where "c1 = ch_new\<lparr> ch_line := ?h @ [CHR 0x0D] \<rparr>"
  define c2 where "c2 = ch_new\<lparr> ch_remaining := length d \<rparr>"
  have l: "length ?h \<le> 7" using length_show_hex [of "length d" 7] assms(2) by simp
  have "char_of (unat (13 :: byte)) = CHR 0x0D" by (simp add: char_of_def bit_numeral_rec bit_0)
  then have h: "bytes_str (str_bytes ?h @ [13]) = ?h @ [CHR 0x0D]"
    using bytes_str_str_bytes [of ?h] by (simp add: bytes_str_def)
  have "\<forall>b \<in> set (str_bytes ?h @ [13]). b \<noteq> 10"
    using show_hex_bytes [of "length d"] by (auto simp: str_bytes_def)
  then have "ch_feed ch_new ((str_bytes ?h @ [13]) @ [10] @ d @ [13, 10] @ r)
      = ch_feed c1 ([10] @ d @ [13, 10] @ r)"
    using ch_feed_line [of ch_new "str_bytes ?h @ [13]" "[10] @ d @ [13, 10] @ r"] l h
    by (simp add: ch_new_def c1_def del: ch_feed.simps)
  moreover have "chunk_length ?h 0 = Some (length d)" using assms(2) by (rule chunk_length_show)
  then have "ch_feed c1 ([10] @ d @ [13, 10] @ r) = ch_feed c2 (d @ [13, 10] @ r)"
    using assms show_hex_bytes [of "length d"] by (simp add: c1_def c2_def ch_new_def)
  moreover have "ch_feed c2 (d @ [13, 10] @ r) = (let (x, out) = ch_feed ch_new r in (x, d @ out))"
    using ch_feed_data(2) [of c2 "d @ [13, 10] @ r"] assms(1) by (simp add: c2_def ch_new_def)
  ultimately show ?thesis by (simp add: chunk_enc_def)
qed

text \<open>
  The chunk decoder inverts chunked encoding: any sequence of non-empty
  chunks of up to 4 MiB, delivered in any pieces, is accepted and comes out as
  the concatenation of the chunk data, and the decoder is ready for the next
  chunk.
\<close>

theorem chunks_roundtrip:
  assumes "\<forall>d \<in> set ds. d \<noteq> [] \<and> length d \<le> 4 * 1024 * 1024" "concat ws = concat (map chunk_enc ds)"
  shows "ch_feeds ch_new ws = (Some ch_new, concat ds)"
proof -
  have "ch_feed ch_new (concat (map chunk_enc ds)) = (Some ch_new, concat ds)"
    using assms(1) by (induction ds) (simp_all add: ch_feed_enc)
  then show ?thesis by (simp add: ch_feeds_concat assms(2))
qed

theorem chunks_roundtrip_witness:
  "ch_feeds ch_new [take 3 (chunk_enc [7, 8] @ chunk_enc [9]), drop 3 (chunk_enc [7, 8] @ chunk_enc [9])]
   = (Some ch_new, [7, 8, 9])"
  using chunks_roundtrip [of "[[7, 8], [9]]" "[take 3 (chunk_enc [7, 8] @ chunk_enc [9]), drop 3 (chunk_enc [7, 8] @ chunk_enc [9])]"]
  by (simp del: take_append drop_append ch_feeds.simps)

end
