(* ===== verification/Web_Socket.thy ===== *)
theory Web_Socket
  imports SP_Prelude
begin

text \<open>
  The WebSocket endpoint of \<open>src/websocket.cpp\<close>: detection of a handshake on a
  fresh connection, the HTTP upgrade, frame decoding with fragmentation and
  control frames, framing of output and the flush of the output queue, over a
  plain socket or TLS.  OpenSSL is outside the program: \<open>accept_of\<close>, a parameter
  of the upgrade, is \<open>base64(SHA1(key + guid))\<close>, and TLS record processing shows
  only through the answers to reads and writes.  \<open>ws_wire\<close> records the bytes the
  socket accepted.
\<close>

section \<open>Detection\<close>

datatype ws_detect_t = WS_NO | WS_YES | WS_MORE

definition ws_prefix :: bytes where "ws_prefix = str_bytes ''GET ''"
definition wss_prefix :: bytes where "wss_prefix = [0x16, 0x03, 0x01]"

text \<open>The argument is what the peek returned: \<open>None\<close> for an error, at most 8 bytes.\<close>

definition ws_detect :: "bytes option \<Rightarrow> ws_detect_t" where
  "ws_detect peek = (case peek of None \<Rightarrow> WS_MORE
     | Some b \<Rightarrow>
         if b = [] then WS_MORE
         else
           let n = length b;
               wss_cmp = (if n < length wss_prefix then n else length wss_prefix);
               ws_cmp = (if n < length ws_prefix then n else length ws_prefix)
           in if take wss_cmp wss_prefix = take wss_cmp b
              then (if n \<ge> length wss_prefix then WS_YES else WS_MORE)
              else if take ws_cmp ws_prefix = take ws_cmp b
              then (if n \<ge> length ws_prefix then WS_YES else WS_MORE)
              else WS_NO)"

section \<open>State\<close>

definition WS_DEFAULT_MAX_MESSAGE :: nat where "WS_DEFAULT_MAX_MESSAGE = 256 * 1024"
definition WS_MAX_TX_QUEUE :: nat where "WS_MAX_TX_QUEUE = 1024 * 1024"
definition WS_READ_CHUNK :: nat where "WS_READ_CHUNK = 16384"
definition WS_TLS_CHUNK :: nat where "WS_TLS_CHUNK = 16384"

lemmas ws_consts = WS_DEFAULT_MAX_MESSAGE_def WS_MAX_TX_QUEUE_def WS_READ_CHUNK_def WS_TLS_CHUNK_def

record websocket =
  ws_alive :: bool
  ws_ssl :: bool
  done_headers :: bool
  sent_close :: bool
  max_message :: nat
  ws_rx :: bytes
  ws_msg :: bytes
  msg_taken :: nat
  in_fragment :: bool
  ws_tx :: bytes
  tx_sent :: nat
  tls_tx :: bytes
  req_target :: string
  handshake_buf :: bytes
  handshake_sent :: nat
  ws_wire :: bytes

section \<open>Output\<close>

text \<open>The header of an unmasked, unfragmented frame.\<close>

definition frame_header :: "nat \<Rightarrow> nat \<Rightarrow> bytes" where
  "frame_header opcode n =
     byte_of (0x80 + opcode mod 16) #
     (if n \<le> 125 then [byte_of n]
      else if n \<le> 65535 then 126 # be_bytes 2 n
      else 127 # be_bytes 8 n)"

definition queue_frame :: "websocket \<Rightarrow> nat \<Rightarrow> bytes \<Rightarrow> websocket" where
  "queue_frame w opcode payload =
     (let w1 = (if tx_sent w > 0 \<and> tx_sent w = length (ws_tx w)
                then w\<lparr> ws_tx := [], tx_sent := 0 \<rparr> else w)
      in w1\<lparr> ws_tx := ws_tx w1 @ frame_header opcode (length payload) @ payload \<rparr>)"

text \<open>
  What one write offers: under TLS a record that stays the same until it is
  accepted, on a plain socket everything that is queued.
\<close>

definition flush_offer :: "websocket \<Rightarrow> bytes" where
  "flush_offer w = (let remain = drop (tx_sent w) (ws_tx w) in
     if ws_ssl w then (if tls_tx w = [] then take WS_TLS_CHUNK remain else tls_tx w) else remain)"

definition flush_sent :: "websocket \<Rightarrow> nat \<Rightarrow> websocket" where
  "flush_sent w n = (let k = min n (length (flush_offer w)) in
     w\<lparr> ws_wire := ws_wire w @ take k (flush_offer w), tls_tx := [], tx_sent := tx_sent w + k \<rparr>)"

fun ws_flush :: "websocket \<Rightarrow> net_write list \<Rightarrow> websocket \<times> net_write list \<times> bool" where
  "ws_flush w outs =
     (if tx_sent w < length (ws_tx w) then
        (case outs of
           [] \<Rightarrow> (if ws_ssl w then w\<lparr> tls_tx := flush_offer w \<rparr> else w, [], True)
         | W_again # os \<Rightarrow> (if ws_ssl w then w\<lparr> tls_tx := flush_offer w \<rparr> else w, os, True)
         | W_fail # os \<Rightarrow> ((if ws_ssl w then w\<lparr> tls_tx := flush_offer w \<rparr> else w)\<lparr> ws_alive := False \<rparr>, os, False)
         | W_sent n # os \<Rightarrow>
             if ws_ssl w \<and> n = 0
             then (w\<lparr> tls_tx := flush_offer w, ws_alive := False \<rparr>, os, False)
             else ws_flush (flush_sent w n) os)
      else (w\<lparr> ws_tx := [], tx_sent := 0 \<rparr>, outs, True))"

declare ws_flush.simps [simp del]

definition WS_OP_CONT :: nat where "WS_OP_CONT = 0x0"
definition WS_OP_TEXT :: nat where "WS_OP_TEXT = 0x1"
definition WS_OP_BIN :: nat where "WS_OP_BIN = 0x2"
definition WS_OP_CLOSE :: nat where "WS_OP_CLOSE = 0x8"
definition WS_OP_PING :: nat where "WS_OP_PING = 0x9"
definition WS_OP_PONG :: nat where "WS_OP_PONG = 0xA"

lemmas ws_ops = WS_OP_CONT_def WS_OP_TEXT_def WS_OP_BIN_def WS_OP_CLOSE_def WS_OP_PING_def WS_OP_PONG_def

text \<open>\<open>WebSocket::send\<close>; the result is the return value, \<open>None\<close> for \<open>-1\<close>.\<close>

definition ws_send :: "websocket \<Rightarrow> bytes \<Rightarrow> net_write list \<Rightarrow> websocket \<times> net_write list \<times> nat option" where
  "ws_send w buf outs =
     (if \<not> done_headers w then (w, outs, Some (length buf))
      else if \<not> ws_alive w then (w, outs, None)
      else if length (ws_tx w) - tx_sent w > WS_MAX_TX_QUEUE then (w\<lparr> ws_alive := False \<rparr>, outs, None)
      else
        let (w1, outs1, ok) = ws_flush (queue_frame w WS_OP_BIN buf) outs
        in (w1, outs1, if ok then Some (length buf) else None))"

section \<open>Frame decoding\<close>

datatype frame_head =
    Need_more
  | Head (hd_fin: bool) (hd_opcode: nat) (hd_masked: bool) (hd_len: nat) (hd_size: nat)

text \<open>Opcode, flags and the 7, 16 or 64-bit payload length.\<close>

definition frame_head_of :: "bytes \<Rightarrow> frame_head" where
  "frame_head_of f =
     (if length f < 2 then Need_more
      else
        let fin = (f ! 0 AND 0x80 \<noteq> 0);
            opcode = unat (f ! 0 AND 0x0F);
            masked = (f ! 1 AND 0x80 \<noteq> 0);
            l7 = unat (f ! 1 AND 0x7F)
        in if l7 = 126 then (if length f < 4 then Need_more else Head fin opcode masked (be_val (seg f 2 2)) 4)
           else if l7 = 127 then (if length f < 10 then Need_more else Head fin opcode masked (be_val (seg f 2 8)) 10)
           else Head fin opcode masked l7 2)"

definition unmask :: "bytes \<Rightarrow> bytes \<Rightarrow> bytes" where
  "unmask m payload = map (\<lambda>i. payload ! i XOR m ! (i mod 4)) [0 ..< length payload]"

text \<open>The \<open>switch\<close> on the opcode of a complete frame.\<close>

definition ws_frame :: "websocket \<Rightarrow> bool \<Rightarrow> nat \<Rightarrow> bytes \<Rightarrow> net_write list \<Rightarrow> websocket \<times> net_write list \<times> bool" where
  "ws_frame w fin opcode payload outs =
     (if opcode = WS_OP_CLOSE then
        (if \<not> sent_close w then
           let (w1, outs1, ok) = ws_flush ((queue_frame w WS_OP_CLOSE payload)\<lparr> sent_close := True \<rparr>) outs
           in (w1, outs1, False)
         else (w, outs, False))
      else if opcode = WS_OP_PING then
        let (w1, outs1, ok) = ws_flush (queue_frame w WS_OP_PONG payload) outs in (w1, outs1, True)
      else if opcode = WS_OP_PONG then (w, outs, True)
      else if opcode = WS_OP_CONT then
        (if \<not> in_fragment w then (w, outs, False)
         else if length (ws_msg w) + length payload > max_message w then (w, outs, False)
         else (w\<lparr> ws_msg := ws_msg w @ payload, in_fragment := (if fin then False else in_fragment w) \<rparr>, outs, True))
      else if opcode = WS_OP_TEXT \<or> opcode = WS_OP_BIN then
        (if in_fragment w then (w, outs, False)
         else if length (ws_msg w) + length payload > max_message w then (w, outs, False)
         else (w\<lparr> ws_msg := ws_msg w @ payload, in_fragment := (if \<not> fin then True else in_fragment w) \<rparr>, outs, True))
      else (w, outs, False))"

text \<open>
  The decode loop over the undecoded bytes: the bytes left over, and whether
  the stream is still sound.
\<close>

function ws_decode :: "websocket \<Rightarrow> bytes \<Rightarrow> net_write list \<Rightarrow> websocket \<times> bytes \<times> net_write list \<times> bool" where
  "ws_decode w f outs =
     (case frame_head_of f of
        Need_more \<Rightarrow> (w, f, outs, True)
      | Head fin opcode masked len hdr \<Rightarrow>
          if len > max_message w then (w, f, outs, False)
          else if \<not> masked then (w, f, outs, False)
          else if opcode AND 8 \<noteq> 0 \<and> (len > 125 \<or> \<not> fin) then (w, f, outs, False)
          else if length f < hdr + 4 + len then (w, f, outs, True)
          else
            let payload = unmask (seg f hdr 4) (seg f (hdr + 4) len);
                (w1, outs1, ok) = ws_frame w fin opcode payload outs
            in if ok then ws_decode w1 (drop (hdr + 4 + len) f) outs1
               else (w1, f, outs1, False))"
  by pat_completeness auto
termination
  by (relation "measure (\<lambda>(w, f, outs). length f)") auto

declare ws_decode.simps [simp del]

definition decode_frames :: "websocket \<Rightarrow> net_write list \<Rightarrow> websocket \<times> net_write list \<times> bool" where
  "decode_frames w outs =
     (let (w1, rest, outs1, ok) = ws_decode w (ws_rx w) outs
      in (if ok then w1\<lparr> ws_rx := rest \<rparr> else w1, outs1, ok))"

section \<open>Handshake\<close>

definition handshake_text :: "string \<Rightarrow> bytes" where
  "handshake_text accept_val = str_bytes
     (''HTTP/1.1 101 Switching Protocols'' @ [CHR 0x0D, CHR 0x0A] @
      ''Upgrade: websocket'' @ [CHR 0x0D, CHR 0x0A] @
      ''Connection: Upgrade'' @ [CHR 0x0D, CHR 0x0A] @
      ''Sec-WebSocket-Accept: '' @ accept_val @ [CHR 0x0D, CHR 0x0A] @ [CHR 0x0D, CHR 0x0A])"

text \<open>The write loop of \<open>send_handshake\<close>.\<close>

fun handshake_push :: "websocket \<Rightarrow> net_write list \<Rightarrow> websocket \<times> net_write list \<times> bool" where
  "handshake_push w outs =
     (if handshake_sent w < length (handshake_buf w) then
        (case outs of
           [] \<Rightarrow> (w, [], False)
         | W_again # os \<Rightarrow> (w, os, False)
         | W_fail # os \<Rightarrow> (w\<lparr> ws_alive := False \<rparr>, os, False)
         | W_sent n # os \<Rightarrow>
             if ws_ssl w \<and> n = 0 then (w\<lparr> ws_alive := False \<rparr>, os, False)
             else
               let rest = drop (handshake_sent w) (handshake_buf w); k = min n (length rest)
               in handshake_push (w\<lparr> ws_wire := ws_wire w @ take k rest,
                                     handshake_sent := handshake_sent w + k \<rparr>) os)
      else (w, outs, True))"

declare handshake_push.simps [simp del]

definition send_handshake :: "(string \<Rightarrow> string) \<Rightarrow> websocket \<Rightarrow> string \<Rightarrow> net_write list
    \<Rightarrow> websocket \<times> net_write list \<times> bool" where
  "send_handshake accept_of w key outs =
     (let w1 = (if handshake_buf w = []
                then w\<lparr> handshake_buf := handshake_text (accept_of key), handshake_sent := 0 \<rparr> else w)
      in handshake_push w1 outs)"

definition crlf :: string where "crlf = [CHR 0x0D, CHR 0x0A]"

definition key_marker :: string where "key_marker = ''Sec-WebSocket-Key: ''"

text \<open>The request target and the key of a complete header block.\<close>

definition header_target :: "string \<Rightarrow> string option" where
  "header_target headers = (case find_sub '' '' headers of None \<Rightarrow> None
     | Some sp1 \<Rightarrow> (case find_sub_from '' '' headers (sp1 + 1) of None \<Rightarrow> None
         | Some sp2 \<Rightarrow> Some (seg headers (sp1 + 1) (sp2 - sp1 - 1))))"

definition header_key :: "string \<Rightarrow> string option" where
  "header_key headers = (case find_sub key_marker headers of None \<Rightarrow> None
     | Some kp \<Rightarrow>
         let key_pos = kp + length key_marker in
         (case find_sub_from crlf headers key_pos of None \<Rightarrow> None
          | Some hend \<Rightarrow> Some (seg headers key_pos (hend - key_pos))))"

definition check_headers :: "(string \<Rightarrow> string) \<Rightarrow> websocket \<Rightarrow> net_write list \<Rightarrow> websocket \<times> net_write list" where
  "check_headers accept_of w outs =
     (case find_sub (str_bytes (crlf @ crlf)) (ws_rx w) of
        None \<Rightarrow> (w, outs)
      | Some i \<Rightarrow>
          let header_bytes = i + 4;
              headers = bytes_str (take header_bytes (ws_rx w));
              w1 = (case header_target headers of None \<Rightarrow> w | Some t \<Rightarrow> w\<lparr> req_target := t \<rparr>)
          in (case header_key headers of
                None \<Rightarrow> (w1, outs)
              | Some key \<Rightarrow>
                  let (w2, outs1, ok) = send_handshake accept_of w1 key outs
                  in (if ok then w2\<lparr> done_headers := True, ws_rx := drop header_bytes (ws_rx w2) \<rparr> else w2,
                      outs1)))"

section \<open>Input\<close>

text \<open>
  One read.  While the TLS handshake is pending the answer is \<open>R_again\<close>; EOF, a
  TLS shutdown and an error are all \<open>R_fail\<close>.
\<close>

definition fill_pending :: "websocket \<Rightarrow> net_read \<Rightarrow> websocket" where
  "fill_pending w inp =
     (if \<not> ws_alive w then w
      else if length (ws_rx w) > max_message w + 64 then w\<lparr> ws_alive := False \<rparr>
      else case inp of
             R_again \<Rightarrow> w
           | R_fail \<Rightarrow> w\<lparr> ws_alive := False \<rparr>
           | R_data d \<Rightarrow> if d = [] then w\<lparr> ws_alive := False \<rparr>
                        else w\<lparr> ws_rx := ws_rx w @ take WS_READ_CHUNK d \<rparr>)"

text \<open>The constructor, after the peek that tells TLS from a plain socket.\<close>

definition ws_new :: "(string \<Rightarrow> string) \<Rightarrow> bytes \<Rightarrow> nat \<Rightarrow> net_read \<Rightarrow> net_write list \<Rightarrow> websocket \<times> net_write list" where
  "ws_new accept_of peek maxm inp outs =
     check_headers accept_of
       (fill_pending
          \<lparr> ws_alive = True,
            ws_ssl = (length peek \<ge> length wss_prefix \<and> take (length wss_prefix) peek = wss_prefix),
            done_headers = False, sent_close = False, max_message = maxm, ws_rx = [], ws_msg = [],
            msg_taken = 0, in_fragment = False, ws_tx = [], tx_sent = 0, tls_tx = [], req_target = [],
            handshake_buf = [], handshake_sent = 0, ws_wire = [] \<rparr> inp) outs"

definition take_msg :: "websocket \<Rightarrow> nat \<Rightarrow> websocket \<times> bytes" where
  "take_msg w n =
     (let avail = length (ws_msg w) - msg_taken w;
          k = (if n < avail then n else avail);
          out = seg (ws_msg w) (msg_taken w) k;
          w1 = w\<lparr> msg_taken := msg_taken w + k \<rparr>
      in (if msg_taken w1 = length (ws_msg w1) then w1\<lparr> ws_msg := [], msg_taken := 0 \<rparr> else w1, out))"

text \<open>\<open>WebSocket::recv\<close>; \<open>None\<close> is \<open>-1\<close>, the empty list is \<open>0\<close>.\<close>

definition ws_recv :: "(string \<Rightarrow> string) \<Rightarrow> websocket \<Rightarrow> nat \<Rightarrow> net_read \<Rightarrow> net_write list
    \<Rightarrow> websocket \<times> net_write list \<times> bytes option" where
  "ws_recv accept_of w n inp outs =
     (if msg_taken w < length (ws_msg w) then
        let (w1, out) = take_msg w n in (w1, outs, Some out)
      else
        let w1 = fill_pending w inp
        in if \<not> ws_alive w1 then (w1, outs, None)
           else
             let (w2, outs2) = (if done_headers w1 then (w1, outs) else check_headers accept_of w1 outs)
             in if \<not> done_headers w2 then (w2, outs2, Some [])
                else
                  let (w3, outs3, ok) = decode_frames w2 outs2
                  in if \<not> ok then (w3\<lparr> ws_alive := False \<rparr>, outs3, None)
                     else if in_fragment w3 \<or> ws_msg w3 = [] then (w3, outs3, Some [])
                     else let (w4, out) = take_msg (w3\<lparr> msg_taken := 0 \<rparr>) n in (w4, outs3, Some out))"

section \<open>The output stream\<close>

text \<open>
  \<open>ws_stream w\<close> is everything the peer has been or will be sent: what the socket
  accepted, then what is still queued.
\<close>

definition ws_stream :: "websocket \<Rightarrow> bytes" where
  "ws_stream w = ws_wire w @ drop (tx_sent w) (ws_tx w)"

definition ws_tx_inv :: "websocket \<Rightarrow> bool" where
  "ws_tx_inv w = (tx_sent w \<le> length (ws_tx w)
     \<and> (if ws_ssl w then take (length (tls_tx w)) (drop (tx_sent w) (ws_tx w)) = tls_tx w else tls_tx w = []))"

lemma flush_offer_prefix:
  "ws_tx_inv w \<Longrightarrow> flush_offer w = take (length (flush_offer w)) (drop (tx_sent w) (ws_tx w))"
  by (auto simp: flush_offer_def Let_def ws_tx_inv_def min_def)

lemma flush_sent_inv:
  assumes "ws_tx_inv w"
  shows "ws_tx_inv (flush_sent w n) \<and> ws_stream (flush_sent w n) = ws_stream w"
proof -
  define off where "off = flush_offer w"
  define k where "k = min n (length off)"
  have p: "off = take (length off) (drop (tx_sent w) (ws_tx w))"
    using flush_offer_prefix [OF assms] by (simp add: off_def)
  then have lo: "length off \<le> length (ws_tx w) - tx_sent w"
    using arg_cong [of _ _ length] by fastforce
  have tk: "take k off = take k (drop (tx_sent w) (ws_tx w))"
    by (subst p) (simp add: k_def)
  have le: "tx_sent w + k \<le> length (ws_tx w)"
    using lo assms by (auto simp: k_def ws_tx_inv_def)
  have "take k (drop (tx_sent w) (ws_tx w)) @ drop (tx_sent w + k) (ws_tx w) = drop (tx_sent w) (ws_tx w)"
    by (metis append_take_drop_id drop_drop add.commute)
  then show ?thesis
    using le by (simp add: flush_sent_def Let_def ws_tx_inv_def ws_stream_def flip: off_def k_def add: tk)
qed

lemma ws_flush_stream:
  assumes "ws_flush w outs = (w', outs', ok)" "ws_tx_inv w"
  shows "ws_tx_inv w' \<and> ws_stream w' = ws_stream w"
  using assms
proof (induction w outs arbitrary: w' outs' ok rule: ws_flush.induct)
  case (1 w outs)
  have off: "ws_ssl w \<Longrightarrow> ws_tx_inv (w\<lparr> tls_tx := flush_offer w \<rparr>)"
    using flush_offer_prefix [OF "1.prems"(2)] "1.prems"(2) by (simp add: ws_tx_inv_def)
  have off2: "ws_ssl w \<Longrightarrow> ws_tx_inv (w\<lparr> tls_tx := flush_offer w, ws_alive := False \<rparr>)"
    "ws_tx_inv (w\<lparr> ws_alive := False \<rparr>)"
    using off "1.prems"(2) by (simp_all add: ws_tx_inv_def)
  have st: "ws_stream (w\<lparr> tls_tx := x, ws_alive := a \<rparr>) = ws_stream w"
    "ws_stream (w\<lparr> tls_tx := x \<rparr>) = ws_stream w" "ws_stream (w\<lparr> ws_alive := a \<rparr>) = ws_stream w" for x a
    by (simp_all add: ws_stream_def)
  show ?case
  proof (cases "tx_sent w < length (ws_tx w)")
    case False
    then show ?thesis
      using "1.prems" by (subst (asm) ws_flush.simps) (auto simp: ws_tx_inv_def ws_stream_def split: if_splits)
  next
    case True
    show ?thesis
    proof (cases "\<exists>n os. outs = W_sent n # os \<and> \<not> (ws_ssl w \<and> n = 0)")
      case False
      then show ?thesis
        using True "1.prems" off off2 st
        by (subst (asm) ws_flush.simps) (auto split: list.splits net_write.splits if_splits)
    next
      case c: True
      then obtain n os where o: "outs = W_sent n # os" "\<not> (ws_ssl w \<and> n = 0)" by blast
      have "ws_flush (flush_sent w n) os = (w', outs', ok)"
        using "1.prems"(1) True o by (subst (asm) ws_flush.simps) simp
      from "1.IH" [OF True o(1) refl o(2) this] flush_sent_inv [OF "1.prems"(2), of n] show ?thesis by simp
    qed
  qed
qed

text \<open>A complete frame as it goes on the wire.\<close>

definition server_frame :: "nat \<Rightarrow> bytes \<Rightarrow> bytes" where
  "server_frame opcode payload = frame_header opcode (length payload) @ payload"

lemma take_prefix_append: "take (length p) xs = p \<Longrightarrow> take (length p) (xs @ ys) = p"
  by (metis append_Nil2 diff_is_0_eq' length_take min.cobounded1 take0 take_append)

lemma queue_frame_stream:
  assumes "ws_tx_inv w"
  shows "ws_tx_inv (queue_frame w op pl) \<and> ws_stream (queue_frame w op pl) = ws_stream w @ server_frame op pl"
proof (cases "tx_sent w > 0 \<and> tx_sent w = length (ws_tx w)")
  case True
  then show ?thesis
    using assms by (simp add: queue_frame_def Let_def ws_tx_inv_def ws_stream_def server_frame_def split: if_splits)
next
  case False
  then show ?thesis
    using assms by (auto simp: queue_frame_def Let_def ws_tx_inv_def ws_stream_def server_frame_def
        take_prefix_append simp del: take_append split: if_splits)
qed

text \<open>The sends of a session, each with the answers the socket gives it.\<close>

fun ws_sends :: "websocket \<Rightarrow> (bytes \<times> net_write list) list \<Rightarrow> websocket" where
  "ws_sends w [] = w"
| "ws_sends w ((buf, outs) # rest) = ws_sends (fst (ws_send w buf outs)) rest"

lemma ws_flush_keeps:
  "ws_flush w outs = (w', outs', ok) \<Longrightarrow> done_headers w' = done_headers w \<and> ws_msg w' = ws_msg w
     \<and> in_fragment w' = in_fragment w \<and> max_message w' = max_message w \<and> msg_taken w' = msg_taken w
     \<and> ws_rx w' = ws_rx w \<and> ws_ssl w' = ws_ssl w"
proof (induction w outs arbitrary: w' outs' ok rule: ws_flush.induct)
  case (1 w outs)
  show ?case
  proof (cases "\<exists>n os. outs = W_sent n # os \<and> \<not> (ws_ssl w \<and> n = 0) \<and> tx_sent w < length (ws_tx w)")
    case True
    then obtain n os where o: "outs = W_sent n # os" "\<not> (ws_ssl w \<and> n = 0)" "tx_sent w < length (ws_tx w)" by blast
    have "ws_flush (flush_sent w n) os = (w', outs', ok)"
      using "1.prems"(1) o by (subst (asm) ws_flush.simps) simp
    from "1.IH" [OF o(3,1) refl o(2) this] show ?thesis by (simp add: flush_sent_def Let_def)
  next
    case False
    then show ?thesis
      using "1.prems" by (subst (asm) ws_flush.simps) (auto split: list.splits net_write.splits if_splits)
  qed
qed

lemma queue_frame_keeps [simp]:
  "done_headers (queue_frame w op pl) = done_headers w" "ws_msg (queue_frame w op pl) = ws_msg w"
  "in_fragment (queue_frame w op pl) = in_fragment w" "max_message (queue_frame w op pl) = max_message w"
  "msg_taken (queue_frame w op pl) = msg_taken w" "ws_rx (queue_frame w op pl) = ws_rx w"
  "ws_alive (queue_frame w op pl) = ws_alive w" "ws_ssl (queue_frame w op pl) = ws_ssl w"
  by (simp_all add: queue_frame_def Let_def)

lemma ws_send_stream:
  assumes "ws_tx_inv w" "done_headers w" "ws_send w buf outs = (w', outs', r)"
  shows "ws_tx_inv w' \<and> done_headers w'
    \<and> (ws_stream w' = ws_stream w @ server_frame WS_OP_BIN buf
        \<or> (r = None \<and> ws_stream w' = ws_stream w \<and> \<not> ws_alive w'))"
proof (cases "ws_alive w \<and> length (ws_tx w) - tx_sent w \<le> WS_MAX_TX_QUEUE")
  case False
  then show ?thesis using assms by (auto simp: ws_send_def ws_tx_inv_def ws_stream_def split: if_splits)
next
  case True
  obtain w1 o1 ok where f: "ws_flush (queue_frame w WS_OP_BIN buf) outs = (w1, o1, ok)"
    by (cases "ws_flush (queue_frame w WS_OP_BIN buf) outs")
  have "w' = w1" using True assms f by (auto simp: ws_send_def)
  then show ?thesis
    using queue_frame_stream [OF assms(1), of WS_OP_BIN buf] ws_flush_stream [OF f] ws_flush_keeps [OF f] assms(2)
    by simp
qed

lemma ws_sends_stream:
  assumes "ws_tx_inv w" "done_headers w"
  shows "\<exists>sent. sent \<le> length bufs
    \<and> ws_stream (ws_sends w bufs) = ws_stream w @ concat (map (server_frame WS_OP_BIN \<circ> fst) (take sent bufs))
    \<and> (ws_alive (ws_sends w bufs) \<longrightarrow> sent = length bufs)"
  using assms
proof (induction bufs arbitrary: w)
  case (Cons b bufs)
  obtain buf outs where b: "b = (buf, outs)" by force
  obtain w1 o1 r where s: "ws_send w buf outs = (w1, o1, r)" by (cases "ws_send w buf outs")
  note st = ws_send_stream [OF Cons.prems s]
  show ?case
  proof (cases "ws_stream w1 = ws_stream w @ server_frame WS_OP_BIN buf")
    case True
    obtain sent where "sent \<le> length bufs"
      "ws_stream (ws_sends w1 bufs) = ws_stream w1 @ concat (map (server_frame WS_OP_BIN \<circ> fst) (take sent bufs))"
      "ws_alive (ws_sends w1 bufs) \<longrightarrow> sent = length bufs"
      using Cons.IH [of w1] st by blast
    then show ?thesis using True b s by (intro exI [of _ "Suc sent"]) (simp add: comp_def)
  next
    case False
    then have d: "ws_stream w1 = ws_stream w" "\<not> ws_alive w1" "done_headers w1" using st by auto
    have "ws_sends w1 bufs = w1" using d(2,3)
    proof (induction bufs)
      case (Cons x xs) then show ?case by (cases x) (simp add: ws_send_def)
    qed simp
    then show ?thesis using d b s by (intro exI [of _ 0]) simp
  qed
qed simp

section \<open>The input stream\<close>

lemma frame_head_append: "frame_head_of f = Head a b c d e \<Longrightarrow> frame_head_of (f @ g) = Head a b c d e"
  by (auto simp: frame_head_of_def Let_def nth_append seg_def split: if_splits)

lemma frame_head_size: "frame_head_of f = Head a b c d e \<Longrightarrow> e \<le> length f"
  by (auto simp: frame_head_of_def Let_def split: if_splits)

lemma length_unmask [simp]: "length (unmask m p) = length p"
  by (simp add: unmask_def)

text \<open>A complete, acceptable frame at the front of the input.\<close>

lemma ws_decode_step:
  assumes "frame_head_of f = Head fin opcode masked len hdr" "len \<le> max_message w" "masked"
    "opcode AND 8 = 0 \<or> len \<le> 125 \<and> fin" "length f \<ge> hdr + 4 + len"
    "ws_frame w fin opcode (unmask (seg f hdr 4) (seg f (hdr + 4) len)) outs = (w1, o1, ok)"
  shows "ws_decode w f outs = (if ok then ws_decode w1 (drop (hdr + 4 + len) f) o1 else (w1, f, o1, False))"
  using assms by (subst ws_decode.simps [of w f outs]) auto

text \<open>Decoding is incremental: it does not matter where the input is cut.\<close>

lemma ws_decode_append:
  "ws_decode w (f @ g) outs = (let (w1, rest, o1, ok) = ws_decode w f outs in
     if ok then ws_decode w1 (rest @ g) o1 else (w1, rest @ g, o1, False))"
proof (induction w f outs rule: ws_decode.induct)
  case (1 w f outs)
  show ?case
  proof (cases "frame_head_of f")
    case Need_more
    then show ?thesis by (simp add: ws_decode.simps [of w f])
  next
    case (Head fin opcode masked len hdr)
    note H = Head frame_head_append [OF Head, of g]
    let ?n = "hdr + 4 + len"
    show ?thesis
    proof (cases "len > max_message w \<or> \<not> masked \<or> opcode AND 8 \<noteq> 0 \<and> (len > 125 \<or> \<not> fin) \<or> length f < ?n")
      case True
      then show ?thesis
        by (subst (1 2) ws_decode.simps) (auto simp: H ws_decode.simps [of w "f @ g"])
    next
      case False
      obtain w1 o1 ok where fr: "ws_frame w fin opcode (unmask (seg f hdr 4) (seg f (hdr + 4) len)) outs = (w1, o1, ok)"
        by (cases "ws_frame w fin opcode (unmask (seg f hdr 4) (seg f (hdr + 4) len)) outs")
      have sg: "seg (f @ g) hdr 4 = seg f hdr 4" "seg (f @ g) (hdr + 4) len = seg f (hdr + 4) len"
        using False by (auto simp: seg_def)
      have c: "len \<le> max_message w" "masked" "opcode AND 8 = 0 \<or> len \<le> 125 \<and> fin"
        "length f \<ge> ?n" "length (f @ g) \<ge> ?n"
        using False by auto
      have st: "ws_decode w f outs = (if ok then ws_decode w1 (drop ?n f) o1 else (w1, f, o1, False))"
        "ws_decode w (f @ g) outs = (if ok then ws_decode w1 (drop ?n f @ g) o1 else (w1, f @ g, o1, False))"
        using ws_decode_step [OF H(1) c(1-4) fr] ws_decode_step [OF H(2) c(1-3,5), unfolded sg, OF fr] c(4)
        by simp_all
      have nn: "\<not> max_message w < len" "\<not> \<not> masked" "\<not> (opcode AND 8 \<noteq> 0 \<and> (125 < len \<or> \<not> fin))" "\<not> length f < ?n"
        using False by auto
      show ?thesis
        unfolding st using "1.IH" [OF Head nn refl fr [symmetric] refl] by (cases ok) simp_all
    qed
  qed
qed

lemma ws_decode_cases:
  assumes "ws_decode w f outs = (w', rest, outs', ok)"
  obtains "w' = w" "rest = f" "outs' = outs"
  | fin opcode masked len hdr p w1 o1 where "frame_head_of f = Head fin opcode masked len hdr"
      "len \<le> max_message w" "masked" "length f \<ge> hdr + 4 + len" "length p = len"
      "ws_frame w fin opcode p outs = (w1, o1, True)"
      "ws_decode w1 (drop (hdr + 4 + len) f) o1 = (w', rest, outs', ok)"
  | fin opcode masked len hdr p where "frame_head_of f = Head fin opcode masked len hdr"
      "len \<le> max_message w" "length p = len" "ws_frame w fin opcode p outs = (w', outs', False)"
      "rest = f" "\<not> ok"
proof (cases "frame_head_of f")
  case Need_more
  then show ?thesis using that(1) assms by (subst (asm) ws_decode.simps) simp
next
  case (Head fin opcode masked len hdr)
  let ?p = "unmask (seg f hdr 4) (seg f (hdr + 4) len)"
  obtain w1 o1 ok1 where fr: "ws_frame w fin opcode ?p outs = (w1, o1, ok1)" by (cases "ws_frame w fin opcode ?p outs")
  show ?thesis
  proof (cases "len > max_message w \<or> \<not> masked \<or> opcode AND 8 \<noteq> 0 \<and> (len > 125 \<or> \<not> fin) \<or> length f < hdr + 4 + len")
    case True
    then show ?thesis using that(1) assms Head by (subst (asm) ws_decode.simps) (auto split: if_splits)
  next
    case False
    then have lp: "length ?p = len" by (auto simp: length_seg min_def)
    have st: "(if ok1 then ws_decode w1 (drop (hdr + 4 + len) f) o1 else (w1, f, o1, False)) = (w', rest, outs', ok)"
      using ws_decode_step [OF Head _ _ _ _ fr] assms False by (simp add: not_less)
    have F: "len \<le> max_message w" "masked" "hdr + 4 + len \<le> length f" using False by auto
    show ?thesis
    proof (cases ok1)
      case True
      then show ?thesis using that(2) [OF Head F lp, of w1 o1] fr st by simp
    next
      case False
      then show ?thesis using that(3) [OF Head F(1) lp] fr st by simp
    qed
  qed
qed

lemma ws_decode_rest: "ws_decode w f outs = (w', rest, outs', ok) \<Longrightarrow> length rest \<le> length f"
proof (induction "length f" arbitrary: w f outs w' rest outs' ok rule: less_induct)
  case less
  from less.prems show ?case
  proof (cases rule: ws_decode_cases)
    case (2 fin opcode masked len hdr p w1 o1)
    from 2(4) have "length (drop (hdr + 4 + len) f) < length f" by auto
    from less.hyps [OF this 2(7)] show ?thesis by simp
  qed simp_all
qed

section \<open>Frames a client sends\<close>

definition client_frame :: "bool \<Rightarrow> nat \<Rightarrow> bytes \<Rightarrow> bytes \<Rightarrow> bytes" where
  "client_frame fin opcode m payload =
     (let n = length payload in
      byte_of ((if fin then 128 else 0) + opcode) #
      (if n \<le> 125 then [byte_of (128 + n)]
       else if n \<le> 65535 then byte_of 254 # be_bytes 2 n
       else byte_of 255 # be_bytes 8 n) @ m @ unmask m payload)"

lemma unmask_unmask: "unmask m (unmask m p) = p"
  by (rule nth_equalityI) (simp_all add: unmask_def xor.assoc)

lemma client_head:
  assumes "opcode < 16" "length m = 4" "length p < 2 ^ 64"
  defines "hdr \<equiv> (if length p \<le> 125 then 2 else if length p \<le> 65535 then 4 else 10)"
  shows "frame_head_of (client_frame fin opcode m p @ rest) = Head fin opcode True (length p) hdr"
    and "seg (client_frame fin opcode m p @ rest) hdr 4 = m"
    and "seg (client_frame fin opcode m p @ rest) (hdr + 4) (length p) = unmask m p"
    and "drop (hdr + 4 + length p) (client_frame fin opcode m p @ rest) = rest"
    and "\<not> length (client_frame fin opcode m p @ rest) < hdr + 4 + length p"
proof -
  have b0: "byte_of ((if fin then 128 else 0) + opcode) AND 0x80 \<noteq> 0 \<longleftrightarrow> fin"
    "unat (byte_of ((if fin then 128 else 0) + opcode) AND 0x0F) = opcode"
    using assms(1) mod_mult_self4 [of 16 8 opcode] div_nat_eqI [of 128 1 "128 + opcode"]
    by (auto simp: byte_fields)
  have b1: "byte_of (128 + n) AND 0x80 \<noteq> 0" "unat (byte_of (128 + n) AND 0x7F) = n" if "n < 128" for n
    using that div_nat_eqI [of 128 1 "128 + n"] by (simp_all add: byte_fields)
  have b2: "be_val (be_bytes 2 (length p)) = length p" if "length p \<le> 65535"
    using that by (simp add: be_val_be_bytes)
  have b8: "be_val (be_bytes 8 (length p)) = length p"
    using assms(3) by (simp add: be_val_be_bytes)
  have b254: "byte_of 254 AND 0x80 \<noteq> 0" "unat (byte_of 254 AND 0x7F) = 126"
    "byte_of 255 AND 0x80 \<noteq> 0" "unat (byte_of 255 AND 0x7F) = 127"
    by (simp_all add: byte_fields)
  show "frame_head_of (client_frame fin opcode m p @ rest) = Head fin opcode True (length p) hdr"
    using b0 b1 b2 b8 b254 assms(2)
    by (auto simp: frame_head_of_def client_frame_def Let_def hdr_def seg_def simp del: unat_byte_of be_bytes.simps)
  show "seg (client_frame fin opcode m p @ rest) hdr 4 = m"
    "seg (client_frame fin opcode m p @ rest) (hdr + 4) (length p) = unmask m p"
    using assms(2) by (auto simp: client_frame_def Let_def hdr_def seg_def simp del: be_bytes.simps)
  have "length (client_frame fin opcode m p) = hdr + 4 + length p"
    using assms(2) by (auto simp: client_frame_def Let_def hdr_def)
  then show "drop (hdr + 4 + length p) (client_frame fin opcode m p @ rest) = rest"
    "\<not> length (client_frame fin opcode m p @ rest) < hdr + 4 + length p"
    by (simp_all add: append_eq_conv_conj [symmetric])
qed

lemma decode_client_frame:
  assumes "opcode < 16" "length m = 4" "length p \<le> max_message w" "length p < 2 ^ 64"
    "opcode AND 8 = 0 \<or> length p \<le> 125 \<and> fin"
  shows "ws_decode w (client_frame fin opcode m p @ rest) outs =
    (let (w1, o1, ok) = ws_frame w fin opcode p outs
     in if ok then ws_decode w1 rest o1 else (w1, client_frame fin opcode m p @ rest, o1, False))"
proof -
  define f where "f = client_frame fin opcode m p @ rest"
  obtain hdr where H: "frame_head_of f = Head fin opcode True (length p) hdr" "seg f hdr 4 = m"
    "seg f (hdr + 4) (length p) = unmask m p" "drop (hdr + 4 + length p) f = rest"
    "\<not> length f < hdr + 4 + length p"
    using client_head [OF assms(1,2,4), of fin rest] unfolding f_def by blast
  show ?thesis
    unfolding f_def [symmetric] using assms(3,5) H by (subst ws_decode.simps) (auto simp: unmask_unmask)
qed

text \<open>A message in fragments, each with its own mask.\<close>

fun client_frags :: "nat \<Rightarrow> (bytes \<times> bytes) list \<Rightarrow> bytes" where
  "client_frags op [] = []"
| "client_frags op [(m, p)] = client_frame True op m p"
| "client_frags op ((m, p) # x # xs) = client_frame False op m p @ client_frags WS_OP_CONT (x # xs)"

lemma decode_frags:
  assumes "fr \<noteq> []" "\<forall>(m, p) \<in> set fr. length m = 4"
    "length (ws_msg w) + length (concat (map snd fr)) \<le> max_message w" "max_message w < 2 ^ 64"
    "op = (if in_fragment w then WS_OP_CONT else WS_OP_BIN)"
  shows "ws_decode w (client_frags op fr @ rest) outs =
    ws_decode (w\<lparr> ws_msg := ws_msg w @ concat (map snd fr), in_fragment := False \<rparr>) rest outs"
  using assms
proof (induction op fr arbitrary: w rule: client_frags.induct)
  case (2 op m p)
  then have op: "op < 16" "op AND 8 = 0" by (simp_all add: ws_ops)
  have "ws_frame w True op p outs = (w\<lparr> ws_msg := ws_msg w @ p, in_fragment := False \<rparr>, outs, True)"
    using 2 by (simp add: ws_frame_def ws_ops)
  then show ?case using 2 op decode_client_frame [of op m p w True rest outs] by simp
next
  case (3 op m p x xs)
  let ?w = "w\<lparr> ws_msg := ws_msg w @ p, in_fragment := True \<rparr>"
  from 3 have op: "op < 16" "op AND 8 = 0" by (simp_all add: ws_ops)
  have "ws_frame w False op p outs = (?w, outs, True)"
    using 3 by (simp add: ws_frame_def ws_ops)
  then have "ws_decode w (client_frags op ((m, p) # x # xs) @ rest) outs
      = ws_decode ?w (client_frags WS_OP_CONT (x # xs) @ rest) outs"
    using 3 op decode_client_frame [of op m p w False "client_frags WS_OP_CONT (x # xs) @ rest" outs] by simp
  also have "\<dots> = ws_decode (w\<lparr> ws_msg := ws_msg w @ concat (map snd ((m, p) # x # xs)), in_fragment := False \<rparr>) rest outs"
    using "3.IH" [of ?w] "3.prems" by simp
  finally show ?case .
qed simp

text \<open>The decoder over the chunks a transport delivers; \<open>rest\<close> is what \<open>rx\<close> keeps.\<close>

fun ws_decode_chunks :: "websocket \<Rightarrow> bytes \<Rightarrow> bytes list \<Rightarrow> net_write list
    \<Rightarrow> websocket \<times> bytes \<times> net_write list \<times> bool" where
  "ws_decode_chunks w rest [] outs = (w, rest, outs, True)"
| "ws_decode_chunks w rest (c # cs) outs =
     (let (w1, rest1, o1, ok) = ws_decode w (rest @ c) outs
      in if ok then ws_decode_chunks w1 rest1 cs o1 else (w1, rest1 @ concat cs, o1, False))"

lemma ws_decode_stuck:
  "ws_decode w f outs = (w', rest, outs', True) \<Longrightarrow> ws_decode w' rest outs' = (w', rest, outs', True)"
proof (induction "length f" arbitrary: w f outs rule: less_induct)
  case less
  from less.prems show ?case
  proof (cases rule: ws_decode_cases)
    case (2 fin opcode masked len hdr p w1 o1)
    from 2(4) have "length (drop (hdr + 4 + len) f) < length f" by auto
    from less.hyps [OF this 2(7)] show ?thesis .
  qed (use less.prems in simp_all)
qed

lemma ws_decode_chunks_whole:
  assumes "ws_decode w rest outs = (w, rest, outs, True)"
  shows "ws_decode_chunks w rest cs outs = ws_decode w (rest @ concat cs) outs"
  using assms
proof (induction cs arbitrary: w rest outs)
  case (Cons c cs)
  obtain w1 rest1 o1 ok where d: "ws_decode w (rest @ c) outs = (w1, rest1, o1, ok)"
    by (cases "ws_decode w (rest @ c) outs")
  have whole: "ws_decode w (rest @ c @ concat cs) outs =
      (if ok then ws_decode w1 (rest1 @ concat cs) o1 else (w1, rest1 @ concat cs, o1, False))"
    using ws_decode_append [of w "rest @ c" "concat cs" outs] d by simp
  show ?case
  proof (cases ok)
    case True
    with Cons.IH [of w1 rest1 o1] ws_decode_stuck [of w "rest @ c" outs w1 rest1 o1] d whole
    show ?thesis by simp
  next
    case False
    then show ?thesis using d whole by simp
  qed
qed simp

lemma ws_decode_Nil: "ws_decode w [] outs = (w, [], outs, True)"
  by (subst ws_decode.simps) (simp add: frame_head_of_def)


text \<open>A connection that completed its upgrade.\<close>

definition ws_open :: "nat \<Rightarrow> websocket" where
  "ws_open maxm = \<lparr> ws_alive = True, ws_ssl = False, done_headers = True, sent_close = False,
     max_message = maxm, ws_rx = [], ws_msg = [], msg_taken = 0, in_fragment = False, ws_tx = [],
     tx_sent = 0, tls_tx = [], req_target = [], handshake_buf = [], handshake_sent = 0, ws_wire = [] \<rparr>"


text \<open>
  C17.  Integrity of the output: over any sequence of sends and any pattern of
  short, blocked and failed writes, plain or TLS, the bytes the socket accepted
  followed by the bytes still queued are the frames of the buffers sent, whole
  and in order; all of them while the link is alive, a prefix once it failed.
\<close>

theorem ws_send_integrity:
  assumes "ws_tx_inv w" "done_headers w"
  shows "\<exists>sent \<le> length bufs.
    ws_stream (ws_sends w bufs) = ws_stream w @ concat (map (server_frame WS_OP_BIN \<circ> fst) (take sent bufs))
    \<and> (ws_alive (ws_sends w bufs) \<longrightarrow> sent = length bufs)"
  using ws_sends_stream [OF assms, of bufs] by blast

theorem ws_send_integrity_witness:
  "\<exists>sent \<le> length [([1 :: byte], [W_sent 2]), ([2, 3], [W_again])]. ws_stream (ws_sends (ws_open 1000) [([1], [W_sent 2]), ([2, 3], [W_again])])
     = ws_stream (ws_open 1000) @ concat (map (server_frame WS_OP_BIN \<circ> fst)
         (take sent [([1], [W_sent 2]), ([2, 3], [W_again])]))"
proof -
  have "ws_tx_inv (ws_open 1000)" "done_headers (ws_open 1000)"
    by (simp_all add: ws_open_def ws_tx_inv_def)
  from ws_send_integrity [OF this, of "[([1], [W_sent 2]), ([2, 3], [W_again])]"] show ?thesis
    by (elim exE conjE) (intro exI conjI, assumption, assumption)
qed

section \<open>Bounds on the buffers\<close>

definition ws_bounded :: "websocket \<Rightarrow> bool" where
  "ws_bounded w = (length (ws_msg w) \<le> max_message w \<and> msg_taken w \<le> length (ws_msg w)
     \<and> length (ws_rx w) \<le> max_message w + 64 + WS_READ_CHUNK)"

lemma ws_frame_bounded:
  assumes "ws_frame w fin op p outs = (w', outs', ok)" "ws_bounded w"
  shows "ws_bounded w' \<and> ws_rx w' = ws_rx w \<and> max_message w' = max_message w"
proof (cases "op = WS_OP_CLOSE \<or> op = WS_OP_PING")
  case False
  then show ?thesis using assms by (auto simp: ws_frame_def ws_bounded_def split: if_splits)
next
  case True
  let ?q = "if op = WS_OP_PING then queue_frame w WS_OP_PONG p else (queue_frame w WS_OP_CLOSE p)\<lparr> sent_close := True \<rparr>"
  obtain w1 o1 ok1 where f: "ws_flush ?q outs = (w1, o1, ok1)" by (cases "ws_flush ?q outs")
  have "w' = w \<or> w' = w1" using True assms f by (auto simp: ws_frame_def ws_ops split: if_splits)
  then show ?thesis using ws_flush_keeps [OF f] assms(2) by (auto simp: ws_bounded_def split: if_splits)
qed

lemma ws_decode_bounded:
  "ws_decode w f outs = (w', rest, outs', ok) \<Longrightarrow> ws_bounded w \<Longrightarrow>
     ws_bounded w' \<and> ws_rx w' = ws_rx w \<and> max_message w' = max_message w"
proof (induction "length f" arbitrary: w f outs rule: less_induct)
  case less
  from less.prems(1) show ?case
  proof (cases rule: ws_decode_cases)
    case (2 fin opcode masked len hdr p w1 o1)
    from 2(4) have "length (drop (hdr + 4 + len) f) < length f" by auto
    from less.hyps [OF this 2(7)] ws_frame_bounded [OF 2(6) less.prems(2)] show ?thesis by simp
  next
    case (3 fin opcode masked len hdr p)
    from ws_frame_bounded [OF 3(4) less.prems(2)] show ?thesis by simp
  qed (use less.prems in simp)
qed

lemma handshake_push_keeps:
  "handshake_push w outs = (w', outs', ok) \<Longrightarrow> ws_msg w' = ws_msg w \<and> msg_taken w' = msg_taken w
     \<and> ws_rx w' = ws_rx w \<and> max_message w' = max_message w"
proof (induction w outs arbitrary: w' outs' ok rule: handshake_push.induct)
  case (1 w outs)
  show ?case
  proof (cases "\<exists>n os. outs = W_sent n # os \<and> \<not> (ws_ssl w \<and> n = 0) \<and> handshake_sent w < length (handshake_buf w)")
    case False
    then show ?thesis
      using "1.prems" by (subst (asm) handshake_push.simps) (auto split: list.splits net_write.splits if_splits)
  next
    case True
    then obtain n os where o: "outs = W_sent n # os" "\<not> (ws_ssl w \<and> n = 0)"
      "handshake_sent w < length (handshake_buf w)" by blast
    let ?r = "drop (handshake_sent w) (handshake_buf w)"
    let ?w = "w\<lparr> ws_wire := ws_wire w @ take (min n (length ?r)) ?r,
                handshake_sent := handshake_sent w + min n (length ?r) \<rparr>"
    have "handshake_push ?w os = (w', outs', ok)"
      using "1.prems" o unfolding handshake_push.simps [of w outs] Let_def by simp
    from "1.IH" [OF o(3,1) refl o(2) refl refl this] show ?thesis by simp
  qed
qed

lemma check_headers_bounded:
  assumes "check_headers acc w outs = (w', outs')" "ws_bounded w"
  shows "ws_bounded w' \<and> max_message w' = max_message w"
proof -
  have k: "ws_bounded w2 \<and> ws_rx w2 = ws_rx w1 \<and> max_message w2 = max_message w1"
    if b: "ws_bounded w1" and h: "send_handshake acc w1 key outs = (w2, o2, ok)" for w1 w2 o2 ok key
  proof -
    obtain w0 where "handshake_push w0 outs = (w2, o2, ok)" "ws_msg w0 = ws_msg w1"
      "msg_taken w0 = msg_taken w1" "ws_rx w0 = ws_rx w1" "max_message w0 = max_message w1"
      using h by (simp add: send_handshake_def Let_def split: if_splits)
    with handshake_push_keeps [OF this(1)] b show ?thesis by (simp add: ws_bounded_def)
  qed
  show ?thesis
  proof (cases "find_sub (str_bytes (crlf @ crlf)) (ws_rx w)")
    case None
    then show ?thesis using assms by (simp add: check_headers_def)
  next
    case (Some i)
    define hs where "hs = bytes_str (take (i + 4) (ws_rx w))"
    define w1 where "w1 = (case header_target hs of None \<Rightarrow> w | Some t \<Rightarrow> w\<lparr> req_target := t \<rparr>)"
    have w1: "ws_bounded w1" "max_message w1 = max_message w"
      using assms(2) by (simp_all add: w1_def ws_bounded_def split: option.split)
    have eq: "check_headers acc w outs = (case header_key hs of None \<Rightarrow> (w1, outs) | Some key \<Rightarrow>
        let (w2, o1, ok) = send_handshake acc w1 key outs
        in (if ok then w2\<lparr> done_headers := True, ws_rx := drop (i + 4) (ws_rx w2) \<rparr> else w2, o1))"
      unfolding w1_def unfolding hs_def by (simp add: check_headers_def Some Let_def)
    show ?thesis
    proof (cases "header_key hs")
      case None
      then show ?thesis using assms(1) eq w1 by simp
    next
      case (Some key)
      obtain w2 o1 ok where h: "send_handshake acc w1 key outs = (w2, o1, ok)" by (cases "send_handshake acc w1 key outs")
      from k [OF w1(1) h] w1 show ?thesis
        using assms(1) eq Some h by (auto simp: ws_bounded_def split: if_splits)
    qed
  qed
qed

lemma fill_pending_bounded: "ws_bounded w \<Longrightarrow> ws_bounded (fill_pending w inp) \<and> max_message (fill_pending w inp) = max_message w"
  by (auto simp: fill_pending_def ws_bounded_def split: net_read.split)

lemma take_msg_bounded: "ws_bounded w \<Longrightarrow> ws_bounded (fst (take_msg w n)) \<and> max_message (fst (take_msg w n)) = max_message w"
  by (auto simp: take_msg_def ws_bounded_def Let_def)

lemma decode_frames_bounded:
  assumes "decode_frames w outs = (w', outs', ok)" "ws_bounded w"
  shows "ws_bounded w' \<and> max_message w' = max_message w"
proof -
  obtain w1 rest o1 ok1 where d: "ws_decode w (ws_rx w) outs = (w1, rest, o1, ok1)" by (cases "ws_decode w (ws_rx w) outs")
  show ?thesis
    using assms ws_decode_bounded [OF d] ws_decode_rest [OF d]
    by (auto simp: decode_frames_def d ws_bounded_def split: if_splits)
qed

lemma ws_recv_bounded:
  assumes "ws_recv acc w n inp outs = (w', outs', r)" "ws_bounded w"
  shows "ws_bounded w' \<and> max_message w' = max_message w"
proof (cases "msg_taken w < length (ws_msg w)")
  case True
  then show ?thesis using assms take_msg_bounded [of w n] by (auto simp: ws_recv_def split: prod.splits)
next
  case False
  define w1 where "w1 = fill_pending w inp"
  have w1: "ws_bounded w1" "max_message w1 = max_message w"
    using fill_pending_bounded [OF assms(2), of inp] by (simp_all add: w1_def)
  obtain w2 o2 where h: "(w2, o2) = (if done_headers w1 then (w1, outs) else check_headers acc w1 outs)"
    by (metis surj_pair)
  have w2: "ws_bounded w2" "max_message w2 = max_message w"
    using h w1 check_headers_bounded [of acc w1 outs w2 o2] by (cases "done_headers w1"; simp)+
  obtain w3 o3 ok where d: "decode_frames w2 o2 = (w3, o3, ok)" by (cases "decode_frames w2 o2")
  have w3: "ws_bounded w3" "max_message w3 = max_message w" using decode_frames_bounded [OF d] w2 by simp_all
  have w3': "ws_bounded (w3\<lparr> ws_alive := False \<rparr>)" "ws_bounded (w3\<lparr> msg_taken := 0 \<rparr>)"
    using w3 by (simp_all add: ws_bounded_def)
  obtain w4 out where t: "take_msg (w3\<lparr> msg_taken := 0 \<rparr>) n = (w4, out)" by (cases "take_msg (w3\<lparr> msg_taken := 0 \<rparr>) n")
  have w4: "ws_bounded w4" "max_message w4 = max_message w" using take_msg_bounded [OF w3'(2), of n] t w3 by simp_all
  show ?thesis
    using assms(1) False h [symmetric] d t w1 w2 w3 w3' w4
    by (auto simp: ws_recv_def Let_def w1_def [symmetric] split: if_splits)
qed

text \<open>One call of \<open>recv\<close> with what it asks for and the answers it gets.\<close>

fun ws_recvs :: "(string \<Rightarrow> string) \<Rightarrow> websocket \<Rightarrow> (nat \<times> net_read \<times> net_write list) list \<Rightarrow> websocket" where
  "ws_recvs acc w [] = w"
| "ws_recvs acc w ((n, inp, outs) # rest) = ws_recvs acc (fst (ws_recv acc w n inp outs)) rest"

text \<open>
  Memory bounds against any peer: through the constructor and any sequence
  of \<open>recv\<close> calls, the undecoded input never exceeds \<open>max_message + 64\<close> plus one
  read, and the decoded message never exceeds \<open>max_message\<close>, whatever lengths the
  peer announces.
\<close>

theorem ws_recv_memory_bounds:
  "let w = ws_recvs acc (fst (ws_new acc peek maxm inp outs)) calls in
     length (ws_msg w) \<le> maxm \<and> length (ws_rx w) \<le> maxm + 64 + 16384"
proof -
  define s0 where "s0 = \<lparr> ws_alive = True,
      ws_ssl = (length peek \<ge> length wss_prefix \<and> take (length wss_prefix) peek = wss_prefix),
      done_headers = False, sent_close = False, max_message = maxm, ws_rx = [], ws_msg = [],
      msg_taken = 0, in_fragment = False, ws_tx = [], tx_sent = 0, tls_tx = [], req_target = [],
      handshake_buf = [], handshake_sent = 0, ws_wire = [] \<rparr>"
  have s0: "ws_bounded s0" "max_message s0 = maxm" by (simp_all add: s0_def ws_bounded_def)
  obtain w0 o0 where c: "check_headers acc (fill_pending s0 inp) outs = (w0, o0)"
    by (cases "check_headers acc (fill_pending s0 inp) outs")
  have w0: "ws_bounded w0" "max_message w0 = maxm"
    using check_headers_bounded [OF c] fill_pending_bounded [OF s0(1), of inp] s0(2) by simp_all
  have "ws_bounded (ws_recvs acc w calls) \<and> max_message (ws_recvs acc w calls) = max_message w"
    if "ws_bounded w" for w
    using that
  proof (induction acc w calls rule: ws_recvs.induct)
    case (2 acc w n inp outs rest)
    obtain w1 o1 r where "ws_recv acc w n inp outs = (w1, o1, r)" by (cases "ws_recv acc w n inp outs")
    with 2 ws_recv_bounded [OF this] show ?case by simp
  qed simp
  from this [OF w0(1)] w0(2) c show ?thesis
    by (simp add: ws_new_def flip: s0_def add: Let_def ws_bounded_def ws_consts)
qed

text \<open>
  Detection is stable under fragmentation: once a prefix of a stream is
  classified as a handshake or as raw, every longer prefix gets the same answer,
  and \<open>WS_MORE\<close> is answered for a received byte string only while it is a proper
  prefix of one of the two handshakes.
\<close>

theorem ws_detect_stable:
  "(ws_detect (Some b) = WS_MORE \<or> ws_detect (Some (b @ c)) = ws_detect (Some b))
   \<and> (ws_detect (Some b) \<noteq> WS_MORE \<or> b = []
      \<or> b \<in> {[0x16], [0x16, 0x03], [0x47], [0x47, 0x45], [0x47, 0x45, 0x54]})"
proof -
  have pre: "ws_prefix = [0x47, 0x45, 0x54, 0x20]"
    by (simp add: ws_prefix_def str_bytes_def byte_of_def)
  consider "b = []" | x where "b = [x]" | x y where "b = [x, y]" | x y z where "b = [x, y, z]"
    | x y z u v where "b = x # y # z # u # v"
    by (metis neq_Nil_conv)
  then show ?thesis
    by cases (auto simp: ws_detect_def pre wss_prefix_def Let_def)
qed

theorem ws_detect_stable_witness: "ws_detect (Some ([0x16, 0x03, 0x01] @ [0x00])) = WS_YES"
  using conjunct1 [OF ws_detect_stable [of "[0x16, 0x03, 0x01]" "[0x00]"]] by (simp add: ws_detect_def wss_prefix_def)

section \<open>Two behaviours the comments do not promise\<close>

text \<open>
  A pong is queued without the check of \<open>WS_MAX_TX_QUEUE\<close> that \<open>send\<close>
  makes: a peer that pings and does not read grows the output queue by one
  frame per ping, without limit, as long as nothing is sent on the link.
\<close>

theorem ws_ping_queue_grows:
  assumes "length m = 4"
  shows "\<exists>w'. ws_decode (ws_open maxm) (concat (replicate k (client_frame True WS_OP_PING m []))) [] = (w', [], [], True)
    \<and> length (ws_tx w') - tx_sent w' = 2 * k \<and> ws_alive w'"
proof -
  have "\<exists>w'. ws_decode w (concat (replicate k (client_frame True WS_OP_PING m []))) [] = (w', [], [], True)
      \<and> length (ws_tx w') - tx_sent w' = length (ws_tx w) + 2 * k \<and> ws_alive w'"
    if "tx_sent w = 0" "\<not> ws_ssl w" "ws_alive w" for w
    using that
  proof (induction k arbitrary: w)
    case 0
    then show ?case by (simp add: ws_decode_Nil)
  next
    case (Suc k)
    let ?w = "queue_frame w WS_OP_PONG []"
    have q: "tx_sent ?w = 0" "ws_tx ?w = ws_tx w @ frame_header WS_OP_PONG 0" "\<not> ws_ssl ?w" "ws_alive ?w"
      using Suc.prems by (simp_all add: queue_frame_def Let_def)
    have "ws_flush ?w [] = (?w, [], True)"
      using q by (subst ws_flush.simps) (simp add: frame_header_def)
    then have "ws_frame w True WS_OP_PING [] [] = (?w, [], True)"
      by (simp add: ws_frame_def ws_ops)
    then have d: "ws_decode w (concat (replicate (Suc k) (client_frame True WS_OP_PING m []))) []
        = ws_decode ?w (concat (replicate k (client_frame True WS_OP_PING m []))) []"
      using decode_client_frame [of WS_OP_PING m "[]" w True _ "[]"] assms by (simp add: ws_ops)
    have "length (ws_tx ?w) = length (ws_tx w) + 2" by (simp add: q frame_header_def)
    with Suc.IH [of ?w] q show ?case unfolding d by simp
  qed
  from this [of "ws_open maxm"] show ?thesis by (simp add: ws_open_def)
qed

theorem ws_ping_queue_grows_witness:
  "\<exists>w'. ws_decode (ws_open 1000) (concat (replicate 1000000 (client_frame True WS_OP_PING [0, 0, 0, 0] []))) []
      = (w', [], [], True) \<and> length (ws_tx w') - tx_sent w' = 2 * 1000000 \<and> ws_alive w'"
  by (rule ws_ping_queue_grows) simp

text \<open>
  A message that is still being assembled is delivered after all: the call
  that reads its first fragment returns 0, but the next call hands the fragment
  out while the message is open, since the test at the top of \<open>recv\<close> does not
  look at \<open>in_fragment\<close>.
\<close>

theorem ws_open_fragment_delivered:
  assumes "length m = 4" "p \<noteq> []" "length p \<le> 125" "length p \<le> maxm" "length p \<le> n"
  shows "let (w1, o1, r1) = ws_recv acc (ws_open maxm) n (R_data (client_frame False WS_OP_BIN m p)) [];
             (w2, o2, r2) = ws_recv acc w1 n R_again o1
         in r1 = Some [] \<and> in_fragment w1 \<and> r2 = Some p \<and> in_fragment w2"
proof -
  let ?f = "client_frame False WS_OP_BIN m p"
  let ?w = "(ws_open maxm)\<lparr> ws_rx := ?f \<rparr>"
  let ?w' = "?w\<lparr> ws_msg := p, in_fragment := True \<rparr>"
  have len: "length ?f \<le> 16384" "?f \<noteq> []" using assms by (simp_all add: client_frame_def Let_def)
  then have fill: "fill_pending (ws_open maxm) (R_data ?f) = ?w"
    by (simp add: fill_pending_def ws_open_def ws_consts)
  have "ws_frame ?w False WS_OP_BIN p [] = (?w', [], True)"
    using assms by (simp add: ws_frame_def ws_ops ws_open_def)
  then have "ws_decode ?w ?f [] = (?w', [], [], True)"
    using decode_client_frame [of WS_OP_BIN m p ?w False "[]" "[]"] assms
    by (simp add: ws_ops ws_open_def ws_decode_Nil)
  then have "decode_frames ?w [] = (?w'\<lparr> ws_rx := [] \<rparr>, [], True)" by (simp add: decode_frames_def)
  then have r1: "ws_recv acc (ws_open maxm) n (R_data ?f) [] = (?w'\<lparr> ws_rx := [] \<rparr>, [], Some [])"
    using fill by (simp add: ws_recv_def Let_def) (simp add: ws_open_def)
  show ?thesis
    unfolding r1 using assms by (simp add: ws_recv_def take_msg_def Let_def ws_open_def seg_def)
qed

theorem ws_open_fragment_delivered_witness:
  "let (w1, o1, r1) = ws_recv id (ws_open 1000) 10 (R_data (client_frame False WS_OP_BIN [0, 0, 0, 0] [5])) [];
       (w2, o2, r2) = ws_recv id w1 10 R_again o1
   in r1 = Some [] \<and> in_fragment w1 \<and> r2 = Some [5] \<and> in_fragment w2"
  by (rule ws_open_fragment_delivered) simp_all

end
