(* ===== verification/Record_Store.thy ===== *)
theory Record_Store
  imports SP_Prelude
begin

text \<open>
  What \<open>src/keydb.cpp\<close> and \<open>src/conntdb.cpp\<close> share: a TDB file as a store of byte
  records under byte keys, and the append-only record layout described at the
  top of \<open>src/keydb.h\<close> and \<open>src/conntdb.h\<close>.

  TDB is not part of the program.  Its operations are a parameter, the record
  \<open>tdb_ops\<close>, and \<open>tdb_laws\<close> is what the program relies on: a successful store is
  what the next fetch returns, a delete removes one record, a traversal visits
  every record once.  \<open>mem_tdb\<close> is a store for which the laws hold.
\<close>

section \<open>The database interface\<close>

record 'db tdb_ops =
  tdb_fetch :: "'db \<Rightarrow> bytes \<Rightarrow> bytes option"
  tdb_store :: "'db \<Rightarrow> bytes \<Rightarrow> bytes \<Rightarrow> 'db \<times> bool"
  tdb_delete :: "'db \<Rightarrow> bytes \<Rightarrow> 'db \<times> bool"
  tdb_records :: "'db \<Rightarrow> (bytes \<times> bytes) list"

definition tdb_laws :: "'db tdb_ops \<Rightarrow> bool" where
  "tdb_laws T =
     ((\<forall>db k v. tdb_fetch T (fst (tdb_store T db k v)) =
         (if snd (tdb_store T db k v) then (tdb_fetch T db)(k \<mapsto> v) else tdb_fetch T db))
      \<and> (\<forall>db k. tdb_fetch T (fst (tdb_delete T db k)) = (tdb_fetch T db)(k := None))
      \<and> (\<forall>db k. snd (tdb_delete T db k) \<longleftrightarrow> tdb_fetch T db k \<noteq> None)
      \<and> (\<forall>db k v. (k, v) \<in> set (tdb_records T db) \<longleftrightarrow> tdb_fetch T db k = Some v)
      \<and> (\<forall>db. distinct (map fst (tdb_records T db))))"

lemma fetch_store:
  "tdb_laws T \<Longrightarrow> tdb_store T db k v = (db', True) \<Longrightarrow> tdb_fetch T db' = (tdb_fetch T db)(k \<mapsto> v)"
  unfolding tdb_laws_def by (metis fst_conv snd_conv)

lemma fetch_delete: "tdb_laws T \<Longrightarrow> tdb_fetch T (fst (tdb_delete T db k)) = (tdb_fetch T db)(k := None)"
  by (simp add: tdb_laws_def)

lemma delete_found: "tdb_laws T \<Longrightarrow> snd (tdb_delete T db k) \<longleftrightarrow> tdb_fetch T db k \<noteq> None"
  by (simp add: tdb_laws_def)

lemma in_records: "tdb_laws T \<Longrightarrow> (k, v) \<in> set (tdb_records T db) \<longleftrightarrow> tdb_fetch T db k = Some v"
  by (simp add: tdb_laws_def)

lemma distinct_records: "tdb_laws T \<Longrightarrow> distinct (map fst (tdb_records T db))"
  by (simp add: tdb_laws_def)

text \<open>A store in memory: an association list, the first entry of a key being the current one.\<close>

type_synonym mem_db = "(bytes \<times> bytes) list"

definition mem_tdb :: "mem_db tdb_ops" where
  "mem_tdb = \<lparr> tdb_fetch = map_of,
     tdb_store = (\<lambda>db k v. ((k, v) # db, True)),
     tdb_delete = (\<lambda>db k. (filter (\<lambda>x. fst x \<noteq> k) db, map_of db k \<noteq> None)),
     tdb_records = (\<lambda>db. map (\<lambda>k. (k, the (map_of db k))) (remdups (map fst db))) \<rparr>"

lemma map_of_filter_key: "map_of (filter (\<lambda>x. fst x \<noteq> k) xs) = (map_of xs)(k := None)"
  by (induction xs) (auto simp: fun_eq_iff)

lemma mem_tdb_laws: "tdb_laws mem_tdb"
proof -
  have "(k, v) \<in> (\<lambda>k. (k, the (map_of db k))) ` fst ` set db \<longleftrightarrow> map_of db k = Some v" for db :: mem_db and k v
  proof -
    have "k \<in> fst ` set db \<longleftrightarrow> map_of db k \<noteq> None" by (simp add: map_of_eq_None_iff)
    then show ?thesis by auto
  qed
  moreover have "map fst (map (\<lambda>k. (k, the (map_of db k))) ks) = ks" for db :: mem_db and ks
    by (induction ks) simp_all
  ultimately show ?thesis
    by (simp add: tdb_laws_def mem_tdb_def map_of_filter_key)
qed

section \<open>Opening\<close>

text \<open>
  \<open>db_open\<close> and \<open>conn_db_open\<close>: up to five attempts, of which only \<open>EBUSY\<close> is
  retried.  The argument is the outcome of the attempts that \<open>tdb_open\<close> would make.
\<close>

datatype open_result = Opened | Ebusy | Open_error

fun open_retry :: "nat \<Rightarrow> open_result list \<Rightarrow> bool" where
  "open_retry 0 rs = False"
| "open_retry (Suc n) [] = False"
| "open_retry (Suc n) (r # rs) = (case r of Opened \<Rightarrow> True | Ebusy \<Rightarrow> open_retry n rs | Open_error \<Rightarrow> False)"

lemma open_retry_iff:
  "open_retry n rs \<longleftrightarrow> (\<exists>i < min n (length rs). rs ! i = Opened \<and> (\<forall>j < i. rs ! j = Ebusy))"
proof (induction n rs rule: open_retry.induct)
  case (3 n r rs)
  show ?case
  proof (cases r)
    case Opened
    then show ?thesis by (auto intro: exI [of _ 0])
  next
    case Ebusy
    have "(\<exists>i < min (Suc n) (length (r # rs)). (r # rs) ! i = Opened \<and> (\<forall>j < i. (r # rs) ! j = Ebusy))
        \<longleftrightarrow> (\<exists>i < min n (length rs). rs ! i = Opened \<and> (\<forall>j < i. rs ! j = Ebusy))" (is "?L \<longleftrightarrow> ?R")
    proof
      assume ?L
      then obtain i where i: "i < min (Suc n) (length (r # rs))" "(r # rs) ! i = Opened"
        "\<forall>j < i. (r # rs) ! j = Ebusy" by blast
      with Ebusy obtain k where "i = Suc k" by (cases i) auto
      with i show ?R by (intro exI [of _ k]) auto
    next
      assume ?R
      then obtain i where "i < min n (length rs)" "rs ! i = Opened" "\<forall>j < i. rs ! j = Ebusy" by blast
      with Ebusy show ?L by (intro exI [of _ "Suc i"]) (auto simp: less_Suc_eq_0_disj)
    qed
    then show ?thesis using 3 Ebusy by simp
  next
    case Open_error
    then show ?thesis by (auto simp: nth_Cons' split: if_splits)
  qed
qed auto

section \<open>Fixed-width fields\<close>

text \<open>A record is the concatenation of its fields; it is read back by their widths.\<close>

fun split_fields :: "nat list \<Rightarrow> bytes \<Rightarrow> bytes list" where
  "split_fields [] bs = []"
| "split_fields (n # ns) bs = take n bs # split_fields ns (drop n bs)"

lemma split_fields_concat: "map length fs = ns \<Longrightarrow> split_fields ns (concat fs) = fs"
  by (induction fs arbitrary: ns) auto

lemma length_split_fields [simp]: "length (split_fields ns bs) = length ns"
  by (induction ns arbitrary: bs) auto

lemma nth_split_fields:
  "i < length ns \<Longrightarrow> split_fields ns bs ! i = seg bs (sum_list (take i ns)) (ns ! i)"
proof (induction ns arbitrary: bs i)
  case (Cons n ns)
  then show ?case by (cases i) (simp_all add: seg_def add.commute)
qed simp

definition u32_field :: "32 word \<Rightarrow> bytes" where "u32_field w = le_bytes 4 (unat w)"
definition u64_field :: "64 word \<Rightarrow> bytes" where "u64_field w = le_bytes 8 (unat w)"
definition u16_field :: "16 word \<Rightarrow> bytes" where "u16_field w = le_bytes 2 (unat w)"
definition u32_of :: "bytes \<Rightarrow> 32 word" where "u32_of bs = word_of_nat (le_val bs)"
definition u64_of :: "bytes \<Rightarrow> 64 word" where "u64_of bs = word_of_nat (le_val bs)"
definition u16_of :: "bytes \<Rightarrow> 16 word" where "u16_of bs = word_of_nat (le_val bs)"

lemma length_fields [enc_simps]:
  "length (u32_field w) = 4" "length (u64_field x) = 8" "length (u16_field y) = 2"
  by (simp_all add: u32_field_def u64_field_def u16_field_def)

lemma of_fields [enc_simps]:
  "u32_of (u32_field w) = w" "u64_of (u64_field x) = x" "u16_of (u16_field y) = y"
proof -
  have "unat w < 256 ^ 4" "unat x < 256 ^ 8" "unat y < 256 ^ 2"
    using unsigned_less [of w] unsigned_less [of x] unsigned_less [of y] by simp_all
  then show "u32_of (u32_field w) = w" "u64_of (u64_field x) = x" "u16_of (u16_field y) = y"
    by (simp_all add: u32_of_def u32_field_def u64_of_def u64_field_def u16_of_def u16_field_def
        le_val_le_bytes del: le_bytes.simps)
qed

lemma field_of_zeros [enc_simps]: "u32_of (replicate n 0) = 0" "u64_of (replicate n 0) = 0" "u16_of (replicate n 0) = 0"
proof -
  have "le_val (replicate n 0) = 0" by (induction n) simp_all
  then show "u32_of (replicate n 0) = 0" "u64_of (replicate n 0) = 0" "u16_of (replicate n 0) = 0"
    by (simp_all add: u32_of_def u64_of_def u16_of_def)
qed

section \<open>The append-only layout\<close>

text \<open>
  \<open>zero_extend\<close>: what a reader sees of an on-disk record, \<open>memset\<close> then \<open>memcpy\<close> of
  the shorter size.  \<open>with_tail\<close>: what a writer stores, its own struct and then
  the bytes the old record had beyond it.
\<close>

definition zero_extend :: "nat \<Rightarrow> bytes \<Rightarrow> bytes" where
  "zero_extend sz d = take sz d @ replicate (sz - length d) 0"

definition with_tail :: "nat \<Rightarrow> bytes \<Rightarrow> bytes option \<Rightarrow> bytes" where
  "with_tail sz e orig = e @ (case orig of None \<Rightarrow> [] | Some old \<Rightarrow> drop sz old)"

lemma length_zero_extend [simp]: "length (zero_extend sz d) = sz"
  by (simp add: zero_extend_def)

locale record_layout =
  fixes sz minimum :: nat
    and enc :: "'e \<Rightarrow> bytes"
    and dec :: "bytes \<Rightarrow> 'e"
    and valid :: "'e \<Rightarrow> bool"
  assumes enc_size: "valid e \<Longrightarrow> length (enc e) = sz"
    and dec_enc: "valid e \<Longrightarrow> dec (enc e) = e"
    and minimum_size: "minimum \<le> sz"
begin

text \<open>A reader gets the writer's entry back, whatever tail the record has.\<close>

lemma read_back: "valid e \<Longrightarrow> dec (zero_extend sz (with_tail sz (enc e) orig)) = e"
  by (simp add: zero_extend_def with_tail_def enc_size dec_enc split: option.split)

lemma stored_size: "valid e \<Longrightarrow> minimum \<le> length (with_tail sz (enc e) orig)"
  using minimum_size by (simp add: with_tail_def enc_size)

text \<open>A writer never truncates fields it does not know.\<close>

lemma tail_kept: "valid e \<Longrightarrow> drop sz (with_tail sz (enc e) (Some old)) = drop sz old"
  by (simp add: with_tail_def enc_size)

text \<open>A record of a newer, longer layout is read by its known prefix.\<close>

lemma read_newer: "valid e \<Longrightarrow> dec (zero_extend sz (enc e @ tail)) = e"
  by (simp add: zero_extend_def enc_size dec_enc)

end

end
