(* ===== verification/Key_Db.thy ===== *)
theory Key_Db
  imports Record_Store
begin

text \<open>
  The key database of \<open>src/keydb.h\<close> and \<open>src/keydb.cpp\<close>: the \<open>KeyEntry\<close> record
  with its on-disk layout, the flag bits, the accessors over the split video
  slots, and loading and saving of an entry.  The two \<open>float\<close> fields are kept as
  their 32-bit patterns.
\<close>

section \<open>Constants\<close>

definition KEY_MAGIC :: "64 word" where "KEY_MAGIC = 0x6b73e867a72cdd1f"
definition KEYENTRY_MIN_SIZE :: nat where "KEYENTRY_MIN_SIZE = 96"
definition KEYENTRY_SIZE :: nat where "KEYENTRY_SIZE = 456"

definition KEY_FLAG_ADMIN :: "32 word" where "KEY_FLAG_ADMIN = push_bit 0 1"
definition KEY_FLAG_BIDI_SIGN :: "32 word" where "KEY_FLAG_BIDI_SIGN = push_bit 1 1"
definition KEY_FLAG_TLOG :: "32 word" where "KEY_FLAG_TLOG = push_bit 2 1"
definition KEY_FLAG_BINLOG :: "32 word" where "KEY_FLAG_BINLOG = push_bit 3 1"
definition KEY_FLAG_USE_TZ :: "32 word" where "KEY_FLAG_USE_TZ = push_bit 4 1"
definition KEY_FLAG_VIDEO :: "32 word" where "KEY_FLAG_VIDEO = push_bit 5 1"

definition KEY_MAX_VIDEO_PORTS :: nat where "KEY_MAX_VIDEO_PORTS = 5"
definition KEY_VIDEO_PORTS_INLINE :: nat where "KEY_VIDEO_PORTS_INLINE = 3"
definition VIDEO_SLOT_SHIFT :: "nat \<Rightarrow> nat" where "VIDEO_SLOT_SHIFT slot = slot * 8"

definition VIDEO_SLOT_SRT :: "32 word" where "VIDEO_SLOT_SRT = push_bit 0 1"
definition VIDEO_SLOT_RECORD :: "32 word" where "VIDEO_SLOT_RECORD = push_bit 1 1"
definition VIDEO_SLOT_RAW_TCP :: "32 word" where "VIDEO_SLOT_RAW_TCP = push_bit 2 1"
definition VIDEO_SLOT_SESSION_OK :: "32 word" where "VIDEO_SLOT_SESSION_OK = push_bit 3 1"
definition VIDEO_SLOT_OPEN_PUB :: "32 word" where "VIDEO_SLOT_OPEN_PUB = push_bit 4 1"
definition VIDEO_OPT_SHIFT :: nat where "VIDEO_OPT_SHIFT = 24"
definition VIDEO_OPT_AUDIO :: "32 word" where "VIDEO_OPT_AUDIO = push_bit 0 1"
definition VIDEO_MAV_GRACE_DEFAULT_S :: nat where "VIDEO_MAV_GRACE_DEFAULT_S = 60"

lemmas key_consts = KEY_MAX_VIDEO_PORTS_def KEY_VIDEO_PORTS_INLINE_def VIDEO_SLOT_SHIFT_def
  KEYENTRY_MIN_SIZE_def KEYENTRY_SIZE_def

section \<open>Slot options\<close>

definition video_slot_opts_split :: "32 word \<Rightarrow> 32 word \<Rightarrow> nat \<Rightarrow> 32 word" where
  "video_slot_opts_split lo hi slot =
     (if slot \<ge> KEY_MAX_VIDEO_PORTS then 0
      else if slot < KEY_VIDEO_PORTS_INLINE then (drop_bit (VIDEO_SLOT_SHIFT slot) lo) AND 0xFF
      else (drop_bit (VIDEO_SLOT_SHIFT (slot - KEY_VIDEO_PORTS_INLINE)) hi) AND 0xFF)"

definition video_slot_opts_set :: "32 word \<Rightarrow> nat \<Rightarrow> 32 word \<Rightarrow> 32 word" where
  "video_slot_opts_set w index opts =
     (let m = push_bit (VIDEO_SLOT_SHIFT index) 0xFF
      in (w AND NOT m) OR push_bit (VIDEO_SLOT_SHIFT index) (opts AND 0xFF))"

definition video_entry_opts :: "32 word \<Rightarrow> 32 word" where
  "video_entry_opts video_flags = (drop_bit VIDEO_OPT_SHIFT video_flags) AND 0xFF"

section \<open>The entry\<close>

record key_entry =
  ke_magic :: "64 word"
  ke_timestamp :: "64 word"
  secret_key :: bytes
  port1 :: "32 word"
  connections :: "32 word"
  count1 :: "32 word"
  count2 :: "32 word"
  ke_name :: bytes
  ke_flags :: "32 word"
  log_retention_days :: "32 word"
  fc_sysid :: "32 word"
  tz_offset_hours :: "32 word"
  video_ports :: "(32 word) list"
  video_flags :: "32 word"
  video_viewer_key :: bytes
  video_publish_key :: bytes
  video_quota_mb :: "32 word"
  video_mav_grace_s :: "32 word"
  video_rtmp_path :: "bytes list"
  ke_reserved :: bytes
  video_ports_hi :: "(32 word) list"
  video_flags_hi :: "32 word"
  video_rtmp_path_hi :: "bytes list"
  ke_reserved2 :: bytes

definition video_port_of :: "key_entry \<Rightarrow> nat \<Rightarrow> 32 word" where
  "video_port_of ke slot =
     (if slot < KEY_VIDEO_PORTS_INLINE then video_ports ke ! slot
      else if slot < KEY_MAX_VIDEO_PORTS then video_ports_hi ke ! (slot - KEY_VIDEO_PORTS_INLINE)
      else 0)"

definition video_rtmp_path_of :: "key_entry \<Rightarrow> nat \<Rightarrow> bytes" where
  "video_rtmp_path_of ke slot =
     (if slot < KEY_VIDEO_PORTS_INLINE then video_rtmp_path ke ! slot
      else if slot < KEY_MAX_VIDEO_PORTS then video_rtmp_path_hi ke ! (slot - KEY_VIDEO_PORTS_INLINE)
      else [])"

definition video_slot_opts_of :: "key_entry \<Rightarrow> nat \<Rightarrow> 32 word" where
  "video_slot_opts_of ke slot = video_slot_opts_split (video_flags ke) (video_flags_hi ke) slot"

text \<open>The array bounds of the C struct.\<close>

definition key_entry_valid :: "key_entry \<Rightarrow> bool" where
  "key_entry_valid ke = (length (secret_key ke) = 32 \<and> length (ke_name ke) = 32
     \<and> length (video_ports ke) = 3 \<and> length (video_viewer_key ke) = 32
     \<and> length (video_publish_key ke) = 32 \<and> map length (video_rtmp_path ke) = [32, 32, 32]
     \<and> length (ke_reserved ke) = 48 \<and> length (video_ports_hi ke) = 2
     \<and> map length (video_rtmp_path_hi ke) = [32, 32] \<and> length (ke_reserved2 ke) = 36)"

section \<open>Layout on disk\<close>

definition key_widths :: "nat list" where
  "key_widths = [8, 8, 32, 4, 4, 4, 4, 32, 4, 4, 4, 4, 4, 4, 4, 4, 32, 32, 4, 4, 32, 32, 32, 48,
                 4, 4, 4, 32, 32, 36]"

lemma length_key_widths: "length key_widths = 30"
  by (simp add: key_widths_def)

definition key_encode :: "key_entry \<Rightarrow> bytes" where
  "key_encode ke = concat
     ([u64_field (ke_magic ke), u64_field (ke_timestamp ke), secret_key ke, u32_field (port1 ke),
       u32_field (connections ke), u32_field (count1 ke), u32_field (count2 ke), ke_name ke,
       u32_field (ke_flags ke), u32_field (log_retention_days ke), u32_field (fc_sysid ke),
       u32_field (tz_offset_hours ke)]
      @ map u32_field (video_ports ke)
      @ [u32_field (video_flags ke), video_viewer_key ke, video_publish_key ke,
         u32_field (video_quota_mb ke), u32_field (video_mav_grace_s ke)]
      @ video_rtmp_path ke @ [ke_reserved ke]
      @ map u32_field (video_ports_hi ke) @ [u32_field (video_flags_hi ke)]
      @ video_rtmp_path_hi ke @ [ke_reserved2 ke])"

definition key_decode :: "bytes \<Rightarrow> key_entry" where
  "key_decode bs = (let f = split_fields key_widths bs in
     \<lparr> ke_magic = u64_of (f ! 0), ke_timestamp = u64_of (f ! 1), secret_key = f ! 2,
       port1 = u32_of (f ! 3), connections = u32_of (f ! 4), count1 = u32_of (f ! 5),
       count2 = u32_of (f ! 6), ke_name = f ! 7, ke_flags = u32_of (f ! 8),
       log_retention_days = u32_of (f ! 9), fc_sysid = u32_of (f ! 10),
       tz_offset_hours = u32_of (f ! 11),
       video_ports = [u32_of (f ! 12), u32_of (f ! 13), u32_of (f ! 14)],
       video_flags = u32_of (f ! 15), video_viewer_key = f ! 16, video_publish_key = f ! 17,
       video_quota_mb = u32_of (f ! 18), video_mav_grace_s = u32_of (f ! 19),
       video_rtmp_path = [f ! 20, f ! 21, f ! 22], ke_reserved = f ! 23,
       video_ports_hi = [u32_of (f ! 24), u32_of (f ! 25)], video_flags_hi = u32_of (f ! 26),
       video_rtmp_path_hi = [f ! 27, f ! 28], ke_reserved2 = f ! 29 \<rparr>)"

section \<open>Load and save\<close>

definition key_db_key :: "32 word \<Rightarrow> bytes" where
  "key_db_key port2 = u32_field port2"

definition db_open :: "open_result list \<Rightarrow> bool" where
  "db_open attempts = open_retry 5 attempts"

text \<open>
  \<open>db_load_key\<close>: \<open>None\<close> is \<open>false\<close> with the caller's entry untouched; otherwise
  the entry as read and the result of the magic test.
\<close>

definition db_load_key :: "'db tdb_ops \<Rightarrow> 'db \<Rightarrow> 32 word \<Rightarrow> (key_entry \<times> bool) option" where
  "db_load_key T db port2 = (case tdb_fetch T db (key_db_key port2) of
       None \<Rightarrow> None
     | Some d \<Rightarrow>
         if length d < KEYENTRY_MIN_SIZE then None
         else let ke = key_decode (zero_extend KEYENTRY_SIZE d) in Some (ke, ke_magic ke = KEY_MAGIC))"

definition db_save_key :: "'db tdb_ops \<Rightarrow> 'db \<Rightarrow> 32 word \<Rightarrow> key_entry \<Rightarrow> 'db \<times> bool" where
  "db_save_key T db port2 ke =
     (let k = key_db_key port2; orig = tdb_fetch T db k
      in tdb_store T db k (with_tail KEYENTRY_SIZE (key_encode ke) orig))"

section \<open>Lemmas\<close>

lemma list3: "length xs = 3 \<longleftrightarrow> (\<exists>a b c. xs = [a, b, c])"
  by (auto simp: numeral_3_eq_3 length_Suc_conv)

lemma list2: "length xs = 2 \<longleftrightarrow> (\<exists>a b. xs = [a, b])"
  by (auto simp: numeral_2_eq_2 length_Suc_conv)

lemma key_entry_shape:
  assumes "key_entry_valid ke"
  obtains a b c d e p q r s t where "video_ports ke = [a, b, c]" "video_ports_hi ke = [d, e]"
    "video_rtmp_path ke = [p, q, r]" "video_rtmp_path_hi ke = [s, t]"
    "length p = 32" "length q = 32" "length r = 32" "length s = 32" "length t = 32"
proof -
  have "length (video_rtmp_path ke) = 3" "length (video_rtmp_path_hi ke) = 2"
    using assms by (auto simp: key_entry_valid_def dest!: arg_cong [of _ "[_, _, _]" length]
        arg_cong [of _ "[_, _]" length])
  then show ?thesis using assms that by (auto simp: key_entry_valid_def list3 list2)
qed

lemma key_decode_encode: "key_entry_valid ke \<Longrightarrow> key_decode (key_encode ke) = ke"
  and key_encode_size: "key_entry_valid ke \<Longrightarrow> length (key_encode ke) = KEYENTRY_SIZE"
proof -
  assume v: "key_entry_valid ke"
  then obtain a b c d e p q r s t where sh: "video_ports ke = [a, b, c]" "video_ports_hi ke = [d, e]"
    "video_rtmp_path ke = [p, q, r]" "video_rtmp_path_hi ke = [s, t]"
    "length p = 32" "length q = 32" "length r = 32" "length s = 32" "length t = 32"
    by (rule key_entry_shape)
  let ?fs = "[u64_field (ke_magic ke), u64_field (ke_timestamp ke), secret_key ke, u32_field (port1 ke),
       u32_field (connections ke), u32_field (count1 ke), u32_field (count2 ke), ke_name ke,
       u32_field (ke_flags ke), u32_field (log_retention_days ke), u32_field (fc_sysid ke),
       u32_field (tz_offset_hours ke), u32_field a, u32_field b, u32_field c,
       u32_field (video_flags ke), video_viewer_key ke, video_publish_key ke,
       u32_field (video_quota_mb ke), u32_field (video_mav_grace_s ke), p, q, r, ke_reserved ke,
       u32_field d, u32_field e, u32_field (video_flags_hi ke), s, t, ke_reserved2 ke]"
  have enc: "key_encode ke = concat ?fs" by (simp add: key_encode_def sh)
  have widths: "map length ?fs = key_widths"
    using v sh by (simp add: key_widths_def key_entry_valid_def enc_simps)
  have "split_fields key_widths (key_encode ke) = ?fs"
    unfolding enc by (rule split_fields_concat [OF widths])
  then show "key_decode (key_encode ke) = ke"
    unfolding key_decode_def Let_def by (simp add: enc_simps sh)
  have "length (key_encode ke) = sum_list (map length ?fs)" unfolding enc by (rule length_concat)
  then show "length (key_encode ke) = KEYENTRY_SIZE"
    unfolding widths by (simp add: key_widths_def KEYENTRY_SIZE_def)
qed

interpretation key: record_layout KEYENTRY_SIZE KEYENTRY_MIN_SIZE key_encode key_decode key_entry_valid
  by unfold_locales (simp_all add: key_decode_encode key_encode_size key_consts)

lemma u32_field_inj [simp]: "u32_field a = u32_field b \<longleftrightarrow> a = b"
  by (metis of_fields(1))

text \<open>What is on disk after a save, and what a load makes of it.\<close>

lemma save_fetch:
  assumes "tdb_laws T" "db_save_key T db port2 ke = (db', True)"
  shows "tdb_fetch T db' = (tdb_fetch T db)(key_db_key port2 \<mapsto> with_tail KEYENTRY_SIZE (key_encode ke) (tdb_fetch T db (key_db_key port2)))"
  using fetch_store [OF assms(1)] assms(2) by (simp add: db_save_key_def Let_def)

lemma save_then_load:
  assumes "tdb_laws T" "key_entry_valid ke" "db_save_key T db port2 ke = (db', True)"
  shows "db_load_key T db' port2 = Some (ke, ke_magic ke = KEY_MAGIC)"
  using assms(2) key.stored_size [OF assms(2)] key.read_back [OF assms(2)]
  by (simp add: db_load_key_def save_fetch [OF assms(1,3)] Let_def not_less)

lemma save_load_other:
  assumes "tdb_laws T" "db_save_key T db port2 ke = (db', True)" "p \<noteq> port2"
  shows "db_load_key T db' p = db_load_key T db p"
  using assms(3) by (simp add: db_load_key_def save_fetch [OF assms(1,2)] key_db_key_def)

lemma key_decode_valid: "length d = KEYENTRY_SIZE \<Longrightarrow> key_entry_valid (key_decode d)"
  by (simp add: key_entry_valid_def key_decode_def key_widths_def Let_def nth_split_fields length_seg KEYENTRY_SIZE_def)

lemma load_valid: "db_load_key T db p = Some (ke, ok) \<Longrightarrow> key_entry_valid ke"
  by (auto simp: db_load_key_def Let_def intro!: key_decode_valid split: option.splits if_splits)

lemma load_magic: "db_load_key T db p = Some (ke, ok) \<Longrightarrow> ok \<longleftrightarrow> ke_magic ke = KEY_MAGIC"
  by (auto simp: db_load_key_def Let_def split: option.splits if_splits)

section \<open>Properties\<close>

text \<open>
  C18.  Saving an entry and loading it again gives the entry back; the entries
  of all other ports are untouched, and bytes that newer code appended to the
  record on disk survive the write.
\<close>

theorem key_save_load:
  assumes "tdb_laws T" "key_entry_valid ke" "ke_magic ke = KEY_MAGIC"
    and "db_save_key T db port2 ke = (db', True)"
  shows "db_load_key T db' port2 = Some (ke, True)
    \<and> (\<forall>p. p \<noteq> port2 \<longrightarrow> db_load_key T db' p = db_load_key T db p)
    \<and> (\<forall>old. tdb_fetch T db (key_db_key port2) = Some old \<longrightarrow>
         (\<exists>new. tdb_fetch T db' (key_db_key port2) = Some new \<and> drop 456 new = drop 456 old))"
proof -
  have "drop 456 (with_tail KEYENTRY_SIZE (key_encode ke) (Some old)) = drop 456 old" for old
    using key.tail_kept [OF assms(2), of old] by (simp add: KEYENTRY_SIZE_def)
  then show ?thesis
    using save_then_load [OF assms(1,2,4)] save_load_other [OF assms(1,4)] assms(3) by (auto simp: save_fetch [OF assms(1,4)])
qed

definition sample_key_entry :: key_entry where
  "sample_key_entry = (key_decode (replicate 456 0))\<lparr> ke_magic := KEY_MAGIC \<rparr>"

lemma sample_key_valid: "key_entry_valid sample_key_entry"
  using key_decode_valid [of "replicate 456 0"] by (simp add: sample_key_entry_def key_entry_valid_def KEYENTRY_SIZE_def)

theorem key_save_load_witness:
  "db_load_key mem_tdb (fst (db_save_key mem_tdb [] 7 sample_key_entry)) 7 = Some (sample_key_entry, True)"
  using key_save_load [OF mem_tdb_laws sample_key_valid, of "[]" 7 "fst (db_save_key mem_tdb [] 7 sample_key_entry)"]
  by (simp add: db_save_key_def Let_def mem_tdb_def sample_key_entry_def)

text \<open>
  The encoding is the C struct: every field lies at the offset the static
  assertions of \<open>keydb.h\<close> fix (here in declaration order, arrays by element),
  and the record is 456 bytes.
\<close>

theorem key_layout_offsets:
  "map (\<lambda>i. sum_list (take i key_widths)) [0 ..< 31] =
     [0, 8, 16, 48, 52, 56, 60, 64, 96, 100, 104, 108, 112, 116, 120, 124, 128, 160, 192, 196,
      200, 232, 264, 296, 344, 348, 352, 356, 388, 420, 456]"
  by (simp add: key_widths_def upt_rec)

text \<open>
  Forward compatibility: a record of the original 96-byte layout loads
  with every later field at its default, so that no flag is set, every video
  slot is unused with no options, and neither video password is set.
\<close>

theorem key_legacy_defaults:
  assumes "tdb_fetch T db (key_db_key port2) = Some d" "length d = 96"
    and "db_load_key T db port2 = Some (ke, ok)"
  shows "ke_flags ke = 0 \<and> video_port_of ke slot = 0 \<and> video_slot_opts_of ke slot = 0
    \<and> video_viewer_key ke = replicate 32 0 \<and> video_publish_key ke = replicate 32 0"
proof -
  have ke: "ke = key_decode (d @ replicate 360 0)"
    using assms by (simp add: db_load_key_def zero_extend_def key_consts Let_def)
  have z: "seg (d @ replicate 360 0) a n = replicate n 0" if "a \<ge> 96" "a + n \<le> 456" for a n
    using that assms(2) by (simp add: seg_def min_def)
  let ?f = "split_fields key_widths (d @ replicate 360 0)"
  have f: "?f ! i = replicate (key_widths ! i) 0" if "i \<in> set [8 ..< 30]" for i
  proof -
    have "list_all (\<lambda>i. 96 \<le> sum_list (take i key_widths) \<and> sum_list (take i key_widths) + key_widths ! i \<le> 456)
        [8 ..< 30]"
      by (simp add: key_widths_def upt_rec)
    with that have "96 \<le> sum_list (take i key_widths)" "sum_list (take i key_widths) + key_widths ! i \<le> 456"
      by (auto simp only: list_all_iff)
    moreover have "i < length key_widths" using that by (simp only: set_upt atLeastLessThan_iff length_key_widths)
    ultimately show ?thesis using z by (simp add: nth_split_fields)
  qed
  have "ke_flags ke = 0" "video_flags ke = 0" "video_flags_hi ke = 0"
    "video_ports ke = [0, 0, 0]" "video_ports_hi ke = [0, 0]"
    unfolding ke key_decode_def Let_def by (simp_all add: f enc_simps)
  moreover have "video_viewer_key ke = replicate 32 0" "video_publish_key ke = replicate 32 0"
    unfolding ke key_decode_def Let_def by (simp_all add: f) (simp_all add: key_widths_def)
  moreover have "[0, 0, 0 :: 32 word] ! slot = 0" if "slot < 3" for slot
    using that by (auto simp: numeral_3_eq_3 less_Suc_eq)
  moreover have "[0, 0 :: 32 word] ! (slot - 3) = 0" if "\<not> slot < 3" "slot < 5" for slot
    using that by (simp add: nth_Cons')
  ultimately show ?thesis
    by (simp add: video_port_of_def video_slot_opts_of_def video_slot_opts_split_def key_consts)
qed

theorem key_legacy_defaults_witness:
  "let d = u64_field KEY_MAGIC @ replicate 88 0; db = [(key_db_key 7, d)]
   in \<exists>ke. db_load_key mem_tdb db 7 = Some (ke, True) \<and> ke_flags ke = 0 \<and> video_port_of ke 4 = 0"
proof -
  define d where "d = u64_field KEY_MAGIC @ replicate 88 0"
  have len: "length d = 96" by (simp add: d_def enc_simps)
  have f: "tdb_fetch mem_tdb [(key_db_key 7, d)] (key_db_key 7) = Some d" by (simp add: mem_tdb_def)
  define ke where "ke = key_decode (zero_extend KEYENTRY_SIZE d)"
  have "ke_magic ke = KEY_MAGIC"
    by (simp add: ke_def key_decode_def Let_def nth_split_fields key_widths_def zero_extend_def d_def seg_def
        key_consts enc_simps)
  then have l: "db_load_key mem_tdb [(key_db_key 7, d)] 7 = Some (ke, True)"
    using f len by (simp add: db_load_key_def key_consts ke_def Let_def)
  from key_legacy_defaults [OF f len l, of 4] l show ?thesis by (simp add: Let_def d_def)
qed

text \<open>
  Per-slot options are independent: writing the options of one slot is
  read back for that slot, changes no other slot and no entry-wide option.
\<close>

theorem video_slot_opts_roundtrip:
  assumes "i < 3"
  shows "video_slot_opts_split (video_slot_opts_set lo i opts) hi i = opts AND 0xFF
    \<and> (\<forall>j. j \<noteq> i \<longrightarrow> video_slot_opts_split (video_slot_opts_set lo i opts) hi j = video_slot_opts_split lo hi j)
    \<and> video_entry_opts (video_slot_opts_set lo i opts) = video_entry_opts lo"
proof -
  have m: "(0xFF :: 32 word) = mask 8" by (simp add: mask_eq_exp_minus_1)
  have "i = 0 \<or> i = 1 \<or> i = 2" using assms by linarith
  moreover have "j < 3 \<Longrightarrow> j = 0 \<or> j = 1 \<or> j = 2" for j :: nat by linarith
  ultimately show ?thesis
    unfolding video_slot_opts_split_def video_slot_opts_set_def video_entry_opts_def key_consts VIDEO_OPT_SHIFT_def m Let_def
    by (auto intro!: bit_word_eqI simp: bit_simps)
qed

theorem video_slot_opts_roundtrip_witness:
  "video_slot_opts_split (video_slot_opts_set 0 1 VIDEO_SLOT_RECORD) 0 1 = VIDEO_SLOT_RECORD AND 0xFF"
  using video_slot_opts_roundtrip [of 1 0 VIDEO_SLOT_RECORD 0] by simp

end
