(* ===== verification/Conn_Db.thy ===== *)
theory Conn_Db
  imports Record_Store
begin

text \<open>
  The connection database of \<open>src/conntdb.h\<close> and \<open>src/conntdb.cpp\<close>: the
  \<open>ConnEntry\<close> record and its layout, keyed by \<open>(port2, conn_index)\<close>, and the
  operations the MAVLink children, the video children and the parent use.
\<close>

section \<open>Records\<close>

definition CONN_MAGIC :: "64 word" where "CONN_MAGIC = 0x436f6e6e45424553"
definition CONNENTRY_MIN_SIZE :: nat where "CONNENTRY_MIN_SIZE = 64"
definition CONNENTRY_SIZE :: nat where "CONNENTRY_SIZE = 72"
definition CONN_FLAG_DROP_REQUESTED :: "32 word" where "CONN_FLAG_DROP_REQUESTED = push_bit 0 1"
definition CONN_ROLE_VIDEO_PUB :: byte where "CONN_ROLE_VIDEO_PUB = 1"
definition CONN_TRANSPORT_UDP :: byte where "CONN_TRANSPORT_UDP = 0"
definition CONN_TRANSPORT_TCP :: byte where "CONN_TRANSPORT_TCP = 1"
definition CONN_TRANSPORT_WS :: byte where "CONN_TRANSPORT_WS = 2"
definition CONN_TRANSPORT_WSS :: byte where "CONN_TRANSPORT_WSS = 3"
definition VIDEO_CONN_INDEX_BASE :: int where "VIDEO_CONN_INDEX_BASE = 1000"
definition VIDEO_CONN_STRIDE :: int where "VIDEO_CONN_STRIDE = 256"
definition VIDEO_PUB_INDEX :: "int \<Rightarrow> int" where
  "VIDEO_PUB_INDEX slot = VIDEO_CONN_INDEX_BASE + slot * VIDEO_CONN_STRIDE"
definition VIDEO_SUB_INDEX :: "int \<Rightarrow> int \<Rightarrow> int" where
  "VIDEO_SUB_INDEX slot i = VIDEO_PUB_INDEX slot + 1 + i"

record conn_entry =
  ce_magic :: "64 word"
  connected_at :: "64 word"
  last_update :: "64 word"
  ce_port2 :: "32 word"
  conn_index :: "32 word"
  ce_pid :: "32 word"
  rx_msgs :: "32 word"
  tx_msgs :: "32 word"
  peer_ip_be :: "32 word"
  peer_port_be :: "16 word"
  transport :: byte
  is_user :: byte
  ce_flags :: "32 word"
  ce_pad :: "32 word"
  ce_pad2 :: "32 word"
  role :: byte
  stream_idx :: byte
  app_proto :: byte
  authenticated :: byte
  ce_pad3 :: "32 word"

definition conn_widths :: "nat list" where
  "conn_widths = [8, 8, 8, 4, 4, 4, 4, 4, 4, 2, 1, 1, 4, 4, 4, 1, 1, 1, 1, 4]"

definition conn_encode :: "conn_entry \<Rightarrow> bytes" where
  "conn_encode ce = concat
     [u64_field (ce_magic ce), u64_field (connected_at ce), u64_field (last_update ce),
      u32_field (ce_port2 ce), u32_field (conn_index ce), u32_field (ce_pid ce),
      u32_field (rx_msgs ce), u32_field (tx_msgs ce), u32_field (peer_ip_be ce),
      u16_field (peer_port_be ce), [transport ce], [is_user ce], u32_field (ce_flags ce),
      u32_field (ce_pad ce), u32_field (ce_pad2 ce), [role ce], [stream_idx ce],
      [app_proto ce], [authenticated ce], u32_field (ce_pad3 ce)]"

definition conn_decode :: "bytes \<Rightarrow> conn_entry" where
  "conn_decode bs = (let f = split_fields conn_widths bs in
     \<lparr> ce_magic = u64_of (f ! 0), connected_at = u64_of (f ! 1), last_update = u64_of (f ! 2),
       ce_port2 = u32_of (f ! 3), conn_index = u32_of (f ! 4), ce_pid = u32_of (f ! 5),
       rx_msgs = u32_of (f ! 6), tx_msgs = u32_of (f ! 7), peer_ip_be = u32_of (f ! 8),
       peer_port_be = u16_of (f ! 9), transport = hd (f ! 10), is_user = hd (f ! 11),
       ce_flags = u32_of (f ! 12), ce_pad = u32_of (f ! 13), ce_pad2 = u32_of (f ! 14),
       role = hd (f ! 15), stream_idx = hd (f ! 16), app_proto = hd (f ! 17),
       authenticated = hd (f ! 18), ce_pad3 = u32_of (f ! 19) \<rparr>)"

section \<open>Operations\<close>

definition conn_db_open :: "open_result list \<Rightarrow> bool" where
  "conn_db_open attempts = open_retry 5 attempts"

text \<open>\<open>ConnKey\<close>: the two ints, without padding.\<close>

definition make_key :: "32 word \<Rightarrow> 32 word \<Rightarrow> bytes" where
  "make_key port2 index = u32_field port2 @ u32_field index"

definition key_port2 :: "bytes \<Rightarrow> 32 word" where "key_port2 k = u32_of (take 4 k)"
definition key_index :: "bytes \<Rightarrow> 32 word" where "key_index k = u32_of (drop 4 k)"

definition conn_write :: "'db tdb_ops \<Rightarrow> 'db \<Rightarrow> conn_entry \<Rightarrow> 'db \<times> bool" where
  "conn_write T db ce =
     (let kd = make_key (ce_port2 ce) (conn_index ce); orig = tdb_fetch T db kd
      in tdb_store T db kd (with_tail CONNENTRY_SIZE (conn_encode ce) orig))"

definition conn_delete :: "'db tdb_ops \<Rightarrow> 'db \<Rightarrow> 32 word \<Rightarrow> 32 word \<Rightarrow> 'db \<times> bool" where
  "conn_delete T db port2 index = tdb_delete T db (make_key port2 index)"

text \<open>The traversal callback \<open>collect_port2\<close>: the keys of one port.\<close>

definition collect_port2 :: "'db tdb_ops \<Rightarrow> 'db \<Rightarrow> 32 word \<Rightarrow> bytes list" where
  "collect_port2 T db port2 =
     filter (\<lambda>k. length k = 8 \<and> key_port2 k = port2) (map fst (tdb_records T db))"

fun delete_keys :: "'db tdb_ops \<Rightarrow> 'db \<Rightarrow> bytes list \<Rightarrow> 'db \<times> nat" where
  "delete_keys T db [] = (db, 0)"
| "delete_keys T db (k # ks) =
     (let (db1, ok) = tdb_delete T db k; (db2, n) = delete_keys T db1 ks
      in (db2, n + (if ok then 1 else 0)))"

definition conn_delete_for_port2 :: "'db tdb_ops \<Rightarrow> 'db \<Rightarrow> 32 word \<Rightarrow> 'db \<times> nat" where
  "conn_delete_for_port2 T db port2 = delete_keys T db (collect_port2 T db port2)"

definition conn_delete_index_range :: "'db tdb_ops \<Rightarrow> 'db \<Rightarrow> 32 word \<Rightarrow> int \<Rightarrow> int \<Rightarrow> 'db \<times> nat" where
  "conn_delete_index_range T db port2 lo hi =
     delete_keys T db (filter (\<lambda>k. \<not> (sint (key_index k) < lo \<or> sint (key_index k) > hi))
                              (collect_port2 T db port2))"

text \<open>\<open>collect_drop_mask\<close> on one record, and its traversal.\<close>

definition collect_drop_mask :: "32 word \<Rightarrow> bytes \<times> bytes \<Rightarrow> 32 word \<Rightarrow> 32 word" where
  "collect_drop_mask port2 kv m =
     (let (k, d) = kv in
      if length k \<noteq> 8 \<or> length d < CONNENTRY_MIN_SIZE then m
      else if key_port2 k \<noteq> port2 \<or> sint (key_index k) < 0 \<or> sint (key_index k) \<ge> 32 then m
      else
        let e = conn_decode (zero_extend CONNENTRY_SIZE d)
        in if ce_magic e = CONN_MAGIC \<and> ce_flags e AND CONN_FLAG_DROP_REQUESTED \<noteq> 0
           then m OR push_bit (nat (sint (key_index k))) 1 else m)"

definition conn_drop_mask :: "'db tdb_ops \<Rightarrow> 'db \<Rightarrow> 32 word \<Rightarrow> 32 word" where
  "conn_drop_mask T db port2 = fold (collect_drop_mask port2) (tdb_records T db) 0"

definition conn_get_user :: "'db tdb_ops \<Rightarrow> 'db \<Rightarrow> 32 word \<Rightarrow> conn_entry option" where
  "conn_get_user T db port2 = (case tdb_fetch T db (make_key port2 0) of
       None \<Rightarrow> None
     | Some d \<Rightarrow>
         if length d \<ge> CONNENTRY_MIN_SIZE then
           let e = conn_decode (zero_extend CONNENTRY_SIZE d)
           in if ce_magic e = CONN_MAGIC \<and> is_user e \<noteq> 0 then Some e else None
         else None)"

text \<open>The parent's one-shot helpers; \<open>opened\<close> is whether the transaction could be started.\<close>

definition conn_remove_port2 :: "'db tdb_ops \<Rightarrow> bool \<Rightarrow> 'db \<Rightarrow> 32 word \<Rightarrow> 'db" where
  "conn_remove_port2 T opened db port2 = (if opened then fst (conn_delete_for_port2 T db port2) else db)"

definition conn_remove_video :: "'db tdb_ops \<Rightarrow> bool \<Rightarrow> 'db \<Rightarrow> 32 word \<Rightarrow> 'db" where
  "conn_remove_video T opened db port2 =
     (if opened then fst (conn_delete_index_range T db port2 VIDEO_CONN_INDEX_BASE 2147483647) else db)"

section \<open>Lemmas\<close>

lemma conn_fields:
  "split_fields conn_widths (conn_encode ce) =
     [u64_field (ce_magic ce), u64_field (connected_at ce), u64_field (last_update ce),
      u32_field (ce_port2 ce), u32_field (conn_index ce), u32_field (ce_pid ce),
      u32_field (rx_msgs ce), u32_field (tx_msgs ce), u32_field (peer_ip_be ce),
      u16_field (peer_port_be ce), [transport ce], [is_user ce], u32_field (ce_flags ce),
      u32_field (ce_pad ce), u32_field (ce_pad2 ce), [role ce], [stream_idx ce],
      [app_proto ce], [authenticated ce], u32_field (ce_pad3 ce)]"
  unfolding conn_encode_def by (rule split_fields_concat) (simp add: conn_widths_def enc_simps)

lemma conn_decode_encode: "conn_decode (conn_encode ce) = ce"
  unfolding conn_decode_def conn_fields Let_def by (simp add: enc_simps)

lemma conn_encode_size: "length (conn_encode ce) = CONNENTRY_SIZE"
  by (simp add: conn_encode_def CONNENTRY_SIZE_def enc_simps)

interpretation conn: record_layout CONNENTRY_SIZE CONNENTRY_MIN_SIZE conn_encode conn_decode "\<lambda>_. True"
  by unfold_locales (simp_all add: conn_decode_encode conn_encode_size CONNENTRY_SIZE_def CONNENTRY_MIN_SIZE_def)

lemma make_key_parts [simp]:
  "length (make_key p i) = 8" "key_port2 (make_key p i) = p" "key_index (make_key p i) = i"
  by (simp_all add: make_key_def key_port2_def key_index_def enc_simps)

lemma make_key_inj: "make_key p i = make_key q j \<longleftrightarrow> p = q \<and> i = j"
  by (metis make_key_parts(2,3))

lemma u32_field_of: "length k = 4 \<Longrightarrow> u32_field (u32_of k) = k"
  using le_val_less [of k] le_bytes_le_val [of k]
  by (simp add: u32_field_def u32_of_def unat_of_nat del: le_bytes.simps)

lemma make_key_of: "length k = 8 \<Longrightarrow> make_key (key_port2 k) (key_index k) = k"
  by (simp add: make_key_def key_port2_def key_index_def u32_field_of)

lemma delete_keys_Cons [simp]:
  "fst (delete_keys T db (k # ks)) = fst (delete_keys T (fst (tdb_delete T db k)) ks)"
  "snd (delete_keys T db (k # ks)) = snd (delete_keys T (fst (tdb_delete T db k)) ks)
     + (if snd (tdb_delete T db k) then 1 else 0)"
  by (simp_all add: Let_def split: prod.split)

declare delete_keys.simps(2) [simp del]

lemma delete_keys_fetch:
  assumes "tdb_laws T"
  shows "tdb_fetch T (fst (delete_keys T db ks)) k = (if k \<in> set ks then None else tdb_fetch T db k)"
  by (induction ks arbitrary: db) (simp_all add: fetch_delete [OF assms])

lemma delete_keys_count:
  assumes "tdb_laws T" "distinct ks" "\<forall>k \<in> set ks. tdb_fetch T db k \<noteq> None"
  shows "snd (delete_keys T db ks) = length ks"
  using assms(2,3)
proof (induction ks arbitrary: db)
  case (Cons x ks)
  then have "\<forall>k \<in> set ks. tdb_fetch T (fst (tdb_delete T db x)) k \<noteq> None"
    by (auto simp: fetch_delete [OF assms(1)])
  with Cons show ?case using delete_found [OF assms(1), of db x] by simp
qed simp

lemma in_collect:
  assumes "tdb_laws T"
  shows "k \<in> set (collect_port2 T db port2) \<longleftrightarrow>
     length k = 8 \<and> key_port2 k = port2 \<and> tdb_fetch T db k \<noteq> None"
proof -
  have "k \<in> fst ` set (tdb_records T db) \<longleftrightarrow> (\<exists>v. (k, v) \<in> set (tdb_records T db))" by force
  then show ?thesis by (auto simp: collect_port2_def in_records [OF assms])
qed

lemma distinct_collect: "tdb_laws T \<Longrightarrow> distinct (collect_port2 T db port2)"
  by (simp add: collect_port2_def distinct_records)

text \<open>The record of a key, as the readers see it.\<close>

definition conn_row :: "'db tdb_ops \<Rightarrow> 'db \<Rightarrow> 32 word \<Rightarrow> 32 word \<Rightarrow> bytes option" where
  "conn_row T db port2 index = tdb_fetch T db (make_key port2 index)"

definition drop_wanted :: "bytes \<Rightarrow> bool" where
  "drop_wanted d = (length d \<ge> 64 \<and> ce_magic (conn_decode (zero_extend 72 d)) = CONN_MAGIC
     \<and> bit (ce_flags (conn_decode (zero_extend 72 d))) 0)"

lemma collect_drop_mask_bit:
  assumes "i < 32"
  shows "bit (collect_drop_mask port2 (k, d) m) i \<longleftrightarrow>
    bit m i \<or> length k = 8 \<and> key_port2 k = port2 \<and> sint (key_index k) = int i \<and> drop_wanted d"
proof -
  have f: "w AND CONN_FLAG_DROP_REQUESTED \<noteq> 0 \<longleftrightarrow> bit w 0" for w :: "32 word"
    using and_exp_eq_0_iff_not_bit [of w 0] by (simp add: CONN_FLAG_DROP_REQUESTED_def)
  show ?thesis
    using assms by (auto simp: collect_drop_mask_def drop_wanted_def f Let_def bit_simps CONNENTRY_MIN_SIZE_def CONNENTRY_SIZE_def)
qed

lemma fold_drop_mask_bit:
  "i < 32 \<Longrightarrow> bit (fold (collect_drop_mask port2) rs m) i \<longleftrightarrow>
     bit m i \<or> (\<exists>(k, d) \<in> set rs. length k = 8 \<and> key_port2 k = port2 \<and> sint (key_index k) = int i \<and> drop_wanted d)"
proof (induction rs arbitrary: m)
  case (Cons r rs)
  obtain k d where r: "r = (k, d)" by force
  show ?case using Cons.IH [OF Cons.prems] collect_drop_mask_bit [OF Cons.prems, of port2 k d m] r by auto
qed simp

section \<open>Properties\<close>

text \<open>
  The session record that admits video publishers: after the child wrote
  a user-side row, \<open>conn_get_user\<close> returns exactly that row, and the row of
  every other key is as before.
\<close>

theorem conn_write_get_user:
  assumes "tdb_laws T" "conn_write T db ce = (db', True)"
    and "ce_magic ce = CONN_MAGIC" "is_user ce \<noteq> 0" "conn_index ce = 0"
  shows "conn_get_user T db' (ce_port2 ce) = Some ce
    \<and> (\<forall>p i. (p, i) \<noteq> (ce_port2 ce, 0) \<longrightarrow> conn_row T db' p i = conn_row T db p i)"
proof -
  let ?d = "with_tail CONNENTRY_SIZE (conn_encode ce) (tdb_fetch T db (make_key (ce_port2 ce) 0))"
  have f: "tdb_fetch T db' = (tdb_fetch T db)(make_key (ce_port2 ce) 0 \<mapsto> ?d)"
    using fetch_store [OF assms(1)] assms(2,5) by (simp add: conn_write_def Let_def)
  show ?thesis
    using assms(3,4) conn.stored_size [of ce] conn.read_back [of ce]
    by (auto simp: conn_get_user_def f Let_def conn_row_def make_key_inj)
qed

definition sample_conn :: conn_entry where
  "sample_conn = (conn_decode (replicate 72 0))\<lparr> ce_magic := CONN_MAGIC, ce_port2 := 5, conn_index := 0, is_user := 1 \<rparr>"

theorem conn_write_get_user_witness:
  "conn_get_user mem_tdb (fst (conn_write mem_tdb [] sample_conn)) 5 = Some sample_conn"
  using conn_write_get_user [OF mem_tdb_laws, of "[]" sample_conn "fst (conn_write mem_tdb [] sample_conn)"]
  by (simp add: conn_write_def Let_def mem_tdb_def sample_conn_def)

text \<open>
  The deletions remove exactly what they say: \<open>conn_delete_for_port2\<close> the
  rows of the port, \<open>conn_delete_index_range\<close> those whose index is in the range,
  no row of another port, and the returned count is the number of rows removed.
\<close>

theorem conn_delete_exact:
  assumes "tdb_laws T"
  shows "conn_row T (fst (conn_delete_for_port2 T db port2)) p i
           = (if p = port2 then None else conn_row T db p i)
    \<and> conn_row T (fst (conn_delete_index_range T db port2 lo hi)) p i
           = (if p = port2 \<and> lo \<le> sint i \<and> sint i \<le> hi then None else conn_row T db p i)
    \<and> snd (conn_delete_for_port2 T db port2) = card {i. conn_row T db port2 i \<noteq> None}"
proof -
  have "snd (conn_delete_for_port2 T db port2) = length (collect_port2 T db port2)"
    unfolding conn_delete_for_port2_def
    by (rule delete_keys_count [OF assms distinct_collect [OF assms]]) (simp add: in_collect [OF assms])
  also have "\<dots> = card (set (collect_port2 T db port2))"
    by (simp add: distinct_card distinct_collect [OF assms])
  also have "set (collect_port2 T db port2) = make_key port2 ` {i. conn_row T db port2 i \<noteq> None}"
  proof (intro set_eqI iffI)
    fix k assume "k \<in> set (collect_port2 T db port2)"
    then have k: "length k = 8" "key_port2 k = port2" "tdb_fetch T db k \<noteq> None" by (simp_all add: in_collect [OF assms])
    then have "k = make_key port2 (key_index k)" using make_key_of [of k] by simp
    with k(3) show "k \<in> make_key port2 ` {i. conn_row T db port2 i \<noteq> None}" by (auto simp: conn_row_def)
  qed (auto simp: in_collect [OF assms] conn_row_def)
  also have "card \<dots> = card {i. conn_row T db port2 i \<noteq> None}"
    by (rule card_image) (simp add: inj_on_def make_key_inj)
  finally show ?thesis
    by (auto simp: conn_row_def conn_delete_for_port2_def conn_delete_index_range_def
        delete_keys_fetch [OF assms] in_collect [OF assms])
qed

theorem conn_delete_exact_witness:
  "conn_row mem_tdb (fst (conn_delete_for_port2 mem_tdb [(make_key 5 0, [1]), (make_key 6 0, [2])] 5)) 6 0 = Some [2]"
  using conn_delete_exact [OF mem_tdb_laws, of "[(make_key 5 0, [1]), (make_key 6 0, [2])]" 5 6 0 0 0]
  by (simp add: conn_row_def mem_tdb_def make_key_inj)

text \<open>
  \<open>conn_remove_video\<close> keeps every row of the MAVLink child (indices below
  \<open>VIDEO_CONN_INDEX_BASE\<close>) and removes every publisher and viewer row of the
  port: the two index ranges are disjoint.
\<close>

theorem conn_remove_video_separates:
  assumes "tdb_laws T"
  shows "(sint i < VIDEO_CONN_INDEX_BASE \<longrightarrow> conn_row T (conn_remove_video T opened db port2) p i = conn_row T db p i)
    \<and> (opened \<longrightarrow> VIDEO_CONN_INDEX_BASE \<le> sint i \<longrightarrow> conn_row T (conn_remove_video T opened db port2) port2 i = None)
    \<and> (0 \<le> slot \<longrightarrow> 0 \<le> v \<longrightarrow> VIDEO_CONN_INDEX_BASE \<le> VIDEO_PUB_INDEX slot
         \<and> VIDEO_CONN_INDEX_BASE < VIDEO_SUB_INDEX slot v)"
proof -
  have "sint i \<le> 2147483647" using sint_lt [of i] by simp
  then show ?thesis
    using conn_delete_exact [OF assms, of db port2 p i VIDEO_CONN_INDEX_BASE 2147483647]
      conn_delete_exact [OF assms, of db port2 port2 i VIDEO_CONN_INDEX_BASE 2147483647]
    by (simp add: conn_remove_video_def VIDEO_CONN_INDEX_BASE_def VIDEO_PUB_INDEX_def VIDEO_SUB_INDEX_def
        VIDEO_CONN_STRIDE_def)
qed

theorem conn_remove_video_separates_witness:
  "conn_row mem_tdb (conn_remove_video mem_tdb True [(make_key 5 0, [1])] 5) 5 0 = Some [1]"
  using conn_remove_video_separates [OF mem_tdb_laws, of 0 True "[(make_key 5 0, [1])]" 5 5 0 0]
  by (simp add: VIDEO_CONN_INDEX_BASE_def conn_row_def mem_tdb_def)

text \<open>
  The drop mask is exact for the indices it covers: bit \<open>i\<close> is set iff the
  row of index \<open>i\<close> carries the magic and a drop request.  An index of 32 or more
  contributes nothing.
\<close>

theorem conn_drop_mask_exact:
  assumes "tdb_laws T" "i < 32"
  shows "bit (conn_drop_mask T db port2) i \<longleftrightarrow>
    (\<exists>d. conn_row T db port2 (word_of_nat i) = Some d \<and> drop_wanted d)"
proof -
  have i: "sint (word_of_nat i :: 32 word) = int i"
    using assms(2) by (simp add: signed_of_nat signed_take_bit_int_eq_self)
  have "bit (conn_drop_mask T db port2) i \<longleftrightarrow>
      (\<exists>k d. tdb_fetch T db k = Some d \<and> length k = 8 \<and> key_port2 k = port2 \<and> sint (key_index k) = int i \<and> drop_wanted d)"
    unfolding conn_drop_mask_def fold_drop_mask_bit [OF assms(2)]
    by (simp add: Bex_def split_paired_Ex in_records [OF assms(1)])
  also have "\<dots> \<longleftrightarrow> (\<exists>d. conn_row T db port2 (word_of_nat i) = Some d \<and> drop_wanted d)"
    using i make_key_of by (auto simp: conn_row_def) (metis signed_word_eqI make_key_parts)+
  finally show ?thesis .
qed

theorem conn_drop_mask_exact_witness:
  "bit (conn_drop_mask mem_tdb [(make_key 5 3, conn_encode (sample_conn\<lparr> ce_flags := 1 \<rparr>))] 5) 3"
proof -
  let ?d = "conn_encode (sample_conn\<lparr> ce_flags := 1 \<rparr>)"
  have "conn_decode (zero_extend 72 ?d) = sample_conn\<lparr> ce_flags := 1 \<rparr>" "length ?d = 72"
    using conn.read_newer [of "sample_conn\<lparr> ce_flags := 1 \<rparr>" "[]"] conn_encode_size
    by (simp_all add: CONNENTRY_SIZE_def)
  then have "drop_wanted ?d" by (simp add: drop_wanted_def sample_conn_def)
  then show ?thesis
    using conn_drop_mask_exact [OF mem_tdb_laws, of 3 "[(make_key 5 3, ?d)]" 5]
    by (simp add: conn_row_def mem_tdb_def)
qed

end
