(* ===== verification/Http_Req.thy ===== *)
theory Http_Req
  imports SP_Prelude
begin

text \<open>
  HTTP request parsing of \<open>src/httpreq.cpp\<close>: the incremental request parser
  (class \<open>HttpRequest\<close>), header lookup and counting, percent-decoding, query
  parameters, Basic credentials and the redaction of logged request targets.
  The base64 decoder is OpenSSL's: the parameter \<open>b64dec\<close>.
\<close>

section \<open>Characters\<close>

definition tolower :: "char \<Rightarrow> char" where
  "tolower c = (let n = (of_char c :: nat) in if 65 \<le> n \<and> n \<le> 90 then char_of (n + 32) else c)"

definition lower :: "string \<Rightarrow> string" where
  "lower s = map tolower s"

definition LF :: char where "LF = CHR 0x0A"
definition CR :: char where "CR = CHR 0x0D"

definition hex_val :: "char \<Rightarrow> nat option" where
  "hex_val c = (let n = (of_char c :: nat) in
     if 48 \<le> n \<and> n \<le> 57 then Some (n - 48)
     else if 65 \<le> n \<and> n \<le> 70 then Some (n - 55)
     else if 97 \<le> n \<and> n \<le> 102 then Some (n - 87)
     else None)"

text \<open>\<open>str.find(c)\<close> as the part before and the part after the character.\<close>

definition cut_at :: "char \<Rightarrow> string \<Rightarrow> (string \<times> string) option" where
  "cut_at c s = (case dropWhile (\<lambda>x. x \<noteq> c) s of [] \<Rightarrow> None | _ # r \<Rightarrow> Some (takeWhile (\<lambda>x. x \<noteq> c) s, r))"

lemma cut_at_Some: "cut_at c s = Some (a, r) \<Longrightarrow> s = a @ c # r \<and> c \<notin> set a"
proof -
  assume "cut_at c s = Some (a, r)"
  then obtain x where d: "dropWhile (\<lambda>x. x \<noteq> c) s = x # r" and a: "a = takeWhile (\<lambda>x. x \<noteq> c) s"
    by (auto simp: cut_at_def split: list.splits)
  then have "x = c" by (metis (mono_tags, lifting) hd_dropWhile list.distinct(1) list.sel(1))
  with d a show ?thesis by (metis (mono_tags, lifting) takeWhile_dropWhile_id set_takeWhileD)
qed

lemma cut_at_None: "cut_at c s = None \<longleftrightarrow> c \<notin> set s"
  by (auto simp: cut_at_def split: list.splits) (metis (mono_tags, lifting) dropWhile_eq_Nil_conv list.distinct(1))+

lemma cut_at_app: "c \<notin> set a \<Longrightarrow> cut_at c (a @ c # r) = Some (a, r)"
proof (induction a)
  case (Cons x a)
  then have "x \<noteq> c" "cut_at c (a @ c # r) = Some (a, r)" by auto
  then show ?case by (simp add: cut_at_def split: list.splits)
qed (simp add: cut_at_def)

lemma cut_at_less: "cut_at c s = Some (a, r) \<Longrightarrow> length r < length s"
  by (drule cut_at_Some) auto

section \<open>The request\<close>

definition HTTP_MAX_REQUEST :: nat where "HTTP_MAX_REQUEST = 8192"

record http_request =
  hr_buf :: string
  hr_method :: string
  hr_target :: string
  hr_path :: string
  hr_query :: string
  hr_headers :: string
  hr_leftover :: string

definition hr_new :: http_request where
  "hr_new = \<lparr> hr_buf = [], hr_method = [], hr_target = [], hr_path = [], hr_query = [],
              hr_headers = [], hr_leftover = [] \<rparr>"

text \<open>The end of the header block: a blank CRLF line, else a bare blank line.\<close>

definition header_end :: "string \<Rightarrow> (nat \<times> nat) option" where
  "header_end b = (case find_sub [CR, LF, CR, LF] b of
       Some i \<Rightarrow> Some (i, 4)
     | None \<Rightarrow> (case find_sub [LF, LF] b of Some i \<Rightarrow> Some (i, 2) | None \<Rightarrow> None))"

definition strip_cr :: "string \<Rightarrow> string" where
  "strip_cr line = (if line \<noteq> [] \<and> last line = CR then butlast line else line)"

definition hr_parse :: "http_request \<Rightarrow> http_request \<times> bool" where
  "hr_parse r = (case header_end (hr_buf r) of
       None \<Rightarrow> (r, False)
     | Some (e, sep) \<Rightarrow>
         let r1 = r\<lparr> hr_leftover := drop (e + sep) (hr_buf r) \<rparr>; head = take e (hr_buf r)
         in (case cut_at LF head of
               None \<Rightarrow> (r1, False)
             | Some (line0, rest) \<Rightarrow>
                 let line = strip_cr line0; r2 = r1\<lparr> hr_headers := rest \<rparr>
                 in (case cut_at CHR '' '' line of
                       None \<Rightarrow> (r2, False)
                     | Some (m, line1) \<Rightarrow>
                         (case cut_at CHR '' '' line1 of
                            None \<Rightarrow> (r2, False)
                          | Some (t, version) \<Rightarrow>
                              let r3 = r2\<lparr> hr_method := m, hr_target := t \<rparr>;
                                  r4 = (case cut_at CHR ''?'' t of
                                          None \<Rightarrow> r3\<lparr> hr_path := t, hr_query := [] \<rparr>
                                        | Some (p, q) \<Rightarrow> r3\<lparr> hr_path := p, hr_query := q \<rparr>)
                              in (r4, hr_method r4 \<noteq> [] \<and> hr_path r4 \<noteq> [])))))"

datatype feed_result = Hr_complete | Hr_more | Hr_bad

definition hr_feed :: "http_request \<Rightarrow> string \<Rightarrow> http_request \<times> feed_result" where
  "hr_feed r b =
     (if length (hr_buf r) + length b > HTTP_MAX_REQUEST then (r, Hr_bad)
      else
        let r1 = r\<lparr> hr_buf := hr_buf r @ b \<rparr>
        in if header_end (hr_buf r1) = None then (r1, Hr_more)
           else let (r2, ok) = hr_parse r1 in (r2, if ok then Hr_complete else Hr_bad))"

section \<open>Headers\<close>

text \<open>The lines of the raw header block.\<close>

function header_lines :: "string \<Rightarrow> string list" where
  "header_lines s = (if s = [] then []
     else case cut_at LF s of
            None \<Rightarrow> [strip_cr s]
          | Some (l, rest) \<Rightarrow> strip_cr l # header_lines rest)"
  by pat_completeness auto
termination by (relation "measure length") (auto dest: cut_at_less)

declare header_lines.simps [simp del]

definition is_blank :: "char \<Rightarrow> bool" where
  "is_blank c = (c = CHR '' '' \<or> c = CHR 0x09)"

definition rtrim :: "string \<Rightarrow> string" where
  "rtrim s = rev (dropWhile is_blank (rev s))"

definition hr_header :: "http_request \<Rightarrow> string \<Rightarrow> string" where
  "hr_header r name =
     (let want = lower name @ '':''
      in case find (\<lambda>line. take (length want) (lower line) = want) (header_lines (hr_headers r)) of
           None \<Rightarrow> []
         | Some line \<Rightarrow> rtrim (dropWhile is_blank (drop (length want) line)))"

definition hr_header_count :: "http_request \<Rightarrow> string \<Rightarrow> nat" where
  "hr_header_count r name =
     length (filter (\<lambda>line. case cut_at CHR '':'' line of
                None \<Rightarrow> False
              | Some (f, v) \<Rightarrow> (let f' = (if rtrim f = [] then f else rtrim f) in lower f' = lower name))
            (header_lines (hr_headers r)))"

section \<open>Query parameters\<close>

fun http_url_decode :: "string \<Rightarrow> string" where
  "http_url_decode [] = []"
| "http_url_decode (c # s) =
     (if c = CHR ''+'' then CHR '' '' # http_url_decode s
      else case s of
             a # b # s' \<Rightarrow>
               (case (hex_val a, hex_val b) of
                  (Some x, Some y) \<Rightarrow> if c = CHR ''%'' then char_of (16 * x + y) # http_url_decode s'
                                     else c # http_url_decode s
                | _ \<Rightarrow> c # http_url_decode s)
           | _ \<Rightarrow> c # http_url_decode s)"

text \<open>The loop of \<open>http_query_value\<close> over the parameters after the question mark.\<close>

function query_loop :: "string \<Rightarrow> string \<Rightarrow> string option" where
  "query_loop want s =
     (let (kv, rest) = (case cut_at CHR ''&'' s of None \<Rightarrow> (s, None) | Some (a, r) \<Rightarrow> (a, Some r))
      in case cut_at CHR ''='' kv of
           Some (k, v) \<Rightarrow> if k = want then Some (http_url_decode v)
                         else (case rest of None \<Rightarrow> None | Some r \<Rightarrow> query_loop want r)
         | None \<Rightarrow> (case rest of None \<Rightarrow> None | Some r \<Rightarrow> query_loop want r))"
  by pat_completeness auto
termination
  by (relation "measure (\<lambda>(w, s). length s)") (auto split: option.splits dest: cut_at_less)

declare query_loop.simps [simp del]

definition http_query_value :: "string \<Rightarrow> string \<Rightarrow> string option" where
  "http_query_value target name = (case cut_at CHR ''?'' target of
       None \<Rightarrow> None | Some (p, q) \<Rightarrow> query_loop name q)"

definition hr_query_param :: "http_request \<Rightarrow> string \<Rightarrow> string" where
  "hr_query_param r name = (case http_query_value (hr_target r) name of None \<Rightarrow> [] | Some v \<Rightarrow> v)"

section \<open>Credentials and responses\<close>

definition http_basic_password :: "(string \<Rightarrow> string) \<Rightarrow> string \<Rightarrow> string" where
  "http_basic_password b64dec authorization =
     (let prefix = ''Basic '' in
      if length authorization \<le> length prefix
         \<or> take (length prefix) (lower authorization) \<noteq> lower prefix then []
      else
        let out = b64dec (drop (length prefix) authorization)
        in if out = [] then []
           else case cut_at CHR '':'' out of None \<Rightarrow> [] | Some (u, p) \<Rightarrow> p)"

definition http_simple_response :: "int \<Rightarrow> string \<Rightarrow> string \<Rightarrow> string \<Rightarrow> string" where
  "http_simple_response code reason content_type text =
     take 511 (''HTTP/1.1 '' @ show_int code @ '' '' @ reason @ [CR, LF] @
       ''Content-Type: '' @ content_type @ [CR, LF] @
       ''Content-Length: '' @ show_nat (length text) @ [CR, LF] @
       ''Cache-Control: no-store'' @ [CR, LF] @ ''Connection: close'' @ [CR, LF] @ [CR, LF]) @ text"

definition secret_keys :: "string list" where
  "secret_keys = [''pw'', ''password'', ''t'', ''key'']"

definition redacted :: string where "redacted = ''<redacted>''"

definition redact_kv :: "string \<Rightarrow> string" where
  "redact_kv kv = (case cut_at CHR ''='' kv of None \<Rightarrow> kv
     | Some (k, v) \<Rightarrow> k @ CHR ''='' # (if k \<in> set secret_keys then redacted else v))"

function redact_loop :: "string \<Rightarrow> string" where
  "redact_loop s = (case cut_at CHR ''&'' s of
       None \<Rightarrow> redact_kv s
     | Some (kv, r) \<Rightarrow> redact_kv kv @ CHR ''&'' # redact_loop r)"
  by pat_completeness auto
termination by (relation "measure length") (auto dest: cut_at_less)

declare redact_loop.simps [simp del]

definition http_redact_target :: "string \<Rightarrow> string" where
  "http_redact_target target = (case cut_at CHR ''?'' target of
       None \<Rightarrow> target | Some (p, q) \<Rightarrow> p @ CHR ''?'' # redact_loop q)"

section \<open>Redaction\<close>

lemma redact_kv_amp: "CHR ''&'' \<notin> set kv \<Longrightarrow> CHR ''&'' \<notin> set (redact_kv kv)"
  by (auto simp: redact_kv_def redacted_def split: option.splits dest!: cut_at_Some)

lemma cut_redact_kv:
  "cut_at CHR ''='' (redact_kv kv) = (case cut_at CHR ''='' kv of None \<Rightarrow> None
     | Some (k, v) \<Rightarrow> Some (k, if k \<in> set secret_keys then redacted else v))"
proof (cases "cut_at CHR ''='' kv")
  case None
  then show ?thesis by (simp add: redact_kv_def)
next
  case (Some kv')
  then obtain k v where "cut_at CHR ''='' kv = Some (k, v)" by force
  with cut_at_Some [OF this] show ?thesis by (simp add: redact_kv_def cut_at_app)
qed

lemma cut_redact_loop:
  "cut_at CHR ''&'' (redact_loop s) = (case cut_at CHR ''&'' s of None \<Rightarrow> None
     | Some (kv, r) \<Rightarrow> Some (redact_kv kv, redact_loop r))"
proof (cases "cut_at CHR ''&'' s")
  case None
  then have "cut_at CHR ''&'' (redact_kv s) = None" by (simp add: cut_at_None redact_kv_amp)
  then show ?thesis using None by (subst redact_loop.simps) simp
next
  case (Some x)
  then obtain kv r where x: "cut_at CHR ''&'' s = Some (kv, r)" by force
  with cut_at_Some [OF this] show ?thesis
    by (subst redact_loop.simps) (simp add: cut_at_app redact_kv_amp)
qed

lemma url_decode_redacted: "http_url_decode redacted = redacted"
  by (simp add: redacted_def hex_val_def)

lemma query_redact_loop:
  "query_loop want (redact_loop s) =
     (if want \<in> set secret_keys then map_option (\<lambda>_. redacted) (query_loop want s) else query_loop want s)"
proof (induction "length s" arbitrary: s rule: less_induct)
  case less
  show ?case
  proof (cases "cut_at CHR ''&'' s")
    case None
    have "redact_loop s = redact_kv s" using None by (subst redact_loop.simps) simp
    then show ?thesis
      using None cut_redact_loop [of s]
      by (subst (1 2 3) query_loop.simps) (auto simp: cut_redact_kv url_decode_redacted split: option.splits)
  next
    case (Some x)
    then obtain kv r where x: "cut_at CHR ''&'' s = Some (kv, r)" by force
    have IH: "query_loop want (redact_loop r) =
        (if want \<in> set secret_keys then map_option (\<lambda>_. redacted) (query_loop want r) else query_loop want r)"
      by (rule less.hyps [OF cut_at_less [OF x]])
    have st: "query_loop want s = (case cut_at CHR ''='' kv of
        Some (k, v) \<Rightarrow> if k = want then Some (http_url_decode v) else query_loop want r
      | None \<Rightarrow> query_loop want r)" for want
      using x by (subst query_loop.simps) (simp split: option.split)
    have st': "query_loop want (redact_loop s) = (case cut_at CHR ''='' kv of
        Some (k, v) \<Rightarrow> if k = want then Some (http_url_decode (if k \<in> set secret_keys then redacted else v))
                       else query_loop want (redact_loop r)
      | None \<Rightarrow> query_loop want (redact_loop r))" for want
      using x by (subst query_loop.simps) (simp add: cut_redact_loop cut_redact_kv split: option.split)
    show ?thesis
      unfolding st st' using IH by (auto simp: url_decode_redacted split: option.splits)
  qed
qed

lemma redact_kv_twice: "redact_kv (redact_kv kv) = redact_kv kv"
  using cut_redact_kv [of kv] by (auto simp: redact_kv_def [of "redact_kv kv"] split: option.splits)
    (auto simp: redact_kv_def split: option.splits)

lemma redact_loop_twice: "redact_loop (redact_loop s) = redact_loop s"
proof (induction "length s" arbitrary: s rule: less_induct)
  case less
  show ?case
  proof (cases "cut_at CHR ''&'' s")
    case None
    then have "redact_loop s = redact_kv s" by (subst redact_loop.simps) simp
    moreover have "redact_loop (redact_kv s) = redact_kv (redact_kv s)"
      using cut_redact_loop [of s] None calculation by (subst redact_loop.simps) simp
    ultimately show ?thesis by (simp add: redact_kv_twice)
  next
    case (Some x)
    then obtain kv r where x: "cut_at CHR ''&'' s = Some (kv, r)" by force
    have IH: "redact_loop (redact_loop r) = redact_loop r" by (rule less.hyps [OF cut_at_less [OF x]])
    have "redact_loop s = redact_kv kv @ CHR ''&'' # redact_loop r" using x by (subst redact_loop.simps) simp
    moreover have "redact_loop (redact_loop s) = redact_kv (redact_kv kv) @ CHR ''&'' # redact_loop (redact_loop r)"
      using x cut_redact_loop [of s] by (subst redact_loop.simps) simp
    ultimately show ?thesis using IH by (simp add: redact_kv_twice)
  qed
qed

section \<open>Properties\<close>



text \<open>
  The request parser is incremental: as long as it asks for more, feeding
  the next piece gives the result, state and verdict, of feeding both pieces at
  once; and it never buffers more than \<open>HTTP_MAX_REQUEST\<close> bytes.
\<close>

theorem hr_feed_incremental:
  assumes "hr_feed r b = (r1, Hr_more)"
  shows "snd (hr_feed r1 c) = snd (hr_feed r (b @ c))
    \<and> (snd (hr_feed r1 c) = Hr_complete \<longrightarrow> fst (hr_feed r1 c) = fst (hr_feed r (b @ c)))
    \<and> length (hr_buf r1) \<le> 8192"
proof -
  have r1: "r1 = r\<lparr> hr_buf := hr_buf r @ b \<rparr>" "length (hr_buf r) + length b \<le> HTTP_MAX_REQUEST"
    using assms by (auto simp: hr_feed_def Let_def split: if_splits prod.splits)
  show ?thesis using r1(2) unfolding r1(1) by (simp add: hr_feed_def Let_def add.assoc HTTP_MAX_REQUEST_def)
qed

theorem hr_feed_incremental_witness:
  "snd (hr_feed (fst (hr_feed hr_new ''GE'')) ''T / x'') = snd (hr_feed hr_new (''GE'' @ ''T / x''))"
proof -
  have "hr_feed hr_new ''GE'' = (fst (hr_feed hr_new ''GE''), Hr_more)"
    by (simp add: hr_feed_def hr_new_def HTTP_MAX_REQUEST_def header_end_def Let_def LF_def CR_def)
  from hr_feed_incremental [OF this] show ?thesis by simp
qed

lemma find_sub_app: "\<exists>i. find_sub pat (a @ pat @ b) = Some i \<and> i \<le> length a"
proof (induction a)
  case Nil
  show ?case
  proof (cases "pat @ b")
    case (Cons x xs)
    then have "take (length pat) (x # xs) = pat" by (metis append_eq_conv_conj)
    then show ?thesis using Cons by simp
  qed simp
qed auto

text \<open>
  A request line that is not followed by at least one header line is
  refused, although the request is complete: the header block then contains no
  line feed and \<open>parse\<close> gives up before it looks at the request line.
\<close>

theorem http_no_headers_rejected:
  assumes "LF \<notin> set line" "length line + 4 \<le> 8192"
  shows "snd (hr_feed hr_new (line @ [CR, LF, CR, LF])) = Hr_bad"
proof -
  obtain i where i: "find_sub [CR, LF, CR, LF] (line @ [CR, LF, CR, LF]) = Some i" "i \<le> length line"
    using find_sub_app [of "[CR, LF, CR, LF]" line "[]"] by auto
  have "cut_at LF (take i (line @ [CR, LF, CR, LF])) = None"
    using i(2) assms(1) by (auto simp: cut_at_None dest: in_set_takeD)
  then show ?thesis
    using i assms(2) by (simp add: hr_feed_def hr_parse_def header_end_def hr_new_def HTTP_MAX_REQUEST_def Let_def)
qed

theorem http_no_headers_rejected_witness:
  "snd (hr_feed hr_new (''GET / HTTP/1.1'' @ [CR, LF, CR, LF])) = Hr_bad"
  by (rule http_no_headers_rejected) (simp_all add: LF_def)

end
