(* ===== verification/Video_Auth.thy ===== *)
theory Video_Auth
  imports Key_Db Conn_Db Http_Req
begin

text \<open>
  Admission of video publishers and viewers, \<open>src/videoauth.cpp\<close>: the cached view
  of the entry's MAVLink session (class \<open>VideoAuth\<close>), the decision \<open>admit\<close>, the
  password test and the viewer token.  SHA-256 and HMAC-SHA256 are OpenSSL's:
  the parameters \<open>sha\<close> and \<open>hmac\<close>.  Times are seconds (\<open>time_t\<close>).
\<close>

section \<open>Passwords\<close>

definition any_nonzero :: "bytes \<Rightarrow> bool" where
  "any_nonzero k = (\<exists>b \<in> set k. b \<noteq> 0)"

definition video_password_matches :: "(string \<Rightarrow> bytes) \<Rightarrow> bytes \<Rightarrow> string \<Rightarrow> bool" where
  "video_password_matches sha stored candidate =
     (if \<not> any_nonzero stored \<or> candidate = [] \<or> CHR 0x00 \<in> set candidate then False
      else sha candidate = stored)"

definition video_viewer_authorised :: "(string \<Rightarrow> bytes) \<Rightarrow> key_entry \<Rightarrow> string \<Rightarrow> bool" where
  "video_viewer_authorised sha ke password =
     (if \<not> any_nonzero (video_viewer_key ke) then True
      else video_password_matches sha (video_viewer_key ke) password)"

section \<open>The session cache\<close>

datatype video_admit_t = VIDEO_ADMIT_OK | VIDEO_ADMIT_NO_SESSION | VIDEO_ADMIT_STALE_SESSION
  | VIDEO_ADMIT_WRONG_IP | VIDEO_ADMIT_UNAUTH | VIDEO_ADMIT_BAD_PASSWORD | VIDEO_ADMIT_SLOT_BUSY
  | VIDEO_ADMIT_NO_CREDENTIAL | VIDEO_ADMIT_MISSING_PASSWORD

definition video_admit_str :: "video_admit_t \<Rightarrow> string" where
  "video_admit_str r = (case r of
       VIDEO_ADMIT_OK \<Rightarrow> ''ok''
     | VIDEO_ADMIT_NO_SESSION \<Rightarrow> ''no MAVLink session''
     | VIDEO_ADMIT_STALE_SESSION \<Rightarrow> ''MAVLink session too old''
     | VIDEO_ADMIT_WRONG_IP \<Rightarrow> ''address does not match the MAVLink session''
     | VIDEO_ADMIT_UNAUTH \<Rightarrow> ''MAVLink session not signature-validated''
     | VIDEO_ADMIT_BAD_PASSWORD \<Rightarrow> ''wrong publish password''
     | VIDEO_ADMIT_SLOT_BUSY \<Rightarrow> ''another publisher holds this slot''
     | VIDEO_ADMIT_NO_CREDENTIAL \<Rightarrow> ''a publish password is set, and plain MPEG-TS/UDP cannot carry ''
         @ ''one -- publish over RTSP, or clear the password''
     | VIDEO_ADMIT_MISSING_PASSWORD \<Rightarrow> ''a publish password is set but none was supplied -- add ''
         @ ''?pw=... to the RTSP URL'')"

definition VIDEO_AUTH_CACHE_S :: int where "VIDEO_AUTH_CACHE_S = 2"

record video_auth =
  va_port2 :: "32 word"
  va_have :: bool
  va_peer_ip :: "32 word"
  va_authenticated :: bool
  va_seen_at :: int
  va_fetched_at :: int

definition va_new :: "32 word \<Rightarrow> video_auth" where
  "va_new port2 = \<lparr> va_port2 = port2, va_have = False, va_peer_ip = 0, va_authenticated = False,
     va_seen_at = 0, va_fetched_at = 0 \<rparr>"

text \<open>\<open>db\<close> is \<open>None\<close> when \<open>connections.tdb\<close> could not be opened.\<close>

definition va_refresh :: "'db tdb_ops \<Rightarrow> 'db option \<Rightarrow> video_auth \<Rightarrow> int \<Rightarrow> video_auth \<times> bool" where
  "va_refresh T db a now = (case db of
       None \<Rightarrow> (a\<lparr> va_fetched_at := now \<rparr>, False)
     | Some d \<Rightarrow>
         let a1 = (case conn_get_user T d (va_port2 a) of
                     None \<Rightarrow> a
                   | Some e \<Rightarrow> a\<lparr> va_have := True, va_peer_ip := peer_ip_be e,
                                  va_authenticated := (authenticated e \<noteq> 0), va_seen_at := now \<rparr>)
         in (a1\<lparr> va_fetched_at := now \<rparr>, True))"

definition va_grace :: "key_entry \<Rightarrow> int" where
  "va_grace ke = (if video_mav_grace_s ke \<noteq> 0 then uint (video_mav_grace_s ke)
                  else int VIDEO_MAV_GRACE_DEFAULT_S)"

definition check_session :: "video_auth \<Rightarrow> key_entry \<Rightarrow> 32 word \<Rightarrow> int \<Rightarrow> video_admit_t" where
  "check_session a ke peer now =
     (if \<not> va_have a then VIDEO_ADMIT_NO_SESSION
      else if va_peer_ip a \<noteq> peer then VIDEO_ADMIT_WRONG_IP
      else if now > va_seen_at a + va_grace ke then VIDEO_ADMIT_STALE_SESSION
      else if ke_flags ke AND KEY_FLAG_BIDI_SIGN \<noteq> 0 \<and> \<not> va_authenticated a then VIDEO_ADMIT_UNAUTH
      else VIDEO_ADMIT_OK)"

text \<open>The session path of \<open>admit\<close>, with the number of database reads it makes.\<close>

definition admit_session :: "'db tdb_ops \<Rightarrow> 'db option \<Rightarrow> video_auth \<Rightarrow> key_entry \<Rightarrow> 32 word \<Rightarrow> int
    \<Rightarrow> video_auth \<times> video_admit_t \<times> nat" where
  "admit_session T db a ke peer now =
     (let stale = (va_fetched_at a = 0 \<or> now - va_fetched_at a \<ge> VIDEO_AUTH_CACHE_S);
          a1 = (if stale then fst (va_refresh T db a now) else a);
          n1 = (if stale then 1 else 0);
          r = check_session a1 ke peer now
      in if r \<noteq> VIDEO_ADMIT_OK \<and> now - va_fetched_at a1 > 0 then
           let (a2, ok) = va_refresh T db a1 now
           in (a2, if ok then check_session a2 ke peer now else r, n1 + 1)
         else (a1, r, n1))"

definition admit :: "(string \<Rightarrow> bytes) \<Rightarrow> 'db tdb_ops \<Rightarrow> 'db option \<Rightarrow> video_auth \<Rightarrow> key_entry \<Rightarrow> 32 word
    \<Rightarrow> string option \<Rightarrow> bool \<Rightarrow> bool \<Rightarrow> bool \<Rightarrow> int \<Rightarrow> video_auth \<times> video_admit_t \<times> nat" where
  "admit sha T db a ke peer password credential_capable session_ok open_publish now =
     (let have_pw = any_nonzero (video_publish_key ke) in
      case (if have_pw then password else None) of
        Some p \<Rightarrow> (a, if video_password_matches sha (video_publish_key ke) p then VIDEO_ADMIT_OK
                      else VIDEO_ADMIT_BAD_PASSWORD, 0)
      | None \<Rightarrow>
          if have_pw \<and> \<not> session_ok \<and> \<not> open_publish
          then (a, if credential_capable then VIDEO_ADMIT_MISSING_PASSWORD else VIDEO_ADMIT_NO_CREDENTIAL, 0)
          else if open_publish then (a, VIDEO_ADMIT_OK, 0)
          else admit_session T db a ke peer now)"

definition va_invalidate :: "video_auth \<Rightarrow> video_auth" where
  "va_invalidate a = a\<lparr> va_fetched_at := 0 \<rparr>"

definition va_observe :: "'db tdb_ops \<Rightarrow> 'db option \<Rightarrow> video_auth \<Rightarrow> int \<Rightarrow> video_auth" where
  "va_observe T db a now = fst (va_refresh T db a now)"

section \<open>Viewer tokens\<close>

text \<open>
  \<open>strtol(pair, &e2, 16)\<close> on a two-character string that must be consumed
  entirely, reduced to a byte: two digits, or a blank or sign and one digit.
\<close>

definition hex_pair :: "char \<Rightarrow> char \<Rightarrow> byte option" where
  "hex_pair a b = (case hex_val b of None \<Rightarrow> None
     | Some y \<Rightarrow>
         (case hex_val a of
            Some x \<Rightarrow> Some (byte_of (16 * x + y))
          | None \<Rightarrow> if is_space a \<or> a = CHR ''+'' then Some (byte_of y)
                    else if a = CHR ''-'' then Some (byte_of (256 - y)) else None))"

fun hex_bytes :: "string \<Rightarrow> bytes option" where
  "hex_bytes [] = Some []"
| "hex_bytes [c] = None"
| "hex_bytes (a # b # s) = (case hex_pair a b of None \<Rightarrow> None
     | Some x \<Rightarrow> (case hex_bytes s of None \<Rightarrow> None | Some xs \<Rightarrow> Some (x # xs)))"

definition token_msg :: "int \<Rightarrow> int \<Rightarrow> int \<Rightarrow> string" where
  "token_msg port2 slot expiry =
     ''video-view|'' @ show_int port2 @ ''|'' @ show_int slot @ ''|'' @ show_int expiry"

text \<open>\<open>hmac key msg\<close> is \<open>None\<close> when OpenSSL fails.\<close>

definition video_token_valid :: "(bytes \<Rightarrow> string \<Rightarrow> bytes option) \<Rightarrow> key_entry \<Rightarrow> int \<Rightarrow> int \<Rightarrow> string \<Rightarrow> int \<Rightarrow> bool" where
  "video_token_valid hmac ke port2 slot token now =
     (if token = [] then False
      else case cut_at CHR ''.'' token of
        None \<Rightarrow> False
      | Some (pre, mac_hex) \<Rightarrow>
          let (expiry, rest, erange) = strtoll10 token in
          if erange \<or> rest \<noteq> CHR ''.'' # mac_hex \<or> expiry \<le> 0 then False
          else if now > expiry then False
          else if length mac_hex \<noteq> 64 then False
          else if length (token_msg port2 slot expiry) \<ge> 128 then False
          else case hmac (secret_key ke) (token_msg port2 slot expiry) of
                 None \<Rightarrow> False
               | Some want \<Rightarrow>
                   if length want \<noteq> 32 then False
                   else case hex_bytes mac_hex of None \<Rightarrow> False | Some got \<Rightarrow> want = got)"

section \<open>Properties of admission\<close>

lemma bidi_bit: "(w :: 32 word) AND KEY_FLAG_BIDI_SIGN \<noteq> 0 \<longleftrightarrow> bit w 1"
  using and_exp_eq_0_iff_not_bit [of w 1] by (simp add: KEY_FLAG_BIDI_SIGN_def)

text \<open>
  Everything the cache has seen: the rows that a refresh found, with the time.
\<close>

inductive va_reach :: "'db tdb_ops \<Rightarrow> video_auth \<Rightarrow> (int \<times> conn_entry) list \<Rightarrow> bool" for T where
  start: "va_reach T (va_new port2) []"
| inval: "va_reach T a h \<Longrightarrow> va_reach T (va_invalidate a) h"
| fail: "va_reach T a h \<Longrightarrow> va_reach T (fst (va_refresh T None a now)) h"
| norow: "va_reach T a h \<Longrightarrow> conn_get_user T db (va_port2 a) = None \<Longrightarrow>
    va_reach T (fst (va_refresh T (Some db) a now)) h"
| row: "va_reach T a h \<Longrightarrow> conn_get_user T db (va_port2 a) = Some e \<Longrightarrow>
    va_reach T (fst (va_refresh T (Some db) a now)) ((now, e) # h)"

lemma va_reach_last:
  "va_reach T a h \<Longrightarrow> va_have a = (h \<noteq> []) \<and> (h \<noteq> [] \<longrightarrow> va_seen_at a = fst (hd h)
     \<and> va_peer_ip a = peer_ip_be (snd (hd h)) \<and> va_authenticated a = (authenticated (snd (hd h)) \<noteq> 0))"
  by (induction rule: va_reach.induct) (auto simp: va_new_def va_invalidate_def va_refresh_def Let_def)

lemma admit_session_reads:
  "admit_session T db a ke peer now = (a', r, n) \<Longrightarrow> n \<le> 1"
  by (auto simp: admit_session_def Let_def va_refresh_def split: if_splits option.splits)

lemma admit_session_state:
  assumes "admit_session T db a ke peer now = (a', r, n)"
  shows "a' = a \<or> a' = fst (va_refresh T db a now)" "r = VIDEO_ADMIT_OK \<Longrightarrow> check_session a' ke peer now = VIDEO_ADMIT_OK"
  using assms by (auto simp: admit_session_def Let_def va_refresh_def split: if_splits option.splits)



text \<open>
  What the session path rests on: in every reachable state of the cache,
  a publisher it admits has the address of a MAVLink session row that was read
  no longer than the grace window ago, and on an entry that requires signed
  MAVLink that row was signature-validated.  One decision costs at most one
  read of the database.
\<close>

theorem video_session_admission_sound:
  assumes "va_reach T a h" "admit_session T db a ke peer now = (a', r, n)"
  shows "n \<le> 1 \<and> (r = VIDEO_ADMIT_OK \<longrightarrow>
    (\<exists>t e. ((t, e) \<in> set h \<or> t = now \<and> (\<exists>d. db = Some d \<and> conn_get_user T d (va_port2 a) = Some e))
       \<and> peer_ip_be e = peer \<and> now \<le> t + va_grace ke
       \<and> (bit (ke_flags ke) 1 \<longrightarrow> authenticated e \<noteq> 0)))"
proof (intro conjI impI)
  show "n \<le> 1" by (rule admit_session_reads [OF assms(2)])
next
  assume "r = VIDEO_ADMIT_OK"
  then have ok: "check_session a' ke peer now = VIDEO_ADMIT_OK" using admit_session_state(2) [OF assms(2)] by simp
  have "\<exists>h'. va_reach T a' h' \<and> (h' = h \<or> (\<exists>d e. db = Some d \<and> conn_get_user T d (va_port2 a) = Some e \<and> h' = (now, e) # h))"
    using admit_session_state(1) [OF assms(2)]
  proof
    assume "a' = fst (va_refresh T db a now)"
    then show ?thesis
      using va_reach.fail [OF assms(1)] va_reach.norow [OF assms(1)] va_reach.row [OF assms(1)]
      by (cases db) (metis not_None_eq)+
  qed (use assms(1) in blast)
  then obtain h' where h': "va_reach T a' h'"
    "h' = h \<or> (\<exists>d e. db = Some d \<and> conn_get_user T d (va_port2 a) = Some e \<and> h' = (now, e) # h)" by blast
  note last = va_reach_last [OF h'(1)]
  have c: "va_have a'" "va_peer_ip a' = peer" "now \<le> va_seen_at a' + va_grace ke"
    "bit (ke_flags ke) 1 \<longrightarrow> va_authenticated a'"
    using ok by (auto simp: check_session_def bidi_bit split: if_splits)
  then obtain t e where te: "hd h' = (t, e)" "h' \<noteq> []" "va_seen_at a' = t" "va_peer_ip a' = peer_ip_be e"
    "va_authenticated a' = (authenticated e \<noteq> 0)"
    using last by (cases "hd h'") auto
  then have "(t, e) \<in> set h'" by (metis hd_in_set)
  then show "\<exists>t e. ((t, e) \<in> set h \<or> t = now \<and> (\<exists>d. db = Some d \<and> conn_get_user T d (va_port2 a) = Some e))
       \<and> peer_ip_be e = peer \<and> now \<le> t + va_grace ke \<and> (bit (ke_flags ke) 1 \<longrightarrow> authenticated e \<noteq> 0)"
    using h'(2) te c by (intro exI [of _ t] exI [of _ e]) auto
qed

theorem video_session_admission_sound_witness:
  "let db = [(make_key 5 0, conn_encode sample_conn)]
   in fst (snd (admit_session mem_tdb (Some db) (va_new 5) sample_key_entry 0 100)) = VIDEO_ADMIT_OK
      \<and> (\<exists>t e. ((t, e) \<in> set [] \<or> t = 100 \<and> (\<exists>d. Some db = Some d \<and> conn_get_user mem_tdb d (va_port2 (va_new 5)) = Some e))
          \<and> peer_ip_be e = 0 \<and> 100 \<le> t + va_grace sample_key_entry)"
proof -
  define db where "db = [(make_key 5 0, conn_encode sample_conn)]"
  have "conn_decode (zero_extend CONNENTRY_SIZE (conn_encode sample_conn)) = sample_conn"
    "length (conn_encode sample_conn) = 72"
    using conn.read_newer [of sample_conn "[]"] conn_encode_size by (simp_all add: CONNENTRY_SIZE_def)
  then have g: "conn_get_user mem_tdb db 5 = Some sample_conn"
    by (simp add: conn_get_user_def db_def mem_tdb_def CONNENTRY_MIN_SIZE_def Let_def sample_conn_def)
  have z: "peer_ip_be sample_conn = 0" "ke_flags sample_key_entry = 0" "video_mav_grace_s sample_key_entry = 0"
    by (simp_all add: sample_conn_def sample_key_entry_def conn_decode_def key_decode_def Let_def nth_split_fields
        conn_widths_def key_widths_def seg_def enc_simps)
  obtain a' n where r: "admit_session mem_tdb (Some db) (va_new 5) sample_key_entry 0 100 = (a', VIDEO_ADMIT_OK, n)"
    using g z by (simp add: admit_session_def Let_def va_refresh_def va_new_def check_session_def va_grace_def
        VIDEO_MAV_GRACE_DEFAULT_S_def)
  from video_session_admission_sound [OF va_reach.start r] r show ?thesis
    unfolding Let_def db_def [symmetric] by auto
qed

section \<open>Properties of tokens\<close>

definition hex_digit :: "nat \<Rightarrow> char" where
  "hex_digit n = (if n < 10 then char_of (48 + n) else char_of (87 + n))"

definition hex_str :: "bytes \<Rightarrow> string" where
  "hex_str bs = concat (map (\<lambda>b. [hex_digit (unat b div 16), hex_digit (unat b mod 16)]) bs)"

lemma hex_val_digit: "n < 16 \<Longrightarrow> hex_val (hex_digit n) = Some n"
  by (auto simp: hex_digit_def hex_val_def Let_def of_char_of take_bit_eq_mod)

lemma hex_bytes_str: "hex_bytes (hex_str bs) = Some bs"
proof (induction bs)
  case (Cons b bs)
  have "unat b div 16 < 16" by (intro less_mult_imp_div_less) simp
  then have "hex_pair (hex_digit (unat b div 16)) (hex_digit (unat b mod 16)) = Some b"
    by (simp add: hex_pair_def hex_val_digit)
  then show ?case using Cons by (simp add: hex_str_def)
qed (simp add: hex_str_def)

lemma length_hex_str: "length (hex_str bs) = 2 * length bs"
  by (induction bs) (simp_all add: hex_str_def)

definition mint_token :: "nat \<Rightarrow> bytes \<Rightarrow> string" where
  "mint_token expiry mac = show_nat expiry @ CHR ''.'' # hex_str mac"

lemma dot_not_digit: "list_all is_digit ds \<Longrightarrow> CHR ''.'' \<notin> set ds"
  by (induction ds) (auto simp: is_digit_def)

lemma mint_token_parts:
  assumes "int expiry \<le> 9223372036854775807"
  shows "cut_at CHR ''.'' (mint_token expiry mac) = Some (show_nat expiry, hex_str mac)"
    and "strtoll10 (mint_token expiry mac) = (int expiry, CHR ''.'' # hex_str mac, False)"
proof -
  show "cut_at CHR ''.'' (mint_token expiry mac) = Some (show_nat expiry, hex_str mac)"
    using show_nat_digits [of expiry] dot_not_digit by (simp add: mint_token_def cut_at_app)
  show "strtoll10 (mint_token expiry mac) = (int expiry, CHR ''.'' # hex_str mac, False)"
    unfolding mint_token_def using assms by (intro strtoll10_show) (simp_all add: is_digit_def)
qed

lemma length_show_int: "\<bar>i\<bar> < 10 ^ k \<Longrightarrow> 0 < k \<Longrightarrow> length (show_int i) \<le> Suc k"
proof -
  assume i: "\<bar>i\<bar> < 10 ^ k" and k: "0 < k"
  have "nat \<bar>i\<bar> < 10 ^ k" using i by (simp add: nat_less_iff)
  from length_show_nat [OF this k] show ?thesis by (auto simp: show_int_def)
qed

text \<open>The message always fits the 128-byte buffer it is formatted into.\<close>

lemma token_msg_fits:
  assumes "\<bar>port2\<bar> < 2 ^ 32" "\<bar>slot\<bar> < 2 ^ 32" "int expiry \<le> 9223372036854775807"
  shows "length (token_msg port2 slot (int expiry)) < 128"
  using length_show_int [of port2 10] length_show_int [of slot 10] length_show_int [of "int expiry" 19] assms
  by (simp add: token_msg_def)

text \<open>
  C21.  Tokens: one that the web admin minted for this entry, port and slot is
  accepted until its expiry and not after, and whatever is accepted names an
  expiry in the future and carries the MAC of exactly that port, slot and
  expiry under the entry's key.
\<close>

theorem video_token_correct:
  "(0 < expiry \<longrightarrow> int expiry \<le> 9223372036854775807 \<longrightarrow> \<bar>port2\<bar> < 2 ^ 32 \<longrightarrow> \<bar>slot\<bar> < 2 ^ 32 \<longrightarrow>
      hmac (secret_key ke) (token_msg port2 slot (int expiry)) = Some mac \<longrightarrow> length mac = 32 \<longrightarrow>
      video_token_valid hmac ke port2 slot (mint_token expiry mac) now = (now \<le> int expiry))
   \<and> (video_token_valid hmac ke port2 slot token now \<longrightarrow>
      (\<exists>e pre hex want. token = pre @ CHR ''.'' # hex \<and> fst (strtoll10 token) = e \<and> 0 < e \<and> now \<le> e
         \<and> hmac (secret_key ke) (token_msg port2 slot e) = Some want \<and> hex_bytes hex = Some want))"
proof (intro conjI impI)
  assume e: "0 < expiry" "int expiry \<le> 9223372036854775807" and ps: "\<bar>port2\<bar> < 2 ^ 32" "\<bar>slot\<bar> < 2 ^ 32"
    and m: "hmac (secret_key ke) (token_msg port2 slot (int expiry)) = Some mac" "length mac = 32"
  have "mint_token expiry mac \<noteq> []" by (simp add: mint_token_def)
  then show "video_token_valid hmac ke port2 slot (mint_token expiry mac) now = (now \<le> int expiry)"
    using e m mint_token_parts [OF e(2), of mac] token_msg_fits [OF ps e(2)]
    by (simp add: video_token_valid_def length_hex_str hex_bytes_str not_le)
next
  assume v: "video_token_valid hmac ke port2 slot token now"
  then obtain pre hex where c: "cut_at CHR ''.'' token = Some (pre, hex)"
    by (auto simp: video_token_valid_def split: if_splits option.splits)
  obtain e rest er where s: "strtoll10 token = (e, rest, er)" by (cases "strtoll10 token")
  show "\<exists>e pre hex want. token = pre @ CHR ''.'' # hex \<and> fst (strtoll10 token) = e \<and> 0 < e \<and> now \<le> e
         \<and> hmac (secret_key ke) (token_msg port2 slot e) = Some want \<and> hex_bytes hex = Some want"
    using v cut_at_Some [OF c] unfolding video_token_valid_def c s
    by (intro exI [of _ e] exI [of _ pre] exI [of _ hex]) (auto simp: s split: if_splits option.splits)
qed

theorem video_token_correct_witness:
  "video_token_valid (\<lambda>k m. Some (replicate 32 7)) sample_key_entry 5 1 (mint_token 1000 (replicate 32 7)) 1000
   \<and> \<not> video_token_valid (\<lambda>k m. Some (replicate 32 7)) sample_key_entry 5 1 (mint_token 1000 (replicate 32 7)) 1001"
proof -
  define mac :: bytes where "mac = replicate 32 7"
  have "length mac = 32" by (simp add: mac_def)
  then have "video_token_valid (\<lambda>k m. Some mac) sample_key_entry 5 1 (mint_token 1000 mac) now = (now \<le> int 1000)" for now
    using conjunct1 [OF video_token_correct [of 1000 5 1 "\<lambda>k m. Some mac" sample_key_entry mac now "[]"]] by simp
  from this [of 1000] this [of 1001] show ?thesis unfolding mac_def by simp
qed

lemma show_nat_inj: "show_nat a = show_nat b \<Longrightarrow> a = b"
  by (metis dec_val_show of_nat_eq_iff)

lemma show_int_chars: "c \<in> set (show_int i) \<Longrightarrow> is_digit c \<or> c = CHR ''-''"
  using show_nat_digits by (auto simp: show_int_def list_all_iff split: if_splits)

lemma bar_show_int: "CHR ''|'' \<notin> set (show_int i)"
  using show_int_chars [of "CHR ''|''" i] by (auto simp: is_digit_def)

lemma show_int_inj: "show_int i = show_int j \<Longrightarrow> i = j"
proof -
  have d: "CHR ''-'' \<notin> set (show_nat n)" for n
    using show_nat_digits [of n] by (auto simp: list_all_iff is_digit_def)
  assume eq: "show_int i = show_int j"
  then have "(i < 0) = (j < 0)"
    using d by (auto simp: show_int_def split: if_splits) (metis list.set_intros(1))+
  then show "i = j" using eq show_nat_inj by (force simp: show_int_def split: if_splits)
qed

text \<open>
  Domain separation of tokens: the authenticated message determines the
  port, the slot and the expiry, so a token for one stream or time is the MAC of
  a different message than any other.
\<close>

theorem token_msg_injective:
  assumes "token_msg p s e = token_msg p' s' e'"
  shows "p = p' \<and> s = s' \<and> e = e'"
proof -
  have 1: "show_int p @ CHR ''|'' # (show_int s @ CHR ''|'' # show_int e)
      = show_int p' @ CHR ''|'' # (show_int s' @ CHR ''|'' # show_int e')"
    using assms by (simp add: token_msg_def)
  from cut_at_app [OF bar_show_int, of p "show_int s @ CHR ''|'' # show_int e"]
    cut_at_app [OF bar_show_int, of p' "show_int s' @ CHR ''|'' # show_int e'"]
  have 2: "show_int p = show_int p'" "show_int s @ CHR ''|'' # show_int e = show_int s' @ CHR ''|'' # show_int e'"
    unfolding 1 by simp_all
  from cut_at_app [OF bar_show_int, of s "show_int e"] cut_at_app [OF bar_show_int, of s' "show_int e'"]
  have "show_int s = show_int s'" "show_int e = show_int e'" unfolding 2(2) by simp_all
  then show ?thesis using 2(1) show_int_inj by blast
qed

theorem token_msg_injective_witness:
  "token_msg 5 1 100 = token_msg 5 1 100 \<and> (5 :: int) = 5"
  using token_msg_injective [of 5 1 100 5 1 100] by simp

end
