(* ===== verification/Bin_Log.thy ===== *)
theory Bin_Log
  imports SP_Prelude
begin

text \<open>
  The ArduPilot binary-log writer of \<open>src/binlog.cpp\<close> (class \<open>BinlogWriter\<close>):
  sparse block writes with quota and growth caps, the bitmap of blocks seen, ACK
  and NACK queues, the START/STOP protocol and rotation on a vehicle reboot.

  Times, \<open>double\<close> seconds in the source, are integers in microseconds, the
  resolution of \<open>time_seconds()\<close>.  Message decoding and packing are generated
  MAVLink code: a block is its decoded fields, a status message what is packed.
  What the file system answers during one call is the record \<open>bl_env\<close>.  The
  NACK table, an \<open>unordered_map\<close>, is an association list with distinct keys.
\<close>

section \<open>Constants\<close>

definition BLOCK_BYTES :: nat where "BLOCK_BYTES = 200"
definition MAX_NACKS_PER_TICK :: nat where "MAX_NACKS_PER_TICK = 10"
definition NACK_REPEAT_S :: int where "NACK_REPEAT_S = 100000"
definition NACK_GIVEUP_S :: int where "NACK_GIVEUP_S = 60000000"
definition NACK_GIVEUP_BLOCKS :: nat where "NACK_GIVEUP_BLOCKS = 200"
definition START_REPEAT_S :: int where "START_REPEAT_S = 1000000"
definition STOP_REPEAT_S :: int where "STOP_REPEAT_S = 2000000"
definition STOP_MIN_GATED_BLOCKS :: nat where "STOP_MIN_GATED_BLOCKS = 3"
definition START_KEEPALIVE_S :: int where "START_KEEPALIVE_S = 5000000"
definition REBOOT_TIME_BACKWARD_MS :: nat where "REBOOT_TIME_BACKWARD_MS = 10000"
definition SEQNO0_RESTART_MIN_HIGHEST :: nat where "SEQNO0_RESTART_MIN_HIGHEST = 200"
definition MAX_FORWARD_JUMP_BYTES :: nat where "MAX_FORWARD_JUMP_BYTES = 100 * 1024 * 1024"
definition QUOTA_CLEANUP_MIN_INTERVAL_S :: int where "QUOTA_CLEANUP_MIN_INTERVAL_S = 30000000"

section \<open>State\<close>

record binlog =
  bl_fp :: "bytes option"
  bl_closed :: "bytes list"
  seen_bitmap :: bytes
  highest_seen :: nat
  any_block_seen :: bool
  last_start_sent :: int
  target_system :: nat
  target_component :: nat
  pending_acks :: "nat list"
  nack_state :: "(nat \<times> int \<times> int) list"
  gated_block_count :: nat
  last_stop_sent :: int
  current_file_size :: nat
  other_sessions_bytes :: nat
  writes_since_quota_refresh :: nat
  last_quota_cleanup :: int
  fc_sysid_filter :: nat
  last_system_time_boot_ms :: nat
  bl_datedir :: string
  bl_name :: string

definition bl_new :: "nat \<Rightarrow> string \<Rightarrow> string \<Rightarrow> binlog" where
  "bl_new fsysid datedir name = \<lparr> bl_fp = None, bl_closed = [], seen_bitmap = [], highest_seen = 0,
     any_block_seen = False, last_start_sent = 0, target_system = 0, target_component = 0,
     pending_acks = [], nack_state = [], gated_block_count = 0, last_stop_sent = 0,
     current_file_size = 0, other_sessions_bytes = 0, writes_since_quota_refresh = 0,
     last_quota_cleanup = 0, fc_sysid_filter = fsysid, last_system_time_boot_ms = 0,
     bl_datedir = datedir, bl_name = name \<rparr>"

text \<open>
  The answers of the environment during one call: the clock, whether the file
  could be created, the directory scans of \<open>refresh_other_sessions_bytes\<close> at
  open, after a cleanup pass and at the periodic refresh, \<open>fstat\<close> as allocated
  bytes and block size, the quota, the outcome of seek and write, and the names
  for a rotation.
\<close>

record bl_env =
  env_now :: int
  env_open_ok :: bool
  env_other_open :: nat
  env_stat :: "(nat \<times> nat) option"
  env_quota :: nat
  env_other_cleanup :: nat
  env_other_periodic :: nat
  env_seek_ok :: bool
  env_wrote :: nat
  env_names :: "string \<times> string"

record log_block =
  blk_seqno :: nat
  blk_data :: bytes
  blk_sysid :: nat
  blk_compid :: nat

section \<open>The bitmap\<close>

definition seqno_seen :: "bytes \<Rightarrow> nat \<Rightarrow> bool" where
  "seqno_seen bm seqno =
     (let byte = seqno div 8 in
      if byte \<ge> length bm then False else bit (bm ! byte) (seqno mod 8))"

definition mark_seqno_seen :: "bytes \<Rightarrow> nat \<Rightarrow> bytes" where
  "mark_seqno_seen bm seqno =
     (let byte = seqno div 8;
          bm1 = (if byte \<ge> length bm
                 then bm @ replicate ((byte + 1 + 65535) div 65536 * 65536 - length bm) 0 else bm)
      in bm1[byte := (bm1 ! byte) OR push_bit (seqno mod 8) 1])"

section \<open>Files\<close>

text \<open>A write at an offset, zero-filling a hole before it.\<close>

definition file_write :: "bytes \<Rightarrow> nat \<Rightarrow> bytes \<Rightarrow> bytes" where
  "file_write f off d =
     (if d = [] then f
      else take off (f @ replicate (off - length f) 0) @ d @ drop (off + length d) f)"

definition bl_close :: "binlog \<Rightarrow> binlog" where
  "bl_close b = (case bl_fp b of None \<Rightarrow> b
     | Some f \<Rightarrow> b\<lparr> bl_fp := None, bl_closed := f # bl_closed b \<rparr>)"

definition bl_open :: "bl_env \<Rightarrow> binlog \<Rightarrow> binlog \<times> bool" where
  "bl_open e b = (if bl_fp b \<noteq> None then (b, True)
     else if \<not> env_open_ok e then (b, False)
     else (b\<lparr> bl_fp := Some [], current_file_size := 0, other_sessions_bytes := env_other_open e,
              writes_since_quota_refresh := 0 \<rparr>, True))"

definition rotate_for_reboot :: "bl_env \<Rightarrow> binlog \<Rightarrow> binlog" where
  "rotate_for_reboot e b =
     (bl_close b)\<lparr> seen_bitmap := [], highest_seen := 0, pending_acks := [], nack_state := [],
       last_start_sent := 0, gated_block_count := 0, last_system_time_boot_ms := 0,
       bl_datedir := fst (env_names e), bl_name := snd (env_names e) \<rparr>"

section \<open>Blocks\<close>

text \<open>\<open>for (s = prev_highest + 1; s < new_seqno; s++)\<close>: seed the NACK table.\<close>

definition queue_gap_nacks :: "binlog \<Rightarrow> nat \<Rightarrow> nat \<Rightarrow> int \<Rightarrow> binlog" where
  "queue_gap_nacks b prev_highest new_seqno now =
     fold (\<lambda>s b. if seqno_seen (seen_bitmap b) s then b
                else if map_of (nack_state b) s \<noteq> None then b
                else b\<lparr> nack_state := nack_state b @ [(s, now, 0)] \<rparr>)
       [u32 (prev_highest + 1) ..< new_seqno] b"

text \<open>The strict-start gate: \<open>None\<close> when the block is dropped there.\<close>

definition block_gate :: "bl_env \<Rightarrow> binlog \<Rightarrow> log_block \<Rightarrow> binlog \<times> bool" where
  "block_gate e b blk =
     (if bl_fp b = None then
        if blk_seqno blk \<noteq> 0 then
          let b1 = (if target_system b = 0
                    then b\<lparr> target_system := blk_sysid blk, target_component := blk_compid blk \<rparr> else b)
          in (if gated_block_count b1 < STOP_MIN_GATED_BLOCKS
              then b1\<lparr> gated_block_count := gated_block_count b1 + 1 \<rparr> else b1, False)
        else let (b1, ok) = bl_open e b
             in if ok then (b1\<lparr> gated_block_count := 0 \<rparr>, True) else (b1, False)
      else (b, True))"

definition prospective_size :: "binlog \<Rightarrow> nat \<Rightarrow> nat" where
  "prospective_size b seqno = max (current_file_size b) (seqno * BLOCK_BYTES + BLOCK_BYTES)"

definition own_alloc :: "bl_env \<Rightarrow> nat" where
  "own_alloc e = (case env_stat e of None \<Rightarrow> 0 | Some (alloc, blksize) \<Rightarrow> alloc)"

definition write_growth :: "bl_env \<Rightarrow> nat" where
  "write_growth e = (case env_stat e of None \<Rightarrow> BLOCK_BYTES
     | Some (alloc, blksize) \<Rightarrow> if blksize > BLOCK_BYTES then blksize else BLOCK_BYTES)"

text \<open>The two caps, with the rate-limited cleanup pass.\<close>

definition block_caps :: "bl_env \<Rightarrow> binlog \<Rightarrow> nat \<Rightarrow> binlog \<times> bool" where
  "block_caps e b seqno =
     (if prospective_size b seqno - current_file_size b > MAX_FORWARD_JUMP_BYTES then (b, False)
      else
        let need = own_alloc e + write_growth e;
            b1 = (if other_sessions_bytes b + need > env_quota e
                     \<and> env_now e - last_quota_cleanup b \<ge> QUOTA_CLEANUP_MIN_INTERVAL_S
                  then b\<lparr> last_quota_cleanup := env_now e, other_sessions_bytes := env_other_cleanup e \<rparr>
                  else b)
        in (b1, \<not> other_sessions_bytes b1 + need > env_quota e))"

text \<open>The bookkeeping after a complete write.\<close>

definition block_written :: "bl_env \<Rightarrow> binlog \<Rightarrow> log_block \<Rightarrow> binlog" where
  "block_written e b blk =
     (let seqno = blk_seqno blk;
          b1 = b\<lparr> current_file_size := prospective_size b seqno,
                  writes_since_quota_refresh := writes_since_quota_refresh b + 1 \<rparr>;
          b2 = (if writes_since_quota_refresh b1 \<ge> 10000
                then b1\<lparr> other_sessions_bytes := env_other_periodic e, writes_since_quota_refresh := 0 \<rparr> else b1);
          was_seen = seqno_seen (seen_bitmap b2) seqno;
          b3 = b2\<lparr> seen_bitmap := mark_seqno_seen (seen_bitmap b2) seqno,
                   nack_state := filter (\<lambda>x. fst x \<noteq> seqno) (nack_state b2) \<rparr>;
          b4 = (if any_block_seen b3 \<and> seqno > u32 (highest_seen b3 + 1)
                   \<and> \<not> (highest_seen b3 = 0 \<and> \<not> was_seen \<and> seqno = 0)
                then queue_gap_nacks b3 (highest_seen b3) seqno (env_now e) else b3);
          b5 = (if seqno \<ge> highest_seen b4 then b4\<lparr> highest_seen := seqno \<rparr> else b4)
      in b5\<lparr> pending_acks := pending_acks b5 @ [seqno] \<rparr>)"

text \<open>Block 0 on a file that is well under way: the vehicle restarted its log.\<close>

definition bl_restart :: "binlog \<Rightarrow> log_block \<Rightarrow> bool" where
  "bl_restart b blk =
     (bl_fp b \<noteq> None \<and> blk_seqno blk = 0 \<and> highest_seen b \<ge> SEQNO0_RESTART_MIN_HIGHEST)"

definition bl_entry :: "bl_env \<Rightarrow> binlog \<Rightarrow> log_block \<Rightarrow> binlog" where
  "bl_entry e b blk = (if bl_restart b blk then rotate_for_reboot e b else b)"

text \<open>The result says whether the block was written and queued for an ACK.\<close>

definition handle_block :: "bl_env \<Rightarrow> binlog \<Rightarrow> log_block \<Rightarrow> binlog \<times> bool" where
  "handle_block e b0 blk =
     (let (b1, pass) = block_gate e (bl_entry e b0 blk) blk
      in if \<not> pass then (b1, False)
         else
           let (b2, pass2) = block_caps e b1 (blk_seqno blk)
           in if \<not> pass2 then (b2, False)
              else
                let b3 = (if \<not> any_block_seen b2
                          then b2\<lparr> target_system := blk_sysid blk, target_component := blk_compid blk,
                                   any_block_seen := True \<rparr> else b2)
                in if \<not> env_seek_ok e then (b3, False)
                   else
                     let d = take (env_wrote e) (take BLOCK_BYTES (blk_data blk));
                         b4 = b3\<lparr> bl_fp := map_option (\<lambda>f. file_write f (blk_seqno blk * BLOCK_BYTES) d) (bl_fp b3) \<rparr>
                     in if env_wrote e \<noteq> BLOCK_BYTES then (b4, False)
                        else (block_written e b4 blk, True))"

section \<open>The periodic pump\<close>

datatype bl_status = Ack | Nack

text \<open>A status message: target system and component, seqno, status.\<close>

type_synonym bl_msg = "nat \<times> nat \<times> nat \<times> bl_status"

definition MAGIC_START :: nat where "MAGIC_START = 2147483646"
definition MAGIC_STOP :: nat where "MAGIC_STOP = 2147483645"

text \<open>\<open>sends\<close> is whether each \<open>send_buf\<close> takes the whole message; when it has run out, it does not.\<close>

definition next_send :: "bool list \<Rightarrow> bool \<times> bool list" where
  "next_send sends = (case sends of [] \<Rightarrow> (False, []) | s # r \<Rightarrow> (s, r))"

definition send_magic_packet :: "binlog \<Rightarrow> nat \<Rightarrow> bl_msg" where
  "send_magic_packet b magic = (target_system b, target_component b, magic, Ack)"

definition nack_stale :: "binlog \<Rightarrow> int \<Rightarrow> nat \<times> int \<times> int \<Rightarrow> bool" where
  "nack_stale b now x = (case x of (s, first_seen, last_sent) \<Rightarrow>
     seqno_seen (seen_bitmap b) s \<or> now - first_seen > NACK_GIVEUP_S
     \<or> (highest_seen b \<ge> s \<and> highest_seen b - s > NACK_GIVEUP_BLOCKS))"

definition drop_stale_nack_state :: "binlog \<Rightarrow> int \<Rightarrow> binlog" where
  "drop_stale_nack_state b now = b\<lparr> nack_state := filter (\<lambda>x. \<not> nack_stale b now x) (nack_state b) \<rparr>"

definition send_status :: "binlog \<Rightarrow> nat \<Rightarrow> bl_status \<Rightarrow> bl_msg option" where
  "send_status b seqno status =
     (if \<not> any_block_seen b then None else Some (target_system b, target_component b, seqno, status))"

text \<open>The NACK loop: the updated table and the messages offered to the link.\<close>

fun nack_loop :: "binlog \<Rightarrow> int \<Rightarrow> nat \<Rightarrow> (nat \<times> int \<times> int) list \<Rightarrow> bool list
    \<Rightarrow> (nat \<times> int \<times> int) list \<times> bl_msg list \<times> bool list" where
  "nack_loop b now budget [] sends = ([], [], sends)"
| "nack_loop b now budget ((s, first_seen, last_sent) # xs) sends =
     (if budget = 0 then ((s, first_seen, last_sent) # xs, [], sends)
      else if last_sent \<noteq> 0 \<and> now - last_sent < NACK_REPEAT_S then
        let (xs', ms, sends') = nack_loop b now budget xs sends in ((s, first_seen, last_sent) # xs', ms, sends')
      else
        let (ok, sends1) = next_send sends;
            (xs', ms, sends') = nack_loop b now (if ok then budget - 1 else budget) xs sends1
        in ((s, first_seen, if ok then now else last_sent) # xs',
            (target_system b, target_component b, s, Nack) # ms, sends'))"

definition tick_stop :: "int \<Rightarrow> binlog \<Rightarrow> bool list \<Rightarrow> binlog \<times> bl_msg list \<times> bool list" where
  "tick_stop now b sends =
     (if bl_fp b = None \<and> gated_block_count b \<ge> STOP_MIN_GATED_BLOCKS \<and> now - last_stop_sent b \<ge> STOP_REPEAT_S then
        let (ok, sends1) = next_send sends
        in (if ok then b\<lparr> last_stop_sent := now, last_start_sent := 0 \<rparr> else b, [send_magic_packet b MAGIC_STOP], sends1)
      else (b, [], sends))"

definition tick_start :: "int \<Rightarrow> int \<Rightarrow> binlog \<Rightarrow> bool list \<Rightarrow> binlog \<times> bl_msg list \<times> bool list" where
  "tick_start interval now b sends =
     (if now - last_start_sent b \<ge> interval then
        let (ok, sends1) = next_send sends
        in (if ok then b\<lparr> last_start_sent := now \<rparr> else b, [send_magic_packet b MAGIC_START], sends1)
      else (b, [], sends))"

definition bl_tick :: "int \<Rightarrow> binlog \<Rightarrow> bool list \<Rightarrow> binlog \<times> bl_msg list" where
  "bl_tick now b sends =
     (let (b1, m1, s1) = tick_stop now b sends
      in if \<not> any_block_seen b1 then
           let (b2, m2, s2) = tick_start START_REPEAT_S now b1 s1 in (b2, m1 @ m2)
         else
           let (b2, m2, s2) = tick_start START_KEEPALIVE_S now b1 s1
           in if bl_fp b2 = None then (b2, m1 @ m2)
              else
                let acks = List.map_filter (\<lambda>s. send_status b2 s Ack) (pending_acks b2);
                    s3 = drop (length (pending_acks b2)) s2;
                    b3 = drop_stale_nack_state (b2\<lparr> pending_acks := [] \<rparr>) now;
                    (ns, m3, s4) = nack_loop b3 now MAX_NACKS_PER_TICK (nack_state b3) s3
                in (b3\<lparr> nack_state := ns \<rparr>, m1 @ m2 @ acks @ m3))"

section \<open>Reboot detection\<close>

record system_time_msg =
  st_is_system_time :: bool
  st_is_autopilot :: bool
  st_sysid :: nat
  st_time_boot_ms :: nat

definition bl_observe :: "bl_env \<Rightarrow> binlog \<Rightarrow> system_time_msg \<Rightarrow> binlog" where
  "bl_observe e b m =
     (if \<not> st_is_system_time m \<or> \<not> st_is_autopilot m
         \<or> fc_sysid_filter b \<noteq> 0 \<and> st_sysid m \<noteq> fc_sysid_filter b then b
      else
        let b1 = (if last_system_time_boot_ms b \<noteq> 0
                     \<and> u32 (st_time_boot_ms m + REBOOT_TIME_BACKWARD_MS) \<le> last_system_time_boot_ms b
                     \<and> bl_fp b \<noteq> None
                  then rotate_for_reboot e b else b)
        in b1\<lparr> last_system_time_boot_ms := st_time_boot_ms m \<rparr>)"

section \<open>The bitmap is a set of block numbers\<close>

lemma bit_or_push: "n < 8 \<Longrightarrow> m < 8 \<Longrightarrow> bit ((w :: byte) OR 2 ^ m) n \<longleftrightarrow> bit w n \<or> n = m"
  by (auto simp: bit_simps)

lemma nth_append_zeros: "i < length xs + k \<Longrightarrow>
    (xs @ replicate k (0 :: byte)) ! i = (if i < length xs then xs ! i else 0)"
  by (simp add: nth_append)

lemma round_up_ge: "n \<le> (n + 65535) div 65536 * (65536 :: nat)"
  using div_mult_mod_eq [of "n + 65535" 65536] mod_less_divisor [of 65536 "n + 65535"] by linarith

lemma seqno_seen_mark [simp]:
  "seqno_seen (mark_seqno_seen bm s) t \<longleftrightarrow> s = t \<or> seqno_seen bm t"
proof -
  define bm1 where "bm1 = (if s div 8 \<ge> length bm
    then bm @ replicate ((s div 8 + 1 + 65535) div 65536 * 65536 - length bm) 0 else bm)"
  have len: "s div 8 < length bm1" "length bm \<le> length bm1"
    using round_up_ge [of "s div 8 + 1"] by (auto simp: bm1_def)
  have ext: "seqno_seen bm1 u = seqno_seen bm u" for u
    by (auto simp: seqno_seen_def Let_def bm1_def nth_append_zeros)
  have eq: "mark_seqno_seen bm s = bm1[s div 8 := (bm1 ! (s div 8)) OR push_bit (s mod 8) 1]"
    by (simp add: mark_seqno_seen_def bm1_def Let_def)
  show ?thesis
  proof (cases "t div 8 = s div 8")
    case True
    then have "s = t \<longleftrightarrow> s mod 8 = t mod 8" by (metis div_mult_mod_eq)
    then show ?thesis
      using True len ext [of t] by (auto simp: eq seqno_seen_def Let_def bit_or_push)
  next
    case False
    then show ?thesis using len ext [of t] by (auto simp: eq seqno_seen_def Let_def)
  qed
qed

lemma seqno_seen_Nil [simp]: "\<not> seqno_seen [] t"
  by (simp add: seqno_seen_def)

section \<open>File contents\<close>

lemma length_file_write: "length (file_write f off d) = (if d = [] then length f else max (length f) (off + length d))"
  by (auto simp: file_write_def)

lemma seg_file_write_same:
  assumes "d \<noteq> []" shows "seg (file_write f off d) off (length d) = d"
proof -
  have "length (take off (f @ replicate (off - length f) 0)) = off" by simp
  then show ?thesis using assms by (simp add: file_write_def seg_def)
qed

lemma nth_file_write:
  "i < length f \<Longrightarrow> i < off \<or> off + length d \<le> i \<Longrightarrow> file_write f off d ! i = f ! i"
  by (auto simp: file_write_def nth_append)

lemma seg_file_write_other:
  assumes "a + n \<le> length f" "a + n \<le> off \<or> off + length d \<le> a"
  shows "seg (file_write f off d) a n = seg f a n"
proof (rule nth_equalityI)
  have "length f \<le> length (file_write f off d)" by (simp add: length_file_write)
  then show "length (seg (file_write f off d) a n) = length (seg f a n)"
    using assms(1) by (simp add: length_seg)
  fix i assume "i < length (seg (file_write f off d) a n)"
  then have "i < n" by (simp add: length_seg)
  then show "seg (file_write f off d) a n ! i = seg f a n ! i"
    using assms \<open>length f \<le> length (file_write f off d)\<close> nth_file_write [of "a + i" f off d]
    by (subst (1 2) nth_seg) auto
qed

section \<open>One block, stage by stage\<close>

text \<open>The per-file state: what the proofs follow through the stages of \<open>handle_block\<close>.\<close>

definition bl_core :: "binlog \<Rightarrow> bytes option \<times> bytes \<times> nat \<times> nat list \<times> (nat \<times> int \<times> int) list" where
  "bl_core b = (bl_fp b, seen_bitmap b, highest_seen b, pending_acks b, nack_state b)"

definition bl_bytes :: "binlog \<Rightarrow> bytes" where
  "bl_bytes b = (case bl_fp b of None \<Rightarrow> [] | Some f \<Rightarrow> f)"

lemma gate_core:
  assumes "block_gate e b blk = (b1, ok)"
  shows "if ok then bl_core b1 = (Some (bl_bytes b), snd (bl_core b)) \<and> (bl_fp b = None \<longrightarrow> blk_seqno blk = 0)
         else bl_core b1 = bl_core b"
  using assms
  by (auto simp: block_gate_def bl_open_def bl_core_def bl_bytes_def Let_def split: if_splits prod.splits)

lemma caps_core: "block_caps e b s = (b1, ok) \<Longrightarrow> bl_core b1 = bl_core b"
  by (auto simp: block_caps_def bl_core_def Let_def split: if_splits)

lemma file_write_Nil [simp]: "file_write f off [] = f"
  by (simp add: file_write_def)

text \<open>Every call drops the block at the gate, writes a part of it, or writes and records it all.\<close>

lemma handle_block_cases:
  assumes "handle_block e b blk = (b', ok)"
  defines "b0 \<equiv> bl_entry e b blk" and "off \<equiv> blk_seqno blk * BLOCK_BYTES"
  obtains (gated) "\<not> ok" "bl_core b' = bl_core b0"
    | (dropped) k where "\<not> ok" "bl_fp b0 = None \<longrightarrow> blk_seqno blk = 0"
        "bl_core b' = (Some (file_write (bl_bytes b0) off (take k (take BLOCK_BYTES (blk_data blk)))), snd (bl_core b0))"
    | (written) b4 b1 b2 where ok "bl_fp b0 = None \<longrightarrow> blk_seqno blk = 0" "any_block_seen b4"
        "bl_core b4 = (Some (file_write (bl_bytes b0) off (take BLOCK_BYTES (blk_data blk))), snd (bl_core b0))"
        "b' = block_written e b4 blk" "block_gate e b0 blk = (b1, True)"
        "block_caps e b1 (blk_seqno blk) = (b2, True)" "current_file_size b4 = current_file_size b2"
proof -
  obtain b1 p1 where g: "block_gate e b0 blk = (b1, p1)" by fastforce
  obtain b2 p2 where c: "block_caps e b1 (blk_seqno blk) = (b2, p2)" by fastforce
  note core = gate_core [OF g] caps_core [OF c]
  define b3 where "b3 = (if \<not> any_block_seen b2 then b2\<lparr> target_system := blk_sysid blk,
      target_component := blk_compid blk, any_block_seen := True \<rparr> else b2)"
  have b3: "bl_core b3 = bl_core b2" "any_block_seen b3" by (auto simp: b3_def bl_core_def)
  define b4 where "b4 = b3\<lparr> bl_fp := map_option (\<lambda>f. file_write f off
      (take (env_wrote e) (take BLOCK_BYTES (blk_data blk)))) (bl_fp b3) \<rparr>"
  have h: "handle_block e b blk = (if \<not> p1 then (b1, False) else if \<not> p2 then (b2, False)
      else if \<not> env_seek_ok e then (b3, False)
      else if env_wrote e \<noteq> BLOCK_BYTES then (b4, False) else (block_written e b4 blk, True))"
    using g c unfolding handle_block_def b0_def [symmetric] by (simp add: b3_def b4_def off_def Let_def)
  consider "\<not> p1" | "p1" "\<not> p2 \<or> \<not> env_seek_ok e" | "p1" "p2" "env_seek_ok e" "env_wrote e \<noteq> BLOCK_BYTES"
    | "p1" "p2" "env_seek_ok e" "env_wrote e = BLOCK_BYTES" by blast
  then show thesis
  proof cases
    case 1
    then show ?thesis using gated h assms(1) core by simp
  next
    case 2
    then have "\<not> ok" "bl_core b' = bl_core b1" using h assms(1) core b3 by (auto split: if_splits)
    then show ?thesis using dropped [of 0] core 2 by simp
  next
    case 3
    then have "\<not> ok" "b' = b4" using h assms(1) by simp_all
    then show ?thesis using dropped [of "env_wrote e"] core b3 3 by (simp add: b4_def bl_core_def)
  next
    case 4
    then have "ok" "b' = block_written e b4 blk" using h assms(1) by simp_all
    then show ?thesis using written [of b4 b1 b2] core b3 4 g c by (simp add: b3_def b4_def bl_core_def)
  qed
qed

subsection \<open>Gap NACKs\<close>

definition gap_nacks :: "bytes \<Rightarrow> int \<Rightarrow> nat list \<Rightarrow> (nat \<times> int \<times> int) list \<Rightarrow> (nat \<times> int \<times> int) list" where
  "gap_nacks bm now ss ns = ns @ map (\<lambda>s. (s, now, 0)) (filter (\<lambda>s. \<not> seqno_seen bm s \<and> s \<notin> fst ` set ns) ss)"

lemma queue_gap_nacks_eq:
  "queue_gap_nacks b p n now =
     b\<lparr> nack_state := gap_nacks (seen_bitmap b) now [u32 (p + 1) ..< n] (nack_state b) \<rparr>"
proof -
  have "distinct ss \<Longrightarrow> fold (\<lambda>s b. if seqno_seen (seen_bitmap b) s then b
                else if map_of (nack_state b) s \<noteq> None then b
                else b\<lparr> nack_state := nack_state b @ [(s, now, 0)] \<rparr>) ss b
      = b\<lparr> nack_state := gap_nacks (seen_bitmap b) now ss (nack_state b) \<rparr>" for ss
  proof (induction ss arbitrary: b)
    case (Cons s ss)
    have "s \<notin> set ss" using Cons.prems by simp
    then have "filter (\<lambda>t. \<not> seqno_seen (seen_bitmap b) t \<and> t \<noteq> s \<and> t \<notin> fst ` set (nack_state b)) ss
        = filter (\<lambda>t. \<not> seqno_seen (seen_bitmap b) t \<and> t \<notin> fst ` set (nack_state b)) ss"
      by (intro filter_cong) auto
    then show ?case
      using Cons by (simp add: gap_nacks_def map_of_eq_None_iff)
  qed (simp add: gap_nacks_def)
  then show ?thesis by (simp add: queue_gap_nacks_def)
qed

lemma block_written_core:
  fixes b :: binlog and blk :: log_block
  assumes "any_block_seen b"
  defines "s \<equiv> blk_seqno blk" and "ns \<equiv> filter (\<lambda>x. fst x \<noteq> blk_seqno blk) (nack_state b)"
  shows "bl_core (block_written e b blk) = (bl_fp b, mark_seqno_seen (seen_bitmap b) s, max (highest_seen b) s,
    pending_acks b @ [s],
    if s > u32 (highest_seen b + 1)
    then gap_nacks (mark_seqno_seen (seen_bitmap b) s) (env_now e) [u32 (highest_seen b + 1) ..< s] ns else ns)"
  using assms(1)
  by (auto simp: block_written_def Let_def bl_core_def queue_gap_nacks_eq s_def ns_def max_def)

section \<open>The invariant\<close>

definition bl_inv :: "binlog \<Rightarrow> bool" where
  "bl_inv b = (case bl_core b of (fp, bm, hi, acks, ns) \<Rightarrow>
     (fp = None \<longrightarrow> bm = [] \<and> hi = 0 \<and> acks = [] \<and> ns = [])
     \<and> (\<forall>s. seqno_seen bm s \<longrightarrow> s * BLOCK_BYTES + BLOCK_BYTES \<le> length (bl_bytes b) \<and> s \<le> hi)
     \<and> (\<forall>s \<in> set acks. seqno_seen bm s)
     \<and> distinct (map fst ns) \<and> (\<forall>x \<in> set ns. fst x < hi \<and> \<not> seqno_seen bm (fst x)))"

text \<open>The block stored at a sequence number of the open file.\<close>

definition bl_stored :: "binlog \<Rightarrow> nat \<Rightarrow> bytes option" where
  "bl_stored b s = (if seqno_seen (seen_bitmap b) s
     then Some (seg (bl_bytes b) (s * BLOCK_BYTES) BLOCK_BYTES) else None)"

text \<open>Every block number up to the highest one seen has arrived or is being asked for.\<close>

definition gaps_covered :: "binlog \<Rightarrow> bool" where
  "gaps_covered b = (\<forall>t. 0 < t \<and> t \<le> highest_seen b \<longrightarrow>
     seqno_seen (seen_bitmap b) t \<or> t \<in> fst ` set (nack_state b))"

lemma bl_inv_core: "bl_core b = bl_core b' \<Longrightarrow> bl_inv b = bl_inv b'"
  by (auto simp: bl_inv_def bl_bytes_def bl_core_def)

lemma bl_inv_new: "bl_inv (bl_new f d n)"
  by (simp add: bl_inv_def bl_core_def bl_new_def)

lemma bl_core_rotate: "bl_core (rotate_for_reboot e b) = (None, [], 0, [], [])"
  by (auto simp: rotate_for_reboot_def bl_close_def bl_core_def split: option.splits)

lemma bl_inv_entry: "bl_inv b \<Longrightarrow> bl_inv (bl_entry e b blk)"
  by (cases "bl_restart b blk") (simp_all add: bl_entry_def bl_inv_def bl_core_rotate)

lemma distinct_gap_nacks:
  "distinct (map fst ns) \<Longrightarrow> distinct ss \<Longrightarrow> distinct (map fst (gap_nacks bm now ss ns))"
  by (auto simp: gap_nacks_def comp_def)

lemma fst_gap_nacks:
  "fst ` set (gap_nacks bm now ss ns) = fst ` set ns \<union> {s \<in> set ss. \<not> seqno_seen bm s}"
  by (simp add: gap_nacks_def image_Un image_image) blast

lemma bl_bytes_core: "bl_core b = (Some f, r) \<Longrightarrow> bl_bytes b = f"
  by (simp add: bl_bytes_def bl_core_def)

lemma block_area_disjoint:
  "s \<noteq> t \<Longrightarrow> s * n + n \<le> t * n \<or> t * n + (n :: nat) \<le> s * n"
  using mult_le_mono1 [of "Suc s" t n] mult_le_mono1 [of "Suc t" s n] by (cases "s < t") auto

lemma stored_file_write_other:
  assumes "bl_inv b" "bl_fp b \<noteq> None \<or> s = 0" "t \<noteq> s" "length d \<le> BLOCK_BYTES"
    and "seqno_seen (seen_bitmap b) t"
  shows "seg (file_write (bl_bytes b) (s * BLOCK_BYTES) d) (t * BLOCK_BYTES) BLOCK_BYTES
    = seg (bl_bytes b) (t * BLOCK_BYTES) BLOCK_BYTES"
proof (rule seg_file_write_other)
  show "t * BLOCK_BYTES + BLOCK_BYTES \<le> length (bl_bytes b)"
    using assms(1,5) by (simp add: bl_inv_def bl_core_def)
  show "t * BLOCK_BYTES + BLOCK_BYTES \<le> s * BLOCK_BYTES \<or> s * BLOCK_BYTES + length d \<le> t * BLOCK_BYTES"
    using block_area_disjoint [OF assms(3), of BLOCK_BYTES] assms(4) by linarith
qed

text \<open>A file that only grows keeps the invariant.\<close>

lemma bl_inv_grow:
  assumes "bl_inv b" "bl_core b' = (Some f, snd (bl_core b))" "length (bl_bytes b) \<le> length f"
  shows "bl_inv b'"
proof -
  have "bl_bytes b' = f" using assms(2) by (rule bl_bytes_core)
  then show ?thesis using assms by (fastforce simp: bl_inv_def bl_core_def)
qed

lemma bl_inv_written:
  assumes inv: "bl_inv b" and any: "any_block_seen b" and f: "bl_fp b = Some f"
    and len: "blk_seqno blk * BLOCK_BYTES + BLOCK_BYTES \<le> length f"
  shows "bl_inv (block_written e b blk)"
proof -
  define s where "s = blk_seqno blk"
  define ns where "ns = filter (\<lambda>x. fst x \<noteq> s) (nack_state b)"
  define ns' where "ns' = (if s > u32 (highest_seen b + 1)
    then gap_nacks (mark_seqno_seen (seen_bitmap b) s) (env_now e) [u32 (highest_seen b + 1) ..< s] ns else ns)"
  have core: "bl_core (block_written e b blk) = (Some f, mark_seqno_seen (seen_bitmap b) s, max (highest_seen b) s,
      pending_acks b @ [s], ns')"
    using block_written_core [OF any] f by (simp add: s_def ns'_def ns_def)
  have d: "distinct (map fst ns)" using inv by (simp add: ns_def bl_inv_def bl_core_def distinct_map_filter)
  have k: "t < highest_seen b \<and> \<not> seqno_seen (seen_bitmap b) t \<and> t \<noteq> s" if "t \<in> fst ` set ns" for t
    using inv that by (auto simp: ns_def bl_inv_def bl_core_def)
  have d': "distinct (map fst ns')" using d by (simp add: ns'_def distinct_gap_nacks)
  have k': "t < max (highest_seen b) s \<and> \<not> seqno_seen (seen_bitmap b) t \<and> t \<noteq> s" if "t \<in> fst ` set ns'" for t
    using that k [of t] by (cases "t \<in> fst ` set ns") (simp_all add: ns'_def fst_gap_nacks less_max_iff_disj split: if_splits)
  show ?thesis
    using inv core d' k' len f bl_bytes_core [OF core]
    by (fastforce simp: bl_inv_def bl_core_def bl_bytes_def s_def)
qed

section \<open>Blocks refine a map of stored blocks\<close>

lemma entry_fields:
  "bl_stored (bl_entry e b blk) t = (if bl_restart b blk then None else bl_stored b t)"
  "pending_acks (bl_entry e b blk) = (if bl_restart b blk then [] else pending_acks b)"
  "seen_bitmap (bl_entry e b blk) = (if bl_restart b blk then [] else seen_bitmap b)"
  "bl_fp (bl_entry e b blk) = (if bl_restart b blk then None else bl_fp b)"
  using bl_core_rotate [of e b] by (simp_all add: bl_entry_def bl_stored_def bl_core_def)

lemma stored_after_write:
  assumes inv: "bl_inv b0" and core: "bl_core b' = (Some (file_write (bl_bytes b0) (s * BLOCK_BYTES) d), bm, r)"
    and bm: "\<And>t. seqno_seen bm t \<longleftrightarrow> seqno_seen (seen_bitmap b0) t \<or> t = s \<and> full"
    and o0: "bl_fp b0 = None \<longrightarrow> s = 0" and d: "length d \<le> BLOCK_BYTES" and t: "t \<noteq> s"
  shows "bl_stored b' t = bl_stored b0 t"
proof -
  have "bl_bytes b' = file_write (bl_bytes b0) (s * BLOCK_BYTES) d" using core by (rule bl_bytes_core)
  moreover have "seen_bitmap b' = bm" using core by (simp add: bl_core_def)
  ultimately show ?thesis
    using stored_file_write_other [OF inv _ t d] o0 t bm [of t] by (auto simp: bl_stored_def)
qed

lemma BLOCK_BYTES_pos [simp]: "0 < BLOCK_BYTES"
  by (simp add: BLOCK_BYTES_def)

lemma handle_block_stored:
  assumes inv: "bl_inv b" and len: "length (blk_data blk) = BLOCK_BYTES"
    and h: "handle_block e b blk = (b', ok)"
  defines "b0 \<equiv> bl_entry e b blk" and "s \<equiv> blk_seqno blk"
  shows "bl_inv b' \<and> (\<forall>t. t \<noteq> s \<longrightarrow> bl_stored b' t = bl_stored b0 t)
     \<and> pending_acks b' = pending_acks b0 @ (if ok then [s] else [])
     \<and> (if ok then bl_stored b' s = Some (blk_data blk)
        else seqno_seen (seen_bitmap b') s = seqno_seen (seen_bitmap b0) s)"
proof -
  have inv0: "bl_inv b0" unfolding b0_def using inv by (rule bl_inv_entry)
  from h show ?thesis
  proof (cases rule: handle_block_cases)
    case gated
    then have c: "bl_core b' = bl_core b0" by (simp add: b0_def)
    then have "bl_stored b' t = bl_stored b0 t" for t by (simp add: bl_stored_def bl_bytes_def bl_core_def)
    then show ?thesis using c gated(1) inv0 bl_inv_core [OF c] by (simp add: bl_core_def)
  next
    case (dropped k)
    note c = dropped(3) [folded b0_def s_def]
    have "bl_inv b'" using inv0 c by (rule bl_inv_grow) (simp add: length_file_write)
    moreover have "bl_stored b' t = bl_stored b0 t" if "t \<noteq> s" for t
      using c that dropped(2) len unfolding b0_def [symmetric] s_def [symmetric]
      by (intro stored_after_write [OF inv0, where s = s and bm = "seen_bitmap b0" and full = False and
            d = "take k (take BLOCK_BYTES (blk_data blk))" and r = "(highest_seen b0, pending_acks b0, nack_state b0)"])
         (auto simp: bl_core_def)
    ultimately show ?thesis using c dropped(1) by (simp add: bl_core_def)
  next
    case (written b4 b1 b2)
    note c = written(4) [folded b0_def s_def]
    have d: "take BLOCK_BYTES (blk_data blk) = blk_data blk" "blk_data blk \<noteq> []" using len by (auto simp: BLOCK_BYTES_def)
    define f where "f = file_write (bl_bytes b0) (s * BLOCK_BYTES) (blk_data blk)"
    have c4: "bl_core b4 = (Some f, snd (bl_core b0))" using c d(1) by (simp add: f_def)
    have lf: "length f = max (length (bl_bytes b0)) (s * BLOCK_BYTES + BLOCK_BYTES)"
      using d(2) len by (simp add: f_def length_file_write)
    have inv4: "bl_inv b4" using inv0 c4 by (rule bl_inv_grow) (simp add: lf)
    have f4: "bl_fp b4 = Some f" using c4 by (simp add: bl_core_def)
    have "bl_inv b'" unfolding written(5)
      by (rule bl_inv_written [OF inv4 written(3) f4]) (simp add: lf flip: s_def)
    moreover obtain r where c': "bl_core b' = (Some f, mark_seqno_seen (seen_bitmap b0) s, r)"
      and r: "fst (snd r) = pending_acks b0 @ [s]"
      using block_written_core [OF written(3), of e blk] f4 c4 by (simp add: written(5) bl_core_def s_def)
    moreover have "bl_stored b' t = bl_stored b0 t" if "t \<noteq> s" for t
      using stored_after_write [OF inv0 c' [unfolded f_def], of True t] written(2) len that
      unfolding b0_def [symmetric] s_def [symmetric] by auto
    moreover have "bl_stored b' s = Some (blk_data blk)"
      using bl_bytes_core [OF c'] c' seg_file_write_same [OF d(2), of "bl_bytes b0" "s * BLOCK_BYTES"] len
      by (simp add: bl_stored_def bl_core_def f_def)
    ultimately show ?thesis using written(1) by (auto simp: bl_core_def)
  qed
qed


section \<open>The pump\<close>

lemma tick_stop_core: "tick_stop now b sends = (b', m, s) \<Longrightarrow> bl_core b' = bl_core b \<and> any_block_seen b' = any_block_seen b
    \<and> target_system b' = target_system b \<and> target_component b' = target_component b
    \<and> set m \<subseteq> {send_magic_packet b MAGIC_STOP}"
  by (auto simp: tick_stop_def bl_core_def split: if_splits prod.splits)

lemma tick_start_core: "tick_start i now b sends = (b', m, s) \<Longrightarrow> bl_core b' = bl_core b \<and> any_block_seen b' = any_block_seen b
    \<and> target_system b' = target_system b \<and> target_component b' = target_component b
    \<and> set m \<subseteq> {send_magic_packet b MAGIC_START}"
  by (auto simp: tick_start_def bl_core_def split: if_splits prod.splits)

text \<open>One round of the NACK loop: out of budget, throttled, or offered to the link.\<close>

lemma nack_loop_Cons_cases:
  assumes "nack_loop b now k ((s, f, l) # xs) sends = (ns', ms, s')"
  obtains (spent) "k = 0" "ns' = (s, f, l) # xs" "ms = []"
    | (throttled) xs' where "k \<noteq> 0" "ns' = (s, f, l) # xs'" "nack_loop b now k xs sends = (xs', ms, s')"
    | (offered) ok s1 xs' ms' where "k \<noteq> 0" "l = 0 \<or> now - l \<ge> NACK_REPEAT_S"
        "nack_loop b now (if ok then k - 1 else k) xs s1 = (xs', ms', s')"
        "ns' = (s, f, if ok then now else l) # xs'" "ms = (target_system b, target_component b, s, Nack) # ms'"
proof (cases "k = 0")
  case True
  then show ?thesis using assms spent by simp
next
  case nz: False
  show ?thesis
  proof (cases "l \<noteq> 0 \<and> now - l < NACK_REPEAT_S")
    case True
    then show ?thesis using assms nz throttled by (auto split: prod.splits)
  next
    case False
    obtain ok s1 where n: "next_send sends = (ok, s1)" by fastforce
    obtain xs' ms1 s2 where r: "nack_loop b now (if ok then k - 1 else k) xs s1 = (xs', ms1, s2)"
      by (metis prod_cases3)
    have "ns' = (s, f, if ok then now else l) # xs'" "ms = (target_system b, target_component b, s, Nack) # ms1" "s' = s2"
      using assms False nz n r by auto
    then show ?thesis using offered [of ok s1 xs' ms1] nz False r by auto
  qed
qed

lemma nack_loop_keys: "nack_loop b now k ns sends = (ns', ms, s') \<Longrightarrow> map fst ns' = map fst ns"
proof (induction ns arbitrary: k sends ns' ms s')
  case (Cons x xs)
  obtain s f l where x: "x = (s, f, l)" by (cases x)
  from Cons.prems [unfolded x] show ?case
    by (cases rule: nack_loop_Cons_cases) (auto simp: x dest: Cons.IH)
qed simp

text \<open>What one run of the NACK loop sends: known gaps whose throttle has run out.\<close>

lemma nack_loop_sends: "nack_loop b now k ns sends = (ns', ms, s') \<Longrightarrow> m \<in> set ms \<Longrightarrow>
    \<exists>s f l. m = (target_system b, target_component b, s, Nack) \<and> (s, f, l) \<in> set ns
      \<and> (l = 0 \<or> now - l \<ge> NACK_REPEAT_S)"
proof (induction ns arbitrary: k sends ns' ms s')
  case (Cons x xs)
  obtain s f l where x: "x = (s, f, l)" by (cases x)
  from Cons.prems(1) [unfolded x] show ?case
  proof (cases rule: nack_loop_Cons_cases)
    case spent
    then show ?thesis using Cons.prems(2) by simp
  next
    case (throttled xs')
    then show ?thesis using Cons.IH [OF throttled(3) Cons.prems(2)] by (metis list.set_intros(2))
  next
    case (offered ok s1 xs' ms')
    then show ?thesis using Cons.IH [OF offered(3)] Cons.prems(2) x
      by (metis list.set_intros set_ConsD)
  qed
qed simp

text \<open>At most the budget is sent successfully; every success is stamped with the time.\<close>

definition nacks_sent :: "(nat \<times> int \<times> int) list \<Rightarrow> (nat \<times> int \<times> int) list \<Rightarrow> nat" where
  "nacks_sent ns ns' = length (filter (\<lambda>(x, y). snd (snd x) \<noteq> snd (snd y)) (zip ns ns'))"

lemma nack_loop_budget: "nack_loop b now k ns sends = (ns', ms, s') \<Longrightarrow> nacks_sent ns ns' \<le> k"
proof (induction ns arbitrary: k sends ns' ms s')
  case (Cons x xs)
  obtain s f l where x: "x = (s, f, l)" by (cases x)
  from Cons.prems [unfolded x] show ?case
  proof (cases rule: nack_loop_Cons_cases)
    case spent
    then show ?thesis by (simp add: x nacks_sent_def zip_same_conv_map filter_map comp_def)
  next
    case (throttled xs')
    then show ?thesis using Cons.IH [OF throttled(3)] by (simp add: x nacks_sent_def)
  next
    case (offered ok s1 xs' ms')
    then show ?thesis using Cons.IH [OF offered(3)] by (auto simp: x nacks_sent_def split: if_splits)
  qed
qed (simp add: nacks_sent_def)

text \<open>With every send succeeding and budget to spare, no gap that is due is left out.\<close>

lemma nack_loop_complete:
  assumes "length ns \<le> k" "list_all id sends" "length ns \<le> length sends"
    and "nack_loop b now k ns sends = (ns', ms, s')" "(s, f, l) \<in> set ns" "l = 0 \<or> now - l \<ge> NACK_REPEAT_S"
  shows "(target_system b, target_component b, s, Nack) \<in> set ms"
  using assms
proof (induction ns arbitrary: k sends ns' ms s')
  case (Cons x xs)
  obtain s0 f0 l0 where x: "x = (s0, f0, l0)" by (cases x)
  obtain s1 where s1: "sends = True # s1" using Cons.prems(2,3) by (cases sends) auto
  obtain k' where k: "k = Suc k'" using Cons.prems(1) by (cases k) auto
  show ?case
  proof (cases "l0 \<noteq> 0 \<and> now - l0 < NACK_REPEAT_S")
    case True
    then show ?thesis
      using Cons.prems x k Cons.IH [of k sends] by (auto split: prod.splits)
  next
    case False
    then show ?thesis
      using Cons.prems x k s1 Cons.IH [of k' s1] by (auto simp: next_send_def split: prod.splits)
  qed
qed simp

text \<open>One tick, once a block has been seen and while the file is open.\<close>

lemma bl_tick_streaming:
  assumes "any_block_seen b" "bl_fp b \<noteq> None"
  obtains m b2 s ns m3 s4 where
    "bl_core b2 = bl_core b" "target_system b2 = target_system b" "target_component b2 = target_component b"
    "any_block_seen b2" "set m \<subseteq> {send_magic_packet b MAGIC_STOP, send_magic_packet b MAGIC_START}"
    "nack_loop (drop_stale_nack_state (b2\<lparr> pending_acks := [] \<rparr>) now) now MAX_NACKS_PER_TICK
       (filter (\<lambda>x. \<not> nack_stale b now x) (nack_state b)) s = (ns, m3, s4)"
    "bl_tick now b sends = ((drop_stale_nack_state (b2\<lparr> pending_acks := [] \<rparr>) now)\<lparr> nack_state := ns \<rparr>,
       m @ map (\<lambda>s. (target_system b, target_component b, s, Ack)) (pending_acks b) @ m3)"
proof -
  obtain b1 m1 s1 where t1: "tick_stop now b sends = (b1, m1, s1)" by (metis prod_cases3)
  obtain b2 m2 s2 where t2: "tick_start START_KEEPALIVE_S now b1 s1 = (b2, m2, s2)" by (metis prod_cases3)
  note c = tick_stop_core [OF t1] tick_start_core [OF t2]
  define b3 where "b3 = drop_stale_nack_state (b2\<lparr> pending_acks := [] \<rparr>) now"
  define s3 where "s3 = drop (length (pending_acks b2)) s2"
  obtain ns m3 s4 where t3: "nack_loop b3 now MAX_NACKS_PER_TICK (nack_state b3) s3 = (ns, m3, s4)"
    by (metis prod_cases3)
  have "nack_stale (b2\<lparr> pending_acks := [] \<rparr>) now = nack_stale b now"
    using c by (auto simp: nack_stale_def bl_core_def fun_eq_iff)
  then have ns3: "nack_state b3 = filter (\<lambda>x. \<not> nack_stale b now x) (nack_state b)"
    using c by (simp add: b3_def drop_stale_nack_state_def bl_core_def)
  have acks: "List.map_filter (\<lambda>s. send_status b2 s Ack) (pending_acks b2)
      = map (\<lambda>s. (target_system b, target_component b, s, Ack)) (pending_acks b)"
    using c assms by (simp add: map_filter_def send_status_def bl_core_def comp_def)
  have p: "any_block_seen b1" "any_block_seen b2" "bl_fp b2 \<noteq> None"
    using c assms by (simp_all add: bl_core_def)
  have tick: "bl_tick now b sends = (b3\<lparr> nack_state := ns \<rparr>, m1 @ m2 @
      map (\<lambda>s. (target_system b, target_component b, s, Ack)) (pending_acks b) @ m3)"
    using t1 t2 t3 p by (auto simp: bl_tick_def Let_def acks simp flip: b3_def s3_def)
  have m: "set (m1 @ m2) \<subseteq> {send_magic_packet b MAGIC_STOP, send_magic_packet b MAGIC_START}"
    using c by (auto simp: send_magic_packet_def)
  show thesis
    by (rule that [of b2 "m1 @ m2" s3 ns m3 s4]) (use c t3 ns3 tick m assms in \<open>simp_all add: b3_def\<close>)
qed

text \<open>In every other state a tick sends START and STOP packets at most.\<close>

lemma bl_tick_waiting:
  assumes "\<not> any_block_seen b \<or> bl_fp b = None" "bl_tick now b sends = (b', ms)"
  shows "set ms \<subseteq> {send_magic_packet b MAGIC_STOP, send_magic_packet b MAGIC_START} \<and> bl_core b' = bl_core b"
proof -
  obtain b1 m1 s1 where t1: "tick_stop now b sends = (b1, m1, s1)" by (metis prod_cases3)
  define i where "i = (if any_block_seen b then START_KEEPALIVE_S else START_REPEAT_S)"
  obtain b2 m2 s2 where t2: "tick_start i now b1 s1 = (b2, m2, s2)" by (metis prod_cases3)
  note c = tick_stop_core [OF t1] tick_start_core [OF t2]
  have "b' = b2 \<and> ms = m1 @ m2"
    using assms t1 t2 c by (auto simp: bl_tick_def bl_core_def i_def split: if_splits)
  then show ?thesis using c by (auto simp: send_magic_packet_def)
qed

lemma bl_tick_inv: 
  assumes "bl_inv b" "bl_tick now b sends = (b', ms)"
  shows "bl_inv b' \<and> (\<forall>s. bl_stored b' s = bl_stored b s)"
proof (cases "any_block_seen b \<and> bl_fp b \<noteq> None")
  case True
  then obtain m b2 s ns m3 s4 where t: "bl_core b2 = bl_core b"
    "nack_loop (drop_stale_nack_state (b2\<lparr> pending_acks := [] \<rparr>) now) now MAX_NACKS_PER_TICK
       (filter (\<lambda>x. \<not> nack_stale b now x) (nack_state b)) s = (ns, m3, s4)"
    "b' = (drop_stale_nack_state (b2\<lparr> pending_acks := [] \<rparr>) now)\<lparr> nack_state := ns \<rparr>"
    using bl_tick_streaming [of b now sends thesis] assms(2) by (auto; metis)
  have k: "map fst ns = map fst (filter (\<lambda>x. \<not> nack_stale b now x) (nack_state b))"
    using nack_loop_keys [OF t(2)] .
  have "fst ` set ns \<subseteq> fst ` set (nack_state b)" using arg_cong [OF k, of set] by auto
  moreover have "distinct (map fst ns)" using assms(1) k by (simp add: bl_inv_def bl_core_def distinct_map_filter)
  moreover have "bl_core b' = (bl_fp b, seen_bitmap b, highest_seen b, [], ns)"
    using t by (simp add: bl_core_def drop_stale_nack_state_def)
  ultimately show ?thesis
    using assms(1) by (fastforce simp: bl_inv_def bl_stored_def bl_bytes_def bl_core_def)
next
  case False
  then have "bl_core b' = bl_core b" using bl_tick_waiting assms(2) by blast
  then show ?thesis
    using assms(1) bl_inv_core [of b b'] by (simp add: bl_stored_def bl_bytes_def bl_core_def)
qed

section \<open>Runs\<close>

text \<open>
  \<open>bl_run L b\<close>: the writer is in state \<open>b\<close>, and every block handled since the
  current file was opened came from the vehicle log \<open>L\<close>.  With no file open, or
  when a block 0 restarts the log, a new vehicle log may begin.
\<close>

inductive bl_run :: "(nat \<Rightarrow> bytes) \<Rightarrow> binlog \<Rightarrow> bool" where
  bl_start: "bl_run L (bl_new fsysid datedir name)"
| bl_run_block: "bl_run L b \<Longrightarrow> L' = L \<or> bl_fp b = None \<or> bl_restart b blk \<Longrightarrow>
    length (blk_data blk) = BLOCK_BYTES \<Longrightarrow> blk_data blk = L' (blk_seqno blk) \<Longrightarrow>
    bl_run L' (fst (handle_block e b blk))"
| bl_run_tick: "bl_run L b \<Longrightarrow> bl_run L (fst (bl_tick now b sends))"
| bl_run_observe: "bl_run L b \<Longrightarrow> bl_run L (bl_observe e b m)"

lemma bl_observe_core: "bl_core (bl_observe e b m) = bl_core b \<or> bl_core (bl_observe e b m) = (None, [], 0, [], [])"
  using bl_core_rotate [of e b] by (auto simp: bl_observe_def Let_def bl_core_def)

lemma bl_stored_core: "bl_core b = bl_core b' \<Longrightarrow> bl_stored b = bl_stored b'"
  by (simp add: bl_stored_def bl_bytes_def bl_core_def fun_eq_iff)

text \<open>A short write of a block that was stored before leaves it as the vehicle sent it.\<close>

lemma file_write_prefix:
  assumes "seg f off (length d) = d" "off + length d \<le> length f"
  shows "file_write f off (take k d) = f"
proof (rule nth_equalityI)
  show len: "length (file_write f off (take k d)) = length f" using assms(2) by (simp add: length_file_write)
  fix i assume "i < length (file_write f off (take k d))"
  then have i: "i < length f" using len by simp
  show "file_write f off (take k d) ! i = f ! i"
  proof (cases "i < off \<or> off + length (take k d) \<le> i")
    case False
    then have "f ! i = d ! (i - off)"
      using assms i nth_seg [of "i - off" "length d" off f] by auto
    then show ?thesis using False assms(2) by (auto simp: file_write_def nth_append)
  qed (use nth_file_write i in blast)
qed

lemma handle_block_keeps_log:
  assumes inv: "bl_inv b" and len: "length (blk_data blk) = BLOCK_BYTES"
    and h: "handle_block e b blk = (b', ok)" and d: "blk_data blk = L (blk_seqno blk)"
    and st: "\<And>s d. bl_stored (bl_entry e b blk) s = Some d \<Longrightarrow> d = L s"
    and s: "bl_stored b' s = Some x"
  shows "x = L s"
proof (cases "s = blk_seqno blk \<and> \<not> ok")
  case False
  then show ?thesis
    using handle_block_stored [OF inv len h] st [of s x] s d
    by (cases "s = blk_seqno blk") (auto split: if_splits)
next
  case True
  let ?b0 = "bl_entry e b blk" and ?off = "blk_seqno blk * BLOCK_BYTES"
  have inv0: "bl_inv ?b0" using inv by (rule bl_inv_entry)
  have "seqno_seen (seen_bitmap ?b0) s"
    using handle_block_stored [OF inv len h] s True by (auto simp: bl_stored_def split: if_splits)
  then have s0: "seg (bl_bytes ?b0) ?off BLOCK_BYTES = L s" "?off + BLOCK_BYTES \<le> length (bl_bytes ?b0)"
    using st [of s] True inv0 by (auto simp: bl_stored_def bl_inv_def bl_core_def)
  from h have "bl_bytes b' = bl_bytes ?b0"
  proof (cases rule: handle_block_cases)
    case (dropped k)
    have "file_write (bl_bytes ?b0) ?off (take k (blk_data blk)) = bl_bytes ?b0"
      using s0 len d True by (intro file_write_prefix) simp_all
    then show ?thesis using bl_bytes_core [OF dropped(3)] len by simp
  qed (use True in \<open>auto simp: bl_bytes_def bl_core_def\<close>)
  then show ?thesis using s s0 True by (auto simp: bl_stored_def split: if_splits)
qed

lemma bl_run_stored: "bl_run L b \<Longrightarrow> bl_inv b \<and> (\<forall>s d. bl_stored b s = Some d \<longrightarrow> d = L s)"
proof (induction rule: bl_run.induct)
  case (bl_start L fsysid datedir name)
  then show ?case using bl_inv_new by (simp add: bl_stored_def bl_new_def)
next
  case (bl_run_block L b L' blk e)
  obtain b' ok where h: "handle_block e b blk = (b', ok)" by fastforce
  have inv: "bl_inv b" using bl_run_block by simp
  have "bl_fp b = None \<Longrightarrow> bl_stored b = (\<lambda>s. None)"
    using inv by (auto simp: bl_inv_def bl_core_def bl_stored_def)
  then have st: "d = L' s" if "bl_stored (bl_entry e b blk) s = Some d" for s d
    using bl_run_block that by (auto simp: entry_fields split: if_splits)
  show ?case
    using handle_block_stored [OF inv bl_run_block.hyps(3) h]
      handle_block_keeps_log [OF inv bl_run_block.hyps(3) h, of L'] bl_run_block.hyps(4) st h by auto
next
  case (bl_run_tick L b now sends)
  then show ?case using bl_tick_inv [of b now sends] by (metis prod.collapse)
next
  case (bl_run_observe L b e m)
  from bl_observe_core [of e b m] show ?case
  proof
    assume "bl_core (bl_observe e b m) = bl_core b"
    then show ?thesis using bl_run_observe.IH bl_inv_core bl_stored_core by metis
  next
    assume "bl_core (bl_observe e b m) = (None, [], 0, [], [])"
    then show ?thesis by (simp add: bl_inv_def bl_core_def bl_stored_def)
  qed
qed

text \<open>
  C23.  No block is acknowledged that is not on disk: in every run, an ACK that a
  tick sends to the vehicle is a START or STOP packet, or names a block whose
  200 bytes stand at their place in the open log file exactly as the vehicle's
  log has them, whatever short writes, failed seeks, quota drops, duplicates,
  rotations and restarts happened before.
\<close>

theorem binlog_ack_safe:
  assumes "bl_run L b" "bl_tick now b sends = (b', ms)" "(sys, cmp, s, Ack) \<in> set ms"
  shows "s \<in> {MAGIC_START, MAGIC_STOP} \<or>
    (\<exists>f. bl_fp b = Some f \<and> s * BLOCK_BYTES + BLOCK_BYTES \<le> length f \<and> seg f (s * BLOCK_BYTES) BLOCK_BYTES = L s)"
proof (cases "any_block_seen b \<and> bl_fp b \<noteq> None")
  case True
  note inv = bl_run_stored [OF assms(1)]
  from True obtain m b2 sd ns m3 s4 where t:
    "set m \<subseteq> {send_magic_packet b MAGIC_STOP, send_magic_packet b MAGIC_START}"
    "nack_loop (drop_stale_nack_state (b2\<lparr> pending_acks := [] \<rparr>) now) now MAX_NACKS_PER_TICK
       (filter (\<lambda>x. \<not> nack_stale b now x) (nack_state b)) sd = (ns, m3, s4)"
    "ms = m @ map (\<lambda>s. (target_system b, target_component b, s, Ack)) (pending_acks b) @ m3"
    using bl_tick_streaming [of b now sends thesis] assms(2) by (auto; metis)
  have "(sys, cmp, s, Ack) \<notin> set m3" using nack_loop_sends [OF t(2)] by fastforce
  then consider "(sys, cmp, s, Ack) \<in> set m" | "s \<in> set (pending_acks b)"
    using assms(3) t(3) by auto
  then show ?thesis
  proof cases
    case 1
    then show ?thesis using t(1) by (auto simp: send_magic_packet_def)
  next
    case 2
    then have seen: "seqno_seen (seen_bitmap b) s" using inv by (auto simp: bl_inv_def bl_core_def)
    then show ?thesis using True inv by (auto simp: bl_inv_def bl_core_def bl_stored_def bl_bytes_def)
  qed
next
  case False
  then show ?thesis using bl_tick_waiting [of b now sends b' ms] assms(2,3) by (auto simp: send_magic_packet_def)
qed

text \<open>An example: block 0 of a log of zero blocks arrives at a new writer.\<close>

definition ex_env :: bl_env where
  "ex_env = \<lparr> env_now = 50000000, env_open_ok = True, env_other_open = 0, env_stat = Some (0, 4096),
     env_quota = 1000000, env_other_cleanup = 0, env_other_periodic = 0, env_seek_ok = True, env_wrote = 200,
     env_names = ([], []) \<rparr>"

definition ex_blk :: "nat \<Rightarrow> log_block" where
  "ex_blk s = \<lparr> blk_seqno = s, blk_data = replicate 200 0, blk_sysid = 1, blk_compid = 1 \<rparr>"

lemmas ex_simps = handle_block_def block_gate_def bl_entry_def bl_restart_def bl_open_def block_caps_def
  prospective_size_def own_alloc_def write_growth_def block_written_def bl_new_def ex_env_def ex_blk_def BLOCK_BYTES_def
  MAX_FORWARD_JUMP_BYTES_def QUOTA_CLEANUP_MIN_INTERVAL_S_def Let_def u32_def

lemma ex_block0: "handle_block ex_env (bl_new 0 [] []) (ex_blk 0) =
    ((bl_new 0 [] [])\<lparr> bl_fp := Some (replicate 200 0), current_file_size := 200, writes_since_quota_refresh := 1,
       any_block_seen := True, target_system := 1, target_component := 1,
       seen_bitmap := mark_seqno_seen [] 0, pending_acks := [0] \<rparr>, True)"
  by (simp add: ex_simps file_write_def)

theorem binlog_ack_safe_witness:
  "\<exists>b b' ms f. bl_run (\<lambda>_. replicate 200 0) b \<and> bl_tick 50000000 b [] = (b', ms)
     \<and> (1, 1, 0, Ack) \<in> set ms \<and> bl_fp b = Some f \<and> seg f 0 200 = replicate 200 0"
proof -
  define b where "b = fst (handle_block ex_env (bl_new 0 [] []) (ex_blk 0))"
  have run: "bl_run (\<lambda>_. replicate 200 0) b"
    unfolding b_def by (rule bl_run_block [OF bl_start]) (simp_all add: ex_blk_def BLOCK_BYTES_def bl_new_def)
  obtain b' ms where t: "bl_tick 50000000 b [] = (b', ms)" by fastforce
  have m: "(1, 1, 0, Ack) \<in> set ms"
  proof (rule bl_tick_streaming [of b 50000000 "[]"])
    show "any_block_seen b" "bl_fp b \<noteq> None" by (simp_all add: b_def ex_block0)
  qed (use t in \<open>auto simp: b_def ex_block0\<close>)
  show ?thesis
    using binlog_ack_safe [OF run t m] run t m by (fastforce simp: MAGIC_START_def MAGIC_STOP_def BLOCK_BYTES_def)
qed


section \<open>Gaps, caps and reboots\<close>



text \<open>
  A tick with a file open: all waiting ACKs go out in order and none stays
  queued; a NACK goes only to a block that is missing, was noticed at most 60
  seconds ago, is at most 200 blocks behind, and was not asked for in the last
  100 ms; at most ten NACKs succeed; only entries that are stale leave the table.
\<close>

theorem binlog_tick_throttle:
  assumes "any_block_seen b" "bl_fp b \<noteq> None" "bl_tick now b sends = (b', ms)"
  shows "pending_acks b' = []
    \<and> (\<exists>m m3. ms = m @ map (\<lambda>s. (target_system b, target_component b, s, Ack)) (pending_acks b) @ m3
        \<and> set m \<subseteq> {send_magic_packet b MAGIC_STOP, send_magic_packet b MAGIC_START}
        \<and> (\<forall>x \<in> set m3. \<exists>s first_seen last_sent. x = (target_system b, target_component b, s, Nack)
             \<and> (s, first_seen, last_sent) \<in> set (nack_state b) \<and> \<not> seqno_seen (seen_bitmap b) s
             \<and> now - first_seen \<le> NACK_GIVEUP_S \<and> highest_seen b \<le> s + NACK_GIVEUP_BLOCKS
             \<and> (last_sent = 0 \<or> now - last_sent \<ge> NACK_REPEAT_S)))
    \<and> nacks_sent (filter (\<lambda>x. \<not> nack_stale b now x) (nack_state b)) (nack_state b') \<le> MAX_NACKS_PER_TICK
    \<and> map fst (nack_state b') = map fst (filter (\<lambda>x. \<not> nack_stale b now x) (nack_state b))"
proof -
  obtain m b2 sd ns m3 s4 where t: "target_system b2 = target_system b" "target_component b2 = target_component b"
    "set m \<subseteq> {send_magic_packet b MAGIC_STOP, send_magic_packet b MAGIC_START}"
    "nack_loop (drop_stale_nack_state (b2\<lparr> pending_acks := [] \<rparr>) now) now MAX_NACKS_PER_TICK
       (filter (\<lambda>x. \<not> nack_stale b now x) (nack_state b)) sd = (ns, m3, s4)"
    "ms = m @ map (\<lambda>s. (target_system b, target_component b, s, Ack)) (pending_acks b) @ m3"
    "b' = (drop_stale_nack_state (b2\<lparr> pending_acks := [] \<rparr>) now)\<lparr> nack_state := ns \<rparr>"
    using bl_tick_streaming [of b now sends thesis] assms by (auto; metis)
  have "\<exists>s f l. x = (target_system b, target_component b, s, Nack) \<and> (s, f, l) \<in> set (nack_state b)
      \<and> \<not> seqno_seen (seen_bitmap b) s \<and> now - f \<le> NACK_GIVEUP_S \<and> highest_seen b \<le> s + NACK_GIVEUP_BLOCKS
      \<and> (l = 0 \<or> now - l \<ge> NACK_REPEAT_S)" if mem: "x \<in> set m3" for x
  proof -
    obtain s f l where "x = (target_system b, target_component b, s, Nack)" "(s, f, l) \<in> set (nack_state b)"
      "\<not> nack_stale b now (s, f, l)" "l = 0 \<or> now - l \<ge> NACK_REPEAT_S"
      using nack_loop_sends [OF t(4) mem] t(1,2) by (auto simp: drop_stale_nack_state_def)
    then show ?thesis by (intro exI [of _ s] exI [of _ f] exI [of _ l]) (auto simp: nack_stale_def)
  qed
  then show ?thesis
    using nack_loop_budget [OF t(4)] nack_loop_keys [OF t(4)] t(3,5)
    by (intro conjI exI [of _ m] exI [of _ m3] ballI) (simp_all add: t(6) drop_stale_nack_state_def)
qed

theorem binlog_tick_throttle_witness:
  "pending_acks (fst (bl_tick 50000000 (fst (handle_block ex_env (bl_new 0 [] []) (ex_blk 0))) [True])) = []"
  by (rule binlog_tick_throttle [THEN conjunct1, OF _ _ surjective_pairing]) (simp_all add: ex_block0)

text \<open>
  The caps on a block: with no file open only block 0 gets past the gate,
  and any other block leaves the file system untouched.  A block that is
  accepted extends the file by at most 100 MiB and only if the allocated bytes
  of the other sessions, of this file and of one more file-system block fit the
  quota, measured at open, at the last cleanup pass or at the periodic refresh.
\<close>

theorem binlog_caps:
  assumes "handle_block e b blk = (b', ok)"
  defines "size0 \<equiv> if bl_fp b = None \<or> bl_restart b blk then 0 else current_file_size b"
  shows "(bl_fp b = None \<and> blk_seqno blk \<noteq> 0 \<longrightarrow> \<not> ok \<and> bl_core b' = bl_core b)
    \<and> (ok \<longrightarrow> current_file_size b' = max size0 (blk_seqno blk * BLOCK_BYTES + BLOCK_BYTES)
         \<and> current_file_size b' \<le> size0 + MAX_FORWARD_JUMP_BYTES
         \<and> (\<exists>other \<in> {other_sessions_bytes b, env_other_open e, env_other_cleanup e}.
              other + own_alloc e + write_growth e \<le> env_quota e))"
proof (intro conjI impI)
  assume g: "bl_fp b = None \<and> blk_seqno blk \<noteq> 0"
  then have "bl_entry e b blk = b" by (simp add: bl_entry_def bl_restart_def)
  with assms(1) g show "\<not> ok" "bl_core b' = bl_core b"
    by (cases rule: handle_block_cases; simp)+
next
  assume ok
  with assms(1) obtain b1 b2 b4 where g: "block_gate e (bl_entry e b blk) blk = (b1, True)"
    and c: "block_caps e b1 (blk_seqno blk) = (b2, True)" and w: "b' = block_written e b4 blk"
    and "current_file_size b4 = current_file_size b2"
    by (cases rule: handle_block_cases) auto
  then have p: "current_file_size b' = prospective_size b2 (blk_seqno blk)"
    by (simp add: w block_written_def Let_def queue_gap_nacks_eq prospective_size_def)
  have e: "current_file_size (bl_entry e b blk) = current_file_size b"
    "other_sessions_bytes (bl_entry e b blk) = other_sessions_bytes b"
    by (simp_all add: bl_entry_def rotate_for_reboot_def bl_close_def split: option.splits)
  have b1: "current_file_size b1 = size0" "other_sessions_bytes b1 \<in> {other_sessions_bytes b, env_other_open e}"
    using g e by (auto simp: block_gate_def bl_open_def entry_fields size0_def Let_def split: if_splits)
  have b2: "current_file_size b2 = size0" "prospective_size b2 (blk_seqno blk) - size0 \<le> MAX_FORWARD_JUMP_BYTES"
    "other_sessions_bytes b2 + own_alloc e + write_growth e \<le> env_quota e"
    "other_sessions_bytes b2 \<in> {other_sessions_bytes b, env_other_open e, env_other_cleanup e}"
    using c b1 by (auto simp: block_caps_def prospective_size_def Let_def add.assoc split: if_splits)
  show "current_file_size b' = max size0 (blk_seqno blk * BLOCK_BYTES + BLOCK_BYTES)"
    using p b2(1) by (simp add: prospective_size_def)
  show "current_file_size b' \<le> size0 + MAX_FORWARD_JUMP_BYTES" using p b2(2) by linarith
  show "\<exists>other \<in> {other_sessions_bytes b, env_other_open e, env_other_cleanup e}.
      other + own_alloc e + write_growth e \<le> env_quota e"
    using b2(3,4) by blast
qed

theorem binlog_caps_witness:
  "\<exists>other \<in> {0, env_other_open ex_env, env_other_cleanup ex_env}.
     other + own_alloc ex_env + write_growth ex_env \<le> env_quota ex_env"
  using binlog_caps [OF ex_block0] by (simp add: bl_new_def)

text \<open>
  Reboot detection: a SYSTEM_TIME of the vehicle's autopilot closes the log
  exactly when its boot time is ten seconds or more behind the last one, provided
  the addition does not wrap; it keeps the closed file's bytes and the vehicle's
  identity, and the next block must be a block 0.
\<close>

theorem binlog_observe_exact:
  assumes "st_is_system_time m" "st_is_autopilot m" "fc_sysid_filter b = 0 \<or> st_sysid m = fc_sysid_filter b"
    and "st_time_boot_ms m + REBOOT_TIME_BACKWARD_MS < 4294967296" "bl_fp b = Some f"
  shows "bl_core (bl_observe e b m) =
      (if last_system_time_boot_ms b \<noteq> 0 \<and> st_time_boot_ms m + REBOOT_TIME_BACKWARD_MS \<le> last_system_time_boot_ms b
       then (None, [], 0, [], []) else bl_core b)
    \<and> (bl_closed (bl_observe e b m) = (if bl_fp (bl_observe e b m) = None then f # bl_closed b else bl_closed b))
    \<and> last_system_time_boot_ms (bl_observe e b m) = st_time_boot_ms m
    \<and> target_system (bl_observe e b m) = target_system b \<and> any_block_seen (bl_observe e b m) = any_block_seen b"
  using assms by (auto simp: bl_observe_def Let_def rotate_for_reboot_def bl_close_def bl_core_def)

theorem binlog_observe_exact_witness:
  "bl_core (bl_observe ex_env ((bl_new 0 [] [])\<lparr> bl_fp := Some [], last_system_time_boot_ms := 50000 \<rparr>)
     \<lparr> st_is_system_time = True, st_is_autopilot = True, st_sysid = 1, st_time_boot_ms = 3000 \<rparr>) = (None, [], 0, [], [])"
  by (subst binlog_observe_exact [THEN conjunct1])
     (simp_all add: bl_new_def REBOOT_TIME_BACKWARD_MS_def)

text \<open>
  The 32-bit sum in the reboot test wraps: in the last ten seconds before
  the vehicle's millisecond clock overflows, a boot time that advances by a
  second is taken for a reboot and closes the log.
\<close>

theorem binlog_observe_wrap:
  "bl_fp (bl_observe e (b\<lparr> bl_fp := Some f, last_system_time_boot_ms := 4294957500, fc_sysid_filter := 0 \<rparr>)
     \<lparr> st_is_system_time = True, st_is_autopilot = True, st_sysid = 1, st_time_boot_ms = 4294958500 \<rparr>) = None"
  by (simp add: bl_observe_def u32_def REBOOT_TIME_BACKWARD_MS_def rotate_for_reboot_def bl_close_def)

text \<open>
  Block 0 is the one block that is never asked for again: when it opens the
  file and is then dropped by the quota, block 1 is accepted into the open file,
  and block 0 is neither received nor in the NACK table, so the log keeps a hole
  at its head unless the vehicle resends the block on its own.
\<close>

theorem binlog_block0_not_requested:
  "\<exists>b. bl_run (\<lambda>_. replicate 200 0) b \<and> bl_fp b \<noteq> None \<and> highest_seen b = 1
     \<and> \<not> seqno_seen (seen_bitmap b) 0 \<and> nack_state b = []"
proof -
  define b0 where "b0 = fst (handle_block (ex_env\<lparr> env_quota := 0 \<rparr>) (bl_new 0 [] []) (ex_blk 0))"
  define b1 where "b1 = fst (handle_block ex_env b0 (ex_blk 1))"
  have r0: "bl_run (\<lambda>_. replicate 200 0) b0"
    unfolding b0_def by (rule bl_run_block [OF bl_start]) (simp_all add: ex_blk_def BLOCK_BYTES_def bl_new_def)
  have "bl_run (\<lambda>_. replicate 200 0) b1"
    unfolding b1_def by (rule bl_run_block [OF r0]) (simp_all add: ex_blk_def BLOCK_BYTES_def)
  moreover have "b0 = (bl_new 0 [] [])\<lparr> bl_fp := Some [], last_quota_cleanup := 50000000 \<rparr>"
    unfolding b0_def by (simp add: ex_simps)
  then have "bl_fp b1 \<noteq> None" "highest_seen b1 = 1" "seen_bitmap b1 = mark_seqno_seen [] 1" "nack_state b1 = []"
    unfolding b1_def by (simp_all add: ex_simps file_write_def)
  ultimately show ?thesis by (intro exI [of _ b1]) simp
qed

end
