(* ===== verification/Sock_Out.thy ===== *)
theory Sock_Out
  imports SP_Prelude
begin

text \<open>
  The write loop that the viewers and the publishers share
  (\<open>VideoViewer::flush\<close> in \<open>src/videoview.cpp\<close>, \<open>RtspViewer::flush\<close> in
  \<open>src/videortspview.cpp\<close>): push a buffer into a non-blocking socket until it
  is empty, the socket is full or it fails.  An \<open>EINTR\<close> retries at once and
  leaves no trace.
\<close>

datatype flush_result = F_done | F_blocked | F_failed

text \<open>\<open>zero_fails\<close> says whether a send of zero bytes counts as a failure.  The first result
  is the number of bytes the socket accepted.\<close>

fun flush_loop :: "bool \<Rightarrow> bytes \<Rightarrow> net_write list \<Rightarrow> nat \<times> net_write list \<times> flush_result" where
  "flush_loop zero_fails rest outs =
     (if rest = [] then (0, outs, F_done)
      else case outs of
        [] \<Rightarrow> (0, [], F_blocked)
      | W_again # os \<Rightarrow> (0, os, F_blocked)
      | W_fail # os \<Rightarrow> (0, os, F_failed)
      | W_sent n # os \<Rightarrow>
          if zero_fails \<and> n = 0 then (0, os, F_failed)
          else let k = min n (length rest); (m, os', r) = flush_loop zero_fails (drop k rest) os
               in (k + m, os', r))"

declare flush_loop.simps [simp del]

lemma flush_loop_Nil [simp]: "flush_loop z [] outs = (0, outs, F_done)"
  by (simp add: flush_loop.simps)

lemma flush_loop_bound:
  "flush_loop z rest outs = (m, outs', r) \<Longrightarrow> m \<le> length rest \<and> (r = F_done \<longleftrightarrow> m = length rest)"
proof (induction z rest outs arbitrary: m outs' r rule: flush_loop.induct)
  case (1 z rest outs)
  show ?case
  proof (cases "\<exists>n os. rest \<noteq> [] \<and> outs = W_sent n # os \<and> \<not> (z \<and> n = 0)")
    case True
    then obtain n os where o: "rest \<noteq> []" "outs = W_sent n # os" "\<not> (z \<and> n = 0)" by blast
    define k where "k = min n (length rest)"
    obtain m1 o1 r1 where f: "flush_loop z (drop k rest) os = (m1, o1, r1)" by (metis prod_cases3)
    have "m = k + m1" "r = r1"
      using "1.prems" o f by (subst (asm) flush_loop.simps, simp add: Let_def flip: k_def)+
    moreover have "m1 \<le> length rest - k \<and> (r1 = F_done \<longleftrightarrow> m1 = length rest - k)"
      using "1.IH" [OF o(1,2) refl o(3) k_def f] by simp
    moreover have "k \<le> length rest" by (simp add: k_def)
    ultimately show ?thesis by auto
  next
    case False
    then show ?thesis
      using "1.prems" by (subst (asm) flush_loop.simps) (auto split: if_splits list.splits net_write.splits)
  qed
qed

end
