(* ===== verification/Rtsp_View.thy ===== *)
theory Rtsp_View
  imports Video_Ring Mkv_Scanner Video_Auth Sock_Out
begin

text \<open>
  RTSP playback of a slot's stream over interleaved TCP
  (\<open>src/videortspview.cpp\<close>, class \<open>RtspViewer\<close>): request parsing, the session
  state machine, RTCP input, and the RTP packets cut from the ring.

  Outside the program and hence parameters: the hash, HMAC and base64 functions
  (\<open>video_crypto\<close>), the random session identifiers and the clocks.  \<open>strtod\<close>
  shows through \<open>scale_one\<close>, whether a string is read as exactly 1.0.
\<close>

section \<open>Parameters\<close>

record video_crypto =
  cr_sha :: "string \<Rightarrow> bytes"
  cr_hmac :: "bytes \<Rightarrow> string \<Rightarrow> bytes option"
  cr_b64 :: "string \<Rightarrow> string"
  cr_scale_one :: "string \<Rightarrow> bool"

definition RTSP_REQUEST_LIMIT :: nat where "RTSP_REQUEST_LIMIT = 16384"
definition RTP_PAYLOAD :: nat where "RTP_PAYLOAD = 7 * TS_PACKET_SIZE"
definition VIDEO_RTSP_AUTH_TIMEOUT_S :: int where "VIDEO_RTSP_AUTH_TIMEOUT_S = 15"
definition VIDEO_RTSP_SESSION_TIMEOUT_S :: int where "VIDEO_RTSP_SESSION_TIMEOUT_S = 60"
definition VIDEO_RTSP_TIMEOUT_GRACE_S :: int where "VIDEO_RTSP_TIMEOUT_GRACE_S = 5"
definition VIDEO_VIEWER_WRITE_CHUNK :: nat where "VIDEO_VIEWER_WRITE_CHUNK = 65536"
definition VIDEO_VIEWER_STUCK_S :: int where "VIDEO_VIEWER_STUCK_S = 10"

section \<open>Text\<close>

definition rtsp_path :: "string \<Rightarrow> string" where
  "rtsp_path target =
     (if take 7 target = ''rtsp://'' then
        let rest = dropWhile (\<lambda>c. c \<noteq> CHR ''/'') (drop 7 target)
        in if rest = [] then ''/'' else takeWhile (\<lambda>c. c \<noteq> CHR ''?'') rest
      else takeWhile (\<lambda>c. c \<noteq> CHR ''?'') target)"

definition playback_target :: "string \<Rightarrow> bool" where
  "playback_target target = (take 6 (rtsp_path target) = ''/view/'')"

fun decimal_loop :: "string \<Rightarrow> nat \<Rightarrow> nat \<Rightarrow> nat option" where
  "decimal_loop [] mx v = Some v"
| "decimal_loop (c # cs) mx v =
     (if \<not> is_digit c \<or> v > mx div 10 then None
      else let v' = v * 10 + (of_char c - 48) in if v' > mx then None else decimal_loop cs mx v')"

definition decimal :: "string \<Rightarrow> nat \<Rightarrow> nat option" where
  "decimal s mx = (if s = [] then None else decimal_loop s mx 0)"

definition rtsp_trim :: "string \<Rightarrow> string" where
  "rtsp_trim s = rtrim (dropWhile is_blank s)"

text \<open>The parameters of one transport: still valid, channels seen, the first channel.\<close>

definition transport_param :: "string \<Rightarrow> bool \<times> bool \<times> nat \<Rightarrow> bool \<times> bool \<times> nat" where
  "transport_param part st =
     (let (valid, have_channels, first) = st; v = rtsp_trim part;
          valid1 = (valid \<and> v \<noteq> ''multicast'')
      in if take 12 v = ''interleaved='' then
           (case cut_at CHR ''-'' (drop 12 v) of
              Some (a, b) \<Rightarrow>
                (case (decimal a 254, decimal b 255) of
                   (Some x, Some y) \<Rightarrow> (valid1 \<and> \<not> have_channels \<and> y = x + 1, True, x)
                 | _ \<Rightarrow> (False, True, first))
            | None \<Rightarrow> (False, True, first))
         else (valid1, have_channels, first))"

function transport_params :: "string \<Rightarrow> bool \<times> bool \<times> nat \<Rightarrow> bool \<times> bool \<times> nat" where
  "transport_params s st = (case cut_at CHR '';'' s of
       None \<Rightarrow> transport_param s st
     | Some (p, rest) \<Rightarrow> transport_params rest (transport_param p st))"
  by pat_completeness auto
termination by (relation "measure (\<lambda>(s, st). length s)") (auto dest: cut_at_less)

declare transport_params.simps [simp del]

definition transport_entry :: "string \<Rightarrow> nat option" where
  "transport_entry e =
     (let entry = rtsp_trim e;
          (valid, hc, first) = (case cut_at CHR '';'' entry of
             None \<Rightarrow> (rtsp_trim entry = ''RTP/AVP/TCP'', False, 0)
           | Some (p, rest) \<Rightarrow> transport_params rest (rtsp_trim p = ''RTP/AVP/TCP'', False, 0))
      in if valid then Some first else None)"

function tcp_transport :: "string \<Rightarrow> nat option" where
  "tcp_transport header =
     (if header = [] then None
      else case cut_at CHR '','' header of
        None \<Rightarrow> transport_entry header
      | Some (e, rest) \<Rightarrow> (case transport_entry e of Some ch \<Rightarrow> Some ch | None \<Rightarrow> tcp_transport rest))"
  by pat_completeness auto
termination by (relation "measure length") (auto dest: cut_at_less)

declare tcp_transport.simps [simp del]

definition normal_scale :: "video_crypto \<Rightarrow> string \<Rightarrow> bool" where
  "normal_scale cr scale = (scale = [] \<or> cr_scale_one cr scale)"

text \<open>A compound RTCP packet.\<close>

function rtcp_loop :: "bytes \<Rightarrow> bool" where
  "rtcp_loop p =
     (if p = [] then True
      else if length p < 4 \<or> unat (p ! 0) div 64 \<noteq> 2 \<or> unat (p ! 1) < 192 \<or> unat (p ! 1) > 223 then False
      else
        let len = (unat (p ! 2) * 256 + unat (p ! 3)) * 4 + 4
        in if len > length p then False
           else if p ! 1 = 201 \<and> len < 8 + 24 * (unat (p ! 0) mod 32) then False
           else if odd (unat (p ! 0) div 32)
                   \<and> (len \<noteq> length p \<or> p ! (len - 1) = 0 \<or> unat (p ! (len - 1)) > len - 4) then False
           else rtcp_loop (drop len p))"
  by pat_completeness auto
termination by (relation "measure length") auto

declare rtcp_loop.simps [simp del]

definition valid_rtcp :: "bytes \<Rightarrow> bool" where
  "valid_rtcp data = (length data \<ge> 4 \<and> rtcp_loop data)"

section \<open>State\<close>

record rtsp_viewer =
  rv_port2 :: int
  rv_input :: string
  rv_out :: bytes
  rv_session :: string
  rv_sent :: nat
  rv_authorised :: bool
  rv_setup :: bool
  rv_playing :: bool
  rv_played :: bool
  rv_closing :: bool
  rv_blocked :: bool
  rv_channel :: nat
  rv_seq :: nat
  rv_ssrc :: nat
  rv_read_pos :: nat
  rv_bytes_sent :: nat
  rv_packets :: nat
  rv_octets :: nat
  rv_connected :: int
  rv_progress :: int
  rv_control :: int
  rv_report :: int
  rv_auth_failures :: nat
  rv_reason :: string
  rv_wire :: bytes

definition hex2 :: "byte \<Rightarrow> string" where
  "hex2 b = [hex_digit (unat b div 16), hex_digit (unat b mod 16)]"

text \<open>\<open>random\<close> is what \<open>RAND_bytes\<close> filled in, \<open>None\<close> when it failed; \<open>memcpy\<close> is little endian.\<close>

definition rtsp_new :: "int \<Rightarrow> int \<Rightarrow> bytes option \<Rightarrow> rtsp_viewer" where
  "rtsp_new port2 now random =
     (let v = \<lparr> rv_port2 = port2, rv_input = [], rv_out = [], rv_session = [], rv_sent = 0,
                rv_authorised = False, rv_setup = False, rv_playing = False, rv_played = False,
                rv_closing = False, rv_blocked = False, rv_channel = 0, rv_seq = 0, rv_ssrc = 0,
                rv_read_pos = 0, rv_bytes_sent = 0, rv_packets = 0, rv_octets = 0, rv_connected = now,
                rv_progress = now, rv_control = now, rv_report = 0, rv_auth_failures = 0,
                rv_reason = ''RTSP connection closed'', rv_wire = [] \<rparr>
      in case random of
           None \<Rightarrow> v\<lparr> rv_closing := True, rv_reason := ''RTSP random generation failed'' \<rparr>
         | Some r \<Rightarrow> v\<lparr> rv_session := concat (map hex2 (take 8 r)), rv_ssrc := le_val (seg r 8 4),
                        rv_seq := le_val (seg r 12 2) \<rparr>)"

definition rv_text :: "string \<Rightarrow> rtsp_viewer \<Rightarrow> rtsp_viewer" where
  "rv_text s v = v\<lparr> rv_out := rv_out v @ str_bytes s \<rparr>"

definition rtsp_reply :: "rtsp_viewer \<Rightarrow> string \<Rightarrow> nat \<Rightarrow> string \<Rightarrow> string \<Rightarrow> string \<Rightarrow> rtsp_viewer" where
  "rtsp_reply v cseq code reason headers body =
     rv_text (''RTSP/1.0 '' @ show_nat code @ '' '' @ reason @ [CR, LF] @ ''CSeq: '' @ cseq @ [CR, LF] @ headers @
              ''Content-Length: '' @ show_nat (length body) @ [CR, LF, CR, LF] @ body) v"

section \<open>Requests\<close>

text \<open>The credential check: the first request of a connection, or any that carries a credential.\<close>

definition rtsp_permitted :: "video_crypto \<Rightarrow> rtsp_viewer \<Rightarrow> key_entry \<Rightarrow> int \<Rightarrow> http_request \<Rightarrow> int \<Rightarrow> bool" where
  "rtsp_permitted cr v ke slot req now =
     (let pw = http_query_value (hr_target req) ''pw'';
          token = http_query_value (hr_target req) ''t'';
          has_basic = (hr_header_count req ''Authorization'' \<noteq> 0)
      in if \<not> rv_authorised v \<or> pw \<noteq> None \<or> token \<noteq> None \<or> has_basic then
           (case token of Some t \<Rightarrow> video_token_valid (cr_hmac cr) ke (rv_port2 v) slot t now | None \<Rightarrow> False)
           \<or> video_viewer_authorised (cr_sha cr) ke
               (case pw of Some p \<Rightarrow> p | None \<Rightarrow> http_basic_password (cr_b64 cr) (hr_header req ''Authorization''))
         else rv_authorised v)"

definition rtsp_sdp :: "nat \<Rightarrow> string" where
  "rtsp_sdp ssrc =
     ''v=0'' @ [CR, LF] @ ''o=- '' @ show_nat ssrc @ '' 1 IN IP4 0.0.0.0'' @ [CR, LF] @
     ''s=SupportProxy video'' @ [CR, LF] @ ''c=IN IP4 0.0.0.0'' @ [CR, LF] @ ''t=0 0'' @ [CR, LF] @
     ''a=control:*'' @ [CR, LF] @ ''m=video 0 RTP/AVP 33'' @ [CR, LF] @
     ''a=rtpmap:33 MP2T/90000'' @ [CR, LF] @ ''a=control:trackID=0'' @ [CR, LF]"

definition rtsp_describe :: "rtsp_viewer \<Rightarrow> string \<Rightarrow> http_request \<Rightarrow> video_ring \<Rightarrow> video_scanner \<Rightarrow> rtsp_viewer" where
  "rtsp_describe v cseq req ring sc =
     (case sc_join_offset sc of
        Some ja \<Rightarrow>
          if \<not> resident ring ja then rtsp_reply v cseq 503 ''Service Unavailable'' [] []
          else
            let loc = takeWhile (\<lambda>c. c \<noteq> CHR ''?'') (hr_target req);
                location = (if loc \<noteq> [] \<and> last loc = CHR ''/'' then loc else loc @ ''/'')
            in rtsp_reply v cseq 200 ''OK''
                 (''Content-Type: application/sdp'' @ [CR, LF] @ ''Content-Base: '' @ location @ [CR, LF])
                 (rtsp_sdp (rv_ssrc v))
      | None \<Rightarrow> rtsp_reply v cseq 503 ''Service Unavailable'' [] [])"

definition rtsp_setup :: "rtsp_viewer \<Rightarrow> string \<Rightarrow> http_request \<Rightarrow> rtsp_viewer" where
  "rtsp_setup v cseq req =
     (if rv_playing v then rtsp_reply v cseq 455 ''Method Not Valid in This State'' [] []
      else case tcp_transport (hr_header req ''Transport'') of
        None \<Rightarrow> rtsp_reply v cseq 461 ''Unsupported Transport'' [] []
      | Some first \<Rightarrow>
          if hr_header req ''Session'' \<noteq> [] \<and> hr_header req ''Session'' \<noteq> rv_session v
          then rtsp_reply v cseq 454 ''Session Not Found'' [] []
          else rtsp_reply (v\<lparr> rv_setup := True, rv_channel := first \<rparr>) cseq 200 ''OK''
                 (''Session: '' @ rv_session v @ '';timeout='' @ show_int VIDEO_RTSP_SESSION_TIMEOUT_S @ [CR, LF] @
                  ''Transport: RTP/AVP/TCP;unicast;interleaved='' @ show_nat first @ ''-'' @ show_nat (first + 1) @ [CR, LF]) [])"

definition range_ok :: "string \<Rightarrow> bool" where
  "range_ok rg = (rg = [] \<or> rg = ''npt=0.000-'' \<or> rg = ''npt=0-'' \<or> rg = ''npt=now-'')"

text \<open>\<open>PLAY\<close>: where playback continues, \<open>None\<close> when there is no start point.\<close>

definition play_position :: "rtsp_viewer \<Rightarrow> video_ring \<Rightarrow> video_scanner \<Rightarrow> nat option" where
  "play_position v ring sc =
     (if \<not> rv_playing v \<and> (\<not> rv_played v \<or> \<not> resident ring (rv_read_pos v)) then
        (case sc_join_offset sc of None \<Rightarrow> None | Some a \<Rightarrow> if resident ring a then Some a else None)
      else Some (rv_read_pos v))"

definition rtsp_control :: "video_crypto \<Rightarrow> rtsp_viewer \<Rightarrow> string \<Rightarrow> http_request \<Rightarrow> video_ring \<Rightarrow> video_scanner \<Rightarrow> int \<Rightarrow> rtsp_viewer" where
  "rtsp_control cr v cseq req ring sc now =
     (if \<not> rv_setup v \<or> hr_header req ''Session'' \<noteq> rv_session v
      then rtsp_reply v cseq 454 ''Session Not Found'' [] []
      else
        let ok = (\<lambda>v. rtsp_reply v cseq 200 ''OK'' (''Session: '' @ rv_session v @ [CR, LF]) [])
        in if hr_method req = ''PLAY'' then
             if \<not> range_ok (hr_header req ''Range'') \<or> \<not> normal_scale cr (hr_header req ''Scale'')
             then rtsp_reply v cseq 457 ''Invalid Range'' [] []
             else (case play_position v ring sc of
                     None \<Rightarrow> rtsp_reply (case sc_join_offset sc of None \<Rightarrow> v | Some a \<Rightarrow> v\<lparr> rv_read_pos := a \<rparr>)
                              cseq 503 ''Service Unavailable'' [] []
                   | Some p \<Rightarrow> ok (v\<lparr> rv_read_pos := p, rv_playing := True, rv_played := True, rv_progress := now \<rparr>))
           else if hr_method req = ''PAUSE'' then ok (v\<lparr> rv_playing := False \<rparr>)
           else if hr_method req = ''TEARDOWN'' then ok (v\<lparr> rv_playing := False, rv_closing := True \<rparr>)
           else ok v)"

definition target_clean :: "string \<Rightarrow> bool" where
  "target_clean t = list_all (\<lambda>c. (of_char c :: nat) > 0x20 \<and> of_char c \<noteq> (0x7f :: nat)) t"

definition rtsp_refuse :: "rtsp_viewer \<Rightarrow> string \<Rightarrow> rtsp_viewer" where
  "rtsp_refuse v cseq =
     (let v2 = rtsp_reply v cseq 401 ''Unauthorized''
                 (''WWW-Authenticate: Basic realm='' @ [CHR 0x22] @ ''SupportProxy video'' @ [CHR 0x22, CR, LF]) [];
          v3 = v2\<lparr> rv_auth_failures := rv_auth_failures v2 + 1 \<rparr>
      in if rv_auth_failures v3 \<ge> 3 then v3\<lparr> rv_closing := True \<rparr> else v3)"

text \<open>The methods of an admitted client.\<close>

definition rtsp_method :: "video_crypto \<Rightarrow> rtsp_viewer \<Rightarrow> string \<Rightarrow> http_request \<Rightarrow> video_ring \<Rightarrow> video_scanner \<Rightarrow> int \<Rightarrow> rtsp_viewer" where
  "rtsp_method cr v cseq req ring sc now =
     (if sc_matroska sc then rtsp_reply v cseq 415 ''Unsupported Media Type'' [] []
      else if hr_method req = ''DESCRIBE'' then rtsp_describe v cseq req ring sc
      else if hr_method req = ''SETUP'' then rtsp_setup v cseq req
      else if hr_method req \<in> {''PLAY'', ''PAUSE'', ''TEARDOWN'', ''GET_PARAMETER''} then rtsp_control cr v cseq req ring sc now
      else rtsp_reply v cseq 405 ''Method Not Allowed'' [] [])"

text \<open>\<open>None\<close> when the request is malformed and the connection ends.\<close>

definition rtsp_request :: "video_crypto \<Rightarrow> rtsp_viewer \<Rightarrow> string \<Rightarrow> key_entry \<Rightarrow> int \<Rightarrow> video_ring \<Rightarrow> video_scanner \<Rightarrow> int
    \<Rightarrow> rtsp_viewer option" where
  "rtsp_request cr v head ke slot ring sc now =
     (let (req, r) = hr_feed hr_new head; line = (case find_sub [CR, LF] head of None \<Rightarrow> [] | Some eol \<Rightarrow> take eol head)
      in if r \<noteq> Hr_complete then None
         else if length line < 9 \<or> drop (length line - 9) line \<noteq> '' RTSP/1.0'' then None
         else if \<not> target_clean (hr_target req) then None
         else if hr_header_count req ''CSeq'' \<noteq> 1 \<or> decimal (hr_header req ''CSeq'') 2147483647 = None then None
         else
           let cseq = hr_header req ''CSeq''; v1 = v\<lparr> rv_control := now \<rparr>;
               base = ''/view/v'' @ show_int (slot + 1); p = rtsp_path (hr_target req); m = hr_method req
           in if m = ''OPTIONS'' then
                Some (rtsp_reply v1 cseq 200 ''OK''
                  (''Public: OPTIONS, DESCRIBE, SETUP, PLAY, PAUSE, TEARDOWN, GET_PARAMETER'' @ [CR, LF]) [])
              else if p \<noteq> base \<and> p \<noteq> base @ ''/'' \<and> p \<noteq> base @ ''/trackID=0'' then
                Some (rtsp_reply v1 cseq 404 ''Not Found'' [] [])
              else if \<not> rtsp_permitted cr v1 ke slot req now then
                Some (rtsp_refuse v1 cseq)
              else Some (rtsp_method cr (v1\<lparr> rv_authorised := True \<rparr>) cseq req ring sc now))"

section \<open>Input\<close>

text \<open>What stands at the head of the input: nothing complete, an interleaved packet, or a request.\<close>

datatype rtsp_unit = U_wait | U_bad | U_rtcp nat | U_request nat nat

definition rtsp_unit :: "rtsp_viewer \<Rightarrow> rtsp_unit" where
  "rtsp_unit v =
     (let inp = rv_input v in
      if hd inp = CHR ''$'' then
        if length inp < 4 then U_wait
        else
          let len = of_char (inp ! 2) * 256 + of_char (inp ! 3)
          in if \<not> rv_setup v \<or> of_char (inp ! 1) \<noteq> rv_channel v + 1 \<or> len > RTSP_REQUEST_LIMIT - 4 then U_bad
             else if length inp < len + 4 then U_wait
             else if \<not> valid_rtcp (str_bytes (seg inp 4 len)) then U_bad
             else U_rtcp (len + 4)
      else case find_sub [CR, LF, CR, LF] inp of
        None \<Rightarrow> U_wait
      | Some e \<Rightarrow>
          let header_size = e + 4; (req, r) = hr_feed hr_new (take header_size inp);
              n = hr_header_count req ''Content-Length'';
              body = (if n = 0 then Some 0 else decimal (hr_header req ''Content-Length'') RTSP_REQUEST_LIMIT)
          in if r \<noteq> Hr_complete then U_bad
             else if n > 1 \<or> hr_header_count req ''Transfer-Encoding'' \<noteq> 0 then U_bad
             else (case body of
                     None \<Rightarrow> U_bad
                   | Some body_size \<Rightarrow>
                       if header_size + body_size > RTSP_REQUEST_LIMIT then U_bad
                       else if length inp < header_size + body_size then U_wait
                       else U_request header_size body_size))"

lemma rtsp_unit_rtcp: "rtsp_unit v = U_rtcp n \<Longrightarrow> 0 < n"
  by (auto simp: rtsp_unit_def Let_def split: if_splits option.splits prod.splits)

lemma rtsp_unit_request: "rtsp_unit v = U_request h b \<Longrightarrow> 0 < h"
  by (auto simp: rtsp_unit_def Let_def split: if_splits option.splits prod.splits)

text \<open>The parse loop; the result says whether the connection goes on.  The first argument
  carries the environment of the call.\<close>

record rv_env =
  rve_cr :: video_crypto
  rve_ke :: key_entry
  rve_slot :: int
  rve_ring :: video_ring
  rve_sc :: video_scanner
  rve_now :: int

definition env_request :: "rv_env \<Rightarrow> rtsp_viewer \<Rightarrow> string \<Rightarrow> rtsp_viewer option" where
  "env_request e v head = rtsp_request (rve_cr e) v head (rve_ke e) (rve_slot e) (rve_ring e) (rve_sc e) (rve_now e)"

function rtsp_parse :: "rv_env \<Rightarrow> rtsp_viewer \<Rightarrow> rtsp_viewer \<times> bool" where
  "rtsp_parse e v =
     (if rv_input v = [] then (v, True)
      else case rtsp_unit v of
        U_wait \<Rightarrow> (v, True)
      | U_bad \<Rightarrow> (v, False)
      | U_rtcp n \<Rightarrow> rtsp_parse e (v\<lparr> rv_control := rve_now e, rv_input := drop n (rv_input v) \<rparr>)
      | U_request h b \<Rightarrow>
          (case env_request e v (take h (rv_input v)) of
             None \<Rightarrow> (v, False)
           | Some v1 \<Rightarrow>
               let v2 = v1\<lparr> rv_input := drop (h + b) (rv_input v) \<rparr>
               in if length (rv_out v2) > RTSP_REQUEST_LIMIT then (v2, False)
                  else if rv_closing v2 then (v2, True)
                  else rtsp_parse e v2))"
  by pat_completeness auto
termination
  by (relation "measure (\<lambda>(e, v). length (rv_input v))")
     (auto dest: rtsp_unit_rtcp rtsp_unit_request simp: diff_less)

declare rtsp_parse.simps [simp del]

text \<open>One readable event, with the answer of \<open>recv\<close>; \<open>R_data []\<close> is the end of the stream.\<close>

definition rtsp_on_readable :: "rv_env \<Rightarrow> rtsp_viewer \<Rightarrow> net_read \<Rightarrow> rtsp_viewer \<times> bool" where
  "rtsp_on_readable e v inp =
     (if rv_closing v \<and> rv_sent v = length (rv_out v) then (v, False)
      else if \<not> rv_authorised v \<and> rve_now e - rv_connected v > VIDEO_RTSP_AUTH_TIMEOUT_S
      then (v\<lparr> rv_reason := ''RTSP authentication timeout'' \<rparr>, False)
      else case inp of
        R_again \<Rightarrow> (v, True)
      | R_fail \<Rightarrow> (v, False)
      | R_data d \<Rightarrow>
          if d = [] then (v, False)
          else if rv_closing v then (v, True)
          else
            let v1 = v\<lparr> rv_input := rv_input v @ bytes_str (take 4096 d) \<rparr>
            in if length (rv_input v1) > RTSP_REQUEST_LIMIT then (v1, False) else rtsp_parse e v1)"

section \<open>Output\<close>

definition rtsp_flush :: "rtsp_viewer \<Rightarrow> int \<Rightarrow> net_write list \<Rightarrow> rtsp_viewer \<times> net_write list \<times> bool" where
  "rtsp_flush v now outs =
     (let (m, outs1, r) = flush_loop True (drop (rv_sent v) (rv_out v)) outs;
          v1 = v\<lparr> rv_wire := rv_wire v @ seg (rv_out v) (rv_sent v) m, rv_sent := rv_sent v + m,
                  rv_progress := (if m > 0 then now else rv_progress v) \<rparr>
      in case r of
           F_done \<Rightarrow> (v1\<lparr> rv_out := [], rv_sent := 0, rv_blocked := False \<rparr>, outs1, True)
         | F_blocked \<Rightarrow>
             if now - rv_progress v1 > VIDEO_VIEWER_STUCK_S
             then (v1\<lparr> rv_blocked := True, rv_reason := ''stalled'' \<rparr>, outs1, False)
             else (v1\<lparr> rv_blocked := True \<rparr>, outs1, True)
         | F_failed \<Rightarrow> (v1, outs1, False))"

text \<open>The readings of the clocks for one packet: RTP time, seconds and nanoseconds of the day clock.\<close>

type_synonym rtp_clock = "nat \<Rightarrow> nat \<times> nat \<times> nat"

definition sender_report :: "rtsp_viewer \<Rightarrow> nat \<times> nat \<times> nat \<Rightarrow> bytes" where
  "sender_report v clk =
     (let (rtp_time, sec, nsec) = clk; cname = str_bytes (''SupportProxy-'' @ rv_session v);
          sr = [0x80, 200, 0, 6] @ be_bytes 4 (rv_ssrc v) @ be_bytes 4 (sec + 2208988800)
               @ be_bytes 4 (nsec * 4294967296 div 1000000000) @ be_bytes 4 rtp_time
               @ be_bytes 4 (rv_packets v) @ be_bytes 4 (rv_octets v);
          sdes0 = be_bytes 4 (rv_ssrc v) @ [1, byte_of (length cname)] @ cname @ [0];
          sdes = sdes0 @ replicate ((4 - length sdes0 mod 4) mod 4) 0;
          report = sr @ [0x81, 202] @ be_bytes 2 (length sdes div 4) @ sdes
      in [0x24, byte_of (rv_channel v + 1)] @ be_bytes 2 (length report) @ report)"

definition rtp_packet :: "nat \<Rightarrow> nat \<Rightarrow> nat \<Rightarrow> nat \<Rightarrow> bytes \<Rightarrow> bytes" where
  "rtp_packet channel seqn rtp_time ssrc payload =
     [0x24, byte_of channel] @ be_bytes 2 (length payload + 12) @ [0x80, 33] @ be_bytes 2 seqn
     @ be_bytes 4 rtp_time @ be_bytes 4 ssrc @ payload"

text \<open>One packet of the loop: an optional report, then the RTP packet.\<close>

definition rtp_emit :: "rtp_clock \<Rightarrow> rtsp_viewer \<Rightarrow> bytes \<Rightarrow> int \<Rightarrow> rtsp_viewer" where
  "rtp_emit clk v payload now =
     (let c = clk (rv_packets v); due = (rv_report v = 0 \<or> now - rv_report v \<ge> 5);
          sr = (if due then sender_report v c else [])
      in v\<lparr> rv_out := rv_out v @ sr @ rtp_packet (rv_channel v) (rv_seq v) (fst c) (rv_ssrc v) payload,
            rv_report := (if due then now else rv_report v),
            rv_seq := (rv_seq v + 1) mod 65536, rv_read_pos := rv_read_pos v + length payload,
            rv_bytes_sent := rv_bytes_sent v + length payload, rv_packets := u32 (rv_packets v + 1),
            rv_octets := u32 (rv_octets v + length payload) \<rparr>)"

definition rtp_payload :: "rtsp_viewer \<Rightarrow> video_ring \<Rightarrow> nat \<Rightarrow> bytes" where
  "rtp_payload v ring budget =
     (let want = min budget RTP_PAYLOAD div TS_PACKET_SIZE * TS_PACKET_SIZE;
          d = read_at ring (rv_read_pos v) want
      in take (length d div TS_PACKET_SIZE * TS_PACKET_SIZE) d)"

function rtp_loop :: "rtp_clock \<Rightarrow> rtsp_viewer \<Rightarrow> video_ring \<Rightarrow> nat \<Rightarrow> int \<Rightarrow> net_write list
    \<Rightarrow> rtsp_viewer \<times> net_write list \<times> bool" where
  "rtp_loop clk v ring budget now outs =
     (if budget < TS_PACKET_SIZE then (v, outs, True)
      else
        let payload = rtp_payload v ring budget
        in if payload = [] then (v, outs, True)
           else
             let (v1, outs1, ok) = rtsp_flush (rtp_emit clk v payload now) now outs
             in if \<not> ok then (v1, outs1, False)
                else if rv_out v1 \<noteq> [] then (v1, outs1, True)
                else rtp_loop clk v1 ring (budget - length payload) now outs1)"
  by pat_completeness auto
termination
  by (relation "measure (\<lambda>(clk, v, ring, budget, now, outs). budget)") (auto simp: TS_PACKET_SIZE_def)

declare rtp_loop.simps [simp del]

definition rtsp_on_writable :: "rtp_clock \<Rightarrow> rtsp_viewer \<Rightarrow> video_ring \<Rightarrow> int \<Rightarrow> net_write list
    \<Rightarrow> rtsp_viewer \<times> net_write list \<times> bool" where
  "rtsp_on_writable clk v ring now outs =
     (if \<not> rv_authorised v \<and> now - rv_connected v > VIDEO_RTSP_AUTH_TIMEOUT_S
      then (v\<lparr> rv_reason := ''RTSP authentication timeout'' \<rparr>, outs, False)
      else if rv_playing v \<and> \<not> resident ring (rv_read_pos v)
      then (v\<lparr> rv_reason := ''fell too far behind (lapped)'' \<rparr>, outs, False)
      else
        let (v1, outs1, ok) = rtsp_flush v now outs
        in if \<not> ok then (v1, outs1, False)
           else if rv_out v1 \<noteq> [] then (v1, outs1, True)
           else if rv_closing v1 then (v1, outs1, False)
           else if now - rv_control v1 > VIDEO_RTSP_SESSION_TIMEOUT_S + VIDEO_RTSP_TIMEOUT_GRACE_S
           then (v1\<lparr> rv_reason := ''RTSP control timeout'' \<rparr>, outs1, False)
           else if \<not> rv_playing v1 then (v1, outs1, True)
           else rtp_loop clk v1 ring VIDEO_VIEWER_WRITE_CHUNK now outs1)"

definition rtsp_wants_write :: "rtsp_viewer \<Rightarrow> bool" where
  "rtsp_wants_write v = (rv_blocked v \<or> rv_sent v < length (rv_out v))"

section \<open>The output stream\<close>

text \<open>Everything the client has been or will be sent.\<close>

definition rv_stream :: "rtsp_viewer \<Rightarrow> bytes" where
  "rv_stream v = rv_wire v @ drop (rv_sent v) (rv_out v)"

lemma rtsp_flush_stream:
  assumes "rtsp_flush v now outs = (v', outs', ok)" "rv_sent v \<le> length (rv_out v)"
  shows "rv_stream v' = rv_stream v \<and> rv_sent v' \<le> length (rv_out v')
    \<and> rv_read_pos v' = rv_read_pos v \<and> rv_seq v' = rv_seq v \<and> rv_playing v' = rv_playing v
    \<and> rv_authorised v' = rv_authorised v \<and> rv_setup v' = rv_setup v \<and> rv_packets v' = rv_packets v
    \<and> rv_channel v' = rv_channel v \<and> rv_ssrc v' = rv_ssrc v \<and> rv_closing v' = rv_closing v \<and> rv_input v' = rv_input v"
proof -
  obtain m o1 r where f: "flush_loop True (drop (rv_sent v) (rv_out v)) outs = (m, o1, r)" by (metis prod_cases3)
  note b = flush_loop_bound [OF f]
  have s: "seg (rv_out v) (rv_sent v) m @ drop (rv_sent v + m) (rv_out v) = drop (rv_sent v) (rv_out v)"
    by (metis add.commute append_take_drop_id drop_drop seg_def)
  have "r = F_done \<Longrightarrow> seg (rv_out v) (rv_sent v) m = drop (rv_sent v) (rv_out v)"
    using b by (simp add: seg_def)
  then show ?thesis
    using assms s b
    by (cases r) (auto simp: rtsp_flush_def f Let_def rv_stream_def split: if_splits)
qed

text \<open>The interleaved packets of one turn: each with an optional report before it.\<close>

fun rtp_stream :: "nat \<Rightarrow> nat \<Rightarrow> nat \<Rightarrow> (bytes \<times> nat \<times> bytes) list \<Rightarrow> bytes" where
  "rtp_stream ch ssrc sq [] = []"
| "rtp_stream ch ssrc sq ((sr, t, p) # xs) = sr @ rtp_packet ch sq t ssrc p @ rtp_stream ch ssrc ((sq + 1) mod 65536) xs"

definition rtp_payloads :: "(bytes \<times> nat \<times> bytes) list \<Rightarrow> bytes" where
  "rtp_payloads xs = concat (map (snd \<circ> snd) xs)"

definition rtp_turn :: "rtsp_viewer \<Rightarrow> rtsp_viewer \<Rightarrow> bytes \<Rightarrow> nat \<Rightarrow> (bytes \<times> nat \<times> bytes) list \<Rightarrow> bool" where
  "rtp_turn v v' h budget xs =
     (rv_stream v' = rv_stream v @ rtp_stream (rv_channel v) (rv_ssrc v) (rv_seq v) xs
      \<and> rtp_payloads xs = seg h (rv_read_pos v) (rv_read_pos v' - rv_read_pos v)
      \<and> rv_read_pos v' = rv_read_pos v + length (rtp_payloads xs) \<and> length (rtp_payloads xs) \<le> budget
      \<and> (\<forall>(sr, t, p) \<in> set xs. p \<noteq> [] \<and> 188 dvd length p \<and> length p \<le> 1316)
      \<and> rv_seq v' = (if xs = [] then rv_seq v else (rv_seq v + length xs) mod 65536))"

lemma rtp_payload_props:
  assumes "ring_holds ring h"
  shows "188 dvd length (rtp_payload v ring b)" "length (rtp_payload v ring b) \<le> 1316" "length (rtp_payload v ring b) \<le> b"
    "rtp_payload v ring b \<noteq> [] \<Longrightarrow> rtp_payload v ring b = seg h (rv_read_pos v) (length (rtp_payload v ring b))"
proof -
  define want where "want = min b RTP_PAYLOAD div 188 * 188"
  define d where "d = read_at ring (rv_read_pos v) want"
  define n where "n = length d div 188 * 188"
  have w: "want \<le> min b 1316" by (auto simp: want_def RTP_PAYLOAD_def TS_PACKET_SIZE_def)
  have p: "rtp_payload v ring b = take n d"
    by (simp add: rtp_payload_def want_def d_def n_def Let_def TS_PACKET_SIZE_def)
  have n: "n \<le> length d" by (simp add: n_def)
  have dd: "d = (if length h - capacity ring \<le> rv_read_pos v \<and> rv_read_pos v \<le> length h
      then take want (drop (rv_read_pos v) h) else [])"
    using ring.get_holds [OF assms] by (simp add: d_def)
  then have ld: "length d \<le> want" by simp
  show "188 dvd length (rtp_payload v ring b)" using n by (simp add: p) (simp add: n_def)
  show "length (rtp_payload v ring b) \<le> 1316" "length (rtp_payload v ring b) \<le> b" using n ld w by (simp_all add: p)
  show "rtp_payload v ring b = seg h (rv_read_pos v) (length (rtp_payload v ring b))" if "rtp_payload v ring b \<noteq> []"
    using that n ld dd by (auto simp: p seg_def min_def split: if_splits)
qed

lemma rtp_turn_cong: "rv_stream v1 = rv_stream v \<Longrightarrow> rv_channel v1 = rv_channel v \<Longrightarrow> rv_ssrc v1 = rv_ssrc v \<Longrightarrow>
    rv_seq v1 = rv_seq v \<Longrightarrow> rv_read_pos v1 = rv_read_pos v \<Longrightarrow> rtp_turn v1 v' h b xs = rtp_turn v v' h b xs"
  by (simp only: rtp_turn_def)

lemma rtp_turn_refl: "rv_stream v' = rv_stream v \<Longrightarrow> rv_read_pos v' = rv_read_pos v \<Longrightarrow> rv_seq v' = rv_seq v \<Longrightarrow> rtp_turn v v' h b []"
  by (simp add: rtp_turn_def rtp_payloads_def seg_def)

lemma rtp_emit_stream: "rv_sent v \<le> length (rv_out v) \<Longrightarrow>
    \<exists>sr. rv_stream (rtp_emit clk v p now) = rv_stream v @ sr @ rtp_packet (rv_channel v) (rv_seq v) (fst (clk (rv_packets v))) (rv_ssrc v) p"
  by (simp add: rtp_emit_def rv_stream_def Let_def)

lemma rtp_turn_step:
  assumes p: "p \<noteq> []" "188 dvd length p" "length p \<le> 1316" "length p \<le> budget" "p = seg h (rv_read_pos v) (length p)"
    and em: "rv_stream v1 = rv_stream v @ sr @ rtp_packet (rv_channel v) (rv_seq v) t (rv_ssrc v) p"
    and v1: "rv_read_pos v1 = rv_read_pos v + length p" "rv_seq v1 = (rv_seq v + 1) mod 65536"
      "rv_channel v1 = rv_channel v" "rv_ssrc v1 = rv_ssrc v"
    and turn: "rtp_turn v1 v' h (budget - length p) xs"
  shows "rtp_turn v v' h budget ((sr, t, p) # xs)"
proof -
  have 1: "rtp_payloads ((sr, t, p) # xs) = p @ rtp_payloads xs" by (simp add: rtp_payloads_def)
  have 2: "p @ rtp_payloads xs = seg h (rv_read_pos v) (length p + length (rtp_payloads xs))"
  proof -
    have "rtp_payloads xs = seg h (rv_read_pos v + length p) (length (rtp_payloads xs))"
      using turn v1(1) unfolding rtp_turn_def by (metis diff_add_inverse)
    then show ?thesis using p(5) seg_append_seg [of h "rv_read_pos v" "length p" "length (rtp_payloads xs)"] by argo
  qed
  have t: "rv_stream v' = rv_stream v1 @ rtp_stream (rv_channel v1) (rv_ssrc v1) (rv_seq v1) xs"
    "rv_read_pos v' = rv_read_pos v1 + length (rtp_payloads xs)" "length (rtp_payloads xs) \<le> budget - length p"
    "\<forall>(sr, t, p) \<in> set xs. p \<noteq> [] \<and> 188 dvd length p \<and> length p \<le> 1316"
    "rv_seq v' = (if xs = [] then rv_seq v1 else (rv_seq v1 + length xs) mod 65536)"
    using turn unfolding rtp_turn_def by blast+
  have "rv_seq v' = (rv_seq v + length ((sr, t, p) # xs)) mod 65536"
  proof (cases "xs = []")
    case False
    then have "rv_seq v' = ((rv_seq v + 1) mod 65536 + length xs) mod 65536" using t(5) v1(2) by simp
    also have "\<dots> = (rv_seq v + 1 + length xs) mod 65536" by (rule mod_add_left_eq)
    finally show ?thesis by (simp add: add.assoc)
  qed (use t(5) v1(2) in simp)
  then have "rv_seq v' = (if (sr, t, p) # xs = [] then rv_seq v else (rv_seq v + length ((sr, t, p) # xs)) mod 65536)"
    by simp
  moreover have "rv_stream v' = rv_stream v @ rtp_stream (rv_channel v) (rv_ssrc v) (rv_seq v) ((sr, t, p) # xs)"
    using t(1) em v1 by simp
  moreover have "length (p @ rtp_payloads xs) \<le> budget" using t(3) p(4) by simp
  moreover have r: "rv_read_pos v' = rv_read_pos v + length (p @ rtp_payloads xs)" using t(2) v1(1) by simp
  moreover have "p @ rtp_payloads xs = seg h (rv_read_pos v) (rv_read_pos v' - rv_read_pos v)"
  proof -
    have "rv_read_pos v' - rv_read_pos v = length p + length (rtp_payloads xs)" using r by simp
    then show ?thesis using 2 by argo
  qed
  moreover have "\<forall>(sr, t, p) \<in> set ((sr, t, p) # xs). p \<noteq> [] \<and> 188 dvd length p \<and> length p \<le> 1316"
    using t(4) p(1-3) by simp
  ultimately show ?thesis unfolding rtp_turn_def 1 by (intro conjI)
qed

lemma rtp_loop_turn:
  assumes "rtp_loop clk v ring budget now outs = (v', outs', ok)" "rv_sent v \<le> length (rv_out v)" "ring_holds ring h"
  shows "\<exists>xs. rtp_turn v v' h budget xs"
  using assms
proof (induction clk v ring budget now outs arbitrary: v' outs' ok rule: rtp_loop.induct)
  case (1 clk v ring budget now outs)
  let ?p = "rtp_payload v ring budget"
  show ?case
  proof (cases "budget < TS_PACKET_SIZE \<or> ?p = []")
    case True
    then have "v' = v" using "1.prems"(1) by (subst (asm) rtp_loop.simps) (auto split: if_splits)
    then show ?thesis using rtp_turn_refl by blast
  next
    case False
    note pp = rtp_payload_props [OF "1.prems"(3), of v budget]
    define ve where "ve = rtp_emit clk v ?p now"
    obtain v1 o1 ok1 where f: "rtsp_flush ve now outs = (v1, o1, ok1)" by (metis prod_cases3)
    have se: "rv_sent ve \<le> length (rv_out ve)" using "1.prems"(2) by (simp add: ve_def rtp_emit_def Let_def)
    note fs = rtsp_flush_stream [OF f se]
    obtain sr where sr: "rv_stream ve = rv_stream v @ sr @ rtp_packet (rv_channel v) (rv_seq v) (fst (clk (rv_packets v))) (rv_ssrc v) ?p"
      using rtp_emit_stream [OF "1.prems"(2)] ve_def by blast
    have vf: "rv_read_pos v1 = rv_read_pos v + length ?p" "rv_seq v1 = (rv_seq v + 1) mod 65536"
      "rv_channel v1 = rv_channel v" "rv_ssrc v1 = rv_ssrc v"
      using fs by (simp_all add: ve_def rtp_emit_def Let_def)
    have ne: "?p \<noteq> []" using False by simp
    have sr1: "rv_stream v1 = rv_stream v @ sr @ rtp_packet (rv_channel v) (rv_seq v) (fst (clk (rv_packets v))) (rv_ssrc v) ?p"
      using sr fs by simp
    have step: "rtp_turn v v' h budget ((sr, fst (clk (rv_packets v)), ?p) # xs)" if "rtp_turn v1 v' h (budget - length ?p) xs" for xs
      by (rule rtp_turn_step [OF ne pp(1-3) pp(4) [OF ne] sr1 vf that])
    have l: "(v', outs', ok) = (if \<not> ok1 then (v1, o1, False) else if rv_out v1 \<noteq> [] then (v1, o1, True)
        else rtp_loop clk v1 ring (budget - length ?p) now o1)"
      using "1.prems"(1) False f by (subst (asm) rtp_loop.simps) (simp add: ve_def)
    show ?thesis
    proof (cases "ok1 \<and> rv_out v1 = []")
      case True
      then have "rtp_loop clk v1 ring (budget - length ?p) now o1 = (v', outs', ok)" using l by simp
      moreover have "\<not> budget < TS_PACKET_SIZE" "?p \<noteq> []" "\<not> \<not> ok1" "\<not> rv_out v1 \<noteq> []" using False True by auto
      ultimately have "\<exists>xs. rtp_turn v1 v' h (budget - length ?p) xs"
        using "1.IH" [OF _ refl _ f [symmetric, unfolded ve_def] refl] fs "1.prems"(3) by auto
      then show ?thesis using step by blast
    next
      case False
      then have "v' = v1" using l by (auto split: if_splits)
      then have "rtp_turn v1 v' h (budget - length ?p) []" by (intro rtp_turn_refl) simp_all
      then show ?thesis using step by blast
    qed
  qed
qed

section \<open>Admission\<close>

text \<open>The session state machine: playing needs a set-up session, which needs an admitted client.\<close>

definition rv_ok :: "rtsp_viewer \<Rightarrow> bool" where
  "rv_ok v = ((rv_playing v \<longrightarrow> rv_setup v) \<and> (rv_setup v \<longrightarrow> rv_authorised v) \<and> rv_sent v \<le> length (rv_out v))"

lemma reply_fields [simp]:
  "rv_playing (rtsp_reply v a b c d e) = rv_playing v" "rv_setup (rtsp_reply v a b c d e) = rv_setup v"
  "rv_authorised (rtsp_reply v a b c d e) = rv_authorised v" "rv_read_pos (rtsp_reply v a b c d e) = rv_read_pos v"
  "rv_sent (rtsp_reply v a b c d e) = rv_sent v" "rv_input (rtsp_reply v a b c d e) = rv_input v"
  "rv_port2 (rtsp_reply v a b c d e) = rv_port2 v"
  by (simp_all add: rtsp_reply_def rv_text_def)

lemma reply_out: "length (rv_out v) \<le> length (rv_out (rtsp_reply v a b c d e))"
  by (simp add: rtsp_reply_def rv_text_def)

lemma reply_sent: "rv_sent v \<le> length (rv_out v) \<Longrightarrow> rv_sent v \<le> length (rv_out (rtsp_reply v a b c d e))"
  using reply_out le_trans by blast

lemma describe_ok: "rv_ok v \<Longrightarrow> rv_ok (rtsp_describe v c req ring sc)"
  by (auto simp: rtsp_describe_def rv_ok_def Let_def reply_sent split: option.splits)

lemma setup_ok: "rv_ok v \<Longrightarrow> rv_authorised v \<Longrightarrow> rv_ok (rtsp_setup v c req)"
  using reply_sent [of "v\<lparr> rv_setup := True, rv_channel := ch \<rparr>" for ch]
  by (auto simp: rtsp_setup_def rv_ok_def reply_sent split: option.splits)

lemma control_ok: assumes "rv_ok v" shows "rv_ok (rtsp_control cr v c req ring sc now)"
proof -
  have s: "rv_sent v \<le> length (rv_out (rtsp_reply w a b cc d e))" if "rv_out w = rv_out v" for w a b cc d e
    using assms reply_out [of w a b cc d e] that by (simp add: rv_ok_def)
  show ?thesis
    using assms by (auto simp: rtsp_control_def Let_def rv_ok_def s split: option.splits)
qed

lemma refuse_ok: "rv_ok v \<Longrightarrow> rv_ok (rtsp_refuse v c) \<and> rv_authorised (rtsp_refuse v c) = rv_authorised v
    \<and> rv_setup (rtsp_refuse v c) = rv_setup v \<and> rv_playing (rtsp_refuse v c) = rv_playing v
    \<and> rv_read_pos (rtsp_refuse v c) = rv_read_pos v"
  by (simp add: rtsp_refuse_def rv_ok_def Let_def reply_sent)

lemma method_ok:
  assumes "rv_ok v" "rv_authorised v"
  shows "rv_ok (rtsp_method cr v c req ring sc now) \<and> rv_authorised (rtsp_method cr v c req ring sc now)"
proof -
  have "rv_authorised (rtsp_describe v c req ring sc)" "rv_authorised (rtsp_setup v c req)"
    "rv_authorised (rtsp_control cr v c req ring sc now)"
    using assms(2) by (auto simp: rtsp_describe_def rtsp_setup_def rtsp_control_def Let_def split: option.splits)
  moreover have "rv_ok (rtsp_reply v c a b d e)" for a b d e
    using assms(1) by (simp add: rv_ok_def reply_sent)
  ultimately show ?thesis
    using assms describe_ok setup_ok control_ok unfolding rtsp_method_def by (simp split: if_split)
qed

text \<open>The outcomes of a well-formed request.\<close>

lemma rtsp_request_cases:
  assumes "rtsp_request cr v head ke slot ring sc now = Some v'"
  obtains (answered) cseq code reason hdrs where "v' = rtsp_reply (v\<lparr> rv_control := now \<rparr>) cseq code reason hdrs []"
    | (refused) cseq where "v' = rtsp_refuse (v\<lparr> rv_control := now \<rparr>) cseq"
    | (admitted) cseq where "rtsp_permitted cr (v\<lparr> rv_control := now \<rparr>) ke slot (fst (hr_feed hr_new head)) now"
        "v' = rtsp_method cr (v\<lparr> rv_control := now, rv_authorised := True \<rparr>) cseq (fst (hr_feed hr_new head)) ring sc now"
  using assms unfolding rtsp_request_def Let_def case_prod_beta
  by (auto simp only: split: if_splits) blast+

lemma rtsp_request_ok:
  assumes "rtsp_request cr v head ke slot ring sc now = Some v'" "rv_ok v" shows "rv_ok v'"
  using assms(1)
proof (cases rule: rtsp_request_cases)
  case (answered cseq code reason hdrs)
  then show ?thesis using assms(2) reply_sent [of "v\<lparr> rv_control := now \<rparr>"] by (simp add: rv_ok_def)
next
  case (refused cseq)
  then show ?thesis using refuse_ok [of "v\<lparr> rv_control := now \<rparr>" cseq] assms(2) by (simp add: rv_ok_def)
next
  case (admitted cseq)
  have "rv_ok (v\<lparr> rv_control := now, rv_authorised := True \<rparr>)" using assms(2) by (simp add: rv_ok_def)
  from method_ok [OF this] show ?thesis by (simp add: admitted(2))
qed


definition ex_head :: string where
  "ex_head = ''OPTIONS rtsp://h/view/v1 RTSP/1.0'' @ [CR, LF] @ ''CSeq: 1'' @ [CR, LF, CR, LF]"

lemma ex_feed: "hr_feed hr_new ex_head = (\<lparr> hr_buf = ex_head, hr_method = ''OPTIONS'', hr_target = ''rtsp://h/view/v1'',
    hr_path = ''rtsp://h/view/v1'', hr_query = [], hr_headers = ''CSeq: 1'', hr_leftover = [] \<rparr>, Hr_complete)"
  by (simp add: hr_feed_def hr_new_def ex_head_def HTTP_MAX_REQUEST_def header_end_def hr_parse_def Let_def cut_at_def strip_cr_def CR_def LF_def)

lemma ex_request: "\<exists>v'. rtsp_request cr v ex_head ke slot ring sc now = Some v' \<and> rv_authorised v' = rv_authorised v"
proof -
  have e: "(case find_sub [CR, LF] ex_head of None \<Rightarrow> [] | Some eol \<Rightarrow> take eol ex_head) = ''OPTIONS rtsp://h/view/v1 RTSP/1.0''"
    by (simp add: ex_head_def CR_def LF_def)
  define req where "req = fst (hr_feed hr_new ex_head)"
  have f: "hr_feed hr_new ex_head = (req, Hr_complete)" by (simp add: req_def ex_feed)
  have l: "header_lines ''CSeq: 1'' = [''CSeq: 1'']"
    by (subst header_lines.simps) (simp add: cut_at_def strip_cr_def CR_def LF_def)
  have r: "hr_headers req = ''CSeq: 1''" "hr_target req = ''rtsp://h/view/v1''" "hr_method req = ''OPTIONS''"
    by (simp_all add: req_def ex_feed)
  have lo: "lower ''CSeq'' = ''cseq''" "lower ''CSeq: 1'' = ''cseq: 1''"
    by (simp_all add: lower_def tolower_def char_of_def bit_numeral_rec bit_0)
  have c: "hr_header_count req ''CSeq'' = 1" "hr_header req ''CSeq'' = ''1''" "target_clean (hr_target req)" "hr_method req = ''OPTIONS''"
    by (simp_all add: hr_header_count_def hr_header_def l lo cut_at_def rtrim_def is_blank_def Let_def target_clean_def r)
  have d: "decimal ''1'' 2147483647 = Some 1" by (simp add: decimal_def is_digit_def)
  show ?thesis using f e c d by (simp add: rtsp_request_def)
qed


text \<open>The ways a writable event goes: ended early, flushed only, timed out, or media.\<close>

lemma rtsp_on_writable_cases:
  assumes "rtsp_on_writable clk v ring now outs = (v', outs', ok)" "rtsp_flush v now outs = (v1, o1, ok1)"
  obtains (early) x where "v' = v\<lparr> rv_reason := x \<rparr>"
    | (flushed) "v' = v1"
    | (timeout) x where "v' = v1\<lparr> rv_reason := x \<rparr>"
    | (media) "rv_playing v1" "\<not> (rv_playing v \<and> \<not> resident ring (rv_read_pos v))"
        "rtp_loop clk v1 ring VIDEO_VIEWER_WRITE_CHUNK now o1 = (v', outs', ok)"
proof -
  let ?c1 = "\<not> rv_authorised v \<and> now - rv_connected v > VIDEO_RTSP_AUTH_TIMEOUT_S"
  let ?c2 = "rv_playing v \<and> \<not> resident ring (rv_read_pos v)"
  let ?c3 = "\<not> ok1 \<or> rv_out v1 \<noteq> [] \<or> rv_closing v1"
  let ?c4 = "now - rv_control v1 > VIDEO_RTSP_SESSION_TIMEOUT_S + VIDEO_RTSP_TIMEOUT_GRACE_S"
  note d = assms(1) [unfolded rtsp_on_writable_def assms(2) Let_def prod.case]
  consider "?c1" | "\<not> ?c1" "?c2" | "\<not> ?c1" "\<not> ?c2" "?c3" | "\<not> ?c1" "\<not> ?c2" "\<not> ?c3" "?c4"
    | "\<not> ?c1" "\<not> ?c2" "\<not> ?c3" "\<not> ?c4" by argo
  then show thesis
  proof cases
    case 1
    then have "v' = v\<lparr> rv_reason := ''RTSP authentication timeout'' \<rparr>" using d by (simp only: if_True prod.inject simp_thms)
    then show ?thesis by (rule early)
  next
    case 2
    then have "v' = v\<lparr> rv_reason := ''fell too far behind (lapped)'' \<rparr>" using d by (simp only: if_True if_False prod.inject simp_thms)
    then show ?thesis by (rule early)
  next
    case 3
    have "v' = v1" using d unfolding if_not_P [OF 3(1)] if_not_P [OF 3(2)] using 3(3) by (auto split: if_splits)
    then show ?thesis by (rule flushed)
  next
    case 4
    have "v' = v1\<lparr> rv_reason := ''RTSP control timeout'' \<rparr>"
      using d unfolding if_not_P [OF 4(1)] if_not_P [OF 4(2)] using 4(3,4) by (auto split: if_splits)
    then show ?thesis by (rule timeout)
  next
    case 5
    have "v' = v1 \<or> rv_playing v1 \<and> rtp_loop clk v1 ring VIDEO_VIEWER_WRITE_CHUNK now o1 = (v', outs', ok)"
      using d unfolding if_not_P [OF 5(1)] if_not_P [OF 5(2)] using 5(3,4) by (auto split: if_splits)
    then show ?thesis using flushed media 5(2) by blast
  qed
qed



section \<open>Runs\<close>

text \<open>Readable and writable events of one connection, until one of them ends it.\<close>

inductive rtsp_run :: "rtsp_viewer \<Rightarrow> bool" where
  rtsp_start: "rtsp_run (rtsp_new port2 now random)"
| rtsp_readable: "rtsp_run v \<Longrightarrow> rtsp_on_readable e v inp = (v', True) \<Longrightarrow> rtsp_run v'"
| rtsp_writable: "rtsp_run v \<Longrightarrow> rtsp_on_writable clk v ring now outs = (v', outs', True) \<Longrightarrow> rtsp_run v'"

lemma rv_ok_turn: "rv_sent v' \<le> length (rv_out v') \<Longrightarrow> rv_playing v' = rv_playing v \<Longrightarrow> rv_setup v' = rv_setup v \<Longrightarrow>
    rv_authorised v' = rv_authorised v \<Longrightarrow> rv_ok v \<Longrightarrow> rv_ok v'"
  by (simp add: rv_ok_def)

lemma rtsp_parse_ok:
  "rtsp_parse e v = (v', ok) \<Longrightarrow> rv_ok v \<Longrightarrow> rv_ok v' \<and> length (rv_input v') \<le> length (rv_input v)"
proof (induction "length (rv_input v)" arbitrary: v v' ok rule: less_induct)
  case less
  note eq = rtsp_parse.simps [of e v, unfolded less.prems(1)]
  show ?case
  proof (cases "rv_input v = [] \<or> rtsp_unit v = U_wait \<or> rtsp_unit v = U_bad")
    case True
    then have "v' = v" using eq by (auto split: if_splits)
    then show ?thesis using less.prems(2) by simp
  next
    case False
    then have ne: "rv_input v \<noteq> []" by simp
    show ?thesis
    proof (cases "rtsp_unit v")
      case (U_rtcp n)
      let ?w = "v\<lparr> rv_control := rve_now e, rv_input := drop n (rv_input v) \<rparr>"
      have "length (rv_input ?w) < length (rv_input v)" using rtsp_unit_rtcp [OF U_rtcp] ne by simp
      moreover have "rtsp_parse e ?w = (v', ok)" "rv_ok ?w" using eq U_rtcp ne less.prems(2) by (simp_all add: rv_ok_def)
      ultimately show ?thesis using less.hyps [of ?w] by fastforce
    next
      case (U_request h b)
      show ?thesis
      proof (cases "env_request e v (take h (rv_input v))")
        case None
        then show ?thesis using eq ne U_request less.prems(2) by simp
      next
        case (Some v1)
        define v2 where "v2 = v1\<lparr> rv_input := drop (h + b) (rv_input v) \<rparr>"
        have "rv_ok v1" using Some rtsp_request_ok less.prems(2) unfolding env_request_def by blast
        then have ok2: "rv_ok v2" "length (rv_input v2) < length (rv_input v)"
          using rtsp_unit_request [OF U_request] ne by (simp_all add: v2_def rv_ok_def)
        have "v' = v2 \<or> rtsp_parse e v2 = (v', ok)"
          using eq ne U_request Some by (auto simp: v2_def Let_def split: if_splits)
        then show ?thesis using ok2 less.hyps [of v2] by fastforce
      qed
    qed (use False in simp_all)
  qed
qed

lemma rtp_loop_fields:
  "rtp_loop clk v ring budget now outs = (v', outs', ok) \<Longrightarrow> rv_sent v \<le> length (rv_out v) \<Longrightarrow>
     rv_sent v' \<le> length (rv_out v') \<and> rv_playing v' = rv_playing v \<and> rv_setup v' = rv_setup v
     \<and> rv_authorised v' = rv_authorised v \<and> rv_input v' = rv_input v"
proof (induction budget arbitrary: v outs v' outs' ok rule: less_induct)
  case (less budget)
  note eq = rtp_loop.simps [of clk v ring budget now outs, unfolded less.prems(1)]
  let ?p = "rtp_payload v ring budget"
  show ?case
  proof (cases "budget < TS_PACKET_SIZE \<or> ?p = []")
    case True
    then have "v' = v" using eq by (auto split: if_splits)
    then show ?thesis using less.prems(2) by simp
  next
    case False
    define ve where "ve = rtp_emit clk v ?p now"
    obtain v1 o1 ok1 where f: "rtsp_flush ve now outs = (v1, o1, ok1)" by (metis prod_cases3)
    have "rv_sent ve \<le> length (rv_out ve)" using less.prems(2) by (simp add: ve_def rtp_emit_def Let_def)
    note fs = rtsp_flush_stream [OF f this]
    have e: "rv_playing ve = rv_playing v" "rv_setup ve = rv_setup v" "rv_authorised ve = rv_authorised v"
      "rv_input ve = rv_input v"
      by (simp_all add: ve_def rtp_emit_def Let_def)
    have "v' = v1 \<or> rtp_loop clk v1 ring (budget - length ?p) now o1 = (v', outs', ok)"
      using eq False f by (auto simp: ve_def split: if_splits)
    moreover have "budget - length ?p < budget" using False by (cases ?p) (auto simp: TS_PACKET_SIZE_def)
    ultimately show ?thesis using less.IH [of "budget - length ?p" v1 o1] fs e by fastforce
  qed
qed

lemma on_writable_ok:
  assumes "rtsp_on_writable clk v ring now outs = (v', outs', ok)" "rv_ok v"
  shows "rv_ok v' \<and> rv_input v' = rv_input v"
proof -
  obtain v1 o1 ok1 where f: "rtsp_flush v now outs = (v1, o1, ok1)" by (metis prod_cases3)
  have s: "rv_sent v \<le> length (rv_out v)" using assms(2) by (simp add: rv_ok_def)
  note fs = rtsp_flush_stream [OF f s]
  have ok1: "rv_ok v1" using fs assms(2) by (simp add: rv_ok_def)
  have r: "rv_ok (v\<lparr> rv_reason := x \<rparr>)" "rv_ok (v1\<lparr> rv_reason := x \<rparr>)" for x using ok1 assms(2) by (simp_all add: rv_ok_def)
  from assms(1) f show ?thesis
  proof (cases rule: rtsp_on_writable_cases)
    case media
    then show ?thesis using rtp_loop_fields [OF media(3)] fs ok1 by (simp add: rv_ok_def)
  next
    case flushed
    then show ?thesis using ok1 fs by blast
  next
    case (timeout x)
    then show ?thesis using r(2) fs by simp
  next
    case (early x)
    then show ?thesis using r(1) by simp
  qed
qed

lemma on_readable_ok:
  assumes "rtsp_on_readable e v inp = (v', True)" "rv_ok v" "length (rv_input v) \<le> RTSP_REQUEST_LIMIT"
  shows "rv_ok v' \<and> length (rv_input v') \<le> RTSP_REQUEST_LIMIT"
proof -
  consider "v' = v" | d where "rtsp_parse e (v\<lparr> rv_input := rv_input v @ d \<rparr>) = (v', True)"
      "length (rv_input v @ d) \<le> RTSP_REQUEST_LIMIT"
  proof (cases inp)
    case (R_data x)
    let ?d = "bytes_str (take 4096 x)"
    have "v' = v \<or> rtsp_parse e (v\<lparr> rv_input := rv_input v @ ?d \<rparr>) = (v', True)
        \<and> length (rv_input v @ ?d) \<le> RTSP_REQUEST_LIMIT"
      using assms(1) R_data by (simp add: rtsp_on_readable_def Let_def not_less split: if_splits)
    then show ?thesis using that by blast
  qed (use assms(1) that in \<open>simp_all add: rtsp_on_readable_def split: if_splits\<close>)
  then show ?thesis
  proof cases
    case 2
    have "rv_ok (v\<lparr> rv_input := rv_input v @ d \<rparr>)" using assms(2) by (simp add: rv_ok_def)
    from rtsp_parse_ok [OF 2(1) this] 2(2) show ?thesis by simp
  qed (use assms in simp)
qed

text \<open>
  In every run of an RTSP viewer connection, for every sequence of received
  bytes, entry changes, ring contents and socket answers: media is only ever
  playing for a client that was admitted and has set up its transport, and the
  input buffered for it never exceeds 16 KiB.
\<close>

theorem rtsp_run_safe:
  assumes "rtsp_run v"
  shows "(rv_playing v \<longrightarrow> rv_setup v \<and> rv_authorised v) \<and> length (rv_input v) \<le> 16384"
proof -
  have "rv_ok v \<and> length (rv_input v) \<le> RTSP_REQUEST_LIMIT"
    using assms
  proof (induction rule: rtsp_run.induct)
    case (rtsp_start port2 now random)
    then show ?case by (simp add: rtsp_new_def rv_ok_def Let_def split: option.splits)
  next
    case (rtsp_readable v e inp v')
    then show ?case using on_readable_ok by blast
  next
    case (rtsp_writable v clk ring now outs v' outs')
    then show ?case using on_writable_ok by metis
  qed
  then show ?thesis by (simp add: rv_ok_def RTSP_REQUEST_LIMIT_def)
qed

theorem rtsp_run_safe_witness: "length (rv_input (rtsp_new 14550 0 None)) \<le> 16384"
  using rtsp_run_safe [OF rtsp_start] by blast

end
