(* ===== verification/Video_View.thy ===== *)
theory Video_View
  imports Rtsp_View Web_Socket
begin

text \<open>
  Video viewers (\<open>src/videoview.cpp\<close>, class \<open>VideoViewer\<close>): classification of a
  fresh connection, admission, and the delivery of the ring to HTTP, raw TCP,
  WebSocket and RTSP viewers.

  The socket appears as the answers it gives to reads and writes; \<open>vw_wire\<close>
  records what a plain socket accepted.  \<open>errno_again\<close> is whether \<open>errno\<close>
  happens to be \<open>EAGAIN\<close> after a failed WebSocket send, which does not set it.
\<close>

section \<open>State\<close>

datatype viewer_state = VV_DETECT | VV_RESPONDING | VV_STREAMING | VV_CLOSING

datatype viewer_kind = VVK_UNKNOWN | VVK_HTTP | VVK_RAW | VVK_WS | VVK_RTSP | VVK_MKV | VVK_RTMP | VVK_RTSP_VIEW

record viewer =
  vw_open :: bool
  vw_port2 :: int
  vw_state :: viewer_state
  vw_kind :: viewer_kind
  vw_holding :: bool
  vw_connected_at :: int
  vw_last_progress :: int
  vw_behind_since :: int
  vw_req :: http_request
  vw_prefix :: bytes
  vw_prefix_sent :: nat
  vw_out :: bytes
  vw_out_sent :: nat
  vw_read_pos :: nat
  vw_streaming :: bool
  vw_bytes_sent :: nat
  vw_blocked :: bool
  vw_ws :: "websocket option"
  vw_rtsp :: "rtsp_viewer option"
  vw_ws_ready :: bool
  vw_drop_reason :: string
  vw_wire :: bytes

definition VIDEO_DETECT_SILENCE_S :: int where "VIDEO_DETECT_SILENCE_S = 2"
definition VIDEO_MAX_VIEWERS :: nat where "VIDEO_MAX_VIEWERS = 32"

definition vw_start :: "viewer \<Rightarrow> int \<Rightarrow> int \<Rightarrow> viewer" where
  "vw_start v port2 now = v\<lparr> vw_open := True, vw_port2 := port2, vw_state := VV_DETECT, vw_kind := VVK_UNKNOWN,
     vw_connected_at := now, vw_last_progress := now, vw_behind_since := 0, vw_out := [], vw_prefix := [],
     vw_prefix_sent := 0, vw_out_sent := 0, vw_read_pos := 0, vw_streaming := False, vw_bytes_sent := 0,
     vw_blocked := False, vw_ws := None, vw_ws_ready := False, vw_drop_reason := [], vw_wire := [] \<rparr>"

definition vw_close :: "viewer \<Rightarrow> viewer" where
  "vw_close v = v\<lparr> vw_rtsp := None, vw_ws := None, vw_open := False, vw_state := VV_CLOSING \<rparr>"

definition vw_release_fd :: "viewer \<Rightarrow> viewer" where
  "vw_release_fd v = v\<lparr> vw_open := False, vw_state := VV_CLOSING \<rparr>"

definition vw_fail :: "viewer \<Rightarrow> nat \<Rightarrow> string \<Rightarrow> string \<Rightarrow> viewer" where
  "vw_fail v code reason txt =
     (let v1 = (if vw_kind v = VVK_HTTP
                then v\<lparr> vw_out := str_bytes (http_simple_response (int code) reason ''text/plain'' (txt @ [LF])) \<rparr> else v)
      in v1\<lparr> vw_drop_reason := reason, vw_out_sent := 0, vw_state := VV_RESPONDING, vw_streaming := False \<rparr>)"

definition stream_header :: "bool \<Rightarrow> string" where
  "stream_header matroska =
     ''HTTP/1.1 200 OK'' @ [CR, LF] @ ''Content-Type: '' @ (if matroska then ''video/x-matroska'' else ''video/mp2t'') @ [CR, LF] @
     ''Cache-Control: no-store'' @ [CR, LF] @ ''Connection: close'' @ [CR, LF, CR, LF]"

definition begin_stream :: "rv_env \<Rightarrow> viewer \<Rightarrow> bool \<Rightarrow> viewer" where
  "begin_stream e v http =
     (case sc_join_offset (rve_sc e) of
        None \<Rightarrow> vw_fail v 503 ''stream not ready''
                 ''No decodable start point yet. The publisher has not sent a keyframe with program information.''
      | Some a \<Rightarrow>
          if \<not> resident (rve_ring e) a then vw_fail v 503 ''stream not ready'' ''Join point is no longer buffered.''
          else
            let v1 = v\<lparr> vw_prefix := sc_prefix (rve_sc e), vw_prefix_sent := 0, vw_read_pos := a, vw_streaming := True,
                        vw_last_progress := rve_now e, vw_behind_since := 0, vw_out_sent := 0 \<rparr>
            in if http then v1\<lparr> vw_out := str_bytes (stream_header (sc_matroska (rve_sc e))), vw_state := VV_RESPONDING \<rparr>
               else v1\<lparr> vw_out := [], vw_state := VV_STREAMING \<rparr>)"

section \<open>Admission\<close>

definition ws_authorise :: "rv_env \<Rightarrow> viewer \<Rightarrow> http_request \<Rightarrow> bool" where
  "ws_authorise e v req =
     (let tok = hr_query_param req ''t''; pw = hr_query_param req ''pw'';
          pw' = (if pw = [] then http_basic_password (cr_b64 (rve_cr e)) (hr_header req ''Authorization'') else pw)
      in (tok \<noteq> [] \<and> video_token_valid (cr_hmac (rve_cr e)) (rve_ke e) (vw_port2 v) (rve_slot e) tok (rve_now e))
         \<or> video_viewer_authorised (cr_sha (rve_cr e)) (rve_ke e) pw')"

section \<open>Classification\<close>

definition rtsp_methods :: "string list" where
  "rtsp_methods = [''OPTIONS '', ''ANNOUNCE '', ''DESCRIBE '', ''SETUP '', ''PLAY '', ''RECORD '', ''PAUSE '',
     ''TEARDOWN '', ''GET_PARAMETER '', ''SET_PARAMETER '']"

text \<open>The request target behind the method, up to the next blank.\<close>

definition line_target :: "string \<Rightarrow> nat \<Rightarrow> string option" where
  "line_target s len = map_option fst (cut_at CHR '' '' (drop len s))"

definition view_path :: "rv_env \<Rightarrow> string" where
  "view_path e = ''/v'' @ show_int (rve_slot e + 1) @ ''.'' @ (if sc_matroska (rve_sc e) then ''mkv'' else ''ts'')"

text \<open>A complete plain HTTP request that is neither a PUT nor an upgrade.\<close>

definition serve_http :: "rv_env \<Rightarrow> viewer \<Rightarrow> http_request \<Rightarrow> viewer" where
  "serve_http e v0 peek =
     (let v = v0\<lparr> vw_req := peek \<rparr>
      in if hr_method peek \<noteq> ''GET'' then vw_fail v 405 ''method not allowed'' ''Only GET is served here.''
         else if hr_path peek \<noteq> view_path e \<and> hr_path peek \<noteq> ''/'' \<and> hr_path peek \<noteq> ''/stream.ts''
         then vw_fail v 404 ''not found'' ''Try /v1.ts on this port.''
         else if \<not> ws_authorise e v peek then vw_fail v 401 ''unauthorized'' ''A viewer password is required.''
         else begin_stream e v True)"

definition is_upgrade :: "http_request \<Rightarrow> bool" where
  "is_upgrade r = (hr_header r ''Upgrade'' \<noteq> [] \<and> find_sub ''ebsocket'' (hr_header r ''Upgrade'') \<noteq> None)"

definition classify_http :: "rv_env \<Rightarrow> viewer \<Rightarrow> string \<Rightarrow> viewer" where
  "classify_http e v0 s =
     (let v = v0\<lparr> vw_kind := VVK_HTTP \<rparr>; (peek, r) = hr_feed hr_new s
      in case r of
           Hr_bad \<Rightarrow> vw_fail v 400 ''bad request'' ''Malformed request.''
         | Hr_more \<Rightarrow> v\<lparr> vw_holding := True \<rparr>
         | Hr_complete \<Rightarrow>
             if hr_method peek = ''PUT'' then v\<lparr> vw_kind := VVK_MKV \<rparr>
             else if is_upgrade peek then
               if \<not> ws_authorise e v peek
               then vw_fail v 401 ''unauthorized'' ''A viewer token or password is required.''
               else v\<lparr> vw_kind := VVK_WS \<rparr>
             else serve_http e v peek)"

definition PEEK_SIZE :: nat where "PEEK_SIZE = 2048"

text \<open>\<open>random\<close> seeds an RTSP session, \<open>inp2\<close> is the answer to the read it does at once.\<close>

definition classify_rtsp :: "rv_env \<Rightarrow> bytes option \<Rightarrow> viewer \<Rightarrow> string \<Rightarrow> nat \<Rightarrow> net_read \<Rightarrow> viewer \<times> bool" where
  "classify_rtsp e random v s len inp2 =
     (if LF \<notin> set s then
        if length s = PEEK_SIZE then (v\<lparr> vw_drop_reason := ''RTSP request line too long'' \<rparr>, False)
        else (v\<lparr> vw_holding := True \<rparr>, True)
      else case line_target s len of
        Some t \<Rightarrow>
          if playback_target t then
            let (rv, keep) = rtsp_on_readable e (rtsp_new (vw_port2 v) (rve_now e) random) inp2
            in (v\<lparr> vw_kind := VVK_RTSP_VIEW, vw_state := VV_STREAMING, vw_rtsp := Some rv \<rparr>, keep)
          else (v\<lparr> vw_kind := VVK_RTSP \<rparr>, True)
      | None \<Rightarrow> (v\<lparr> vw_kind := VVK_RTSP \<rparr>, True))"

definition classify :: "rv_env \<Rightarrow> bytes option \<Rightarrow> viewer \<Rightarrow> bytes \<Rightarrow> net_read \<Rightarrow> viewer \<times> bool" where
  "classify e random v buf inp2 =
     (let s = bytes_str buf
      in case find (\<lambda>m. take (length m) s = m) rtsp_methods of
           Some m \<Rightarrow> classify_rtsp e random v s (length m) inp2
         | None \<Rightarrow>
             if buf \<noteq> [] \<and> hd buf = 0x03 then (v\<lparr> vw_kind := VVK_RTMP \<rparr>, True)
             else if length buf \<ge> 3 \<and> take 3 buf = wss_prefix then (v\<lparr> vw_kind := VVK_WS \<rparr>, True)
             else (classify_http e v s, True))"

text \<open>One readable event; \<open>inp\<close> is the answer to its first read or peek.\<close>

definition vw_on_readable :: "(string \<Rightarrow> string) \<Rightarrow> rv_env \<Rightarrow> bytes option \<Rightarrow> viewer \<Rightarrow> net_read \<Rightarrow> net_read \<Rightarrow> net_write list
    \<Rightarrow> viewer \<times> bool" where
  "vw_on_readable accept_of e random v inp inp2 outs =
     (case vw_rtsp v of
        Some rv \<Rightarrow> let (rv', keep) = rtsp_on_readable e rv inp in (v\<lparr> vw_rtsp := Some rv' \<rparr>, keep)
      | None \<Rightarrow>
          if vw_state v \<noteq> VV_DETECT then
            (case (vw_kind v, vw_ws v) of
               (VVK_WS, Some w) \<Rightarrow>
                 let (w', outs', r) = ws_recv accept_of w 2048 inp outs; v1 = v\<lparr> vw_ws := Some w' \<rparr>
                 in if r = None then (v1\<lparr> vw_drop_reason := ''websocket closed'' \<rparr>, False) else (v1, True)
             | _ \<Rightarrow> if inp = R_data [] then (v\<lparr> vw_drop_reason := ''peer closed'' \<rparr>, False) else (v, True))
          else if vw_kind v = VVK_WS then (v, True)
          else
            let v1 = v\<lparr> vw_holding := False \<rparr>
            in (case inp of
                  R_again \<Rightarrow> (v1, True)
                | R_fail \<Rightarrow> (v1\<lparr> vw_drop_reason := ''read error'' \<rparr>, False)
                | R_data d \<Rightarrow>
                    if d = [] then (v1\<lparr> vw_drop_reason := ''peer closed'' \<rparr>, False)
                    else classify e random v1 (take PEEK_SIZE d) inp2))"

definition vw_detect_timeout :: "rv_env \<Rightarrow> viewer \<Rightarrow> viewer \<times> bool" where
  "vw_detect_timeout e v =
     (if vw_state v \<noteq> VV_DETECT then (v, True)
      else
        let v1 = v\<lparr> vw_kind := VVK_RAW \<rparr>
        in if video_slot_opts_of (rve_ke e) (nat (rve_slot e)) AND VIDEO_SLOT_RAW_TCP = 0
           then (v1\<lparr> vw_drop_reason := ''raw-TCP viewers not enabled on this slot'' \<rparr>, False)
           else if any_nonzero (video_viewer_key (rve_ke e))
           then (v1\<lparr> vw_drop_reason := ''raw TCP cannot carry the viewer password'' \<rparr>, False)
           else (begin_stream e v1 False, True))"

text \<open>The WebSocket handshake and the start of its stream; \<open>peek\<close> and \<open>inp\<close> are what the new
  endpoint reads when it is created, \<open>inp2\<close> what the pump reads.\<close>

definition begin_ws :: "(string \<Rightarrow> string) \<Rightarrow> rv_env \<Rightarrow> viewer \<Rightarrow> bytes \<Rightarrow> net_read \<Rightarrow> net_read \<Rightarrow> net_write list
    \<Rightarrow> viewer \<times> bool" where
  "begin_ws accept_of e v peek inp inp2 outs =
     (let (w, outs1) = (case vw_ws v of None \<Rightarrow> ws_new accept_of peek WS_DEFAULT_MAX_MESSAGE inp outs | Some w \<Rightarrow> (w, outs));
          (w2, r) = (if vw_ws_ready v then (w, Some []) else let (w', outs', r) = ws_recv accept_of w 512 inp2 outs1 in (w', r));
          v1 = v\<lparr> vw_ws := Some w2 \<rparr>
      in if r = None then (v1\<lparr> vw_drop_reason := ''websocket handshake failed'' \<rparr>, False)
         else if \<not> vw_ws_ready v \<and> req_target w2 = [] then (v1, True)
         else
           let v2 = v1\<lparr> vw_ws_ready := True \<rparr>
           in (case sc_join_offset (rve_sc e) of
                 None \<Rightarrow> (v2, True)
               | Some a \<Rightarrow>
                   if \<not> resident (rve_ring e) a
                   then (vw_fail v2 503 ''stream not ready'' ''Join point is no longer buffered.'', True)
                   else (v2\<lparr> vw_prefix := sc_prefix (rve_sc e), vw_prefix_sent := 0, vw_read_pos := a, vw_streaming := True,
                             vw_state := VV_STREAMING, vw_last_progress := rve_now e \<rparr>, True)))"

section \<open>Delivery\<close>

text \<open>The loop made progress when its first send did not fail.\<close>

definition first_sent :: "net_write list \<Rightarrow> bool" where
  "first_sent outs = (case outs of W_sent n # os \<Rightarrow> True | _ \<Rightarrow> False)"

definition vw_flush :: "viewer \<Rightarrow> int \<Rightarrow> net_write list \<Rightarrow> viewer \<times> net_write list \<times> bool" where
  "vw_flush v now outs =
     (let (m, outs1, r) = flush_loop False (drop (vw_out_sent v) (vw_out v)) outs;
          v1 = v\<lparr> vw_wire := vw_wire v @ seg (vw_out v) (vw_out_sent v) m, vw_out_sent := vw_out_sent v + m,
                  vw_last_progress := (if drop (vw_out_sent v) (vw_out v) \<noteq> [] \<and> first_sent outs then now else vw_last_progress v) \<rparr>
      in case r of
           F_done \<Rightarrow> (v1\<lparr> vw_out := [], vw_out_sent := 0, vw_blocked := False \<rparr>, outs1, True)
         | F_blocked \<Rightarrow> (v1\<lparr> vw_blocked := True \<rparr>, outs1, True)
         | F_failed \<Rightarrow> (v1\<lparr> vw_drop_reason := ''write error'' \<rparr>, outs1, False))"

datatype link_result = L_sent nat | L_again | L_fail

text \<open>\<open>ws_ ? ws_->send(p, n) : ::send(fd_, p, n, MSG_NOSIGNAL)\<close>.\<close>

definition link_send :: "bool \<Rightarrow> viewer \<Rightarrow> bytes \<Rightarrow> net_write list \<Rightarrow> viewer \<times> net_write list \<times> link_result" where
  "link_send errno_again v buf outs =
     (case vw_ws v of
        Some w \<Rightarrow>
          let (w', outs', r) = ws_send w buf outs
          in (v\<lparr> vw_ws := Some w' \<rparr>, outs',
              case r of Some n \<Rightarrow> L_sent n | None \<Rightarrow> if errno_again then L_again else L_fail)
      | None \<Rightarrow>
          (case outs of
             [] \<Rightarrow> (v, [], L_again)
           | W_again # os \<Rightarrow> (v, os, L_again)
           | W_fail # os \<Rightarrow> (v, os, L_fail)
           | W_sent n # os \<Rightarrow>
               let k = min n (length buf) in (v\<lparr> vw_wire := vw_wire v @ take k buf \<rparr>, os, L_sent k)))"

text \<open>The result of a write loop: go on, stop here, or drop the viewer.\<close>

datatype pump_result = P_go | P_stop bool

definition PREFIX_CHUNK :: nat where "PREFIX_CHUNK = 16384"

lemma PREFIX_CHUNK_pos [simp]: "0 < PREFIX_CHUNK"
  by (simp add: PREFIX_CHUNK_def)

function prefix_loop :: "bool \<Rightarrow> viewer \<Rightarrow> int \<Rightarrow> net_write list \<Rightarrow> viewer \<times> net_write list \<times> pump_result" where
  "prefix_loop ea v now outs =
     (if vw_prefix_sent v < length (vw_prefix v) then
        let (v1, outs1, r) = link_send ea v (seg (vw_prefix v) (vw_prefix_sent v) PREFIX_CHUNK) outs
        in (case r of
              L_again \<Rightarrow> (v1\<lparr> vw_blocked := True \<rparr>, outs1, P_stop (now - vw_last_progress v1 \<le> VIDEO_VIEWER_STUCK_S))
            | L_fail \<Rightarrow> (v1, outs1, P_stop False)
            | L_sent n \<Rightarrow>
                if n = 0 \<and> vw_ws v1 \<noteq> None
                then (v1\<lparr> vw_blocked := True \<rparr>, outs1, P_stop (now - vw_last_progress v1 \<le> VIDEO_VIEWER_STUCK_S))
                else if n = 0 then (v1, outs1, P_stop False)
                else prefix_loop ea (v1\<lparr> vw_prefix_sent := vw_prefix_sent v1 + n, vw_last_progress := now \<rparr>) now outs1)
      else (v, outs, P_go))"
  by pat_completeness auto

lemma link_send_frame:
  assumes "link_send ea v buf outs = (v', outs', r)"
  shows "\<exists>w x. v' = v\<lparr> vw_ws := w, vw_wire := x \<rparr> \<and> (w = None \<longleftrightarrow> vw_ws v = None)"
proof (cases "vw_ws v")
  case None
  have v: "v = v\<lparr> vw_wire := vw_wire v \<rparr>" by simp
  have "\<exists>x. v' = v\<lparr> vw_wire := x \<rparr>"
  proof (cases "\<exists>n os. outs = W_sent n # os")
    case True
    then show ?thesis using assms None by (auto simp: link_send_def Let_def)
  next
    case False
    then have "v' = v" using assms None by (simp add: link_send_def split: list.splits net_write.splits)
    then show ?thesis using v by metis
  qed
  moreover have "v\<lparr> vw_wire := x \<rparr> = v\<lparr> vw_ws := None, vw_wire := x \<rparr>" for x using None by (cases v) simp
  ultimately show ?thesis using None by metis
next
  case (Some w)
  have "\<exists>y. v' = v\<lparr> vw_ws := Some y \<rparr>" using assms Some by (auto simp: link_send_def Let_def split: prod.splits)
  moreover have "v\<lparr> vw_ws := y \<rparr> = v\<lparr> vw_ws := y, vw_wire := vw_wire v \<rparr>" for y by (cases v) simp
  ultimately show ?thesis using Some by (metis option.distinct(1))
qed

lemma link_send_fields:
  assumes "link_send ea v buf outs = (v', outs', r)"
  shows "vw_prefix v' = vw_prefix v" "vw_prefix_sent v' = vw_prefix_sent v" "vw_read_pos v' = vw_read_pos v"
    "vw_out v' = vw_out v" "vw_out_sent v' = vw_out_sent v" "vw_state v' = vw_state v" "vw_streaming v' = vw_streaming v"
    "(vw_ws v' = None) = (vw_ws v = None)" "vw_kind v' = vw_kind v" "vw_rtsp v' = vw_rtsp v"
  using link_send_frame [OF assms] by auto

termination prefix_loop
  by (relation "measure (\<lambda>(ea, v, now, outs). length (vw_prefix v) - vw_prefix_sent v)")
     (auto, metis link_send_fields(1,2) diff_less_mono2 less_add_same_cancel1)

declare prefix_loop.simps [simp del]

definition READ_CHUNK :: nat where "READ_CHUNK = 16384"

function ring_loop :: "bool \<Rightarrow> viewer \<Rightarrow> video_ring \<Rightarrow> nat \<Rightarrow> int \<Rightarrow> net_write list
    \<Rightarrow> viewer \<times> net_write list \<times> bool" where
  "ring_loop ea v ring budget now outs =
     (if budget = 0 \<or> \<not> vw_read_pos v < ring_wpos ring then (v, outs, True)
      else
        let chunk = read_at ring (vw_read_pos v) (if budget < READ_CHUNK then budget else READ_CHUNK)
        in if chunk = [] then (v, outs, True)
           else
             let (v1, outs1, r) = link_send ea v chunk outs
             in (case r of
                   L_again \<Rightarrow> (v1\<lparr> vw_blocked := True \<rparr>, outs1, True)
                 | L_fail \<Rightarrow> (v1\<lparr> vw_drop_reason := ''write error'' \<rparr>, outs1, False)
                 | L_sent n \<Rightarrow>
                     if n = 0 \<and> vw_ws v1 \<noteq> None then (v1\<lparr> vw_blocked := True \<rparr>, outs1, True)
                     else
                       let v2 = v1\<lparr> vw_read_pos := vw_read_pos v1 + n, vw_bytes_sent := vw_bytes_sent v1 + n,
                                    vw_last_progress := now \<rparr>
                       in if n < length chunk then (v2\<lparr> vw_blocked := True \<rparr>, outs1, True)
                          else ring_loop ea (v2\<lparr> vw_blocked := False \<rparr>) ring (budget - n) now outs1))"
  by pat_completeness auto
termination
  by (relation "measure (\<lambda>(ea, v, ring, budget, now, outs). budget)") (auto simp: not_less, metis length_0_conv diff_less le_zero_eq neq0_conv)

declare ring_loop.simps [simp del]

text \<open>After the ring loop: the verdict on a slow viewer.\<close>

definition lag_verdict :: "viewer \<Rightarrow> video_ring \<Rightarrow> int \<Rightarrow> viewer \<times> bool" where
  "lag_verdict v0 ring now =
     (let v = (if vw_read_pos v0 \<ge> ring_wpos ring then v0\<lparr> vw_blocked := False \<rparr> else v0);
          lag = u64 (ring_wpos ring + 18446744073709551616 - vw_read_pos v);
          slow = (lag > capacity ring div 2);
          v1 = (if \<not> slow then v\<lparr> vw_behind_since := 0 \<rparr>
                else if vw_behind_since v = 0 then v\<lparr> vw_behind_since := now \<rparr> else v)
      in if slow \<and> vw_behind_since v \<noteq> 0 \<and> now - vw_behind_since v > 5
         then (v1\<lparr> vw_drop_reason := ''chronically behind'' \<rparr>, False)
         else if lag > 0 \<and> now - vw_last_progress v1 > VIDEO_VIEWER_STUCK_S
         then (v1\<lparr> vw_drop_reason := ''stalled'' \<rparr>, False)
         else (v1, True))"

definition vw_stream :: "bool \<Rightarrow> viewer \<Rightarrow> video_ring \<Rightarrow> int \<Rightarrow> net_write list \<Rightarrow> viewer \<times> net_write list \<times> bool" where
  "vw_stream ea v ring now outs =
     (if \<not> resident ring (vw_read_pos v)
      then (v\<lparr> vw_drop_reason := ''fell too far behind (lapped)'' \<rparr>, outs, False)
      else
        let (v1, outs1, r) = prefix_loop ea v now outs
        in (case r of
              P_stop keep \<Rightarrow> (v1, outs1, keep)
            | P_go \<Rightarrow>
                let (v2, outs2, ok) = ring_loop ea v1 ring VIDEO_VIEWER_WRITE_CHUNK now outs1
                in if \<not> ok then (v2, outs2, False)
                   else let (v3, keep) = lag_verdict v2 ring now in (v3, outs2, keep)))"

definition vw_on_writable :: "rtp_clock \<Rightarrow> bool \<Rightarrow> viewer \<Rightarrow> video_ring \<Rightarrow> int \<Rightarrow> net_write list
    \<Rightarrow> viewer \<times> net_write list \<times> bool" where
  "vw_on_writable clk ea v ring now outs =
     (case vw_rtsp v of
        Some rv \<Rightarrow> let (rv', outs', ok) = rtsp_on_writable clk rv ring now outs in (v\<lparr> vw_rtsp := Some rv' \<rparr>, outs', ok)
      | None \<Rightarrow>
          let (v1, outs1, ok) = vw_flush v now outs
          in if \<not> ok then (v1, outs1, False)
             else if vw_state v1 = VV_RESPONDING \<and> vw_out v1 \<noteq> [] then (v1, outs1, True)
             else if vw_state v1 = VV_RESPONDING \<and> \<not> vw_streaming v1 then (v1, outs1, False)
             else
               let v2 = (if vw_state v1 = VV_RESPONDING then v1\<lparr> vw_state := VV_STREAMING \<rparr> else v1)
               in if vw_state v2 \<noteq> VV_STREAMING then (v2, outs1, True)
                  else vw_stream ea v2 ring now outs1)"

definition vw_wants_write :: "viewer \<Rightarrow> bool" where
  "vw_wants_write v = (case vw_rtsp v of Some rv \<Rightarrow> rtsp_wants_write rv
     | None \<Rightarrow> vw_blocked v \<or> vw_out_sent v < length (vw_out v))"

section \<open>What a link owes its viewer\<close>

text \<open>
  \<open>carries v d\<close>: the link of \<open>v\<close> has taken exactly the bytes \<open>d\<close>, in this order,
  since a point in the past.  The delivery loops are proved once against this
  contract and hold for a plain socket and for a WebSocket.
\<close>

locale viewer_link =
  fixes carries :: "viewer \<Rightarrow> bytes \<Rightarrow> bool"
  assumes send_carries: "carries v d \<Longrightarrow> link_send ea v buf outs = (v', outs', r) \<Longrightarrow>
      carries v' (case r of L_sent n \<Rightarrow> d @ take n buf | _ \<Rightarrow> d)"
    and send_bound: "link_send ea v buf outs = (v', outs', L_sent n) \<Longrightarrow> n \<le> length buf"
    and carries_link: "carries v d \<Longrightarrow> vw_ws v' = vw_ws v \<Longrightarrow> vw_wire v' = vw_wire v \<Longrightarrow> carries v' d"
begin

text \<open>The viewer joined at offset \<open>a\<close> of the publisher's bytes \<open>h\<close>; its link has the codec
  prefix and the bytes up to its read position, as far as it got.\<close>

definition pos_ok :: "nat \<Rightarrow> viewer \<Rightarrow> bytes \<Rightarrow> bool" where
  "pos_ok a v h = (vw_prefix_sent v \<le> length (vw_prefix v) \<and> a \<le> vw_read_pos v \<and> vw_read_pos v \<le> length h
     \<and> (a < vw_read_pos v \<longrightarrow> vw_prefix_sent v = length (vw_prefix v)))"

definition fed :: "nat \<Rightarrow> viewer \<Rightarrow> bytes \<Rightarrow> bool" where
  "fed a v h = (pos_ok a v h \<and> carries v (take (vw_prefix_sent v + (vw_read_pos v - a)) (vw_prefix v @ drop a h)))"

lemma fed_published: "fed a v h \<Longrightarrow> fed a v (h @ xs)"
  by (auto simp: fed_def pos_ok_def)

lemma fed_cong:
  "fed a v h \<Longrightarrow> vw_ws v' = vw_ws v \<Longrightarrow> vw_wire v' = vw_wire v \<Longrightarrow> vw_prefix v' = vw_prefix v \<Longrightarrow>
   vw_prefix_sent v' = vw_prefix_sent v \<Longrightarrow> vw_read_pos v' = vw_read_pos v \<Longrightarrow> fed a v' h"
  using carries_link by (auto simp: fed_def pos_ok_def)

lemma send_idle:
  assumes "fed a v h" "link_send ea v buf outs = (v', outs', r)" "\<forall>n. r \<noteq> L_sent n \<or> n = 0"
  shows "fed a v' h"
proof -
  let ?d = "take (vw_prefix_sent v + (vw_read_pos v - a)) (vw_prefix v @ drop a h)"
  have "carries v' (case r of L_sent n \<Rightarrow> ?d @ take n buf | _ \<Rightarrow> ?d)"
    using send_carries [OF _ assms(2)] assms(1) by (simp add: fed_def)
  then have "carries v' ?d" using assms(3) by (cases r) auto
  then show ?thesis using link_send_fields [OF assms(2)] assms(1) by (simp add: fed_def pos_ok_def)
qed

lemma send_prefix:
  assumes "fed a v h" "vw_prefix_sent v < length (vw_prefix v)"
    and "link_send ea v (seg (vw_prefix v) (vw_prefix_sent v) k) outs = (v', outs', L_sent n)"
  shows "fed a (v'\<lparr> vw_prefix_sent := vw_prefix_sent v' + n, vw_last_progress := now \<rparr>) h"
proof -
  note f = link_send_fields [OF assms(3)]
  let ?d = "take (vw_prefix_sent v + (vw_read_pos v - a)) (vw_prefix v @ drop a h)"
  have r: "vw_read_pos v = a" using assms(1,2) by (auto simp: fed_def pos_ok_def)
  have n: "n \<le> length (seg (vw_prefix v) (vw_prefix_sent v) k)" by (rule send_bound [OF assms(3)])
  then have n': "vw_prefix_sent v + n \<le> length (vw_prefix v)" using assms(2) by (simp add: length_seg) linarith
  have "carries v ?d" using assms(1) unfolding fed_def by (rule conjunct2)
  from send_carries [OF this assms(3)] have "carries v' (?d @ take n (seg (vw_prefix v) (vw_prefix_sent v) k))"
    by (simp only: link_result.case)
  moreover have "?d @ take n (seg (vw_prefix v) (vw_prefix_sent v) k) = take (vw_prefix_sent v + n) (vw_prefix v)"
    using r n n' assms(2) by (auto simp: seg_def take_add min_def length_seg split: if_splits)
  ultimately have c: "carries v' (take (vw_prefix_sent v + n) (vw_prefix v))" by simp
  show ?thesis
    using c n' r f assms(1) carries_link [OF c] by (simp add: fed_def pos_ok_def)
qed

lemma prefix_loop_fed:
  "fed a v h \<Longrightarrow> prefix_loop ea v now outs = (v', outs', r) \<Longrightarrow>
     fed a v' h \<and> (r = P_go \<longrightarrow> vw_prefix_sent v' = length (vw_prefix v'))"
proof (induction "length (vw_prefix v) - vw_prefix_sent v" arbitrary: v outs rule: less_induct)
  case less
  note eq = prefix_loop.simps [of ea v now outs, unfolded less.prems(2)]
  show ?case
  proof (cases "vw_prefix_sent v < length (vw_prefix v)")
    case False
    then have "vw_prefix_sent v = length (vw_prefix v)" using less.prems(1) by (auto simp: fed_def pos_ok_def)
    then show ?thesis using eq less.prems(1) by simp
  next
    case True
    obtain v1 o1 q where l: "link_send ea v (seg (vw_prefix v) (vw_prefix_sent v) PREFIX_CHUNK) outs = (v1, o1, q)"
      by (metis prod_cases3)
    show ?thesis
    proof (cases "\<exists>n. q = L_sent n \<and> n \<noteq> 0")
      case False
      have "fed a v1 h" using send_idle [OF less.prems(1) l] False by blast
      moreover have "\<exists>bl keep. v' = v1\<lparr> vw_blocked := bl \<rparr> \<and> r = P_stop keep"
      proof (cases q)
        case L_again
        then show ?thesis using eq True l by simp blast
      next
        case L_fail
        then have "v' = v1\<lparr> vw_blocked := vw_blocked v1 \<rparr> \<and> r = P_stop False" using eq True l by simp
        then show ?thesis by blast
      next
        case (L_sent n)
        then have "n = 0" using False by blast
        then have "v' = v1\<lparr> vw_blocked := (vw_ws v1 \<noteq> None \<or> vw_blocked v1) \<rparr>
            \<and> r = P_stop (vw_ws v1 \<noteq> None \<and> now - vw_last_progress v1 \<le> VIDEO_VIEWER_STUCK_S)"
          using eq True l L_sent by (cases "vw_ws v1 = None") simp_all
        then show ?thesis by blast
      qed
      ultimately show ?thesis using fed_cong [of a v1 h v'] by fastforce
    next
      case sent: True
      then obtain n where n: "q = L_sent n" "n \<noteq> 0" by blast
      let ?w = "v1\<lparr> vw_prefix_sent := vw_prefix_sent v1 + n, vw_last_progress := now \<rparr>"
      have "fed a ?w h" using send_prefix [OF less.prems(1) True] l n by simp
      moreover have "prefix_loop ea ?w now o1 = (v', outs', r)" using eq True l n by simp
      moreover have "length (vw_prefix ?w) - vw_prefix_sent ?w < length (vw_prefix v) - vw_prefix_sent v"
        using link_send_fields [OF l] True n(2) by simp
      ultimately show ?thesis using less.hyps [of ?w o1] by blast
    qed
  qed
qed

lemma send_ring:
  assumes "fed a v h" "vw_prefix_sent v = length (vw_prefix v)" "chunk = take k (drop (vw_read_pos v) h)"
    and "link_send ea v chunk outs = (v', outs', L_sent n)"
  shows "fed a (v'\<lparr> vw_read_pos := vw_read_pos v' + n, vw_bytes_sent := b, vw_last_progress := now, vw_blocked := bl \<rparr>) h"
proof -
  note f = link_send_fields [OF assms(4)]
  let ?p = "length (vw_prefix v) + (vw_read_pos v - a)"
  have pos: "a \<le> vw_read_pos v" "vw_read_pos v \<le> length h" using assms(1) by (auto simp: fed_def pos_ok_def)
  have n: "n \<le> length chunk" by (rule send_bound [OF assms(4)])
  then have n': "vw_read_pos v + n \<le> length h" "n \<le> k" using assms(3) pos by auto
  have "carries v (take ?p (vw_prefix v @ drop a h))" using assms(1) unfolding fed_def assms(2) by (rule conjunct2)
  from send_carries [OF this assms(4)] have "carries v' (take ?p (vw_prefix v @ drop a h) @ take n chunk)"
    by (simp only: link_result.case)
  moreover have "take ?p (vw_prefix v @ drop a h) @ take n chunk = take (?p + n) (vw_prefix v @ drop a h)"
    using pos n' assms(3) seg_append_seg [of h a "vw_read_pos v - a" n] by (simp add: seg_def min_def)
  ultimately have c: "carries v' (take (?p + n) (vw_prefix v @ drop a h))" by simp
  show ?thesis
    using carries_link [OF c] f assms(2) pos n' by (simp add: fed_def pos_ok_def)
qed

lemma ring_loop_fed:
  assumes "ring_holds ring h"
  shows "fed a v h \<Longrightarrow> vw_prefix_sent v = length (vw_prefix v) \<Longrightarrow> ring_loop ea v ring budget now outs = (v', outs', ok) \<Longrightarrow> fed a v' h"
proof (induction budget arbitrary: v outs rule: less_induct)
  case (less budget)
  note eq = ring_loop.simps [of ea v ring budget now outs, unfolded less.prems(3)]
  define chunk where "chunk = read_at ring (vw_read_pos v) (if budget < READ_CHUNK then budget else READ_CHUNK)"
  show ?case
  proof (cases "budget = 0 \<or> \<not> vw_read_pos v < ring_wpos ring \<or> chunk = []")
    case True
    then have "v' = v" using eq by (auto simp: Let_def simp flip: chunk_def split: if_splits)
    then show ?thesis using less.prems(1) by simp
  next
    case False
    obtain k where k: "chunk = take k (drop (vw_read_pos v) h)"
      using ring.get_holds [OF assms, of "vw_read_pos v"] False by (auto simp: chunk_def split: if_splits)
    obtain v1 o1 q where l: "link_send ea v chunk outs = (v1, o1, q)" by (metis prod_cases3)
    note f = link_send_fields [OF l]
    have idle: "(\<forall>n. q \<noteq> L_sent n \<or> n = 0) \<Longrightarrow> fed a v1 h" using send_idle [OF less.prems(1) l] .
    define w where "w n bl = v1\<lparr> vw_read_pos := vw_read_pos v1 + n, vw_bytes_sent := vw_bytes_sent v1 + n,
        vw_last_progress := now, vw_blocked := bl \<rparr>" for n bl
    have w: "q = L_sent n \<Longrightarrow> fed a (w n bl) h" for n bl
      using send_ring [OF less.prems(1,2) k] l by (simp add: w_def)
    have "(\<exists>bl x. v' = v1\<lparr> vw_blocked := bl, vw_drop_reason := x \<rparr> \<and> (\<forall>n. q \<noteq> L_sent n \<or> n = 0))
        \<or> (\<exists>n. q = L_sent n \<and> v' = w n True)
        \<or> (\<exists>n. q = L_sent n \<and> length chunk \<le> n \<and> ring_loop ea (w n False) ring (budget - n) now o1 = (v', outs', ok))"
    proof (cases q)
      case L_again
      then have "v' = v1\<lparr> vw_blocked := True, vw_drop_reason := vw_drop_reason v1 \<rparr>"
        using eq False l by (simp flip: chunk_def)
      then show ?thesis using L_again by blast
    next
      case L_fail
      then have "v' = v1\<lparr> vw_blocked := vw_blocked v1, vw_drop_reason := ''write error'' \<rparr>"
        using eq False l by (simp flip: chunk_def)
      then show ?thesis using L_fail by blast
    next
      case (L_sent n)
      show ?thesis
      proof (cases "n = 0 \<and> vw_ws v1 \<noteq> None")
        case True
        then have "v' = v1\<lparr> vw_blocked := True, vw_drop_reason := vw_drop_reason v1 \<rparr>"
          using eq False l L_sent by (simp flip: chunk_def)
        then show ?thesis using L_sent True by blast
      next
        case go: False
        have "(v', outs', ok) = (if n < length chunk then (w n True, o1, True)
            else ring_loop ea (w n False) ring (budget - n) now o1)"
          using eq False l L_sent go by (auto simp: w_def Let_def simp flip: chunk_def)
        then show ?thesis using L_sent by (cases "n < length chunk") auto
      qed
    qed
    then show ?thesis
    proof (elim disjE exE conjE)
      fix bl x assume "v' = v1\<lparr> vw_blocked := bl, vw_drop_reason := x \<rparr>" "\<forall>n. q \<noteq> L_sent n \<or> n = 0"
      then show ?thesis using fed_cong [OF idle, of v'] by simp
    next
      fix n assume n: "q = L_sent n" "length chunk \<le> n" "ring_loop ea (w n False) ring (budget - n) now o1 = (v', outs', ok)"
      have "budget - n < budget" using n(2) False by (cases chunk) auto
      moreover have "vw_prefix_sent (w n False) = length (vw_prefix (w n False))" using f less.prems(2) by (simp add: w_def)
      ultimately show ?thesis using less.IH [OF _ w [OF n(1)] _ n(3)] by blast
    qed (use w in simp)
  qed
qed

lemma lag_verdict_fed: "fed a v h \<Longrightarrow> lag_verdict v ring now = (v', ok) \<Longrightarrow> fed a v' h"
  by (erule fed_cong) (auto simp: lag_verdict_def Let_def split: if_splits)

lemma vw_stream_fed:
  assumes "fed a v h" "ring_holds ring h" "vw_stream ea v ring now outs = (v', outs', ok)"
  shows "fed a v' h"
proof (cases "resident ring (vw_read_pos v)")
  case False
  then have "v' = v\<lparr> vw_drop_reason := ''fell too far behind (lapped)'' \<rparr>" using assms(3) by (simp add: vw_stream_def)
  then show ?thesis using fed_cong [OF assms(1), of v'] by simp
next
  case True
  obtain v1 o1 r where p: "prefix_loop ea v now outs = (v1, o1, r)" by (metis prod_cases3)
  note f1 = prefix_loop_fed [OF assms(1) p]
  show ?thesis
  proof (cases r)
    case P_go
    obtain v2 o2 ok2 where q: "ring_loop ea v1 ring VIDEO_VIEWER_WRITE_CHUNK now o1 = (v2, o2, ok2)" by (metis prod_cases3)
    have f2: "fed a v2 h" using ring_loop_fed [OF assms(2) _ _ q] f1 P_go by blast
    have "v' = v2 \<or> (\<exists>k. lag_verdict v2 ring now = (v', k))"
      using assms(3) True p P_go q by (auto simp: vw_stream_def split: if_splits prod.splits)
    then show ?thesis using f2 lag_verdict_fed by blast
  next
    case (P_stop keep)
    then show ?thesis using assms(3) True p f1 by (simp add: vw_stream_def)
  qed
qed

end

section \<open>Plain sockets and WebSockets are such links\<close>

definition plain_carries :: "bytes \<Rightarrow> viewer \<Rightarrow> bytes \<Rightarrow> bool" where
  "plain_carries w0 v d = (vw_ws v = None \<and> vw_wire v = w0 @ d)"

text \<open>A WebSocket whose handshake is complete: binary frames whose payloads are \<open>d\<close>, as long as
  the link is alive.\<close>

definition ws_carries :: "bytes \<Rightarrow> viewer \<Rightarrow> bytes \<Rightarrow> bool" where
  "ws_carries w0 v d = (\<exists>w. vw_ws v = Some w \<and> (ws_alive w \<longrightarrow> done_headers w \<and> ws_tx_inv w
     \<and> (\<exists>cs. ws_stream w = w0 @ concat (map (server_frame WS_OP_BIN) cs) \<and> concat cs = d)))"

lemma ws_flush_alive: "ws_flush w outs = (w', outs', ok) \<Longrightarrow> ws_alive w' = (ws_alive w \<and> ok)"
proof (induction w outs arbitrary: w' outs' ok rule: ws_flush.induct)
  case (1 w outs)
  show ?case
  proof (cases "\<exists>n os. outs = W_sent n # os \<and> \<not> (ws_ssl w \<and> n = 0) \<and> tx_sent w < length (ws_tx w)")
    case True
    then obtain n os where o: "outs = W_sent n # os" "\<not> (ws_ssl w \<and> n = 0)" "tx_sent w < length (ws_tx w)" by blast
    have "ws_flush (flush_sent w n) os = (w', outs', ok)"
      using "1.prems" o by (subst (asm) ws_flush.simps) simp
    from "1.IH" [OF o(3,1) refl o(2) this] show ?thesis by (simp add: flush_sent_def Let_def)
  next
    case False
    then show ?thesis
      using "1.prems" by (subst (asm) ws_flush.simps) (auto split: list.splits net_write.splits if_splits)
  qed
qed

lemma ws_send_alive:
  assumes "ws_send w buf outs = (w', outs', r)" "done_headers w"
  shows "ws_alive w' = (r \<noteq> None)" "r = None \<or> ws_alive w \<and> r = Some (length buf)"
proof -
  obtain w1 o1 ok where f: "ws_flush (queue_frame w WS_OP_BIN buf) outs = (w1, o1, ok)" by (metis prod_cases3)
  show "ws_alive w' = (r \<noteq> None)" "r = None \<or> ws_alive w \<and> r = Some (length buf)"
    using assms f ws_flush_alive [OF f] by (auto simp: ws_send_def split: if_splits)
qed

lemma link_send_plain:
  assumes "link_send ea v buf outs = (v', outs', r)" "vw_ws v = None"
  shows "vw_ws v' = None" "vw_wire v' = vw_wire v @ (case r of L_sent n \<Rightarrow> take n buf | _ \<Rightarrow> [])"
    "r = L_sent n \<Longrightarrow> n \<le> length buf"
  using assms by (auto simp: link_send_def Let_def split: list.splits net_write.splits)

lemma link_send_ws:
  assumes "link_send ea v buf outs = (v', outs', r)" "vw_ws v = Some w"
  obtains w' o' q where "ws_send w buf outs = (w', o', q)" "vw_ws v' = Some w'"
    "r = (case q of Some n \<Rightarrow> L_sent n | None \<Rightarrow> if ea then L_again else L_fail)"
  using assms by (auto simp: link_send_def Let_def split: prod.splits)

lemma link_send_bound: "link_send ea v buf outs = (v', outs', L_sent n) \<Longrightarrow> n \<le> length buf"
proof (cases "vw_ws v")
  case (Some w)
  assume l: "link_send ea v buf outs = (v', outs', L_sent n)"
  from l Some obtain w' o' q where "ws_send w buf outs = (w', o', q)" "q = Some n"
    by (rule link_send_ws) (auto split: option.splits if_splits)
  then show ?thesis by (auto simp: ws_send_def split: if_splits prod.splits)
qed (rule link_send_plain(3) [OF _ _ refl])

interpretation plain: viewer_link "plain_carries w0" for w0
proof unfold_locales
  fix v d ea buf outs v' outs' r
  assume "plain_carries w0 v d" "link_send ea v buf outs = (v', outs', r)"
  then show "plain_carries w0 v' (case r of L_sent n \<Rightarrow> d @ take n buf | _ \<Rightarrow> d)"
    using link_send_plain(1,2) [of ea v buf outs v' outs' r] by (auto simp: plain_carries_def split: link_result.splits)
qed (auto simp: plain_carries_def dest: link_send_bound)

interpretation wsl: viewer_link "ws_carries w0" for w0
proof unfold_locales
  fix v d ea buf outs v' outs' r
  assume c: "ws_carries w0 v d" and l: "link_send ea v buf outs = (v', outs', r)"
  obtain w where w: "vw_ws v = Some w" using c by (auto simp: ws_carries_def)
  obtain w' o' q where s: "ws_send w buf outs = (w', o', q)" "vw_ws v' = Some w'"
    "r = (case q of Some n \<Rightarrow> L_sent n | None \<Rightarrow> if ea then L_again else L_fail)" using link_send_ws [OF l w] by metis
  show "ws_carries w0 v' (case r of L_sent n \<Rightarrow> d @ take n buf | _ \<Rightarrow> d)"
  proof (cases "ws_alive w'")
    case False
    then show ?thesis using s(2) by (simp add: ws_carries_def)
  next
    case True
    have "ws_alive w \<and> done_headers w"
    proof (cases "ws_alive w")
      case False
      then have "w' = w" using s(1) by (simp add: ws_send_def split: if_splits)
      then show ?thesis using True False by simp
    qed (use c w in \<open>auto simp: ws_carries_def\<close>)
    then obtain cs where a: "done_headers w" "ws_tx_inv w" "ws_stream w = w0 @ concat (map (server_frame WS_OP_BIN) cs)" "concat cs = d"
      using c w by (auto simp: ws_carries_def)
    have q: "q = Some (length buf)" using ws_send_alive [OF s(1) a(1)] True by auto
    have "ws_tx_inv w' \<and> done_headers w' \<and> ws_stream w' = ws_stream w @ server_frame WS_OP_BIN buf"
      using ws_send_stream [OF a(2,1) s(1)] q by simp
    then have "done_headers w' \<and> ws_tx_inv w' \<and> ws_stream w' = w0 @ concat (map (server_frame WS_OP_BIN) (cs @ [buf]))
        \<and> concat (cs @ [buf]) = d @ buf" using a by simp
    then show ?thesis using s(2,3) q by (auto simp: ws_carries_def intro!: exI [of _ "cs @ [buf]"])
  qed
qed (auto simp: ws_carries_def dest: link_send_bound)

section \<open>Runs of a viewer\<close>

text \<open>The publisher and the event loop interleave: bytes arrive in the ring, the viewer is pumped.
  A viewer that is dropped gets nothing more.\<close>

datatype vw_event = Publish bytes | Pump bool int "net_write list"

fun vw_run :: "rtp_clock \<Rightarrow> video_ring \<Rightarrow> viewer \<Rightarrow> vw_event list \<Rightarrow> viewer" where
  "vw_run clk ring v [] = v"
| "vw_run clk ring v (Publish xs # es) = vw_run clk (ring_write ring xs) v es"
| "vw_run clk ring v (Pump ea now outs # es) =
     (let (v', outs', keep) = vw_on_writable clk ea v ring now outs in if keep then vw_run clk ring v' es else v')"

fun published :: "vw_event list \<Rightarrow> bytes" where
  "published [] = []"
| "published (Publish xs # es) = xs @ published es"
| "published (Pump ea now outs # es) = published es"

text \<open>What a pump and a write of the publisher keep, a run keeps.\<close>

locale viewer_course =
  fixes course :: "viewer \<Rightarrow> bytes \<Rightarrow> bool"
  assumes course_published: "course v h \<Longrightarrow> course v (h @ xs)"
    and course_step: "course v h \<Longrightarrow> ring_holds ring h \<Longrightarrow> vw_on_writable clk ea v ring now outs = (v', outs', keep) \<Longrightarrow> course v' h"
begin

lemma vw_run_course:
  "course v h \<Longrightarrow> ring_holds ring h \<Longrightarrow> length h + length (published es) < 2 ^ 64 \<Longrightarrow>
     course (vw_run clk ring v es) (h @ published es)"
proof (induction es arbitrary: v ring h)
  case (Cons ev es)
  show ?case
  proof (cases ev)
    case (Publish xs)
    have "ring_holds (ring_write ring xs) (h @ xs)"
      using ring.put_holds [OF Cons.prems(2), of xs] Cons.prems(3) Publish by simp
    then show ?thesis
      using Cons.IH [OF course_published [OF Cons.prems(1), of xs], of "ring_write ring xs"] Cons.prems(3) Publish by simp
  next
    case (Pump ea now outs)
    obtain v1 o1 keep where w: "vw_on_writable clk ea v ring now outs = (v1, o1, keep)" by (metis prod_cases3)
    note c = course_step [OF Cons.prems(1,2) w]
    show ?thesis
    proof (cases keep)
      case True
      then show ?thesis using Cons.IH [OF c Cons.prems(2)] Cons.prems(3) Pump w by simp
    next
      case False
      then show ?thesis using course_published [OF c] Pump w by simp
    qed
  qed
qed simp

end

text \<open>In the middle of the response header, or streaming.\<close>

definition responding :: "bytes \<Rightarrow> bytes \<Rightarrow> nat \<Rightarrow> viewer \<Rightarrow> bytes \<Rightarrow> bool" where
  "responding w0 hdr a v h = (vw_rtsp v = None \<and> vw_ws v = None \<and> vw_state v = VV_RESPONDING \<and> vw_streaming v
     \<and> vw_out v = hdr \<and> vw_out_sent v \<le> length hdr \<and> vw_wire v = w0 @ take (vw_out_sent v) hdr
     \<and> vw_prefix_sent v = 0 \<and> vw_read_pos v = a \<and> a \<le> length h)"

definition streaming :: "(viewer \<Rightarrow> bytes \<Rightarrow> bool) \<Rightarrow> nat \<Rightarrow> viewer \<Rightarrow> bytes \<Rightarrow> bool" where
  "streaming fedp a v h = (vw_rtsp v = None \<and> vw_state v = VV_STREAMING \<and> vw_out v = [] \<and> vw_out_sent v = 0 \<and> fedp v h)"

lemma vw_flush_Nil: "vw_out v = [] \<Longrightarrow> vw_out_sent v = 0 \<Longrightarrow>
    vw_flush v now outs = (v\<lparr> vw_blocked := False \<rparr>, outs, True)"
  by (cases v) (simp add: vw_flush_def seg_def)

lemma prefix_loop_keeps: "prefix_loop ea v now outs = (v', outs', r) \<Longrightarrow>
    vw_rtsp v' = vw_rtsp v \<and> vw_state v' = vw_state v \<and> vw_out v' = vw_out v \<and> vw_out_sent v' = vw_out_sent v \<and> vw_prefix v' = vw_prefix v"
proof (induction "length (vw_prefix v) - vw_prefix_sent v" arbitrary: v outs rule: less_induct)
  case less
  note eq = prefix_loop.simps [of ea v now outs, unfolded less.prems]
  obtain v1 o1 q where l: "link_send ea v (seg (vw_prefix v) (vw_prefix_sent v) PREFIX_CHUNK) outs = (v1, o1, q)"
    by (metis prod_cases3)
  note f = link_send_fields [OF l]
  show ?case
  proof (cases "vw_prefix_sent v < length (vw_prefix v) \<and> (\<exists>n. q = L_sent n \<and> n \<noteq> 0)")
    case True
    then obtain n where n: "q = L_sent n" "n \<noteq> 0" "vw_prefix_sent v < length (vw_prefix v)" by blast
    let ?w = "v1\<lparr> vw_prefix_sent := vw_prefix_sent v1 + n, vw_last_progress := now \<rparr>"
    have "prefix_loop ea ?w now o1 = (v', outs', r)" using eq n l by simp
    moreover have "length (vw_prefix ?w) - vw_prefix_sent ?w < length (vw_prefix v) - vw_prefix_sent v" using f n by simp
    ultimately show ?thesis using less.hyps [of ?w o1] f by simp
  next
    case False
    then show ?thesis using eq l f by (cases q) (auto split: if_splits)
  qed
qed

lemma ring_loop_keeps: "ring_loop ea v ring budget now outs = (v', outs', ok) \<Longrightarrow>
    vw_rtsp v' = vw_rtsp v \<and> vw_state v' = vw_state v \<and> vw_out v' = vw_out v \<and> vw_out_sent v' = vw_out_sent v \<and> vw_prefix v' = vw_prefix v"
proof (induction budget arbitrary: v outs rule: less_induct)
  case (less budget)
  note eq = ring_loop.simps [of ea v ring budget now outs, unfolded less.prems]
  define chunk where "chunk = read_at ring (vw_read_pos v) (if budget < READ_CHUNK then budget else READ_CHUNK)"
  obtain v1 o1 q where l: "link_send ea v chunk outs = (v1, o1, q)" by (metis prod_cases3)
  note f = link_send_fields [OF l]
  show ?case
  proof (cases "budget = 0 \<or> \<not> vw_read_pos v < ring_wpos ring \<or> chunk = []")
    case True
    then have "v' = v" using eq by (auto simp: Let_def simp flip: chunk_def split: if_splits)
    then show ?thesis by simp
  next
    case False
    define w where "w n = v1\<lparr> vw_read_pos := vw_read_pos v1 + n, vw_bytes_sent := vw_bytes_sent v1 + n,
        vw_last_progress := now, vw_blocked := False \<rparr>" for n
    show ?thesis
    proof (cases "\<exists>n. q = L_sent n \<and> length chunk \<le> n")
      case True
      then obtain n where n: "q = L_sent n" "length chunk \<le> n" by blast
      then have "0 < n" using False by (cases chunk) auto
      then have "ring_loop ea (w n) ring (budget - n) now o1 = (v', outs', ok)"
        using eq False l n by (auto simp: w_def Let_def simp flip: chunk_def)
      then show ?thesis using less.IH [of "budget - n" "w n" o1] False \<open>0 < n\<close> f by (simp add: w_def)
    next
      case short: False
      then show ?thesis
        using eq False l f by (cases q) (auto simp: Let_def simp flip: chunk_def split: if_splits)
    qed
  qed
qed

lemma vw_stream_keeps:
  assumes "vw_stream ea v ring now outs = (v', outs', ok)"
  shows "vw_rtsp v' = vw_rtsp v \<and> vw_state v' = vw_state v \<and> vw_out v' = vw_out v \<and> vw_out_sent v' = vw_out_sent v \<and> vw_prefix v' = vw_prefix v"
proof -
  obtain v1 o1 r where p: "prefix_loop ea v now outs = (v1, o1, r)" by (metis prod_cases3)
  obtain v2 o2 ok2 where q: "ring_loop ea v1 ring VIDEO_VIEWER_WRITE_CHUNK now o1 = (v2, o2, ok2)" by (metis prod_cases3)
  have l: "lag_verdict v2 ring now = (w, k) \<Longrightarrow> vw_rtsp w = vw_rtsp v2 \<and> vw_state w = vw_state v2 \<and> vw_out w = vw_out v2
      \<and> vw_out_sent w = vw_out_sent v2 \<and> vw_prefix w = vw_prefix v2" for w k
    by (auto simp: lag_verdict_def Let_def split: if_splits)
  obtain v3 k3 where lv: "lag_verdict v2 ring now = (v3, k3)" by fastforce
  have "v' = v\<lparr> vw_drop_reason := ''fell too far behind (lapped)'' \<rparr> \<or> v' = v1 \<or> v' = v2 \<or> v' = v3"
    using assms p q lv by (auto simp: vw_stream_def split: if_splits pump_result.splits)
  then show ?thesis using prefix_loop_keeps [OF p] ring_loop_keeps [OF q] l [OF lv] by (elim disjE) simp_all
qed


text \<open>A plain viewer on course: the header, then the codec prefix, then the ring, in order.\<close>

definition on_course :: "bytes \<Rightarrow> bytes \<Rightarrow> bytes \<Rightarrow> nat \<Rightarrow> viewer \<Rightarrow> bytes \<Rightarrow> bool" where
  "on_course w0 hdr pre a v h = (vw_prefix v = pre \<and> (responding w0 hdr a v h \<or> streaming (plain.fed (w0 @ hdr) a) a v h))"

lemma on_course_wire:
  assumes "on_course w0 hdr pre a v h"
  shows "\<exists>k. vw_wire v = w0 @ take k (hdr @ pre @ drop a h)"
proof -
  have "vw_out_sent v \<le> length hdr \<Longrightarrow> take (vw_out_sent v) (hdr @ pre @ drop a h) = take (vw_out_sent v) hdr" by simp
  moreover have "take (length hdr + k) (hdr @ pre @ drop a h) = hdr @ take k (pre @ drop a h)" for k by simp
  ultimately show ?thesis
    using assms unfolding on_course_def responding_def streaming_def plain.fed_def plain_carries_def
    by (metis append.assoc)
qed

lemma on_course_published: "on_course w0 hdr pre a v h \<Longrightarrow> on_course w0 hdr pre a v (h @ xs)"
  using plain.fed_published [of "w0 @ hdr" a v h xs] by (auto simp: on_course_def responding_def streaming_def)

lemma vw_flush_responding:
  assumes "responding w0 hdr a v h" "vw_flush v now outs = (v', outs', ok)"
  shows "responding w0 hdr a v' h \<and> (ok \<longrightarrow> vw_out v' \<noteq> []) \<or> ok \<and> vw_out v' = [] \<and> vw_state v' = VV_RESPONDING \<and> vw_streaming v'
      \<and> streaming (plain.fed (w0 @ hdr) a) a (v'\<lparr> vw_state := VV_STREAMING \<rparr>) h"
    and "vw_prefix v' = vw_prefix v"
proof -
  obtain m o1 r where f: "flush_loop False (drop (vw_out_sent v) (vw_out v)) outs = (m, o1, r)" by (metis prod_cases3)
  have m: "vw_out_sent v + m \<le> length hdr" "r = F_done \<longleftrightarrow> vw_out_sent v + m = length hdr"
    using flush_loop_bound [OF f] assms(1) by (auto simp: responding_def)
  have w: "vw_wire v @ seg (vw_out v) (vw_out_sent v) m = w0 @ take (vw_out_sent v + m) hdr"
    using assms(1) by (simp add: responding_def seg_def take_add)
  show "vw_prefix v' = vw_prefix v" using assms(2) f by (auto simp: vw_flush_def Let_def split: flush_result.splits)
  show "responding w0 hdr a v' h \<and> (ok \<longrightarrow> vw_out v' \<noteq> []) \<or> ok \<and> vw_out v' = [] \<and> vw_state v' = VV_RESPONDING \<and> vw_streaming v'
      \<and> streaming (plain.fed (w0 @ hdr) a) a (v'\<lparr> vw_state := VV_STREAMING \<rparr>) h"
  proof (cases "r = F_done")
    case True
    then show ?thesis
      using assms f m w
      by (auto simp: vw_flush_def responding_def streaming_def plain.fed_def plain.pos_ok_def plain_carries_def)
  next
    case False
    then have "hdr \<noteq> []" using m by auto
    then show ?thesis using assms f m w False by (cases r) (auto simp: vw_flush_def responding_def)
  qed
qed

lemma vw_stream_on_course:
  assumes "streaming (plain.fed (w0 @ hdr) a) a v h" "ring_holds ring h" "vw_stream ea v ring now outs = (v', outs', ok)"
  shows "on_course w0 hdr (vw_prefix v) a v' h"
  using plain.vw_stream_fed [OF _ assms(2,3)] vw_stream_keeps [OF assms(3)] assms(1)
  by (auto simp: on_course_def streaming_def)

lemma on_course_step:
  assumes "on_course w0 hdr pre a v h" "ring_holds ring h" "vw_on_writable clk ea v ring now outs = (v', outs', keep)"
  shows "on_course w0 hdr pre a v' h"
proof -
  have pre: "vw_prefix v = pre" using assms(1) by (simp add: on_course_def)
  have n: "vw_rtsp v = None" using assms(1) by (auto simp: on_course_def responding_def streaming_def)
  obtain v1 o1 ok where f: "vw_flush v now outs = (v1, o1, ok)" by (metis prod_cases3)
  from assms(1) consider (resp) "responding w0 hdr a v h" | (strm) "streaming (plain.fed (w0 @ hdr) a) a v h"
    by (auto simp: on_course_def)
  then show ?thesis
  proof cases
    case strm
    then have "v1 = v\<lparr> vw_blocked := False \<rparr>" "ok" using f vw_flush_Nil [of v now outs] by (auto simp: streaming_def)
    moreover have "streaming (plain.fed (w0 @ hdr) a) a (v\<lparr> vw_blocked := False \<rparr>) h"
      using strm plain.fed_cong [of "w0 @ hdr" a v h "v\<lparr> vw_blocked := False \<rparr>"] by (simp add: streaming_def)
    moreover have "vw_stream ea v1 ring now o1 = (v', outs', keep)"
      using assms(3) n f calculation by (simp add: vw_on_writable_def streaming_def)
    ultimately show ?thesis using vw_stream_on_course [OF _ assms(2)] pre by fastforce
  next
    case resp
    note fl = vw_flush_responding [OF resp f]
    show ?thesis
    proof (cases "ok \<and> vw_out v1 = []")
      case True
      then have s: "vw_state v1 = VV_RESPONDING" "vw_streaming v1"
        "streaming (plain.fed (w0 @ hdr) a) a (v1\<lparr> vw_state := VV_STREAMING \<rparr>) h" using fl(1) by auto
      have "vw_stream ea (v1\<lparr> vw_state := VV_STREAMING \<rparr>) ring now o1 = (v', outs', keep)"
        using assms(3) n f True s by (simp add: vw_on_writable_def)
      from vw_stream_on_course [OF s(3) assms(2) this] show ?thesis using fl(2) pre by simp
    next
      case False
      then have r: "responding w0 hdr a v1 h" using fl(1) by blast
      then have "v' = v1" using assms(3) n f False by (auto simp: vw_on_writable_def responding_def split: if_splits)
      then show ?thesis using r fl(2) pre by (simp add: on_course_def)
    qed
  qed
qed

interpretation pc: viewer_course "on_course w0 hdr pre a" for w0 hdr pre a
  by unfold_locales (rule on_course_published, assumption, rule on_course_step)

lemma begin_stream_on_course:
  assumes "sc_join_offset (rve_sc e) = Some a" "resident (rve_ring e) a" "ring_holds (rve_ring e) h"
    and "vw_ws v = None" "vw_rtsp v = None"
  shows "on_course (vw_wire v) (if http then str_bytes (stream_header (sc_matroska (rve_sc e))) else []) (sc_prefix (rve_sc e)) a
           (begin_stream e v http) h"
proof -
  have "a \<le> length h" using resident_holds [OF assms(3)] assms(2) by simp
  then show ?thesis
    using assms by (auto simp: begin_stream_def on_course_def responding_def streaming_def plain.fed_def plain.pos_ok_def
        plain_carries_def Let_def)
qed

text \<open>
  C29.  A plain viewer (HTTP or raw TCP) that joins at the scanner's anchor is
  sent the response header, the codec prefix and then the publisher's bytes from
  the anchor on, without a gap, a repetition or a reordering.  This holds for
  every interleaving of publisher writes with pumps of the viewer, however the
  socket splits, refuses or fails the writes, and also up to the moment the
  viewer is dropped for being lapped, behind or stalled.
\<close>

theorem viewer_verbatim:
  assumes "ring_holds (rve_ring e) h" "length h + length (published es) < 2 ^ 64"
    and "sc_join_offset (rve_sc e) = Some a" "resident (rve_ring e) a" "vw_ws v = None" "vw_rtsp v = None"
  shows "\<exists>k. vw_wire (vw_run clk (rve_ring e) (begin_stream e v http) es) = vw_wire v
      @ take k ((if http then str_bytes (stream_header (sc_matroska (rve_sc e))) else [])
                @ sc_prefix (rve_sc e) @ drop a (h @ published es))"
  using on_course_wire [OF pc.vw_run_course [OF begin_stream_on_course [OF assms(3,4,1,5,6)] assms(1,2)]] .


section \<open>Examples\<close>

definition ex_viewer :: viewer where
  "ex_viewer = \<lparr> vw_open = True, vw_port2 = 14551, vw_state = VV_DETECT, vw_kind = VVK_UNKNOWN, vw_holding = False,
     vw_connected_at = 0, vw_last_progress = 0, vw_behind_since = 0, vw_req = hr_new, vw_prefix = [], vw_prefix_sent = 0,
     vw_out = [], vw_out_sent = 0, vw_read_pos = 0, vw_streaming = False, vw_bytes_sent = 0, vw_blocked = False,
     vw_ws = None, vw_rtsp = None, vw_ws_ready = False, vw_drop_reason = [], vw_wire = [] \<rparr>"

definition ex_vw_env :: rv_env where
  "ex_vw_env = \<lparr> rve_cr = \<lparr> cr_sha = \<lambda>_. [], cr_hmac = \<lambda>_ _. None, cr_b64 = \<lambda>s. s, cr_scale_one = \<lambda>_. False \<rparr>,
     rve_ke = sample_key_entry, rve_slot = 0, rve_ring = ring_write (ring_init 1) [1, 2, 3],
     rve_sc = sc_new\<lparr> sc_matroska := True, sc_prefix := [9, 8], mkv_anchor := 1, mkv_have_anchor := True \<rparr>, rve_now = 0 \<rparr>"

lemma ex_vw_ready:
  "ring_holds (rve_ring ex_vw_env) [1, 2, 3]" "sc_join_offset (rve_sc ex_vw_env) = Some 1" "resident (rve_ring ex_vw_env) 1"
  "sc_prefix (rve_sc ex_vw_env) = [9, 8]" "sc_matroska (rve_sc ex_vw_env)"
proof -
  show h: "ring_holds (rve_ring ex_vw_env) [1, 2, 3]"
    using ring.put_holds [OF ring_init_holds, of "[1, 2, 3]" 1] by (simp add: ex_vw_env_def)
  show "resident (rve_ring ex_vw_env) 1" using resident_holds [OF h, of 1] ring.put_holds [OF ring_init_holds, of "[1, 2, 3]" 1]
    by (simp add: ex_vw_env_def)
qed (simp_all add: ex_vw_env_def sc_join_offset_def sc_new_def)

theorem viewer_verbatim_witness:
  "\<exists>k. vw_wire (vw_run (\<lambda>_. (0, 0, 0)) (rve_ring ex_vw_env) (begin_stream ex_vw_env ex_viewer False)
          [Pump False 1 [W_sent 1, W_sent 7, W_sent 7], Publish [4, 5], Pump False 2 [W_sent 9]])
     = take k [9, 8, 2, 3, 4, 5]"
proof -
  have "\<exists>k. vw_wire (vw_run (\<lambda>_. (0, 0, 0)) (rve_ring ex_vw_env) (begin_stream ex_vw_env ex_viewer False)
          [Pump False 1 [W_sent 1, W_sent 7, W_sent 7], Publish [4, 5], Pump False 2 [W_sent 9]])
     = vw_wire ex_viewer @ take k ((if False then str_bytes (stream_header (sc_matroska (rve_sc ex_vw_env))) else [])
          @ sc_prefix (rve_sc ex_vw_env) @ drop 1 ([1, 2, 3]
             @ published [Pump False 1 [W_sent 1, W_sent 7, W_sent 7], Publish [4, 5], Pump False 2 [W_sent 9]]))"
    by (rule viewer_verbatim [OF ex_vw_ready(1) _ ex_vw_ready(2,3)]) (simp_all add: ex_viewer_def)
  then show ?thesis by (simp add: ex_vw_ready ex_viewer_def)
qed

section \<open>WebSocket viewers\<close>

definition ws_course :: "bytes \<Rightarrow> bytes \<Rightarrow> nat \<Rightarrow> viewer \<Rightarrow> bytes \<Rightarrow> bool" where
  "ws_course w0 pre a v h = (vw_prefix v = pre \<and> streaming (wsl.fed w0 a) a v h)"

lemma ws_course_published: "ws_course w0 pre a v h \<Longrightarrow> ws_course w0 pre a v (h @ xs)"
  using wsl.fed_published [of w0 a v h xs] by (auto simp: ws_course_def streaming_def)

lemma ws_course_step:
  assumes "ws_course w0 pre a v h" "ring_holds ring h" "vw_on_writable clk ea v ring now outs = (v', outs', keep)"
  shows "ws_course w0 pre a v' h"
proof -
  let ?v = "v\<lparr> vw_blocked := False \<rparr>"
  have s: "vw_rtsp v = None" "vw_state v = VV_STREAMING" "vw_out v = []" "vw_out_sent v = 0" "wsl.fed w0 a v h" "vw_prefix v = pre"
    using assms(1) by (simp_all add: ws_course_def streaming_def)
  have f: "wsl.fed w0 a ?v h" using wsl.fed_cong [OF s(5), of ?v] by simp
  have st: "vw_stream ea ?v ring now outs = (v', outs', keep)"
    using assms(3) s by (simp add: vw_on_writable_def vw_flush_Nil)
  show ?thesis
    using wsl.vw_stream_fed [OF f assms(2) st] vw_stream_keeps [OF st] s by (simp add: ws_course_def streaming_def)
qed

interpretation wc: viewer_course "ws_course w0 pre a" for w0 pre a
  by unfold_locales (rule ws_course_published, assumption, rule ws_course_step)

lemma begin_ws_course:
  assumes "sc_join_offset (rve_sc e) = Some a" "resident (rve_ring e) a" "ring_holds (rve_ring e) h"
    and "vw_ws v = Some w" "vw_ws_ready v" "done_headers w" "ws_tx_inv w"
    and "vw_rtsp v = None" "vw_out v = []" "vw_out_sent v = 0"
  shows "ws_course (ws_stream w) (sc_prefix (rve_sc e)) a (fst (begin_ws accept_of e v peek inp inp2 outs)) h"
proof -
  have "a \<le> length h" using resident_holds [OF assms(3)] assms(2) by simp
  then show ?thesis
    using assms by (auto simp: begin_ws_def ws_course_def streaming_def wsl.fed_def wsl.pos_ok_def ws_carries_def Let_def
        intro!: exI [of _ "[]"])
qed

lemma ws_course_stream:
  assumes "ws_course w0 pre a v h" "vw_ws v = Some w" "ws_alive w"
  shows "\<exists>cs k. ws_stream w = w0 @ concat (map (server_frame WS_OP_BIN) cs) \<and> concat cs = take k (pre @ drop a h)"
proof -
  have "ws_carries w0 v (take (vw_prefix_sent v + (vw_read_pos v - a)) (pre @ drop a h))"
    using assms(1) by (auto simp: ws_course_def streaming_def wsl.fed_def)
  then show ?thesis using assms(2,3) unfolding ws_carries_def by auto
qed

text \<open>
  A WebSocket viewer whose handshake is complete and whose client stays
  silent is sent binary frames whose payloads, put together, are the codec prefix
  and the publisher's bytes from the anchor on: for every interleaving of writes
  and pumps and all answers of the socket, as long as the link is alive.
\<close>

theorem viewer_ws_verbatim:
  assumes "ring_holds (rve_ring e) h" "length h + length (published es) < 2 ^ 64"
    and "sc_join_offset (rve_sc e) = Some a" "resident (rve_ring e) a"
    and "vw_ws v = Some w" "vw_ws_ready v" "done_headers w" "ws_tx_inv w"
    and "vw_rtsp v = None" "vw_out v = []" "vw_out_sent v = 0"
    and "vw_ws (vw_run clk (rve_ring e) (fst (begin_ws accept_of e v peek inp inp2 outs)) es) = Some w'" "ws_alive w'"
  shows "\<exists>cs k. ws_stream w' = ws_stream w @ concat (map (server_frame WS_OP_BIN) cs)
      \<and> concat cs = take k (sc_prefix (rve_sc e) @ drop a (h @ published es))"
  by (rule ws_course_stream [OF wc.vw_run_course [OF begin_ws_course [OF assms(3,4,1,5-11)] assms(1,2)] assms(12,13)])

theorem viewer_ws_verbatim_witness:
  "\<exists>w' cs k. vw_ws (vw_run (\<lambda>_. (0, 0, 0)) (rve_ring ex_vw_env)
        (fst (begin_ws (\<lambda>s. s) ex_vw_env (ex_viewer\<lparr> vw_ws := Some (ws_open 1000), vw_ws_ready := True \<rparr>) [] R_again R_again [])) [Publish [4]])
      = Some w' \<and> ws_stream w' = concat (map (server_frame WS_OP_BIN) cs) \<and> concat cs = take k [9, 8, 2, 3, 4]"
proof -
  let ?v = "ex_viewer\<lparr> vw_ws := Some (ws_open 1000), vw_ws_ready := True \<rparr>"
  have f: "fst (begin_ws (\<lambda>s. s) ex_vw_env ?v [] R_again R_again []) = ?v\<lparr> vw_prefix := [9, 8], vw_prefix_sent := 0, vw_read_pos := 1,
      vw_streaming := True, vw_state := VV_STREAMING, vw_last_progress := 0 \<rparr>"
    using ex_vw_ready by (simp add: begin_ws_def Let_def ex_vw_env_def)
  have r: "vw_ws (vw_run (\<lambda>_. (0, 0, 0)) (rve_ring ex_vw_env) (fst (begin_ws (\<lambda>s. s) ex_vw_env ?v [] R_again R_again [])) [Publish [4]])
      = Some (ws_open 1000)" by (simp add: f)
  have o: "done_headers (ws_open 1000)" "ws_tx_inv (ws_open 1000)" "ws_alive (ws_open 1000)" "ws_stream (ws_open 1000) = []"
    by (simp_all add: ws_open_def ws_tx_inv_def ws_stream_def)
  from viewer_ws_verbatim [OF ex_vw_ready(1) _ ex_vw_ready(2,3) _ _ o(1,2) _ _ _ r o(3)]
  show ?thesis using r o(4) by (simp add: ex_vw_ready ex_viewer_def)
qed

section \<open>Admission\<close>

lemma begin_stream_starts: "vw_streaming (begin_stream e v http) \<Longrightarrow>
    \<exists>a. sc_join_offset (rve_sc e) = Some a \<and> resident (rve_ring e) a \<and> vw_read_pos (begin_stream e v http) = a"
  by (auto simp: begin_stream_def vw_fail_def Let_def split: option.splits if_splits)

lemma vw_fail_stops [simp]: "\<not> vw_streaming (vw_fail v code reason txt)"
  by (simp add: vw_fail_def Let_def)

lemma classify_http_admits:
  assumes "vw_streaming (classify_http e v s)" "\<not> vw_streaming v"
  shows "\<exists>req. hr_feed hr_new s = (req, Hr_complete) \<and> hr_method req = ''GET'' \<and> ws_authorise e v req
     \<and> (\<exists>a. sc_join_offset (rve_sc e) = Some a \<and> resident (rve_ring e) a)"
proof -
  obtain req r where f: "hr_feed hr_new s = (req, r)" by (cases "hr_feed hr_new s")
  have w: "ws_authorise e (v\<lparr> vw_kind := k, vw_req := q \<rparr>) x = ws_authorise e v x" for k q x by (simp add: ws_authorise_def)
  have "r = Hr_complete" "vw_streaming (serve_http e (v\<lparr> vw_kind := VVK_HTTP \<rparr>) req)"
    using assms f by (auto simp: classify_http_def Let_def split: feed_result.splits if_splits)
  moreover from this(2) have "hr_method req = ''GET''" "ws_authorise e v req"
      "vw_streaming (begin_stream e (v\<lparr> vw_kind := VVK_HTTP, vw_req := req \<rparr>) True)"
    by (auto simp: serve_http_def Let_def w split: if_splits)
  ultimately show ?thesis using f begin_stream_starts by blast
qed

lemma classify_admits:
  assumes "classify e random v buf inp2 = (v', keep)" "vw_streaming v'" "\<not> vw_streaming v"
  shows "v' = classify_http e v (bytes_str buf)"
  using assms
  by (auto simp: classify_def classify_rtsp_def Let_def split: option.splits if_splits prod.splits)

definition joinable :: "rv_env \<Rightarrow> bool" where
  "joinable e = (\<exists>a. sc_join_offset (rve_sc e) = Some a \<and> resident (rve_ring e) a)"

lemma readable_admits:
  assumes "vw_state v = VV_DETECT" "vw_rtsp v = None" "\<not> vw_streaming v"
    and "vw_on_readable accept_of e random v inp inp2 outs = (v', keep)" "vw_streaming v'"
  shows "\<exists>d req. inp = R_data d \<and> hr_feed hr_new (bytes_str (take PEEK_SIZE d)) = (req, Hr_complete) \<and> hr_method req = ''GET''
     \<and> ws_authorise e v req \<and> joinable e"
proof -
  let ?v = "v\<lparr> vw_holding := False \<rparr>"
  obtain d where d: "inp = R_data d" "classify e random ?v (take PEEK_SIZE d) inp2 = (v', keep)"
    using assms by (auto simp: vw_on_readable_def Let_def split: if_splits net_read.splits)
  have "vw_streaming (classify_http e ?v (bytes_str (take PEEK_SIZE d)))"
    using classify_admits [OF d(2) assms(5)] assms(3,5) by simp
  from classify_http_admits [OF this] assms(3) have
    "\<exists>req. hr_feed hr_new (bytes_str (take PEEK_SIZE d)) = (req, Hr_complete) \<and> hr_method req = ''GET'' \<and> ws_authorise e ?v req \<and> joinable e"
    unfolding joinable_def by simp
  then show ?thesis using d(1) by (simp add: ws_authorise_def)
qed

lemma timeout_admits:
  assumes "vw_state v = VV_DETECT" "vw_detect_timeout e v = (v', keep)" "vw_streaming v'" "\<not> vw_streaming v"
  shows "video_slot_opts_of (rve_ke e) (nat (rve_slot e)) AND VIDEO_SLOT_RAW_TCP \<noteq> 0 \<and> \<not> any_nonzero (video_viewer_key (rve_ke e))
     \<and> joinable e"
proof -
  have c: "video_slot_opts_of (rve_ke e) (nat (rve_slot e)) AND VIDEO_SLOT_RAW_TCP \<noteq> 0" "\<not> any_nonzero (video_viewer_key (rve_ke e))"
    "v' = begin_stream e (v\<lparr> vw_kind := VVK_RAW \<rparr>) False"
    using assms by (auto simp: vw_detect_timeout_def Let_def split: if_splits)
  then show ?thesis using begin_stream_starts assms(3) unfolding joinable_def by blast
qed

lemma ws_authorise_password:
  "ws_authorise e v req \<Longrightarrow> any_nonzero (video_viewer_key (rve_ke e)) \<longrightarrow>
     video_token_valid (cr_hmac (rve_cr e)) (rve_ke e) (vw_port2 v) (rve_slot e) (hr_query_param req ''t'') (rve_now e)
     \<or> (\<exists>pw \<in> {hr_query_param req ''pw'', http_basic_password (cr_b64 (rve_cr e)) (hr_header req ''Authorization'')}.
          video_password_matches (cr_sha (rve_cr e)) (video_viewer_key (rve_ke e)) pw)"
  by (auto simp: ws_authorise_def video_viewer_authorised_def Let_def split: if_splits)



section \<open>WebSocket viewers over TLS\<close>

text \<open>
  C33.  A TLS ClientHello makes the connection a WebSocket viewer before any
  request is read, and the WebSocket path never looks at the key entry: from
  classification to the start of the stream, the outcome is the same for every
  key entry, so a viewer password does not bind viewers that use \<open>wss://\<close>.
\<close>

theorem viewer_tls_unauthorised:
  assumes "vw_state v = VV_DETECT" "vw_rtsp v = None" "vw_kind v \<noteq> VVK_WS"
  shows "vw_on_readable accept_of e random v (R_data (0x16 # 0x03 # 0x01 # ds)) inp2 outs
           = (v\<lparr> vw_holding := False, vw_kind := VVK_WS \<rparr>, True)
    \<and> begin_ws accept_of (e\<lparr> rve_ke := ke \<rparr>) v' peek inp inp2 outs = begin_ws accept_of e v' peek inp inp2 outs"
proof -
  have "\<exists>n. PEEK_SIZE = Suc (Suc (Suc n))" by (simp add: PEEK_SIZE_def numeral_eq_Suc)
  then obtain n where n: "PEEK_SIZE = Suc (Suc (Suc n))" ..
  have "find (\<lambda>m. take (length m) (bytes_str (0x16 # 0x03 # 0x01 # xs)) = m) rtsp_methods = None" for xs
    by (simp add: rtsp_methods_def bytes_str_def char_of_def bit_numeral_rec bit_0)
  then have "vw_on_readable accept_of e random v (R_data (0x16 # 0x03 # 0x01 # ds)) inp2 outs
           = (v\<lparr> vw_holding := False, vw_kind := VVK_WS \<rparr>, True)"
    using assms by (simp add: vw_on_readable_def classify_def n wss_prefix_def Let_def)
  moreover have "rve_sc (e\<lparr> rve_ke := ke \<rparr>) = rve_sc e" "rve_ring (e\<lparr> rve_ke := ke \<rparr>) = rve_ring e"
    "rve_now (e\<lparr> rve_ke := ke \<rparr>) = rve_now e" by simp_all
  ultimately show ?thesis by (simp only: begin_ws_def simp_thms)
qed

theorem viewer_tls_unauthorised_witness:
  "vw_kind (fst (vw_on_readable (\<lambda>s. s) ex_vw_env None ex_viewer (R_data [0x16, 0x03, 0x01]) R_again [])) = VVK_WS"
  using viewer_tls_unauthorised [of ex_viewer "\<lambda>s. s" ex_vw_env None "[]" R_again "[]"] by (simp add: ex_viewer_def)

section \<open>An upgrade without a key\<close>

definition ex_keyless :: bytes where
  "ex_keyless = str_bytes (''GET / HTTP/1.1'' @ crlf @ ''Upgrade: websocket'' @ crlf @ crlf)"

lemma link_send_lost:
  assumes "vw_ws v = Some w" "\<not> done_headers w"
  shows "link_send ea v buf outs = (v, outs, L_sent (length buf))"
proof -
  have "v\<lparr> vw_ws := Some w \<rparr> = v" using assms(1) by (cases v) simp
  then show ?thesis using assms by (simp add: link_send_def ws_send_def)
qed

lemma inj_str_byte: "inj (\<lambda>c. byte_of (of_char c))"
  by (rule injI) (metis bytes_str_str_bytes list.inject list.simps(8,9) str_bytes_def)

lemma find_sub_map:
  assumes "inj f" shows "find_sub (map f pat) (map f xs) = find_sub pat xs"
proof -
  have e: "take (length pat) (map f ys) = map f pat \<longleftrightarrow> take (length pat) ys = pat" for ys
    using inj_map_eq_map [OF assms] by (simp add: take_map)
  have e2: "take (length pat) (f x # map f ys) = map f pat \<longleftrightarrow> take (length pat) (x # ys) = pat" for x ys
    using e [of "x # ys"] by simp
  show ?thesis by (induction xs) (simp_all only: list.map find_sub.simps length_map e2 map_is_Nil_conv)
qed

lemma ex_keyless_ws:
  "\<exists>w. ws_new (\<lambda>s. s) ex_keyless WS_DEFAULT_MAX_MESSAGE (R_data ex_keyless) [] = (w, []) \<and> \<not> done_headers w \<and> req_target w = ''/''
     \<and> ws_alive w \<and> ws_stream w = [] \<and> ws_recv (\<lambda>s. s) w 512 R_again [] = (w, [], Some [])"
proof -
  define hd0 where "hd0 = ''GET / HTTP/1.1'' @ crlf @ ''Upgrade: websocket'' @ crlf @ crlf"
  have k: "ex_keyless = str_bytes hd0" by (simp add: ex_keyless_def hd0_def)
  have f: "find_sub (str_bytes (crlf @ crlf)) ex_keyless = Some 34"
  proof -
    have "find_sub (str_bytes (crlf @ crlf)) ex_keyless = find_sub (crlf @ crlf) hd0"
      unfolding k str_bytes_def by (rule find_sub_map) (rule inj_str_byte)
    also have "\<dots> = Some 34" by (simp add: hd0_def crlf_def)
    finally show ?thesis .
  qed
  have t: "header_target hd0 = Some ''/''" "header_key hd0 = None"
    by (simp_all add: header_target_def header_key_def hd0_def crlf_def find_sub_from_def seg_def key_marker_def)
  have l: "length hd0 = 38" "str_bytes hd0 \<noteq> []" by (simp_all add: hd0_def crlf_def str_bytes_def)
  define w where "w = \<lparr> ws_alive = True, ws_ssl = (length ex_keyless \<ge> length wss_prefix \<and> take (length wss_prefix) ex_keyless = wss_prefix),
      done_headers = False, sent_close = False, max_message = WS_DEFAULT_MAX_MESSAGE, ws_rx = ex_keyless, ws_msg = [],
      msg_taken = 0, in_fragment = False, ws_tx = [], tx_sent = 0, tls_tx = [], req_target = ''/'', handshake_buf = [],
      handshake_sent = 0, ws_wire = [] \<rparr>"
  have c: "check_headers (\<lambda>s. s) (w\<lparr> req_target := x \<rparr>) [] = (w, [])" for x
    using f t l by (simp add: check_headers_def w_def k Let_def bytes_str_str_bytes)
  have "ws_new (\<lambda>s. s) ex_keyless WS_DEFAULT_MAX_MESSAGE (R_data ex_keyless) [] = (w, [])"
    using c [of "[]"] l by (simp add: ws_new_def fill_pending_def w_def k WS_READ_CHUNK_def)
  moreover have "ws_recv (\<lambda>s. s) w 512 R_again [] = (w, [], Some [])"
    using c [of "''/''"] l by (simp add: ws_recv_def fill_pending_def w_def k WS_DEFAULT_MAX_MESSAGE_def)
  moreover have "ws_stream w = []" by (simp add: ws_stream_def w_def)
  ultimately show ?thesis by (intro exI [of _ w]) (simp add: w_def)
qed

text \<open>
  A WebSocket upgrade without a \<open>Sec-WebSocket-Key\<close> sets the request target
  but never completes the handshake.  The viewer starts to stream all the same:
  one pump takes the codec prefix and the ring as sent, and the peer is owed
  nothing.  (An open entry is used; admission only sees the request.)
\<close>

theorem viewer_keyless_loses:
  "\<exists>v w. begin_ws (\<lambda>s. s) ex_vw_env (ex_viewer\<lparr> vw_kind := VVK_WS \<rparr>) ex_keyless (R_data ex_keyless) R_again [] = (v, True)
     \<and> vw_ws v = Some w \<and> vw_state v = VV_STREAMING \<and> ws_stream w = []
     \<and> (\<exists>v2. vw_on_writable (\<lambda>_. (0, 0, 0)) False v (rve_ring ex_vw_env) 1 [] = (v2, [], True)
          \<and> vw_prefix_sent v2 = 2 \<and> vw_read_pos v2 = 3 \<and> vw_bytes_sent v2 = 2 \<and> vw_ws v2 = Some w)"
proof -
  obtain w where w: "ws_new (\<lambda>s. s) ex_keyless WS_DEFAULT_MAX_MESSAGE (R_data ex_keyless) [] = (w, [])" "\<not> done_headers w"
    "req_target w = ''/''" "ws_stream w = []" "ws_recv (\<lambda>s. s) w 512 R_again [] = (w, [], Some [])" using ex_keyless_ws by blast
  define v where "v = ex_viewer\<lparr> vw_kind := VVK_WS, vw_ws := Some w, vw_ws_ready := True, vw_prefix := [9, 8], vw_read_pos := 1,
      vw_streaming := True, vw_state := VV_STREAMING \<rparr>"
  define p where "p = v\<lparr> vw_prefix_sent := 2, vw_last_progress := 1 \<rparr>"
  define q where "q = p\<lparr> vw_read_pos := 3, vw_bytes_sent := 2, vw_blocked := False \<rparr>"
  have b: "begin_ws (\<lambda>s. s) ex_vw_env (ex_viewer\<lparr> vw_kind := VVK_WS \<rparr>) ex_keyless (R_data ex_keyless) R_again [] = (v, True)"
    using w ex_vw_ready by (simp add: begin_ws_def ex_viewer_def v_def Let_def ex_vw_env_def)
  have wp: "ring_wpos (rve_ring ex_vw_env) = 3" using ex_vw_ready(1) by (simp add: ring_holds_def)
  have rd: "read_at (rve_ring ex_vw_env) 1 READ_CHUNK = [2, 3]"
    using ring.get_holds [OF ex_vw_ready(1), of 1 READ_CHUNK] ex_vw_ready(3) resident_holds [OF ex_vw_ready(1), of 1]
    by (simp add: READ_CHUNK_def)
  have lk: "vw_ws x = Some w \<Longrightarrow> link_send False x buf [] = (x, [], L_sent (length buf))" for x buf
    using link_send_lost w(2) by simp
  have pl: "prefix_loop False v 1 [] = (p, [], P_go)"
    by (subst prefix_loop.simps) (simp add: lk v_def ex_viewer_def p_def seg_def PREFIX_CHUNK_def prefix_loop.simps)
  have rl0: "ring_loop False q (rve_ring ex_vw_env) k 1 [] = (q, [], True)" for k
    by (subst ring_loop.simps) (simp add: q_def wp)
  have rl: "ring_loop False p (rve_ring ex_vw_env) VIDEO_VIEWER_WRITE_CHUNK 1 [] = (q, [], True)"
    using rd lk [of p] rl0 by (subst ring_loop.simps) (simp add: wp p_def v_def q_def ex_viewer_def VIDEO_VIEWER_WRITE_CHUNK_def READ_CHUNK_def
        numeral_2_eq_2 numeral_3_eq_3)
  have lg: "\<exists>v2. lag_verdict q (rve_ring ex_vw_env) 1 = (v2, True) \<and> vw_prefix_sent v2 = 2 \<and> vw_read_pos v2 = 3 \<and> vw_bytes_sent v2 = 2
      \<and> vw_ws v2 = Some w"
    by (simp add: lag_verdict_def wp q_def p_def v_def u64_def Let_def)
  have "vw_on_writable (\<lambda>_. (0, 0, 0)) False v (rve_ring ex_vw_env) 1 [] = vw_stream False v (rve_ring ex_vw_env) 1 []"
    using vw_flush_Nil [of v 1 "[]"] by (simp add: vw_on_writable_def v_def ex_viewer_def)
  also have "\<dots> = (fst (lag_verdict q (rve_ring ex_vw_env) 1), [], snd (lag_verdict q (rve_ring ex_vw_env) 1))"
    using pl rl ex_vw_ready(3) by (simp add: vw_stream_def v_def split: prod.splits)
  finally show ?thesis using b lg w(4) by (intro exI [of _ v] exI [of _ w]) (auto simp: v_def)
qed

end
