(* ===== verification/Log_Cleanup.thy ===== *)
theory Log_Cleanup
  imports Complex_Main "HOL-Library.Multiset" Key_Db
begin

text \<open>
  Retention and disk quotas (\<open>src/cleanup.cpp\<close>).

  The log tree of one entry, \<open>logs/<port2>\<close>, is the list of its directory
  entries in the order \<open>readdir\<close> gives them; a date directory holds files with
  the answer \<open>stat\<close> gives (allocated 512-byte blocks and mtime, or a failure).
  \<open>may d n\<close> says whether \<open>unlink\<close> of file \<open>n\<close> in directory \<open>d\<close> succeeds.
  Sizes are unbounded integers: the allocated bytes of a file system fit
  \<open>off_t\<close>.  The products and comparisons of the retention age are exact in a
  \<open>double\<close>, so they are rationals here, beside the non-finite values.

  Shown: what each pass removes is what it may remove (video never evicts
  telemetry, live files stay), the oldest files go first and no more of them
  than needed, and the pass reaches its target or runs out of candidates.
\<close>

section \<open>Settings\<close>

definition parse_quota_env :: "string option \<Rightarrow> int \<Rightarrow> int" where
  "parse_quota_env env dflt = (case env_number env of Some v \<Rightarrow> if v > 0 then v else dflt | None \<Rightarrow> dflt)"

definition port2_quota_bytes :: "string option \<Rightarrow> int" where
  "port2_quota_bytes env =
     (let cached = 1024 * 1024 * 1024
      in case env_number env of Some v \<Rightarrow> if v > 0 then v else cached | None \<Rightarrow> cached)"

definition port2_video_quota_bytes :: "string option \<Rightarrow> int" where
  "port2_video_quota_bytes env = parse_quota_env env (4 * 1024 * 1024 * 1024)"

definition active_file_grace_s :: "string option \<Rightarrow> int" where
  "active_file_grace_s env = (case env_number env of Some v \<Rightarrow> if v \<ge> 0 then v else 60 | None \<Rightarrow> 60)"

text \<open>\<open>vfs\<close> is the answer of \<open>statvfs\<close>: blocks available, blocks and fragment size.\<close>

definition video_have_free_space :: "(nat \<times> nat \<times> nat) option \<Rightarrow> bool" where
  "video_have_free_space vfs =
     (case vfs of None \<Rightarrow> True
      | Some (bavail, blocks, frsize) \<Rightarrow>
          let free_bytes = u64 (bavail * frsize); tot = u64 (blocks * frsize);
              floor_abs = 2 * 1024 * 1024 * 1024; floor_pct = tot div 20
          in free_bytes > (if floor_abs > floor_pct then floor_abs else floor_pct))"

section \<open>Session files\<close>

datatype session_kind = SESSION_NONE | SESSION_TELEM | SESSION_VIDEO

definition slot_digit :: "char \<Rightarrow> bool" where
  "slot_digit c = (c \<in> set ''123456789'')"

definition session_file_kind :: "string \<Rightarrow> session_kind" where
  "session_file_kind name =
     (let n = length name
      in if n > 5 \<and> drop (n - 5) name = ''.tlog'' then SESSION_TELEM
         else if n > 4 \<and> drop (n - 4) name = ''.bin'' then SESSION_TELEM
         else if n > 6 \<and> drop (n - 3) name = ''.ts'' \<and> name ! (n - 6) = CHR ''.'' \<and> name ! (n - 5) = CHR ''v''
              \<and> slot_digit (name ! (n - 4)) then SESSION_VIDEO
         else if n > 7 \<and> drop (n - 4) name = ''.mkv'' \<and> name ! (n - 7) = CHR ''.'' \<and> name ! (n - 6) = CHR ''v''
              \<and> slot_digit (name ! (n - 5)) then SESSION_VIDEO
         else SESSION_NONE)"

definition is_session_file :: "string \<Rightarrow> bool" where
  "is_session_file name = (session_file_kind name \<noteq> SESSION_NONE)"

record log_file =
  lf_name :: string
  lf_stat :: "(int \<times> int) option"

text \<open>\<open>Not_dir\<close> is an entry that is no directory, or that cannot be examined or opened.\<close>

datatype dir_node = Date_dir "log_file list" | Not_dir

type_synonym port_tree = "(string \<times> dir_node) list"

definition dotted :: "string \<Rightarrow> bool" where
  "dotted name = (take 1 name = ''.'')"

definition remove_file :: "string \<Rightarrow> string \<Rightarrow> port_tree \<Rightarrow> port_tree" where
  "remove_file d n t = map (\<lambda>(d', nd). (d', case nd of
       Date_dir fs \<Rightarrow> if d' = d then Date_dir (filter (\<lambda>f. lf_name f \<noteq> n) fs) else nd
     | Not_dir \<Rightarrow> nd)) t"

text \<open>\<open>rmdir\<close> fails on a directory that is not empty.\<close>

definition remove_dir :: "string \<Rightarrow> port_tree \<Rightarrow> port_tree" where
  "remove_dir d t = filter (\<lambda>e. e \<noteq> (d, Date_dir [])) t"

section \<open>The quota pass\<close>

record quota_item =
  qi_dir :: string
  qi_name :: string
  qi_size :: int
  qi_mtime :: int

record quota_env =
  qe_clock :: int
  qe_grace :: int
  qe_may :: "string \<Rightarrow> string \<Rightarrow> bool"
  qe_sort :: "quota_item list \<Rightarrow> quota_item list"

fun scan_files :: "quota_env \<Rightarrow> session_kind \<Rightarrow> string \<Rightarrow> log_file list \<Rightarrow> int \<times> quota_item list" where
  "scan_files e kind d [] = (0, [])"
| "scan_files e kind d (f # fs) =
     (let (tot, items) = scan_files e kind d fs
      in if dotted (lf_name f) \<or> session_file_kind (lf_name f) \<noteq> kind then (tot, items)
         else case lf_stat f of
           None \<Rightarrow> (tot, items)
         | Some (blocks, mtime) \<Rightarrow>
             (blocks * 512 + tot,
              if qe_clock e - mtime < qe_grace e then items
              else \<lparr> qi_dir = d, qi_name = lf_name f, qi_size = blocks * 512, qi_mtime = mtime \<rparr> # items))"

fun scan_tree :: "quota_env \<Rightarrow> session_kind \<Rightarrow> port_tree \<Rightarrow> int \<times> quota_item list" where
  "scan_tree e kind [] = (0, [])"
| "scan_tree e kind ((d, nd) # t) =
     (let (tot, items) = scan_tree e kind t
      in if dotted d then (tot, items)
         else case nd of
           Not_dir \<Rightarrow> (tot, items)
         | Date_dir fs \<Rightarrow> let (tot1, items1) = scan_files e kind d fs in (tot1 + tot, items1 @ items))"

text \<open>The deletion loop over the sorted candidates.\<close>

fun quota_loop :: "quota_env \<Rightarrow> int \<Rightarrow> int \<Rightarrow> quota_item list \<Rightarrow> int \<Rightarrow> port_tree \<Rightarrow> int \<times> port_tree" where
  "quota_loop e needed target [] tot t = (tot, t)"
| "quota_loop e needed target (it # its) tot t =
     (if tot + needed \<le> target then (tot, t)
      else if qe_may e (qi_dir it) (qi_name it)
      then quota_loop e needed target its (tot - qi_size it) (remove_dir (qi_dir it) (remove_file (qi_dir it) (qi_name it) t))
      else quota_loop e needed target its tot t)"

text \<open>\<open>quota / 5\<close> truncates towards zero; quotas are positive.\<close>

definition enforce_quota :: "quota_env \<Rightarrow> session_kind \<Rightarrow> int \<Rightarrow> int \<Rightarrow> port_tree \<Rightarrow> port_tree" where
  "enforce_quota e kind quota needed t =
     (let (tot, items) = scan_tree e kind t
      in if tot + needed \<le> quota then t
         else snd (quota_loop e needed (quota - quota div 5) (qe_sort e items) tot t))"

section \<open>The retention pass\<close>

text \<open>A \<open>float\<close> read from the database, widened to \<open>double\<close>.\<close>

datatype f64 = Finite rat | Pos_inf | Neg_inf | Not_a_number

definition float_pow :: "rat \<Rightarrow> int \<Rightarrow> rat" where
  "float_pow m k = (if k \<ge> 0 then m * 2 ^ nat k else m / 2 ^ nat (- k))"

definition float_value :: "32 word \<Rightarrow> f64" where
  "float_value w =
     (let s = bit w 31; ex = unat (take_bit 8 (drop_bit 23 w)); fr = unat (take_bit 23 w)
      in if ex = 255 then if fr \<noteq> 0 then Not_a_number else if s then Neg_inf else Pos_inf
         else
           let m = (if ex = 0 then float_pow (of_nat fr) (- 149) else float_pow (of_nat (2 ^ 23 + fr)) (int ex - 150))
           in Finite (if s then - m else m))"

text \<open>\<open>age > retention_days * 86400.0\<close>.\<close>

definition too_old :: "f64 \<Rightarrow> int \<Rightarrow> bool" where
  "too_old days age = (case days of Finite r \<Rightarrow> of_int age > r * 86400 | Neg_inf \<Rightarrow> True | _ \<Rightarrow> False)"

fun retention_files :: "(string \<Rightarrow> string \<Rightarrow> bool) \<Rightarrow> f64 \<Rightarrow> int \<Rightarrow> string \<Rightarrow> log_file list \<Rightarrow> log_file list \<times> nat" where
  "retention_files may days now d [] = ([], 0)"
| "retention_files may days now d (f # fs) =
     (let (kept, remaining) = retention_files may days now d fs
      in if dotted (lf_name f) then (f # kept, remaining)
         else case lf_stat f of
           Some (blocks, mtime) \<Rightarrow>
             if is_session_file (lf_name f) \<and> too_old days (now - mtime) \<and> may d (lf_name f) then (kept, remaining)
             else (f # kept, remaining + 1)
         | None \<Rightarrow> (f # kept, remaining + 1))"

fun retention_dirs :: "(string \<Rightarrow> string \<Rightarrow> bool) \<Rightarrow> f64 \<Rightarrow> int \<Rightarrow> port_tree \<Rightarrow> port_tree" where
  "retention_dirs may days now [] = []"
| "retention_dirs may days now ((d, nd) # t) =
     (case nd of
        Not_dir \<Rightarrow> (d, nd) # retention_dirs may days now t
      | Date_dir fs \<Rightarrow>
          if dotted d then (d, nd) # retention_dirs may days now t
          else
            let (kept, remaining) = retention_files may days now d fs
            in if remaining = 0 \<and> kept = [] then retention_dirs may days now t
               else (d, Date_dir kept) # retention_dirs may days now t)"

definition not_positive :: "f64 \<Rightarrow> bool" where
  "not_positive days = (case days of Finite r \<Rightarrow> r \<le> 0 | Neg_inf \<Rightarrow> True | _ \<Rightarrow> False)"

definition retention_pass :: "(string \<Rightarrow> string \<Rightarrow> bool) \<Rightarrow> f64 \<Rightarrow> int \<Rightarrow> port_tree \<Rightarrow> port_tree" where
  "retention_pass may days now t = (if not_positive days then t else retention_dirs may days now t)"

section \<open>A pass over the database\<close>

record clean_cfg =
  cc_env :: quota_env
  cc_now :: int
  cc_quota :: int
  cc_video_quota :: int

definition cleanup_for_port2 :: "clean_cfg \<Rightarrow> f64 \<Rightarrow> 32 word \<Rightarrow> port_tree \<Rightarrow> port_tree" where
  "cleanup_for_port2 c days video_mb t =
     (let t1 = retention_pass (qe_may (cc_env c)) days (cc_now c) t;
          t2 = enforce_quota (cc_env c) SESSION_TELEM (cc_quota c) 0 t1;
          vquota = (if video_mb \<noteq> 0 then uint video_mb * 1024 * 1024 else cc_video_quota c)
      in enforce_quota (cc_env c) SESSION_VIDEO vquota 0 t2)"

text \<open>\<open>logs\<close> gives the tree of each port; an entry without a directory has none.\<close>

type_synonym log_root = "nat \<Rightarrow> port_tree option"

definition clean_record :: "clean_cfg \<Rightarrow> log_root \<Rightarrow> bytes \<times> bytes \<Rightarrow> log_root" where
  "clean_record c logs kv =
     (let (key, data) = kv; port2 = sint (u32_of key); k = key_decode (zero_extend KEYENTRY_SIZE data)
      in if length key \<noteq> 4 \<or> length data < KEYENTRY_MIN_SIZE \<or> port2 \<le> 0 \<or> ke_magic k \<noteq> KEY_MAGIC then logs
         else logs(nat port2 := map_option (cleanup_for_port2 c (float_value (log_retention_days k)) (video_quota_mb k))
                                  (logs (nat port2))))"

definition log_cleanup_once :: "'db tdb_ops \<Rightarrow> clean_cfg \<Rightarrow> 'db option \<Rightarrow> log_root \<Rightarrow> log_root" where
  "log_cleanup_once T c db logs = (case db of None \<Rightarrow> logs | Some d \<Rightarrow> foldl (clean_record c) logs (tdb_records T d))"

definition log_cleanup_port2_quota :: "quota_env \<Rightarrow> string option \<Rightarrow> int \<Rightarrow> port_tree \<Rightarrow> port_tree" where
  "log_cleanup_port2_quota e env needed t = enforce_quota e SESSION_TELEM (port2_quota_bytes env) needed t"

definition log_cleanup_port2_video_quota :: "quota_env \<Rightarrow> string option \<Rightarrow> int \<Rightarrow> int \<Rightarrow> port_tree \<Rightarrow> port_tree" where
  "log_cleanup_port2_video_quota e env quota needed t =
     enforce_quota e SESSION_VIDEO (if quota > 0 then quota else port2_video_quota_bytes env) needed t"

section \<open>What a pass removes\<close>

text \<open>The files of a tree in the order of the walk, each with its directory.\<close>

definition node_list :: "string \<times> dir_node \<Rightarrow> (string \<times> log_file) list" where
  "node_list x = (case snd x of Date_dir fs \<Rightarrow> map (Pair (fst x)) fs | Not_dir \<Rightarrow> [])"

definition tree_list :: "port_tree \<Rightarrow> (string \<times> log_file) list" where
  "tree_list t = concat (map node_list t)"

definition file_key :: "string \<times> log_file \<Rightarrow> string \<times> string" where
  "file_key x = (fst x, lf_name (snd x))"

text \<open>No two files of the tree have the same path.\<close>

definition wf_tree :: "port_tree \<Rightarrow> bool" where
  "wf_tree t = distinct (map file_key (tree_list t))"

text \<open>The files a quota pass counts, and those it may delete: not hidden, of its kind, and not live.\<close>

definition counted :: "session_kind \<Rightarrow> string \<times> log_file \<Rightarrow> bool" where
  "counted kind x = (\<not> dotted (fst x) \<and> \<not> dotted (lf_name (snd x)) \<and> session_file_kind (lf_name (snd x)) = kind
     \<and> lf_stat (snd x) \<noteq> None)"

definition lf_size :: "log_file \<Rightarrow> int" where
  "lf_size f = (case lf_stat f of Some (b, m) \<Rightarrow> b * 512 | None \<Rightarrow> 0)"

definition lf_mtime :: "log_file \<Rightarrow> int" where
  "lf_mtime f = (case lf_stat f of Some (b, m) \<Rightarrow> m | None \<Rightarrow> 0)"

definition candidate :: "quota_env \<Rightarrow> session_kind \<Rightarrow> string \<times> log_file \<Rightarrow> bool" where
  "candidate e kind x = (counted kind x \<and> qe_clock e - lf_mtime (snd x) \<ge> qe_grace e)"

definition the_item :: "string \<times> log_file \<Rightarrow> quota_item" where
  "the_item x = \<lparr> qi_dir = fst x, qi_name = lf_name (snd x), qi_size = lf_size (snd x), qi_mtime = lf_mtime (snd x) \<rparr>"

definition usage :: "session_kind \<Rightarrow> port_tree \<Rightarrow> int" where
  "usage kind t = sum_list (map (lf_size \<circ> snd) (filter (counted kind) (tree_list t)))"

definition item_key :: "quota_item \<Rightarrow> string \<times> string" where
  "item_key it = (qi_dir it, qi_name it)"

lemma item_key_the_item [simp]: "item_key (the_item x) = file_key x"
  by (simp add: item_key_def the_item_def file_key_def)

lemma scan_files_eq:
  "\<not> dotted d \<Longrightarrow> scan_files e kind d fs = (sum_list (map (lf_size \<circ> snd) (filter (counted kind) (map (Pair d) fs))),
     map the_item (filter (candidate e kind) (map (Pair d) fs)))"
  by (induction fs) (auto simp: candidate_def counted_def the_item_def lf_mtime_def lf_size_def split: option.splits)

lemma scan_tree_eq: "scan_tree e kind t = (usage kind t, map the_item (filter (candidate e kind) (tree_list t)))"
proof (induction t)
  case (Cons x t)
  obtain d nd where x: "x = (d, nd)" by fastforce
  have skip: "dotted d \<Longrightarrow> filter (counted kind) (node_list x) = [] \<and> filter (candidate e kind) (node_list x) = []"
    by (auto simp: x node_list_def candidate_def counted_def filter_empty_conv split: dir_node.splits)
  show ?case
    using Cons skip scan_files_eq [of d e kind]
    by (cases "dotted d"; cases nd) (auto simp: x usage_def tree_list_def node_list_def)
qed (simp add: usage_def tree_list_def)

lemma tree_list_remove_file: "tree_list (remove_file d n t) = filter (\<lambda>x. file_key x \<noteq> (d, n)) (tree_list t)"
proof (induction t)
  case (Cons x t)
  obtain d' nd where x: "x = (d', nd)" by fastforce
  have "node_list (d', case nd of Date_dir fs \<Rightarrow> if d' = d then Date_dir (filter (\<lambda>f. lf_name f \<noteq> n) fs) else nd | Not_dir \<Rightarrow> nd)
      = filter (\<lambda>x. file_key x \<noteq> (d, n)) (node_list x)"
    by (cases nd) (auto simp: node_list_def x filter_map comp_def file_key_def)
  then show ?case using Cons by (simp add: tree_list_def remove_file_def x)
qed (simp add: tree_list_def remove_file_def)

lemma tree_list_remove_dir: "tree_list (remove_dir d t) = tree_list t"
  by (induction t) (auto simp: tree_list_def remove_dir_def node_list_def)

definition drop_item :: "quota_item \<Rightarrow> port_tree \<Rightarrow> port_tree" where
  "drop_item it t = remove_dir (qi_dir it) (remove_file (qi_dir it) (qi_name it) t)"

lemma tree_list_drops: "tree_list (fold drop_item its t) = filter (\<lambda>x. file_key x \<notin> item_key ` set its) (tree_list t)"
proof (induction its arbitrary: t)
  case (Cons it its)
  then show ?case
    by (auto simp: drop_item_def tree_list_remove_dir tree_list_remove_file item_key_def intro!: filter_cong)
qed simp

text \<open>The loop deletes a run of the permitted candidates from the head, and stops on target or at
  the end.\<close>

lemma quota_loop_drops:
  "\<exists>k. quota_loop e needed target its tot t
      = (tot - sum_list (map qi_size (take k (filter (\<lambda>it. qe_may e (qi_dir it) (qi_name it)) its))),
         fold drop_item (take k (filter (\<lambda>it. qe_may e (qi_dir it) (qi_name it)) its)) t)
    \<and> (k < length (filter (\<lambda>it. qe_may e (qi_dir it) (qi_name it)) its) \<longrightarrow>
        tot - sum_list (map qi_size (take k (filter (\<lambda>it. qe_may e (qi_dir it) (qi_name it)) its))) + needed \<le> target)"
proof (induction its arbitrary: tot t)
  case (Cons it its)
  let ?ok = "\<lambda>it. qe_may e (qi_dir it) (qi_name it)"
  show ?case
  proof (cases "tot + needed \<le> target")
    case True
    then show ?thesis by (intro exI [of _ 0]) simp
  next
    case over: False
    show ?thesis
    proof (cases "?ok it")
      case True
      from Cons.IH [of "tot - qi_size it" "drop_item it t"] obtain k where
        k: "quota_loop e needed target its (tot - qi_size it) (drop_item it t)
            = (tot - qi_size it - sum_list (map qi_size (take k (filter ?ok its))), fold drop_item (take k (filter ?ok its)) (drop_item it t))"
           "k < length (filter ?ok its) \<longrightarrow> tot - qi_size it - sum_list (map qi_size (take k (filter ?ok its))) + needed \<le> target"
        by blast
      show ?thesis using over True k by (intro exI [of _ "Suc k"]) (simp flip: drop_item_def add: algebra_simps)
    next
      case False
      then show ?thesis using over Cons.IH [of tot t] by simp
    qed
  qed
qed simp

section \<open>The order of deletion\<close>

text \<open>What the pass needs from \<open>std::sort\<close> with the comparison of modification times: a permutation,
  in ascending order.  The order of equal times is left open.\<close>

locale mtime_sort =
  fixes srt :: "quota_item list \<Rightarrow> quota_item list"
  assumes srt_mset: "mset (srt its) = mset its"
    and srt_sorted: "sorted (map qi_mtime (srt its))"
begin

lemma srt_set: "set (srt its) = set its"
  using srt_mset mset_eq_setD by blast

lemma srt_distinct: "distinct (map item_key its) \<Longrightarrow> distinct (map item_key (srt its))"
  by (metis mset_eq_imp_distinct_iff mset_map srt_mset)

text \<open>In a run of permitted items from the head, every item is at most as young as every permitted
  item left.\<close>

lemma run_oldest:
  assumes "a \<in> set (take k (filter P (srt its)))" "b \<in> set its" "P b" "b \<notin> set (take k (filter P (srt its)))"
  shows "qi_mtime a \<le> qi_mtime b"
proof -
  let ?xs = "filter P (srt its)"
  have "b \<in> set ?xs" using assms srt_set by simp
  then have "b \<in> set (drop k ?xs)" using assms(4) by (metis append_take_drop_id Un_iff set_append)
  moreover have "sorted (map qi_mtime (take k ?xs) @ map qi_mtime (drop k ?xs))"
    using sorted_filter [OF srt_sorted, of P] by (metis append_take_drop_id map_append)
  ultimately show ?thesis using assms(1) by (auto simp: sorted_append)
qed

end

interpretation ssort: mtime_sort "sort_key qi_mtime"
  by unfold_locales simp_all

lemma item_size_the_item [simp]: "qi_size (the_item x) = lf_size (snd x)" "qi_mtime (the_item x) = lf_mtime (snd x)"
  by (simp_all add: the_item_def)

lemma sum_list_split: "sum_list (map g xs) = sum_list (map g (filter P xs)) + sum_list (map g (filter (\<lambda>x. \<not> P x) xs))"
  for g :: "'a \<Rightarrow> int"
  by (induction xs) simp_all

text \<open>Dropping candidates lowers the usage by their sizes.\<close>

lemma usage_drops:
  assumes "wf_tree t" "set its \<subseteq> the_item ` set (filter (counted kind) (tree_list t))" "distinct its"
  shows "usage kind (fold drop_item its t) = usage kind t - sum_list (map qi_size its)"
proof -
  let ?xs = "filter (counted kind) (tree_list t)"
  let ?in = "\<lambda>x. file_key x \<in> item_key ` set its"
  have inj: "inj_on file_key (set ?xs)" and d: "distinct ?xs"
    using assms(1) by (auto simp: wf_tree_def distinct_map inj_on_def)
  define ys where "ys = filter ?in ?xs"
  have "the_item ` set ys = set its"
  proof
    show "the_item ` set ys \<subseteq> set its"
    proof (clarsimp simp: ys_def)
      fix d f it assume x: "(d, f) \<in> set (tree_list t)" "counted kind (d, f)" "it \<in> set its" "file_key (d, f) = item_key it"
      obtain y where y: "y \<in> set ?xs" "it = the_item y" using assms(2) x(3) by blast
      then have "file_key y = file_key (d, f)" using x(4) by simp
      then have "y = (d, f)" using inj x(1,2) y(1) by (auto dest!: inj_onD)
      then show "the_item (d, f) \<in> set its" using x(3) y(2) by simp
    qed
    show "set its \<subseteq> the_item ` set ys" using assms(2) by (force simp: ys_def simp flip: item_key_the_item)
  qed
  moreover have "inj_on the_item (set ys)"
    using inj by (auto simp: ys_def inj_on_def simp flip: item_key_the_item)
  moreover have "distinct ys" unfolding ys_def using d by (rule distinct_filter)
  ultimately have "mset (map the_item ys) = mset its"
    using assms(3) by (metis distinct_map list.set_map set_eq_iff_mset_eq_distinct)
  then have "sum_list (map qi_size (map the_item ys)) = sum_list (map qi_size its)"
    by (metis mset_map sum_mset_sum_list)
  then have s: "sum_list (map (lf_size \<circ> snd) ?xs) = sum_list (map qi_size its)
      + sum_list (map (lf_size \<circ> snd) (filter (\<lambda>x. \<not> ?in x) ?xs))"
    using sum_list_split [of "lf_size \<circ> snd" ?xs ?in] by (simp add: comp_def ys_def)
  have "filter (counted kind) (tree_list (fold drop_item its t)) = filter (\<lambda>x. \<not> ?in x) ?xs"
    by (auto simp: tree_list_drops intro!: filter_cong)
  then show ?thesis using s by (simp add: usage_def)
qed

text \<open>A pass that has to free space deletes a run of the oldest permitted candidates.\<close>

lemma enforce_quota_drops:
  assumes "mtime_sort (qe_sort e)" "wf_tree t"
  obtains its where "enforce_quota e kind quota needed t = fold drop_item its t"
    "set its \<subseteq> the_item ` set (filter (candidate e kind) (tree_list t))"
    "\<forall>it \<in> set its. qe_may e (qi_dir it) (qi_name it)"
    "usage kind (fold drop_item its t) + needed \<le> quota - quota div 5 \<and> usage kind t + needed > quota
     \<or> usage kind t + needed \<le> quota \<and> its = []
     \<or> (\<forall>x \<in> set (filter (candidate e kind) (tree_list t)). qe_may e (fst x) (lf_name (snd x)) \<longrightarrow> the_item x \<in> set its)"
    "\<forall>it \<in> set its. \<forall>x \<in> set (filter (candidate e kind) (tree_list t)).
       qe_may e (fst x) (lf_name (snd x)) \<and> the_item x \<notin> set its \<longrightarrow> qi_mtime it \<le> lf_mtime (snd x)"
proof (cases "usage kind t + needed \<le> quota")
  case True
  then have "enforce_quota e kind quota needed t = fold drop_item [] t" by (simp add: enforce_quota_def scan_tree_eq)
  then show ?thesis using True by (intro that [of "[]"]) simp_all
next
  case False
  let ?ok = "\<lambda>it. qe_may e (qi_dir it) (qi_name it)"
  let ?cs = "map the_item (filter (candidate e kind) (tree_list t))"
  let ?s = "qe_sort e ?cs"
  let ?target = "quota - quota div 5"
  from quota_loop_drops [of e needed ?target ?s "usage kind t" t] obtain k where
    k: "quota_loop e needed ?target ?s (usage kind t) t
        = (usage kind t - sum_list (map qi_size (take k (filter ?ok ?s))), fold drop_item (take k (filter ?ok ?s)) t)"
       "k < length (filter ?ok ?s) \<longrightarrow> usage kind t - sum_list (map qi_size (take k (filter ?ok ?s))) + needed \<le> ?target"
    by blast
  define its where "its = take k (filter ?ok ?s)"
  have set_s: "set ?s = set ?cs" using mtime_sort.srt_set [OF assms(1)] by blast
  have "distinct (map item_key ?cs)"
    using assms(2) by (simp add: wf_tree_def comp_def distinct_map_filter)
  then have "distinct (map item_key ?s)" by (rule mtime_sort.srt_distinct [OF assms(1)])
  then have d: "distinct its" by (simp add: its_def distinct_map)
  have sub: "set its \<subseteq> set ?cs" using set_s by (auto simp: its_def dest: in_set_takeD)
  have ok: "\<forall>it \<in> set its. ?ok it" by (auto simp: its_def dest: in_set_takeD)
  have "set its \<subseteq> the_item ` set (filter (counted kind) (tree_list t))" using sub by (auto simp: candidate_def)
  then have u: "usage kind (fold drop_item its t) = usage kind t - sum_list (map qi_size its)"
    by (rule usage_drops [OF assms(2) _ d])
  have eq: "enforce_quota e kind quota needed t = fold drop_item its t"
    using False k by (simp add: enforce_quota_def scan_tree_eq its_def)
  have old: "qi_mtime it \<le> lf_mtime (snd x)"
    if "it \<in> set its" "x \<in> set (filter (candidate e kind) (tree_list t))" "qe_may e (fst x) (lf_name (snd x))" "the_item x \<notin> set its" for it x
    using mtime_sort.run_oldest [OF assms(1), of it k ?ok ?cs "the_item x"] that by (auto simp: its_def the_item_def)
  have all: "\<not> k < length (filter ?ok ?s) \<Longrightarrow> x \<in> set (filter (candidate e kind) (tree_list t)) \<Longrightarrow>
      qe_may e (fst x) (lf_name (snd x)) \<Longrightarrow> the_item x \<in> set its" for x
    using set_s by (simp add: its_def the_item_def)
  have reach: "usage kind (fold drop_item its t) + needed \<le> ?target \<and> usage kind t + needed > quota"
    if "k < length (filter ?ok ?s)"
    using k(2) [folded its_def] that False u by (intro conjI) linarith+
  show ?thesis
  proof (rule that [OF eq])
    show "set its \<subseteq> the_item ` set (filter (candidate e kind) (tree_list t))" using sub by (simp only: set_map)
    show "\<forall>it \<in> set its. ?ok it" by (rule ok)
    show "usage kind (fold drop_item its t) + needed \<le> ?target \<and> usage kind t + needed > quota
     \<or> usage kind t + needed \<le> quota \<and> its = []
     \<or> (\<forall>x \<in> set (filter (candidate e kind) (tree_list t)). qe_may e (fst x) (lf_name (snd x)) \<longrightarrow> the_item x \<in> set its)"
      using reach all by blast
    show "\<forall>it \<in> set its. \<forall>x \<in> set (filter (candidate e kind) (tree_list t)).
       qe_may e (fst x) (lf_name (snd x)) \<and> the_item x \<notin> set its \<longrightarrow> qi_mtime it \<le> lf_mtime (snd x)"
      using old by blast
  qed
qed

lemma permitted_key: "item_key (the_item y) = item_key it \<Longrightarrow> qe_may e (qi_dir it) (qi_name it) = qe_may e (fst y) (lf_name (snd y))"
  by (simp add: item_key_def the_item_def)

text \<open>In a well-formed tree the dropped items are the dropped files.\<close>

lemma drop_item_file:
  assumes "wf_tree t" "set its \<subseteq> the_item ` set (filter (candidate e kind) (tree_list t))" "x \<in> set (tree_list t)"
  shows "x \<notin> set (tree_list (fold drop_item its t)) \<longleftrightarrow> candidate e kind x \<and> the_item x \<in> set its"
proof
  assume "x \<notin> set (tree_list (fold drop_item its t))"
  then obtain it where it: "it \<in> set its" "file_key x = item_key it" using assms(3) by (auto simp: tree_list_drops)
  then obtain y where y: "y \<in> set (tree_list t)" "candidate e kind y" "it = the_item y" using assms(2) by auto
  then have "file_key y = file_key x" using it(2) by simp
  then have "y = x" using assms(1,3) y(1) by (auto simp: wf_tree_def distinct_map dest!: inj_onD)
  then show "candidate e kind x \<and> the_item x \<in> set its" using y it(1) by simp
qed (auto simp: tree_list_drops simp flip: item_key_the_item)

lemma wf_tree_drops: "wf_tree t \<Longrightarrow> wf_tree (fold drop_item its t)"
  by (simp add: wf_tree_def tree_list_drops distinct_map_filter)

text \<open>
  C34.  A quota pass deletes only files of its own kind that are not hidden, were
  not written within the grace window and may be unlinked; telemetry never goes
  for video and video never for telemetry.  Whatever it deletes is at most as
  young as every candidate it keeps and could have deleted.  This holds for every
  order in which equal modification times are sorted.
\<close>

theorem quota_pass_safe:
  assumes "mtime_sort (qe_sort e)" "wf_tree t" "enforce_quota e kind quota needed t = t'"
  shows "set (tree_list t') \<subseteq> set (tree_list t) \<and> wf_tree t'
    \<and> (\<forall>x \<in> set (tree_list t) - set (tree_list t'). candidate e kind x \<and> qe_may e (fst x) (lf_name (snd x))
         \<and> (\<forall>y \<in> set (tree_list t'). candidate e kind y \<and> qe_may e (fst y) (lf_name (snd y)) \<longrightarrow>
              lf_mtime (snd x) \<le> lf_mtime (snd y)))"
proof -
  obtain its where its: "enforce_quota e kind quota needed t = fold drop_item its t"
    "set its \<subseteq> the_item ` set (filter (candidate e kind) (tree_list t))" "\<forall>it \<in> set its. qe_may e (qi_dir it) (qi_name it)"
    "\<forall>it \<in> set its. \<forall>x \<in> set (filter (candidate e kind) (tree_list t)).
       qe_may e (fst x) (lf_name (snd x)) \<and> the_item x \<notin> set its \<longrightarrow> qi_mtime it \<le> lf_mtime (snd x)"
    using enforce_quota_drops [OF assms(1,2)] by metis
  have t': "t' = fold drop_item its t" using assms(3) its(1) by simp
  have sub: "set (tree_list t') \<subseteq> set (tree_list t)" by (auto simp: t' tree_list_drops)
  have out: "x \<in> set (tree_list t) \<Longrightarrow> x \<notin> set (tree_list t') \<longleftrightarrow> candidate e kind x \<and> the_item x \<in> set its" for x
    unfolding t' by (rule drop_item_file [OF assms(2) its(2)])
  have "wf_tree t'" unfolding t' by (rule wf_tree_drops [OF assms(2)])
  moreover have "candidate e kind x \<and> qe_may e (fst x) (lf_name (snd x))"
    if "x \<in> set (tree_list t) - set (tree_list t')" for x
    using out [of x] that its(3) by (auto simp: the_item_def)
  moreover have "lf_mtime (snd x) \<le> lf_mtime (snd y)"
    if "x \<in> set (tree_list t) - set (tree_list t')" "y \<in> set (tree_list t')" "candidate e kind y" "qe_may e (fst y) (lf_name (snd y))" for x y
    using out [of x] out [of y] sub that its(4) by (fastforce simp flip: item_size_the_item(2))
  ultimately show ?thesis using sub by blast
qed


definition ex_log :: "string \<Rightarrow> int \<Rightarrow> int \<Rightarrow> log_file" where
  "ex_log n b m = \<lparr> lf_name = n, lf_stat = Some (b, m) \<rparr>"

definition ex_tree :: port_tree where
  "ex_tree = [(''2026-01-02'', Date_dir [ex_log ''a.tlog'' 2 50, ex_log ''b.bin'' 3 10, ex_log ''c.v1.ts'' 9 5]), (''notes'', Not_dir)]"

definition ex_quota_env :: quota_env where
  "ex_quota_env = \<lparr> qe_clock = 200, qe_grace = 60, qe_may = \<lambda>d n. True, qe_sort = sort_key qi_mtime \<rparr>"

lemma ex_tree_kinds:
  "session_file_kind ''a.tlog'' = SESSION_TELEM" "session_file_kind ''b.bin'' = SESSION_TELEM" "session_file_kind ''c.v1.ts'' = SESSION_VIDEO"
  by (simp_all add: session_file_kind_def slot_digit_def)

lemma ex_quota_run:
  "enforce_quota ex_quota_env SESSION_TELEM 1500 0 ex_tree
     = [(''2026-01-02'', Date_dir [ex_log ''a.tlog'' 2 50, ex_log ''c.v1.ts'' 9 5]), (''notes'', Not_dir)]"
  by (simp add: enforce_quota_def ex_tree_def ex_log_def ex_quota_env_def dotted_def ex_tree_kinds remove_file_def remove_dir_def)

lemma ex_tree_wf: "wf_tree ex_tree" "mtime_sort (qe_sort ex_quota_env)"
  by (simp_all add: wf_tree_def tree_list_def node_list_def ex_tree_def ex_log_def file_key_def ex_quota_env_def ssort.mtime_sort_axioms)

theorem quota_pass_safe_witness:
  "wf_tree [(''2026-01-02'', Date_dir [ex_log ''a.tlog'' 2 50, ex_log ''c.v1.ts'' 9 5]), (''notes'', Not_dir)]
   \<and> candidate ex_quota_env SESSION_TELEM (''2026-01-02'', ex_log ''b.bin'' 3 10)"
proof -
  have "(''2026-01-02'', ex_log ''b.bin'' 3 10) \<in> set (tree_list ex_tree)
      - set (tree_list [(''2026-01-02'', Date_dir [ex_log ''a.tlog'' 2 50, ex_log ''c.v1.ts'' 9 5]), (''notes'', Not_dir)])"
    by (simp add: tree_list_def node_list_def ex_tree_def ex_log_def)
  then show ?thesis using quota_pass_safe [OF ex_tree_wf(2,1) ex_quota_run] by blast
qed


section \<open>Retention\<close>

definition expired :: "(string \<Rightarrow> string \<Rightarrow> bool) \<Rightarrow> f64 \<Rightarrow> int \<Rightarrow> string \<times> log_file \<Rightarrow> bool" where
  "expired may days now x = (\<not> not_positive days \<and> \<not> dotted (fst x) \<and> \<not> dotted (lf_name (snd x)) \<and> is_session_file (lf_name (snd x))
     \<and> lf_stat (snd x) \<noteq> None \<and> too_old days (now - lf_mtime (snd x)) \<and> may (fst x) (lf_name (snd x)))"

lemma expired_pair: "expired may days now (d, f) = (\<not> not_positive days \<and> \<not> dotted d \<and> \<not> dotted (lf_name f) \<and> is_session_file (lf_name f)
    \<and> (case lf_stat f of None \<Rightarrow> False | Some (b, m) \<Rightarrow> too_old days (now - m)) \<and> may d (lf_name f))"
  by (auto simp: expired_def lf_mtime_def split: option.splits)

lemma retention_files_kept:
  assumes "\<not> not_positive days" "\<not> dotted d"
  shows "map (Pair d) (fst (retention_files may days now d fs)) = filter (\<lambda>x. \<not> expired may days now x) (map (Pair d) fs)"
proof (induction fs)
  case (Cons f fs)
  then show ?case
    using assms by (cases "retention_files may days now d fs"; cases "dotted (lf_name f)"; cases "lf_stat f") (auto simp: expired_pair)
qed simp

lemma retention_dirs_list:
  "\<not> not_positive days \<Longrightarrow> tree_list (retention_dirs may days now t) = filter (\<lambda>x. \<not> expired may days now x) (tree_list t)"
proof (induction t)
  case (Cons x t)
  obtain d nd where x: "x = (d, nd)" by fastforce
  have hid: "dotted d \<Longrightarrow> filter (\<lambda>x. \<not> expired may days now x) (map (Pair d) fs) = map (Pair d) fs" for fs
    by (auto simp: expired_def filter_id_conv)
  show ?case
    using Cons hid retention_files_kept [OF Cons.prems, of d may now, symmetric]
    by (cases nd; cases "dotted d") (auto simp: x tree_list_def node_list_def split: prod.splits if_splits)
qed (simp add: tree_list_def)

lemma retention_pass_list: "tree_list (retention_pass may days now t) = filter (\<lambda>x. \<not> expired may days now x) (tree_list t)"
  using retention_dirs_list [of days may now t]
  by (cases "not_positive days") (simp_all add: retention_pass_def expired_def filter_id_conv)

text \<open>A pass for one kind does not touch what the other kind counts.\<close>

lemma usage_other_kind:
  assumes "mtime_sort (qe_sort e)" "wf_tree t" "kind' \<noteq> kind"
  shows "usage kind' (enforce_quota e kind quota needed t) = usage kind' t"
proof -
  obtain its where its: "enforce_quota e kind quota needed t = fold drop_item its t"
    "set its \<subseteq> the_item ` set (filter (candidate e kind) (tree_list t))" using enforce_quota_drops [OF assms(1,2)] by metis
  have "file_key x \<notin> item_key ` set its" if "counted kind' x" for x
  proof
    assume "file_key x \<in> item_key ` set its"
    then obtain y where "candidate e kind y" "file_key x = file_key y" using its(2) by auto
    then show False using that assms(3) by (simp add: file_key_def candidate_def counted_def)
  qed
  then have "filter (counted kind') (tree_list (fold drop_item its t)) = filter (counted kind') (tree_list t)"
    by (auto simp: tree_list_drops intro!: filter_cong)
  then show ?thesis by (simp add: its(1) usage_def)
qed

lemma quota_removes:
  assumes "mtime_sort (qe_sort e)" "wf_tree t" "x \<in> set (tree_list t)" "x \<notin> set (tree_list (enforce_quota e kind quota needed t))"
  shows "candidate e kind x \<and> usage kind t + needed > quota"
proof -
  obtain its where its: "enforce_quota e kind quota needed t = fold drop_item its t"
    "set its \<subseteq> the_item ` set (filter (candidate e kind) (tree_list t))" using enforce_quota_drops [OF assms(1,2)] by metis
  have "enforce_quota e kind quota needed t = t" if "usage kind t + needed \<le> quota"
    using that by (simp add: enforce_quota_def scan_tree_eq)
  then show ?thesis using drop_item_file [OF assms(2) its(2) assms(3)] assms(3,4) its(1) by fastforce
qed

lemma quota_keeps_wf: "mtime_sort (qe_sort e) \<Longrightarrow> wf_tree t \<Longrightarrow> wf_tree (enforce_quota e kind quota needed t)"
  by (metis enforce_quota_drops wf_tree_drops)

lemma quota_subset: "mtime_sort (qe_sort e) \<Longrightarrow> wf_tree t \<Longrightarrow> set (tree_list (enforce_quota e kind quota needed t)) \<subseteq> set (tree_list t)"
  by (metis enforce_quota_drops filter_is_subset tree_list_drops)

text \<open>
  One cleanup of an entry removes exactly the session files past their
  retention age (where it is positive and the unlink succeeds), and beyond those
  only telemetry that is not live while telemetry is over its own quota, and
  video that is not live while video is over its own.  The two budgets do not
  affect each other.
\<close>

theorem cleanup_for_port2_removes:
  assumes "mtime_sort (qe_sort (cc_env c))" "wf_tree t" "x \<in> set (tree_list t)"
  shows "let t1 = retention_pass (qe_may (cc_env c)) days (cc_now c) t;
             gone = (x \<notin> set (tree_list (cleanup_for_port2 c days video_mb t)))
    in (expired (qe_may (cc_env c)) days (cc_now c) x \<longrightarrow> gone)
       \<and> (gone \<longrightarrow> expired (qe_may (cc_env c)) days (cc_now c) x
            \<or> candidate (cc_env c) SESSION_TELEM x \<and> usage SESSION_TELEM t1 > cc_quota c
            \<or> candidate (cc_env c) SESSION_VIDEO x
              \<and> usage SESSION_VIDEO t1 > (if video_mb \<noteq> 0 then uint video_mb * 1024 * 1024 else cc_video_quota c))"
proof -
  define t1 where "t1 = retention_pass (qe_may (cc_env c)) days (cc_now c) t"
  define t2 where "t2 = enforce_quota (cc_env c) SESSION_TELEM (cc_quota c) 0 t1"
  define q where "q = (if video_mb \<noteq> 0 then uint video_mb * 1024 * 1024 else cc_video_quota c)"
  have t3: "cleanup_for_port2 c days video_mb t = enforce_quota (cc_env c) SESSION_VIDEO q 0 t2"
    by (simp add: cleanup_for_port2_def Let_def t1_def t2_def q_def)
  have l1: "tree_list t1 = filter (\<lambda>x. \<not> expired (qe_may (cc_env c)) days (cc_now c) x) (tree_list t)"
    unfolding t1_def by (rule retention_pass_list)
  have w1: "wf_tree t1" using assms(2) by (simp add: wf_tree_def l1 distinct_map_filter)
  have w2: "wf_tree t2" unfolding t2_def by (rule quota_keeps_wf [OF assms(1) w1])
  have u: "usage SESSION_VIDEO t2 = usage SESSION_VIDEO t1" unfolding t2_def by (rule usage_other_kind [OF assms(1) w1]) simp
  have sub: "set (tree_list (cleanup_for_port2 c days video_mb t)) \<subseteq> set (tree_list t1)"
    using quota_subset [OF assms(1) w2] quota_subset [OF assms(1) w1] t3 unfolding t2_def by fastforce
  have "expired (qe_may (cc_env c)) days (cc_now c) x \<longrightarrow> x \<notin> set (tree_list (cleanup_for_port2 c days video_mb t))"
    using sub l1 by auto
  moreover have "x \<notin> set (tree_list (cleanup_for_port2 c days video_mb t)) \<Longrightarrow> \<not> expired (qe_may (cc_env c)) days (cc_now c) x \<Longrightarrow>
      candidate (cc_env c) SESSION_TELEM x \<and> usage SESSION_TELEM t1 > cc_quota c
      \<or> candidate (cc_env c) SESSION_VIDEO x \<and> usage SESSION_VIDEO t1 > q"
    using quota_removes [OF assms(1) w1, of x SESSION_TELEM "cc_quota c" 0] quota_removes [OF assms(1) w2, of x SESSION_VIDEO q 0]
      assms(3) l1 u t3 by (auto simp: t2_def)
  ultimately show ?thesis unfolding Let_def t1_def [symmetric] q_def [symmetric] by blast
qed

theorem cleanup_for_port2_removes_witness:
  "(''2026-01-02'', ex_log ''b.bin'' 3 10)
     \<notin> set (tree_list (cleanup_for_port2 \<lparr> cc_env = ex_quota_env, cc_now = 86415, cc_quota = 1500, cc_video_quota = 9000 \<rparr> (Finite 1) 0 ex_tree))"
proof -
  have "(''2026-01-02'', ex_log ''b.bin'' 3 10) \<in> set (tree_list ex_tree)"
    by (simp add: tree_list_def node_list_def ex_tree_def)
  moreover have "expired (qe_may ex_quota_env) (Finite 1) 86415 (''2026-01-02'', ex_log ''b.bin'' 3 10)"
    by (simp add: expired_pair not_positive_def dotted_def ex_log_def is_session_file_def ex_tree_kinds too_old_def ex_quota_env_def)
  ultimately show ?thesis
    using cleanup_for_port2_removes [of "\<lparr> cc_env = ex_quota_env, cc_now = 86415, cc_quota = 1500, cc_video_quota = 9000 \<rparr>"
        ex_tree "(''2026-01-02'', ex_log ''b.bin'' 3 10)" "Finite 1" 0] ex_tree_wf by (simp add: Let_def)
qed

end
