(* ===== verification/Session_Names.thy ===== *)
theory Session_Names
  imports Complex_Main Key_Db
begin

text \<open>
  Names of session files (\<open>src/session.cpp\<close>): the date directory and the base
  name from the clock, and a base name that no file of any session uses.

  \<open>gmtime_r\<close> and \<open>localtime_r\<close> are parameters that give a broken-down time or
  fail; \<open>taken path\<close> says whether \<open>stat\<close> finds a file.  An offset of a finite
  number of hours is a rational: a \<open>float\<close> times 3600 is exact in a \<open>double\<close>.
\<close>

record broken_time =
  tm_year :: int
  tm_mon :: int
  tm_mday :: int
  tm_hour :: int
  tm_min :: int
  tm_sec :: int

definition tm_zero :: broken_time where
  "tm_zero = \<lparr> tm_year = 0, tm_mon = 0, tm_mday = 0, tm_hour = 0, tm_min = 0, tm_sec = 0 \<rparr>"

text \<open>\<open>%0<w>d\<close>.\<close>

definition show_pad :: "nat \<Rightarrow> int \<Rightarrow> string" where
  "show_pad w n =
     (let s = show_nat (nat \<bar>n\<bar>)
      in if n < 0 then CHR ''-'' # replicate (w - 1 - length s) CHR ''0'' @ s else replicate (w - length s) CHR ''0'' @ s)"

text \<open>\<open>snprintf(buf, len, ...)\<close> keeps \<open>len - 1\<close> characters.\<close>

definition fit :: "nat \<Rightarrow> string \<Rightarrow> string" where
  "fit len s = take (len - 1) s"

text \<open>\<open>llround\<close>: half away from zero.\<close>

definition llround :: "rat \<Rightarrow> int" where
  "llround r = (if r \<ge> 0 then \<lfloor>r + 1 / 2\<rfloor> else - \<lfloor>- r + 1 / 2\<rfloor>)"

definition clamp_tz :: "rat \<Rightarrow> rat" where
  "clamp_tz r = (let off = (if r < - 12 then - 12 else r) in if off > 14 then 14 else off)"

text \<open>\<open>off\<close> is the offset where the entry uses one and it is finite.\<close>

definition session_time_strings :: "(int \<Rightarrow> broken_time option) \<Rightarrow> (int \<Rightarrow> broken_time option) \<Rightarrow> int \<Rightarrow> rat option \<Rightarrow> nat \<Rightarrow> nat
    \<Rightarrow> string \<times> string" where
  "session_time_strings gm loc utc off datedir_len name_len =
     (let r = (case off of Some h \<Rightarrow> gm (utc + llround (clamp_tz h * 3600)) | None \<Rightarrow> loc utc);
          tm = (case r of Some t \<Rightarrow> t | None \<Rightarrow> tm_zero);
          y = show_pad 4 (tm_year tm + 1900); mo = show_pad 2 (tm_mon tm + 1); d = show_pad 2 (tm_mday tm)
      in (fit datedir_len (y @ ''-'' @ mo @ ''-'' @ d),
          fit name_len (y @ ''_'' @ mo @ ''_'' @ d @ ''_'' @ show_pad 2 (tm_hour tm) @ '':'' @ show_pad 2 (tm_min tm) @ '':''
                        @ show_pad 2 (tm_sec tm))))"

section \<open>Directories\<close>

text \<open>The paths \<open>mkpath_0700\<close> creates in turn: up to every slash behind the first character, and
  the whole.  \<open>mk p\<close> is whether \<open>mkdir\<close> succeeds or finds the directory.\<close>

definition mkpath_steps :: "string \<Rightarrow> string list" where
  "mkpath_steps path =
     (let tmp = fit 1024 path in map (\<lambda>i. take i tmp) (filter (\<lambda>i. i = length tmp \<or> tmp ! i = CHR ''/'') [1..<length tmp + 1]))"

definition mkpath_0700 :: "(string \<Rightarrow> bool) \<Rightarrow> string \<Rightarrow> bool" where
  "mkpath_0700 mk path = list_all mk (mkpath_steps path)"

section \<open>Base names\<close>

definition session_exts :: "string list" where
  "session_exts = [''.tlog'', ''.bin'']
     @ concat (map (\<lambda>slot. map (\<lambda>ext. ''.v'' @ show_nat slot @ ''.'' @ ext) [''ts'', ''mkv'']) [1..<KEY_MAX_VIDEO_PORTS + 1])"

definition basename_free :: "(string \<Rightarrow> bool) \<Rightarrow> string \<Rightarrow> string \<Rightarrow> bool" where
  "basename_free taken dir candidate = list_all (\<lambda>ext. \<not> taken (fit 2048 (dir @ ''/'' @ candidate @ ext))) session_exts"

definition suffix_name :: "string \<Rightarrow> nat \<Rightarrow> string" where
  "suffix_name base suffix = fit 96 (if suffix = 1 then base else base @ ''-'' @ show_nat suffix)"

text \<open>The two loops: numbered suffixes, then process id and nanoseconds, one reading of the clock
  for each try.\<close>

function try_suffix :: "(string \<Rightarrow> bool) \<Rightarrow> string \<Rightarrow> string \<Rightarrow> nat \<Rightarrow> string option" where
  "try_suffix taken dir base suffix =
     (if suffix \<ge> 100000 then None
      else if basename_free taken dir (suffix_name base suffix) then Some (suffix_name base suffix)
      else try_suffix taken dir base (suffix + 1))"
  by pat_completeness auto
termination
  by (relation "measure (\<lambda>(taken, dir, base, suffix). 100000 - suffix)") auto

declare try_suffix.simps [simp del]

definition pid_name :: "string \<Rightarrow> int \<Rightarrow> int \<Rightarrow> string" where
  "pid_name base pid ns = fit 96 (base @ ''-'' @ show_int pid @ show_pad 9 ns)"

definition try_pid :: "(string \<Rightarrow> bool) \<Rightarrow> string \<Rightarrow> string \<Rightarrow> int \<Rightarrow> int list \<Rightarrow> string option" where
  "try_pid taken dir base pid clocks = find (basename_free taken dir) (map (pid_name base pid) (take 100 clocks))"

definition session_dir :: "string \<Rightarrow> 32 word \<Rightarrow> string \<Rightarrow> string" where
  "session_dir base_dir port2 datedir = fit 1024 (base_dir @ ''/'' @ show_nat (unat port2) @ ''/'' @ datedir)"

definition session_unique_basename :: "(string \<Rightarrow> bool) \<Rightarrow> int \<Rightarrow> int list \<Rightarrow> string \<Rightarrow> 32 word \<Rightarrow> string \<Rightarrow> string \<Rightarrow> nat \<Rightarrow> string" where
  "session_unique_basename taken pid clocks base_dir port2 datedir name name_len =
     (let base = fit 64 name; dir = session_dir base_dir port2 datedir
      in case try_suffix taken dir base 1 of
           Some c \<Rightarrow> fit name_len c
         | None \<Rightarrow> (case try_pid taken dir base pid clocks of Some c \<Rightarrow> fit name_len c | None \<Rightarrow> fit name_len base))"

section \<open>Properties\<close>

lemma try_suffix_Some: "try_suffix taken dir base n = Some c \<Longrightarrow>
    \<exists>k. n \<le> k \<and> k < 100000 \<and> c = suffix_name base k \<and> basename_free taken dir c"
proof (induction "100000 - n" arbitrary: n rule: less_induct)
  case less
  show ?case
  proof (cases "n \<ge> 100000 \<or> basename_free taken dir (suffix_name base n)")
    case True
    then show ?thesis using less.prems by (subst (asm) try_suffix.simps) (auto split: if_splits)
  next
    case False
    then have "try_suffix taken dir base (n + 1) = Some c" using less.prems by (subst (asm) try_suffix.simps) simp
    then have "\<exists>k. n + 1 \<le> k \<and> k < 100000 \<and> c = suffix_name base k \<and> basename_free taken dir c"
      by (rule less.hyps [rotated]) (use False in linarith)
    then show ?thesis by (metis add_leD1)
  qed
qed

lemma try_suffix_None: "try_suffix taken dir base n = None \<Longrightarrow> n \<le> k \<Longrightarrow> k < 100000 \<Longrightarrow>
    \<not> basename_free taken dir (suffix_name base k)"
proof (induction "100000 - n" arbitrary: n rule: less_induct)
  case less
  have n: "\<not> basename_free taken dir (suffix_name base n)" "try_suffix taken dir base (n + 1) = None"
    using less.prems by (subst (asm) try_suffix.simps, simp split: if_splits)+
  show ?case
  proof (cases "k = n")
    case False
    then have "100000 - (n + 1) < 100000 - n" "n + 1 \<le> k" using less.prems by linarith+
    then show ?thesis using less.hyps n(2) less.prems(3) by blast
  qed (use n in simp)
qed

lemma suffix_name_short:
  assumes "length base \<le> 40" "k < 100000"
  shows "length (suffix_name base k) \<le> 46" "suffix_name base k = (if k = 1 then base else base @ ''-'' @ show_nat k)"
proof -
  have "length (show_nat k) \<le> 5" using length_show_nat [of k 5] assms(2) by simp
  then show "length (suffix_name base k) \<le> 46" "suffix_name base k = (if k = 1 then base else base @ ''-'' @ show_nat k)"
    using assms(1) by (auto simp: suffix_name_def fit_def)
qed

lemma find_Some_mem: "find P xs = Some x \<Longrightarrow> x \<in> set xs \<and> P x"
  by (induction xs) (auto split: if_splits)

lemma fit_short: "length s < len \<Longrightarrow> fit len s = s"
  by (simp add: fit_def)

lemma pid_name_short:
  assumes "length base \<le> 40" "\<bar>pid\<bar> < 10 ^ 10" "0 \<le> ns" "ns < 10 ^ 9"
  shows "length (pid_name base pid ns) < 64"
proof -
  have "length (show_nat (nat \<bar>pid\<bar>)) \<le> 10" using length_show_nat [of "nat \<bar>pid\<bar>" 10] assms(2) by (simp add: nat_less_iff)
  then have p: "length (show_int pid) \<le> 11" by (auto simp: show_int_def)
  have "length (show_nat (nat ns)) \<le> 9" using length_show_nat [of "nat ns" 9] assms(3,4) by (simp add: nat_less_iff)
  then have "length (show_pad 9 ns) = 9" using assms(3) by (simp add: show_pad_def Let_def)
  then show ?thesis using p assms(1) by (simp add: pid_name_def fit_def)
qed

text \<open>
  The base name handed to a new session is one under which no telemetry log,
  binary log or recording of any slot exists in the directory, so a new session
  never appends to or truncates another one's files.  The only exception is a
  directory in which all 99999 numbered names and every clock-based name tried
  are occupied.
\<close>

theorem session_name_unique:
  assumes "length name \<le> 40" "64 \<le> name_len" "\<bar>pid\<bar> < 10 ^ 10" "\<forall>ns \<in> set clocks. 0 \<le> ns \<and> ns < 10 ^ 9"
    and "session_unique_basename taken pid clocks base_dir port2 datedir name name_len = c"
  shows "basename_free taken (session_dir base_dir port2 datedir) c
    \<or> c = name \<and> (\<forall>k. 0 < k \<and> k < 100000 \<longrightarrow> \<not> basename_free taken (session_dir base_dir port2 datedir) (suffix_name name k))
      \<and> (\<forall>ns \<in> set (take 100 clocks). \<not> basename_free taken (session_dir base_dir port2 datedir) (pid_name name pid ns))"
proof -
  let ?dir = "session_dir base_dir port2 datedir"
  have b: "fit 64 name = name" using assms(1) by (simp add: fit_def)
  have c: "c = (case try_suffix taken ?dir name 1 of Some c \<Rightarrow> fit name_len c
      | None \<Rightarrow> (case try_pid taken ?dir name pid clocks of Some c \<Rightarrow> fit name_len c | None \<Rightarrow> fit name_len name))"
    using assms(5) by (simp add: session_unique_basename_def Let_def b)
  show ?thesis
  proof (cases "try_suffix taken ?dir name 1")
    case (Some d)
    then obtain k where k: "k < 100000" "d = suffix_name name k" "basename_free taken ?dir d" using try_suffix_Some by blast
    then have "fit name_len d = d" using suffix_name_short(1) [OF assms(1) k(1)] assms(2) by (simp add: fit_short)
    then show ?thesis using c Some k(3) by simp
  next
    case None
    note full = try_suffix_None [OF None]
    show ?thesis
    proof (cases "try_pid taken ?dir name pid clocks")
      case (Some d)
      then obtain ns where ns: "ns \<in> set clocks" "d = pid_name name pid ns" "basename_free taken ?dir d"
        using find_Some_mem [OF Some [unfolded try_pid_def]] by (auto dest: in_set_takeD)
      then have "fit name_len d = d" using pid_name_short [OF assms(1,3), of ns] assms(2,4) by (simp add: fit_short)
      then show ?thesis using c None Some ns(3) by simp
    next
      case none: None
      then have "\<forall>ns \<in> set (take 100 clocks). \<not> basename_free taken ?dir (pid_name name pid ns)"
        by (auto simp: try_pid_def find_None_iff)
      moreover have "fit name_len name = name" using assms(1,2) by (simp add: fit_short)
      ultimately show ?thesis using c None none full by auto
    qed
  qed
qed

theorem session_name_unique_witness:
  "basename_free (\<lambda>p. p = ''logs/5/d/n.bin'') (session_dir ''logs'' 5 ''d'')
     (session_unique_basename (\<lambda>p. p = ''logs/5/d/n.bin'') 77 [] ''logs'' 5 ''d'' ''n'' 64)"
proof -
  let ?t = "\<lambda>p. p = ''logs/5/d/n.bin''"
  have "basename_free ?t (session_dir ''logs'' 5 ''d'') (suffix_name ''n'' 2)"
    by (simp add: basename_free_def session_dir_def suffix_name_def fit_def session_exts_def KEY_MAX_VIDEO_PORTS_def
        show_nat.simps [of 2] show_nat.simps [of 5] list_all_iff)
  then show ?thesis
    using session_name_unique [of "''n''" 64 77 "[]" ?t "''logs''" 5 "''d''" "session_unique_basename ?t 77 [] ''logs'' 5 ''d'' ''n'' 64"]
    by auto
qed

end
