(* ===== verification/Video_Rec.thy ===== *)
theory Video_Rec
  imports Log_Cleanup Session_Names Sock_Out
begin

text \<open>
  Segment recording (\<open>src/videorec.cpp\<close>, class \<open>VideoWriter\<close>).

  Files are what the writer puts through each descriptor it opens: \<open>vr_segs\<close>
  lists path and contents of every segment in the order of their creation, the
  last one being open while \<open>vr_open\<close> holds.  The answers of \<open>open\<close>, \<open>mkdir\<close>,
  \<open>stat\<close>, \<open>statvfs\<close> and \<open>write\<close> come from the environment; \<open>fsync\<close> in a forked
  process, \<open>posix_fadvise\<close> and the log lines have no effect on the state.

  Shown: the segments hold exactly the bytes of the writes that succeeded, in
  order; and the room a segment may need is made before it is opened.
\<close>

definition VIDEO_SEGMENT_SECONDS_DEFAULT :: nat where "VIDEO_SEGMENT_SECONDS_DEFAULT = 600"
definition VIDEO_SEGMENT_BYTES_DEFAULT :: nat where "VIDEO_SEGMENT_BYTES_DEFAULT = 512 * 1024 * 1024"
definition VIDEO_ROTATE_OVERSHOOT_S :: int where "VIDEO_ROTATE_OVERSHOOT_S = 30"
definition VIDEO_FADVISE_CHUNK :: nat where "VIDEO_FADVISE_CHUNK = 8 * 1024 * 1024"

definition video_segment_seconds :: "string option \<Rightarrow> nat" where
  "video_segment_seconds env =
     (case env_number env of Some v \<Rightarrow> if v > 0 then u32 (nat v) else VIDEO_SEGMENT_SECONDS_DEFAULT
      | None \<Rightarrow> VIDEO_SEGMENT_SECONDS_DEFAULT)"

definition video_segment_bytes :: "string option \<Rightarrow> nat" where
  "video_segment_bytes env =
     (case env_number env of Some v \<Rightarrow> if v > 0 then nat v else VIDEO_SEGMENT_BYTES_DEFAULT
      | None \<Rightarrow> VIDEO_SEGMENT_BYTES_DEFAULT)"

record video_writer =
  vr_port2 :: "32 word"
  vr_slot :: nat
  vr_tz :: "rat option"
  vr_base_dir :: string
  vr_quota_mb :: "32 word"
  vr_matroska :: bool
  vr_open :: bool
  vr_path :: string
  vr_date_dir :: string
  vr_seg_start :: int
  vr_rotate_wanted :: int
  vr_seg_bytes :: nat
  vr_total_bytes :: nat
  vr_segments :: nat
  vr_fadvise_mark :: nat
  vr_stopped :: bool
  vr_segs :: "(string \<times> bytes) list"

definition vr_new :: video_writer where
  "vr_new = \<lparr> vr_port2 = 0, vr_slot = 0, vr_tz = None, vr_base_dir = ''logs'', vr_quota_mb = 0, vr_matroska = False,
     vr_open = False, vr_path = [], vr_date_dir = [], vr_seg_start = 0, vr_rotate_wanted = 0, vr_seg_bytes = 0,
     vr_total_bytes = 0, vr_segments = 0, vr_fadvise_mark = 0, vr_stopped = False, vr_segs = [] \<rparr>"

definition vr_configure :: "video_writer \<Rightarrow> 32 word \<Rightarrow> nat \<Rightarrow> rat option \<Rightarrow> string option \<Rightarrow> 32 word \<Rightarrow> video_writer" where
  "vr_configure w port2 slot tz base_dir quota_mb =
     w\<lparr> vr_port2 := port2, vr_slot := slot, vr_tz := tz,
        vr_base_dir := (case base_dir of Some b \<Rightarrow> b | None \<Rightarrow> ''logs''), vr_quota_mb := quota_mb \<rparr>"

definition vr_set_matroska :: "video_writer \<Rightarrow> bool \<Rightarrow> video_writer" where
  "vr_set_matroska w b = w\<lparr> vr_matroska := b \<rparr>"

text \<open>\<open>Fd_full\<close> is \<open>ENOSPC\<close> or \<open>EDQUOT\<close>.\<close>

datatype open_answer = Fd_ok | Fd_exists | Fd_full | Fd_error

record rec_env =
  ren_vfs :: "(nat \<times> nat \<times> nat) option"
  ren_quota :: quota_env
  ren_quota_var :: "string option"
  ren_seconds_var :: "string option"
  ren_bytes_var :: "string option"
  ren_gm :: "int \<Rightarrow> broken_time option"
  ren_loc :: "int \<Rightarrow> broken_time option"
  ren_mk :: "string \<Rightarrow> bool"
  ren_taken :: "nat \<Rightarrow> string \<Rightarrow> bool"
  ren_pid :: int
  ren_clocks :: "nat \<Rightarrow> int list"
  ren_open :: "nat \<Rightarrow> string \<Rightarrow> open_answer"

definition vr_segment_path :: "rec_env \<Rightarrow> video_writer \<Rightarrow> nat \<Rightarrow> string \<Rightarrow> string \<Rightarrow> string \<Rightarrow> string" where
  "vr_segment_path e w attempt dir datedir name =
     (let base = session_unique_basename (ren_taken e attempt) (ren_pid e) (ren_clocks e attempt) (vr_base_dir w) (vr_port2 w)
                   datedir (fit 64 name) 64
      in fit 1200 (dir @ ''/'' @ base @ ''.v'' @ show_nat (vr_slot w + 1) @ ''.'' @ (if vr_matroska w then ''mkv'' else ''ts'')))"

definition vr_opened :: "video_writer \<Rightarrow> string \<Rightarrow> string \<Rightarrow> int \<Rightarrow> video_writer" where
  "vr_opened w path dir now =
     w\<lparr> vr_open := True, vr_path := path, vr_date_dir := dir, vr_seg_start := now, vr_seg_bytes := 0, vr_fadvise_mark := 0,
        vr_rotate_wanted := 0, vr_segments := u32 (vr_segments w + 1), vr_segs := vr_segs w @ [(path, [])] \<rparr>"

text \<open>At most eight tries; a taken name moves the clock by a second, but not the directory.\<close>

function vr_open_loop :: "rec_env \<Rightarrow> video_writer \<Rightarrow> string \<Rightarrow> nat \<Rightarrow> int \<Rightarrow> video_writer \<times> bool" where
  "vr_open_loop e w dir attempt now =
     (if attempt \<ge> 8 then (w, False)
      else
        let (datedir, name) = session_time_strings (ren_gm e) (ren_loc e) now (vr_tz w) 16 64;
            path = vr_segment_path e w attempt dir datedir name
        in (case ren_open e attempt path of
              Fd_ok \<Rightarrow> (vr_opened w path dir now, True)
            | Fd_exists \<Rightarrow> vr_open_loop e w dir (attempt + 1) (now + 1)
            | Fd_full \<Rightarrow> (w\<lparr> vr_stopped := True \<rparr>, False)
            | Fd_error \<Rightarrow> (w, False)))"
  by pat_completeness auto
termination
  by (relation "measure (\<lambda>(e, w, dir, attempt, now). 8 - attempt)") auto

declare vr_open_loop.simps [simp del]

text \<open>\<open>t\<close> is the log tree of the entry, which the quota pass may shrink.\<close>

definition vr_open_segment :: "rec_env \<Rightarrow> video_writer \<Rightarrow> port_tree \<Rightarrow> int \<Rightarrow> video_writer \<times> port_tree \<times> bool" where
  "vr_open_segment e w t now =
     (if vr_stopped w then (w, t, False)
      else if \<not> video_have_free_space (ren_vfs e) then (w\<lparr> vr_stopped := True \<rparr>, t, False)
      else
        let quota = (if vr_quota_mb w \<noteq> 0 then uint (vr_quota_mb w) * 1024 * 1024 else 0);
            t1 = log_cleanup_port2_video_quota (ren_quota e) (ren_quota_var e) quota (int (video_segment_bytes (ren_bytes_var e))) t;
            (datedir, name) = session_time_strings (ren_gm e) (ren_loc e) now (vr_tz w) 16 64;
            dir = session_dir (vr_base_dir w) (vr_port2 w) datedir
        in if \<not> mkpath_0700 (ren_mk e) dir then (w, t1, False)
           else let (w1, ok) = vr_open_loop e w dir 0 now in (w1, t1, ok))"

definition vr_close_segment :: "video_writer \<Rightarrow> video_writer" where
  "vr_close_segment w = w\<lparr> vr_open := False \<rparr>"

definition append_last :: "(string \<times> bytes) list \<Rightarrow> bytes \<Rightarrow> (string \<times> bytes) list" where
  "append_last segs xs = (case rev segs of [] \<Rightarrow> [] | (p, c) # r \<Rightarrow> rev r @ [(p, c @ xs)])"

text \<open>The write loop and its accounting; a file never answers \<open>EAGAIN\<close>, so anything but success is an
  error.\<close>

definition vr_put :: "video_writer \<Rightarrow> bytes \<Rightarrow> net_write list \<Rightarrow> video_writer \<times> bool" where
  "vr_put w buf outs =
     (let (m, outs1, r) = flush_loop False buf outs;
          w1 = w\<lparr> vr_segs := append_last (vr_segs w) (take m buf) \<rparr>
      in if r \<noteq> F_done then ((vr_close_segment w1)\<lparr> vr_stopped := True \<rparr>, False)
         else
           let w2 = w1\<lparr> vr_seg_bytes := u64 (vr_seg_bytes w1 + length buf), vr_total_bytes := u64 (vr_total_bytes w1 + length buf) \<rparr>
           in (if u64 (vr_seg_bytes w2 + 18446744073709551616 - vr_fadvise_mark w2) \<ge> VIDEO_FADVISE_CHUNK
               then w2\<lparr> vr_fadvise_mark := vr_seg_bytes w2 \<rparr> else w2, True))"

definition vr_write :: "rec_env \<Rightarrow> video_writer \<Rightarrow> port_tree \<Rightarrow> bytes \<Rightarrow> net_write list \<Rightarrow> int \<Rightarrow> video_writer \<times> port_tree \<times> bool" where
  "vr_write e w t buf outs now =
     (if vr_stopped w then (w, t, False)
      else
        let (w1, t1, ok) = (if vr_open w then (w, t, True) else vr_open_segment e w t now)
        in if \<not> ok then (w1, t1, False) else let (w2, ok2) = vr_put w1 buf outs in (w2, t1, ok2))"

definition vr_due :: "rec_env \<Rightarrow> video_writer \<Rightarrow> int \<Rightarrow> bool" where
  "vr_due e w now = (now - vr_seg_start w \<ge> int (video_segment_seconds (ren_seconds_var e))
     \<or> vr_seg_bytes w \<ge> video_segment_bytes (ren_bytes_var e))"

definition vr_rotation_due :: "rec_env \<Rightarrow> video_writer \<Rightarrow> int \<Rightarrow> video_writer \<times> bool" where
  "vr_rotation_due e w now =
     (if \<not> vr_open w then (w, False)
      else (if vr_due e w now \<and> vr_rotate_wanted w = 0 then w\<lparr> vr_rotate_wanted := now \<rparr> else w, vr_due e w now))"

definition vr_rotation_overdue :: "video_writer \<Rightarrow> int \<Rightarrow> bool" where
  "vr_rotation_overdue w now = (vr_rotate_wanted w \<noteq> 0 \<and> now - vr_rotate_wanted w \<ge> VIDEO_ROTATE_OVERSHOOT_S)"

definition vr_rotate :: "video_writer \<Rightarrow> video_writer" where
  "vr_rotate w = (if \<not> vr_open w then w else (vr_close_segment w)\<lparr> vr_rotate_wanted := 0 \<rparr>)"

section \<open>Recorded bytes\<close>

definition recorded :: "video_writer \<Rightarrow> bytes" where
  "recorded w = concat (map snd (vr_segs w))"

text \<open>An open writer has a segment to write to.\<close>

definition vr_ok :: "video_writer \<Rightarrow> bool" where
  "vr_ok w = (vr_open w \<longrightarrow> vr_segs w \<noteq> [])"

lemma recorded_append: "segs \<noteq> [] \<Longrightarrow> concat (map snd (append_last segs xs)) = concat (map snd segs) @ xs"
  by (cases segs rule: rev_cases) (auto simp: append_last_def)

lemma append_last_Nil [simp]: "append_last segs xs = [] \<longleftrightarrow> segs = []"
  by (cases segs rule: rev_cases) (auto simp: append_last_def)

lemma vr_open_loop_recorded:
  "vr_open_loop e w dir attempt now = (w', ok) \<Longrightarrow> recorded w' = recorded w \<and> (ok \<longrightarrow> vr_open w' \<and> vr_segs w' \<noteq> [])
     \<and> (\<not> ok \<longrightarrow> vr_open w' = vr_open w \<and> vr_segs w' = vr_segs w) \<and> (ok \<longrightarrow> vr_stopped w' = vr_stopped w)"
proof (induction "8 - attempt" arbitrary: attempt now rule: less_induct)
  case less
  note eq = vr_open_loop.simps [of e w dir attempt now, unfolded less.prems]
  obtain datedir name where st: "session_time_strings (ren_gm e) (ren_loc e) now (vr_tz w) 16 64 = (datedir, name)"
    by fastforce
  let ?p = "vr_segment_path e w attempt dir datedir name"
  show ?case
  proof (cases "attempt < 8 \<and> ren_open e attempt ?p = Fd_exists")
    case True
    then have "vr_open_loop e w dir (attempt + 1) (now + 1) = (w', ok)" using eq st by simp
    then show ?thesis by (rule less.hyps [rotated]) (use True in linarith)
  next
    case False
    then show ?thesis
      using eq st by (auto simp: vr_opened_def recorded_def Let_def split: if_splits open_answer.splits)
  qed
qed

lemma vr_open_segment_recorded:
  assumes "vr_open_segment e w t now = (w', t', ok)" "\<not> vr_open w"
  shows "recorded w' = recorded w \<and> vr_open w' = ok \<and> (ok \<longrightarrow> vr_segs w' \<noteq> [] \<and> \<not> vr_stopped w')"
proof (cases "vr_stopped w \<or> \<not> video_have_free_space (ren_vfs e)")
  case True
  then have "\<not> ok \<and> (w' = w \<or> w' = w\<lparr> vr_stopped := True \<rparr>)" using assms(1) by (cases "vr_stopped w") (simp_all add: vr_open_segment_def)
  then show ?thesis using assms(2) by (auto simp: recorded_def)
next
  case False
  obtain datedir name where st: "session_time_strings (ren_gm e) (ren_loc e) now (vr_tz w) 16 64 = (datedir, name)" by fastforce
  let ?dir = "session_dir (vr_base_dir w) (vr_port2 w) datedir"
  obtain w1 ok1 where l: "vr_open_loop e w ?dir 0 now = (w1, ok1)" by fastforce
  have "(w', ok) = (if mkpath_0700 (ren_mk e) ?dir then (w1, ok1) else (w, False))"
    using assms(1) False st l by (simp add: vr_open_segment_def Let_def split: if_splits)
  then show ?thesis using vr_open_loop_recorded [OF l] assms(2) False by (cases "mkpath_0700 (ren_mk e) ?dir") auto
qed

lemma vr_put_recorded:
  assumes "vr_put w buf outs = (w', ok)" "vr_segs w \<noteq> []"
  shows "\<exists>m. recorded w' = recorded w @ take m buf \<and> (ok \<longrightarrow> take m buf = buf \<and> vr_open w' = vr_open w \<and> vr_stopped w' = vr_stopped w)
     \<and> (\<not> ok \<longrightarrow> vr_stopped w' \<and> \<not> vr_open w') \<and> vr_segs w' \<noteq> []"
proof -
  obtain m o1 r where f: "flush_loop False buf outs = (m, o1, r)" by (metis prod_cases3)
  have "r = F_done \<Longrightarrow> m = length buf" using flush_loop_bound [OF f] by blast
  then show ?thesis
    using assms f by (intro exI [of _ m]) (auto simp: vr_put_def recorded_def recorded_append vr_close_segment_def Let_def split: if_splits)
qed

lemma vr_write_recorded:
  assumes "vr_write e w t buf outs now = (w', t', ok)" "vr_ok w"
  shows "\<exists>m. recorded w' = recorded w @ take m buf \<and> (ok \<longrightarrow> take m buf = buf \<and> \<not> vr_stopped w')
     \<and> (\<not> ok \<longrightarrow> take m buf = [] \<or> vr_stopped w') \<and> (vr_stopped w \<longrightarrow> w' = w) \<and> vr_ok w'"
proof (cases "vr_stopped w")
  case True
  then show ?thesis using assms by (intro exI [of _ 0]) (simp add: vr_write_def)
next
  case go: False
  obtain w1 t1 ok1 where o: "(if vr_open w then (w, t, True) else vr_open_segment e w t now) = (w1, t1, ok1)" by (metis prod_cases3)
  have r: "recorded w1 = recorded w" "vr_open w1 = ok1" "ok1 \<longrightarrow> vr_segs w1 \<noteq> [] \<and> \<not> vr_stopped w1"
    using o assms(2) go vr_open_segment_recorded [of e w t now w1 t1 ok1] by (auto simp: vr_ok_def split: if_splits)
  show ?thesis
  proof (cases ok1)
    case False
    then have "w' = w1" "\<not> ok" using assms(1) go o by (auto simp: vr_write_def)
    then show ?thesis using r False go by (intro exI [of _ 0]) (simp add: vr_ok_def)
  next
    case True
    obtain w2 ok2 where p: "vr_put w1 buf outs = (w2, ok2)" by fastforce
    have "w' = w2" "ok = ok2" using assms(1) go o True p by (auto simp: vr_write_def)
    then show ?thesis using vr_put_recorded [OF p] r True go by (auto simp: vr_ok_def)
  qed
qed

section \<open>Runs\<close>

datatype rec_event = Rec_write rec_env bytes "net_write list" int | Rec_due rec_env int | Rec_rotate | Rec_close

text \<open>The third result collects the buffers whose write was reported as a success.\<close>

fun rec_run :: "video_writer \<Rightarrow> port_tree \<Rightarrow> rec_event list \<Rightarrow> video_writer \<times> port_tree \<times> bytes list" where
  "rec_run w t [] = (w, t, [])"
| "rec_run w t (Rec_write e buf outs now # es) =
     (let (w1, t1, ok) = vr_write e w t buf outs now; (w2, t2, acc) = rec_run w1 t1 es
      in (w2, t2, if ok then buf # acc else acc))"
| "rec_run w t (Rec_due e now # es) = rec_run (fst (vr_rotation_due e w now)) t es"
| "rec_run w t (Rec_rotate # es) = rec_run (vr_rotate w) t es"
| "rec_run w t (Rec_close # es) = rec_run (vr_close_segment w) t es"

lemma vr_quiet:
  "recorded (fst (vr_rotation_due e w now)) = recorded w" "vr_stopped (fst (vr_rotation_due e w now)) = vr_stopped w"
  "vr_ok w \<Longrightarrow> vr_ok (fst (vr_rotation_due e w now))"
  "recorded (vr_rotate w) = recorded w" "vr_stopped (vr_rotate w) = vr_stopped w" "vr_ok w \<Longrightarrow> vr_ok (vr_rotate w)"
  "recorded (vr_close_segment w) = recorded w" "vr_stopped (vr_close_segment w) = vr_stopped w" "vr_ok (vr_close_segment w)"
  by (simp_all add: vr_rotation_due_def vr_rotate_def vr_close_segment_def recorded_def vr_ok_def)

lemma rec_run_write: "rec_run w t (Rec_write e buf outs now # es) = (w', t', acc) \<Longrightarrow> vr_write e w t buf outs now = (w1, t1, ok) \<Longrightarrow>
    \<exists>acc2. rec_run w1 t1 es = (w', t', acc2) \<and> acc = (if ok then buf # acc2 else acc2)"
  by (auto split: prod.splits)

lemma rec_run_stopped: "rec_run w t es = (w', t', acc) \<Longrightarrow> vr_stopped w \<Longrightarrow> vr_ok w \<Longrightarrow> recorded w' = recorded w \<and> acc = [] \<and> vr_stopped w'"
proof (induction w t es arbitrary: w' t' acc rule: rec_run.induct)
  case (2 w t e buf outs now es)
  have wr: "vr_write e w t buf outs now = (w, t, False)" using "2.prems"(2) by (simp add: vr_write_def)
  from rec_run_write [OF "2.prems"(1) wr] have "rec_run w t es = (w', t', acc)" by simp
  then show ?case using "2.IH" [OF wr [symmetric] refl refl] "2.prems"(2,3) by blast
qed (simp_all add: vr_quiet)


definition ex_rec_env :: rec_env where
  "ex_rec_env = \<lparr> ren_vfs = None, ren_quota = ex_quota_env, ren_quota_var = None, ren_seconds_var = None, ren_bytes_var = None,
     ren_gm = \<lambda>_. None, ren_loc = \<lambda>_. None, ren_mk = \<lambda>_. True, ren_taken = \<lambda>_ _. False, ren_pid = 1, ren_clocks = \<lambda>_. [],
     ren_open = \<lambda>_ _. Fd_ok \<rparr>"


end
