(* ===== verification/Rtsp_Backend.thy ===== *)
theory Rtsp_Backend
  imports SP_Prelude
begin

text \<open>
  The ffmpeg backend of a publisher (\<open>src/videortsp.cpp\<close>, class
  \<open>RtspBackend\<close>): the command line it is started with, the descriptors the
  video child holds on it, and its end.

  The process itself is the environment: \<open>start_answers\<close> says what the system
  calls of \<open>start\<close> return and how the wait for the backend ends.  Resource
  limits, descriptor clean-up and \<open>prctl\<close> in the forked process have no effect
  on this state.
\<close>

datatype splice_proto = SPLICE_RTSP | SPLICE_RTMP | SPLICE_RTP

definition splice_proto_name :: "splice_proto \<Rightarrow> string" where
  "splice_proto_name p = (case p of SPLICE_RTMP \<Rightarrow> ''RTMP'' | SPLICE_RTP \<Rightarrow> ''RTP'' | SPLICE_RTSP \<Rightarrow> ''RTSP'')"

definition backend_crlf :: string where "backend_crlf = [CHR 0x0D, CHR 0x0A]"

definition backend_sdp :: "nat \<Rightarrow> int \<Rightarrow> string \<Rightarrow> string" where
  "backend_sdp lport rtp_pt rtp_codec = take 255
     (''v=0'' @ backend_crlf @ ''o=- 0 0 IN IP4 127.0.0.1'' @ backend_crlf @ ''s=SupportProxy'' @ backend_crlf
      @ ''c=IN IP4 127.0.0.1'' @ backend_crlf @ ''t=0 0'' @ backend_crlf
      @ ''m=video '' @ show_nat lport @ '' RTP/AVP '' @ show_int rtp_pt @ backend_crlf
      @ ''a=rtpmap:'' @ show_int rtp_pt @ '' '' @ rtp_codec @ ''/90000'' @ backend_crlf)"

definition backend_url :: "splice_proto \<Rightarrow> nat \<Rightarrow> string" where
  "backend_url proto lport =
     (case proto of SPLICE_RTSP \<Rightarrow> take 127 (''rtsp://127.0.0.1:'' @ show_nat lport @ ''/'') | _ \<Rightarrow> ''pipe:0'')"

definition backend_input :: "splice_proto \<Rightarrow> string list" where
  "backend_input proto =
     (case proto of
        SPLICE_RTMP \<Rightarrow> [''-protocol_whitelist'', ''file,pipe'', ''-f'', ''live_flv'']
      | SPLICE_RTP \<Rightarrow> [''-protocol_whitelist'', ''file,pipe,rtp,udp'', ''-max_delay'', ''100000'', ''-localaddr'', ''127.0.0.1'',
                      ''-f'', ''sdp'']
      | SPLICE_RTSP \<Rightarrow> [''-protocol_whitelist'', ''file,rtp,udp,tcp'', ''-rtsp_flags'', ''listen'', ''-rtsp_transport'', ''tcp'',
                       ''-timeout'', ''10000000''])"

text \<open>The argument vector, without its closing null pointer.\<close>

definition backend_argv :: "splice_proto \<Rightarrow> bool \<Rightarrow> string option \<Rightarrow> nat \<Rightarrow> string list" where
  "backend_argv proto want_audio vbsf lport =
     [''ffmpeg'', ''-hide_banner'', ''-nostdin'', ''-loglevel'', ''warning''] @ backend_input proto
     @ [''-i'', backend_url proto lport, ''-map'', ''0:v:0''] @ (if want_audio then [''-map'', ''0:a?''] else [])
     @ [''-c:v'', ''copy''] @ (case vbsf of Some f \<Rightarrow> if f \<noteq> [] then [''-bsf:v'', f] else [] | None \<Rightarrow> [])
     @ (if want_audio then [''-c:a'', ''aac''] else [''-an''])
     @ [''-muxdelay'', ''0'', ''-muxpreload'', ''0'', ''-flush_packets'', ''1'', ''-f'', ''mpegts'', ''pipe:1'']"

section \<open>State\<close>

record backend =
  be_running :: bool
  be_backend_fd :: bool
  be_media_fd :: bool
  be_rtp_fd :: bool
  be_proto :: splice_proto
  be_argv :: "string list"

definition be_new :: backend where
  "be_new = \<lparr> be_running = False, be_backend_fd = False, be_media_fd = False, be_rtp_fd = False, be_proto = SPLICE_RTSP, be_argv = [] \<rparr>"

text \<open>How the wait for the backend ends: it is up, it has exited, or the time is over; \<open>sa_reaped\<close>
  is whether \<open>stop\<close> sees the process go.\<close>

datatype backend_wait = Up | Exited | Never

record start_answers =
  sa_lport :: "nat option"
  sa_pipes :: bool
  sa_fork :: bool
  sa_feed :: bool
  sa_wait :: backend_wait

text \<open>\<open>stop\<close> kills the process and waits for it, so it is gone afterwards.\<close>

definition be_stop :: "backend \<Rightarrow> backend" where
  "be_stop b = b\<lparr> be_backend_fd := False, be_rtp_fd := False, be_media_fd := False, be_running := False \<rparr>"

definition be_reap :: "bool \<Rightarrow> backend \<Rightarrow> backend \<times> bool" where
  "be_reap gone b = (if \<not> be_running b then (b, True) else if gone then (b\<lparr> be_running := False \<rparr>, True) else (b, False))"

definition be_start :: "start_answers \<Rightarrow> backend \<Rightarrow> bool \<Rightarrow> splice_proto \<Rightarrow> string option \<Rightarrow> string option \<Rightarrow> int \<Rightarrow> backend \<times> bool" where
  "be_start a b0 want_audio proto vbsf rtp_codec rtp_pt =
     (let b = b0\<lparr> be_proto := proto \<rparr>; lport = (if proto = SPLICE_RTMP then Some 0 else sa_lport a)
      in case lport of
           None \<Rightarrow> (b, False)
         | Some l \<Rightarrow>
             if proto \<noteq> SPLICE_RTMP \<and> l = 0 then (b, False)
             else if proto = SPLICE_RTP \<and> rtp_codec = None then (b, False)
             else if \<not> sa_pipes a \<or> \<not> sa_fork a then (b, False)
             else
               let b1 = b\<lparr> be_running := True, be_media_fd := True, be_argv := backend_argv proto want_audio vbsf l \<rparr>
               in (case proto of
                     SPLICE_RTMP \<Rightarrow> (b1\<lparr> be_backend_fd := True \<rparr>, True)
                   | SPLICE_RTP \<Rightarrow>
                       if \<not> sa_feed a then (be_stop b1, False)
                       else if sa_wait a = Up then (b1\<lparr> be_rtp_fd := True \<rparr>, True)
                       else (be_stop b1, False)
                   | SPLICE_RTSP \<Rightarrow>
                       if sa_wait a = Up then (b1\<lparr> be_backend_fd := True \<rparr>, True) else (be_stop b1, False)))"

section \<open>Properties\<close>

text \<open>
  The command line always fits the 40 pointers reserved for it with its
  closing null pointer; ffmpeg is never given a protocol that reaches the network
  when it is fed over a pipe (RTMP), and where it opens a UDP port (RTP) it is
  bound to the loopback address.  A failed start leaves no process and no
  descriptor behind.
\<close>

theorem backend_start_safe:
  "length (backend_argv proto want_audio vbsf lport) < 40
   \<and> (\<exists>xs ys. backend_argv SPLICE_RTMP want_audio vbsf lport = xs @ [''-protocol_whitelist'', ''file,pipe''] @ ys)
   \<and> (\<exists>xs ys. backend_argv SPLICE_RTP want_audio vbsf lport = xs @ [''-localaddr'', ''127.0.0.1''] @ ys)
   \<and> (let (b', ok) = be_start a be_new want_audio proto vbsf rtp_codec rtp_pt
      in be_running b' = ok \<and> be_media_fd b' = ok \<and> be_backend_fd b' = (ok \<and> proto \<noteq> SPLICE_RTP) \<and> be_rtp_fd b' = (ok \<and> proto = SPLICE_RTP))"
proof (intro conjI)
  show "length (backend_argv proto want_audio vbsf lport) < 40"
    by (cases proto; cases vbsf) (simp_all add: backend_argv_def backend_input_def)
  show "\<exists>xs ys. backend_argv SPLICE_RTMP want_audio vbsf lport = xs @ [''-protocol_whitelist'', ''file,pipe''] @ ys"
    by (rule exI [of _ "[''ffmpeg'', ''-hide_banner'', ''-nostdin'', ''-loglevel'', ''warning'']"])
      (simp add: backend_argv_def backend_input_def)
  show "\<exists>xs ys. backend_argv SPLICE_RTP want_audio vbsf lport = xs @ [''-localaddr'', ''127.0.0.1''] @ ys"
    by (rule exI [of _ "[''ffmpeg'', ''-hide_banner'', ''-nostdin'', ''-loglevel'', ''warning'', ''-protocol_whitelist'',
          ''file,pipe,rtp,udp'', ''-max_delay'', ''100000'']"]) (simp add: backend_argv_def backend_input_def)
  show "let (b', ok) = be_start a be_new want_audio proto vbsf rtp_codec rtp_pt
      in be_running b' = ok \<and> be_media_fd b' = ok \<and> be_backend_fd b' = (ok \<and> proto \<noteq> SPLICE_RTP) \<and> be_rtp_fd b' = (ok \<and> proto = SPLICE_RTP)"
    by (cases proto; cases "sa_lport a") (simp_all add: be_start_def be_new_def be_stop_def Let_def)
qed

end
