(* ===== verification/Rtmp_Session.thy ===== *)
theory Rtmp_Session
  imports Http_Req
begin

text \<open>
  The native RTMP publish session (\<open>src/videortmp.cpp\<close>, \<open>RtmpSession\<close>): AMF0
  values, the handshake, the chunk demultiplexer, the commands of a publisher
  and the conversion of media messages to FLV.

  Numbers are naturals reduced where the code has a fixed width; an AMF number
  is the 64-bit pattern of its double, which the code only copies.  A field of
  the wire is read only behind the bounds test the code has, and a function that
  moves an index returns the index also when it fails, because two callers go on
  after a failed skip.
\<close>

section \<open>AMF0\<close>

definition AMF_NUMBER :: byte where "AMF_NUMBER = 0"
definition AMF_BOOLEAN :: byte where "AMF_BOOLEAN = 1"
definition AMF_STRING :: byte where "AMF_STRING = 2"
definition AMF_OBJECT :: byte where "AMF_OBJECT = 3"
definition AMF_NULL :: byte where "AMF_NULL = 5"
definition AMF_UNDEFINED :: byte where "AMF_UNDEFINED = 6"
definition AMF_REFERENCE :: byte where "AMF_REFERENCE = 7"
definition AMF_ECMA_ARRAY :: byte where "AMF_ECMA_ARRAY = 8"
definition AMF_OBJECT_END :: byte where "AMF_OBJECT_END = 9"
definition AMF_STRICT_ARRAY :: byte where "AMF_STRICT_ARRAY = 10"
definition AMF_DATE :: byte where "AMF_DATE = 11"
definition AMF_LONG_STRING :: byte where "AMF_LONG_STRING = 12"

lemmas amf_markers = AMF_NUMBER_def AMF_BOOLEAN_def AMF_STRING_def AMF_OBJECT_def AMF_NULL_def AMF_UNDEFINED_def
  AMF_REFERENCE_def AMF_ECMA_ARRAY_def AMF_OBJECT_END_def AMF_STRICT_ARRAY_def AMF_DATE_def AMF_LONG_STRING_def

text \<open>The pattern of the double that a 32-bit number converts to.\<close>

fun ilog2 :: "nat \<Rightarrow> nat" where
  "ilog2 n = (if n < 2 then 0 else Suc (ilog2 (n div 2)))"

declare ilog2.simps [simp del]

definition double_bits :: "nat \<Rightarrow> nat" where
  "double_bits n = (if n = 0 then 0 else (1023 + ilog2 n) * 2 ^ 52 + (n * 2 ^ (52 - ilog2 n) - 2 ^ 52))"

definition be_double :: "bytes \<Rightarrow> nat" where
  "be_double p = be_val (take 8 p)"

definition amf_num :: "nat \<Rightarrow> bytes" where
  "amf_num d = AMF_NUMBER # be_bytes 8 d"

definition amf_str :: "string \<Rightarrow> bytes" where
  "amf_str s = AMF_STRING # be_bytes 2 (length s) @ str_bytes s"

definition amf_key :: "string \<Rightarrow> bytes" where
  "amf_key s = be_bytes 2 (length s) @ str_bytes s"

definition amf_null :: bytes where "amf_null = [AMF_NULL]"

definition amf_obj_end :: bytes where "amf_obj_end = [0, 0, AMF_OBJECT_END]"

text \<open>\<open>std::string::c_str\<close> read as a C string.\<close>

definition c_str :: "string \<Rightarrow> string" where
  "c_str s = takeWhile (\<lambda>c. c \<noteq> CHR 0x00) s"

text \<open>\<open>amf_skip\<close>, the body of an object, and the elements of a strict array.\<close>

function amf_skip :: "bytes \<Rightarrow> nat \<Rightarrow> nat \<Rightarrow> bool \<times> nat"
  and amf_skip_object_body :: "bytes \<Rightarrow> nat \<Rightarrow> nat \<Rightarrow> bool \<times> nat"
  and amf_skip_array :: "bytes \<Rightarrow> nat \<Rightarrow> nat \<Rightarrow> nat \<Rightarrow> bool \<times> nat"
where
  "amf_skip p i depth =
     (let n = length p
      in if depth > 8 \<or> i \<ge> n then (False, i)
         else
           let m = p ! i; i = i + 1
           in if m = AMF_NUMBER then (i + 8 \<le> n, i + 8)
              else if m = AMF_BOOLEAN then (i + 1 \<le> n, i + 1)
              else if m = AMF_STRING then
                (if i + 2 > n then (False, i)
                 else let j = i + 2 + be_val (seg p i 2) in (j \<le> n, j))
              else if m = AMF_LONG_STRING then
                (if i + 4 > n then (False, i)
                 else let j = i + 4 + be_val (seg p i 4) in (j \<le> n, j))
              else if m = AMF_NULL \<or> m = AMF_UNDEFINED then (True, i)
              else if m = AMF_REFERENCE then (i + 2 \<le> n, i + 2)
              else if m = AMF_DATE then (i + 10 \<le> n, i + 10)
              else if m = AMF_OBJECT then amf_skip_object_body p i depth
              else if m = AMF_ECMA_ARRAY then
                (if i + 4 > n then (False, i + 4) else amf_skip_object_body p (i + 4) depth)
              else if m = AMF_STRICT_ARRAY then
                (if i + 4 > n then (False, i)
                 else
                   let cnt = be_val (seg p i 4)
                   in if cnt > n then (False, i + 4) else amf_skip_array p cnt (i + 4) depth)
              else (m = AMF_OBJECT_END, i))"
| "amf_skip_object_body p i depth =
     (let n = length p
      in if i + 2 > n then (False, i)
         else
           let klen = be_val (seg p i 2); i = i + 2
           in if klen = 0 then
                (if i \<ge> n \<or> p ! i \<noteq> AMF_OBJECT_END then (False, i) else (True, i + 1))
              else if i + klen > n then (False, i)
              else (case amf_skip p (i + klen) (depth + 1) of
                      (ok, j) \<Rightarrow> if ok then amf_skip_object_body p j depth else (False, j)))"
| "amf_skip_array p cnt i depth =
     (if cnt = 0 then (True, i)
      else (case amf_skip p i (depth + 1) of
              (ok, j) \<Rightarrow> if ok then amf_skip_array p (cnt - 1) j depth else (False, j)))"
  by pat_completeness auto

lemma amf_skip_advances:
  "amf_skip_amf_skip_object_body_amf_skip_array_dom (Inl (p, i, depth)) \<Longrightarrow> amf_skip p i depth = (True, j) \<Longrightarrow> i < j \<and> i < length p"
  "amf_skip_amf_skip_object_body_amf_skip_array_dom (Inr (Inl (p, i, depth))) \<Longrightarrow> amf_skip_object_body p i depth = (True, j) \<Longrightarrow> i < j"
  "amf_skip_amf_skip_object_body_amf_skip_array_dom (Inr (Inr (p, cnt, i, depth))) \<Longrightarrow> amf_skip_array p cnt i depth = (True, j) \<Longrightarrow> i \<le> j"
proof (induction p i depth and p i depth and p cnt i depth arbitrary: j and j and j
    rule: amf_skip_amf_skip_object_body_amf_skip_array.pinduct)
  case (1 p i depth)
  show ?case
    using 1(5) 1(2) [of "length p" "p ! i" "i + 1" j] 1(3) [of "length p" "p ! i" "i + 1" j] 1(4) [of "length p" "p ! i" "i + 1" _ j]
    by (simp add: amf_skip.psimps [OF 1(1)] Let_def split: if_splits)
next
  case (2 p i depth)
  obtain ok k where k: "amf_skip p (i + 2 + be_val (seg p i 2)) (depth + 1) = (ok, k)" by (metis surj_pair)
  show ?case
    using 2(4) 2(2) [of "length p" "be_val (seg p i 2)" "i + 2" k] 2(3) [of "length p" "be_val (seg p i 2)" "i + 2" ok k j] k
    by (auto simp: amf_skip_object_body.psimps [OF 2(1)] Let_def split: if_splits)
next
  case (3 p cnt i depth)
  obtain ok k where k: "amf_skip p i (depth + 1) = (ok, k)" by (metis surj_pair)
  show ?case
    using 3(4) 3(2) [of k] 3(3) [of ok k j] k
    by (auto simp: amf_skip_array.psimps [OF 3(1)] split: if_splits)
qed

lemma amf_total: "All amf_skip_amf_skip_object_body_amf_skip_array_dom"
proof (relation "measures [\<lambda>x. case x of Inl (p, i, d) \<Rightarrow> length p - i | Inr (Inl (p, i, d)) \<Rightarrow> length p - i
      | Inr (Inr (p, c, i, d)) \<Rightarrow> length p - i, \<lambda>x. case x of Inr (Inr _) \<Rightarrow> 1 | _ \<Rightarrow> 0]", goal_cases)
  case (6 p i depth n klen i' ok j)
  then have "i < j" using amf_skip_advances(1) [of p "i' + klen" "depth + 1" j] by simp
  then show ?case using 6 by simp
next
  case (8 p cnt i depth ok j)
  then have "i < j" "i < length p" using amf_skip_advances(1) [of p i "depth + 1" j] by simp_all
  then show ?case by simp
qed auto

termination amf_skip
  by (rule amf_total)

declare amf_skip.simps [simp del] amf_skip_object_body.simps [simp del] amf_skip_array.simps [simp del]

lemma amf_skip_adv: "amf_skip p i depth = (True, j) \<Longrightarrow> i < j \<and> i < length p"
  by (rule amf_skip_advances(1) [OF spec [OF amf_total]])

text \<open>\<open>amf_read_string\<close> and \<open>amf_read_number\<close>: the value and the index behind it; on failure the
  index may have moved.\<close>

definition amf_read_string :: "bytes \<Rightarrow> nat \<Rightarrow> string option \<times> nat" where
  "amf_read_string p i =
     (let n = length p
      in if i \<ge> n \<or> p ! i \<noteq> AMF_STRING then (None, i)
         else if i + 3 > n then (None, i + 1)
         else
           let len = be_val (seg p (i + 1) 2)
           in if i + 3 + len > n then (None, i + 3) else (Some (bytes_str (seg p (i + 3) len)), i + 3 + len))"

definition amf_read_number :: "bytes \<Rightarrow> nat \<Rightarrow> nat option \<times> nat" where
  "amf_read_number p i =
     (if i \<ge> length p \<or> p ! i \<noteq> AMF_NUMBER \<or> i + 9 > length p then (None, i)
      else (Some (be_double (drop (i + 1) p)), i + 9))"

lemma amf_read_string_adv: "amf_read_string p i = (Some s, j) \<Longrightarrow> i < j"
  by (auto simp: amf_read_string_def Let_def split: if_splits)

text \<open>The member loop of \<open>amf_object_strings\<close>; \<open>h1\<close> and \<open>h2\<close> say which keys have been seen.\<close>

function amf_members :: "bytes \<Rightarrow> string \<Rightarrow> string \<Rightarrow> nat \<Rightarrow> bool \<Rightarrow> bool \<Rightarrow> string \<Rightarrow> string \<Rightarrow> bool \<times> string \<times> string" where
  "amf_members p k1 k2 i h1 h2 v1 v2 =
     (let n = length p
      in if i + 2 > n then (False, v1, v2)
         else
           let klen = be_val (seg p i 2); i = i + 2
           in if klen = 0 then (i < n \<and> p ! i = AMF_OBJECT_END, v1, v2)
              else if i + klen > n then (False, v1, v2)
              else
                let key = bytes_str (seg p i klen); i = i + klen; is1 = (key = k1); is2 = (key = k2)
                in if is1 \<and> h1 \<or> is2 \<and> h2 then (False, v1, v2)
                   else (case amf_read_string p i of
                           (Some sv, j) \<Rightarrow>
                             amf_members p k1 k2 j (h1 \<or> is1) (h2 \<or> is2) (if is1 then sv else v1) (if is2 \<and> \<not> is1 then sv else v2)
                         | (None, _) \<Rightarrow>
                             (case amf_skip p i 0 of
                                (ok, j) \<Rightarrow> if ok then amf_members p k1 k2 j (h1 \<or> is1) (h2 \<or> is2) v1 v2 else (False, v1, v2))))"
  by pat_completeness auto
termination
  by (relation "measure (\<lambda>(p, k1, k2, i, h1, h2, v1, v2). length p - i)")
    (auto dest!: amf_read_string_adv amf_skip_adv dest: sym [of "(_, _)"])

declare amf_members.simps [simp del]

definition amf_object_strings :: "bytes \<Rightarrow> nat \<Rightarrow> string \<Rightarrow> string \<Rightarrow> string \<Rightarrow> string \<Rightarrow> bool \<times> string \<times> string" where
  "amf_object_strings p i k1 v1 k2 v2 =
     (if i \<ge> length p then (False, v1, v2)
      else if p ! i = AMF_ECMA_ARRAY then amf_members p k1 k2 (i + 5) False False v1 v2
      else if p ! i = AMF_OBJECT then amf_members p k1 k2 (i + 1) False False v1 v2
      else (fst (amf_skip p i 0), v1, v2))"

text \<open>\<open>split_credential\<close>: the bare name, and the first credential of the query.\<close>

function credential_loop :: "string \<Rightarrow> string option" where
  "credential_loop q =
     (if q = [] then None
      else
        let (kv, rest) = (case cut_at CHR ''&'' q of None \<Rightarrow> (q, []) | Some x \<Rightarrow> x)
        in case cut_at CHR ''='' kv of
             None \<Rightarrow> credential_loop rest
           | Some (k, v) \<Rightarrow> if k \<in> {''pw'', ''password'', ''key''} then Some (http_url_decode v) else credential_loop rest)"
  by pat_completeness auto
termination
  by (relation "measure length") (auto split: option.splits dest: cut_at_less)

declare credential_loop.simps [simp del]

definition split_credential :: "string \<Rightarrow> string \<times> string option" where
  "split_credential name =
     (let bare = takeWhile (\<lambda>c. c \<noteq> CHR ''?'' \<and> c \<noteq> CHR ''&'') name
      in if length bare = length name then (name, None) else (bare, credential_loop (drop (length bare + 1) name)))"

section \<open>The session\<close>

definition RTMP_OUT_CHUNK_SIZE :: nat where "RTMP_OUT_CHUNK_SIZE = 4096"
definition RTMP_DEFAULT_CHUNK_SIZE :: nat where "RTMP_DEFAULT_CHUNK_SIZE = 128"
definition RTMP_PREPUBLISH_MAX_BYTES :: nat where "RTMP_PREPUBLISH_MAX_BYTES = 256 * 1024"
definition RTMP_PREPUBLISH_MAX_S :: int where "RTMP_PREPUBLISH_MAX_S = 20"
definition RTMP_MAX_MESSAGE_BYTES :: nat where "RTMP_MAX_MESSAGE_BYTES = 4 * 1024 * 1024"
definition RTMP_MAX_CHUNK_SIZE :: nat where "RTMP_MAX_CHUNK_SIZE = 1024 * 1024"
definition RTMP_MAX_CHUNK_STREAM :: nat where "RTMP_MAX_CHUNK_STREAM = 255"
definition RTMP_MAX_ASSEMBLY_BYTES :: nat where "RTMP_MAX_ASSEMBLY_BYTES = 8 * 1024 * 1024"
definition RTMP_MAX_OUT_BYTES :: nat where "RTMP_MAX_OUT_BYTES = 256 * 1024"
definition RTMP_CODEC_DEADLINE_S :: int where "RTMP_CODEC_DEADLINE_S = 15"

datatype rtmp_vcodec = RTMP_VCODEC_NONE | RTMP_VCODEC_H264 | RTMP_VCODEC_OTHER
datatype rtmp_state = RTMP_WANT_C0C1 | RTMP_WANT_C2 | RTMP_CHUNKS | RTMP_DEAD

record chunk_stream =
  cs_ts :: nat
  cs_delta :: nat
  cs_len :: nat
  cs_type :: nat
  cs_sid :: nat
  cs_ext :: bool
  cs_acc :: bytes

definition cs_new :: chunk_stream where
  "cs_new = \<lparr> cs_ts = 0, cs_delta = 0, cs_len = 0, cs_type = 0, cs_sid = 0, cs_ext = False, cs_acc = [] \<rparr>"

record rtmp_session =
  rs_state :: rtmp_state
  rs_in :: bytes
  rs_pos :: nat
  rs_to_peer :: bytes
  rs_to_flv :: bytes
  rs_in_chunk :: nat
  rs_ack_window :: nat
  rs_bytes_in :: nat
  rs_acked :: nat
  rs_cs :: "chunk_stream list"
  rs_app :: string
  rs_stream :: string
  rs_password :: string
  rs_password_present :: bool
  rs_publish_txn :: nat
  rs_publish_sid :: nat
  rs_publishing :: bool
  rs_publish_pending :: bool
  rs_connected :: bool
  rs_publishing_since :: int
  rs_assembly :: nat
  rs_vcodec :: rtmp_vcodec
  rs_flv_header :: bool
  rs_saw_c0c1 :: bool
  rs_started :: int
  rs_now :: int
  rs_total_in :: nat
  rs_media_bytes :: nat
  rs_error :: string

definition rs_new :: rtmp_session where
  "rs_new = \<lparr> rs_state = RTMP_WANT_C0C1, rs_in = [], rs_pos = 0, rs_to_peer = [], rs_to_flv = [],
     rs_in_chunk = RTMP_DEFAULT_CHUNK_SIZE, rs_ack_window = 0, rs_bytes_in = 0, rs_acked = 0, rs_cs = [], rs_app = [],
     rs_stream = [], rs_password = [], rs_password_present = False, rs_publish_txn = 0, rs_publish_sid = 1,
     rs_publishing = False, rs_publish_pending = False, rs_connected = False, rs_publishing_since = 0, rs_assembly = 0,
     rs_vcodec = RTMP_VCODEC_NONE, rs_flv_header = False, rs_saw_c0c1 = False, rs_started = 0, rs_now = 0, rs_total_in = 0,
     rs_media_bytes = 0, rs_error = [] \<rparr>"

definition rs_fail :: "rtmp_session \<Rightarrow> string \<Rightarrow> rtmp_session \<times> bool" where
  "rs_fail s why = (s\<lparr> rs_error := why, rs_state := RTMP_DEAD \<rparr>, False)"

definition rs_compact :: "rtmp_session \<Rightarrow> rtmp_session" where
  "rs_compact s =
     (if rs_pos s = length (rs_in s) then s\<lparr> rs_in := [], rs_pos := 0 \<rparr>
      else if rs_pos s > 65536 then s\<lparr> rs_in := drop (rs_pos s) (rs_in s), rs_pos := 0 \<rparr> else s)"

definition rs_avail :: "rtmp_session \<Rightarrow> nat" where
  "rs_avail s = length (rs_in s) - rs_pos s"

definition rs_path :: "rtmp_session \<Rightarrow> string" where
  "rs_path s = (if rs_app s = [] then rs_stream s else if rs_stream s = [] then rs_app s else rs_app s @ ''/'' @ rs_stream s)"

section \<open>Messages to the peer\<close>

text \<open>The payload in pieces of \<open>RTMP_OUT_CHUNK_SIZE\<close>, each after the first behind a format 3 header.\<close>

function out_chunks :: "nat \<Rightarrow> bytes \<Rightarrow> bytes" where
  "out_chunks csid p =
     (if length p \<le> RTMP_OUT_CHUNK_SIZE then p
      else take RTMP_OUT_CHUNK_SIZE p @ byte_of (192 + csid) # out_chunks csid (drop RTMP_OUT_CHUNK_SIZE p))"
  by pat_completeness auto
termination
  by (relation "measure (\<lambda>(c, p). length p)") (auto simp: RTMP_OUT_CHUNK_SIZE_def)

declare out_chunks.simps [simp del]

definition rtmp_msg :: "nat \<Rightarrow> nat \<Rightarrow> nat \<Rightarrow> bytes \<Rightarrow> bytes" where
  "rtmp_msg csid type sid p =
     byte_of csid # be_bytes 3 0 @ be_bytes 3 (length p) @ [byte_of type] @ le_bytes 4 sid @ out_chunks csid p"

definition send_msg :: "rtmp_session \<Rightarrow> nat \<Rightarrow> nat \<Rightarrow> nat \<Rightarrow> bytes \<Rightarrow> rtmp_session" where
  "send_msg s csid type sid p = s\<lparr> rs_to_peer := rs_to_peer s @ rtmp_msg csid type sid p \<rparr>"

definition send_amf :: "rtmp_session \<Rightarrow> nat \<Rightarrow> nat \<Rightarrow> bytes \<Rightarrow> rtmp_session" where
  "send_amf s csid sid b = send_msg s csid 20 sid b"

section \<open>FLV\<close>

definition flv_header :: bytes where
  "flv_header = [0x46, 0x4C, 0x56, 0x01, 0x05, 0, 0, 0, 0x09, 0, 0, 0, 0]"

definition write_flv_header :: "rtmp_session \<Rightarrow> rtmp_session" where
  "write_flv_header s = (if rs_flv_header s then s else s\<lparr> rs_flv_header := True, rs_to_flv := rs_to_flv s @ flv_header \<rparr>)"

definition flv_tag :: "nat \<Rightarrow> nat \<Rightarrow> bytes \<Rightarrow> bytes" where
  "flv_tag type ts p =
     byte_of type # be_bytes 3 (length p) @ be_bytes 3 ts @ [byte_of (ts div 2 ^ 24)] @ [0, 0, 0] @ p @ be_bytes 4 (length p + 11)"

definition write_flv_tag :: "rtmp_session \<Rightarrow> nat \<Rightarrow> nat \<Rightarrow> bytes \<Rightarrow> rtmp_session" where
  "write_flv_tag s type ts p = s\<lparr> rs_to_flv := rs_to_flv s @ flv_tag type ts p \<rparr>"

definition set_data_frame :: bytes where
  "set_data_frame = [AMF_STRING, 0, 13] @ str_bytes ''@setDataFrame''"

definition strip_data_frame :: "bytes \<Rightarrow> bytes" where
  "strip_data_frame p = (if length p > 16 \<and> take 16 p = set_data_frame then drop 16 p else p)"

definition video_codec_of :: "bytes \<Rightarrow> rtmp_vcodec" where
  "video_codec_of p =
     (if p ! 0 AND 0x80 = 0 then (if p ! 0 AND 0x0f = 7 then RTMP_VCODEC_H264 else RTMP_VCODEC_OTHER)
      else if length p \<ge> 5 then (if seg p 1 4 = str_bytes ''avc1'' then RTMP_VCODEC_H264 else RTMP_VCODEC_OTHER)
      else RTMP_VCODEC_NONE)"

definition on_media :: "rtmp_session \<Rightarrow> nat \<Rightarrow> nat \<Rightarrow> bytes \<Rightarrow> rtmp_session" where
  "on_media s type ts p =
     (if \<not> rs_publishing s \<or> p = [] then s
      else
        let s1 = (if type = 9 \<and> rs_vcodec s = RTMP_VCODEC_NONE then s\<lparr> rs_vcodec := video_codec_of p \<rparr> else s);
            p1 = (if type = 18 then strip_data_frame p else p)
        in write_flv_tag (s1\<lparr> rs_media_bytes := u64 (rs_media_bytes s1 + length p1) \<rparr>) type ts p1)"

section \<open>Commands\<close>

definition status_object :: "string \<Rightarrow> string \<Rightarrow> string \<Rightarrow> bytes" where
  "status_object level code description =
     AMF_OBJECT # amf_key ''level'' @ amf_str level @ amf_key ''code'' @ amf_str code @ amf_key ''description'' @ amf_str description"

definition connect_reply :: "nat \<Rightarrow> bytes" where
  "connect_reply txn =
     amf_str ''_result'' @ amf_num txn @ [AMF_OBJECT] @ amf_key ''fmsVer'' @ amf_str ''FMS/3,0,1,123'' @ amf_key ''capabilities''
     @ amf_num (double_bits 31) @ amf_obj_end
     @ status_object ''status'' ''NetConnection.Connect.Success'' ''Connection succeeded.''
     @ amf_key ''objectEncoding'' @ amf_num 0 @ amf_obj_end"

definition bw_done :: bytes where
  "bw_done = amf_str ''onBWDone'' @ amf_num 0 @ amf_null @ amf_num (double_bits 8192)"

text \<open>\<open>connect\<close>: the credential of the app, else the one of the URL.\<close>

definition on_connect :: "rtmp_session \<Rightarrow> bytes \<Rightarrow> nat \<Rightarrow> nat \<Rightarrow> rtmp_session \<times> bool" where
  "on_connect s p i txn =
     (if rs_connected s then rs_fail s ''repeated connect''
      else
        let s1 = s\<lparr> rs_connected := True \<rparr>; (ok, app, tc_url) = amf_object_strings p i ''app'' (rs_app s1) ''tcUrl'' []
        in if \<not> ok then rs_fail (s1\<lparr> rs_app := app \<rparr>) ''malformed or duplicate connect property''
           else
             let (name, pw) = split_credential app;
                 pw2 = (case pw of Some _ \<Rightarrow> pw | None \<Rightarrow> if tc_url = [] then None else snd (split_credential tc_url));
                 s2 = s1\<lparr> rs_app := name, rs_password := (case pw2 of Some x \<Rightarrow> x | None \<Rightarrow> rs_password s),
                           rs_password_present := (pw2 \<noteq> None) \<rparr>;
                 s3 = send_msg s2 2 5 0 [0x00, 0x26, 0x25, 0xa0];
                 s4 = send_msg s3 2 6 0 [0x00, 0x26, 0x25, 0xa0, 0x02];
                 s5 = send_msg s4 2 4 0 [0, 0, 0, 0, 0, 0];
                 s6 = send_msg s5 2 1 0 (be_bytes 4 RTMP_OUT_CHUNK_SIZE)
             in (send_amf (send_amf s6 3 0 (connect_reply txn)) 3 0 bw_done, True))"

text \<open>A credential found by a later command is taken only if none was offered before.\<close>

definition take_credential :: "rtmp_session \<Rightarrow> string option \<Rightarrow> rtmp_session" where
  "take_credential s pw =
     (case pw of Some x \<Rightarrow> if rs_password_present s then s else s\<lparr> rs_password := x, rs_password_present := True \<rparr> | None \<Rightarrow> s)"

definition on_fcpublish :: "rtmp_session \<Rightarrow> bytes \<Rightarrow> nat \<Rightarrow> rtmp_session" where
  "on_fcpublish s p i =
     (let (ok, j) = amf_skip p i 0; (got, j2) = amf_read_string p j;
          (name, pw) = split_credential (case got of Some x \<Rightarrow> x | None \<Rightarrow> []);
          s1 = take_credential s pw
      in send_amf s1 3 0 (amf_str ''onFCPublish'' @ amf_num 0 @ amf_null
           @ status_object ''status'' ''NetStream.Publish.Start'' (if name = [] then ''Publishing.'' else c_str name) @ amf_obj_end))"

definition on_publish :: "rtmp_session \<Rightarrow> chunk_stream \<Rightarrow> bytes \<Rightarrow> nat \<Rightarrow> nat \<Rightarrow> rtmp_session \<times> bool" where
  "on_publish s c p i txn =
     (if rs_publishing s \<or> rs_publish_pending s then rs_fail s ''second publish on one connection''
      else if \<not> rs_connected s then rs_fail s ''publish before connect''
      else
        let (ok, j) = amf_skip p i 0; (got, j2) = amf_read_string p j
        in case got of
             None \<Rightarrow> rs_fail s ''publish without a stream name''
           | Some n \<Rightarrow>
               let (name, pw) = split_credential n
               in (take_credential (s\<lparr> rs_stream := name, rs_publish_txn := txn,
                     rs_publish_sid := (if cs_sid c \<noteq> 0 then cs_sid c else 1), rs_publish_pending := True \<rparr>) pw, True))"

definition on_command :: "rtmp_session \<Rightarrow> chunk_stream \<Rightarrow> bytes \<Rightarrow> rtmp_session \<times> bool" where
  "on_command s c p =
     (case amf_read_string p 0 of
        (None, _) \<Rightarrow> rs_fail s ''unparseable command''
      | (Some cmd, i0) \<Rightarrow>
          let (num, i) = amf_read_number p i0; txn = (case num of Some d \<Rightarrow> d | None \<Rightarrow> 0)
          in if cmd = ''connect'' then on_connect s p i txn
             else if cmd = ''releaseStream'' then (send_amf s 3 0 (amf_str ''_result'' @ amf_num txn @ amf_null), True)
             else if cmd \<in> {''FCUnpublish'', ''deleteStream'', ''closeStream''} then
               (if rs_publishing s \<and> cmd \<noteq> ''closeStream'' then rs_fail s ''publisher unpublished'' else (s, True))
             else if cmd = ''FCPublish'' then (on_fcpublish s p i, True)
             else if cmd = ''createStream'' then
               (send_amf s 3 0 (amf_str ''_result'' @ amf_num txn @ amf_null @ amf_num (double_bits (rs_publish_sid s))), True)
             else if cmd = ''publish'' then on_publish s c p i txn
             else if cmd = ''play'' \<or> cmd = ''play2'' then rs_fail s ''this port accepts publishers only''
             else (s, True))"

definition accept_publish :: "rtmp_session \<Rightarrow> rtmp_session" where
  "accept_publish s =
     (if \<not> rs_publish_pending s then s
      else
        let s1 = s\<lparr> rs_publish_pending := False, rs_publishing := True,
                     rs_publishing_since := (if rs_now s \<noteq> 0 then rs_now s else rs_started s) \<rparr>;
            s2 = send_msg s1 2 4 0 ([0, 0] @ be_bytes 4 (rs_publish_sid s1));
            b = amf_str ''onStatus'' @ amf_num 0 @ amf_null
                @ status_object ''status'' ''NetStream.Publish.Start''
                    (if rs_stream s2 = [] then ''Publishing.'' else c_str (rs_stream s2 @ '' is now published.''))
                @ amf_key ''clientid'' @ amf_num (double_bits 1) @ amf_obj_end
        in write_flv_header (send_msg s2 5 20 (rs_publish_sid s2) b))"

definition reject_publish :: "rtmp_session \<Rightarrow> string \<Rightarrow> string \<Rightarrow> rtmp_session" where
  "reject_publish s code description =
     (let s1 = s\<lparr> rs_publish_pending := False \<rparr>;
          b = amf_str ''onStatus'' @ amf_num (rs_publish_txn s1) @ amf_null @ status_object ''error'' code description @ amf_obj_end
      in (send_msg s1 5 20 (rs_publish_sid s1) b)\<lparr> rs_error := description, rs_state := RTMP_DEAD \<rparr>)"

definition on_message :: "rtmp_session \<Rightarrow> chunk_stream \<Rightarrow> bytes \<Rightarrow> rtmp_session \<times> bool" where
  "on_message s c p =
     (let n = length p; v = be_val (take 4 p)
      in if cs_type c = 1 then
           (if n < 4 then rs_fail s ''short SetChunkSize''
            else
              let sz = v mod 2 ^ 31
              in if sz = 0 \<or> sz > RTMP_MAX_CHUNK_SIZE then rs_fail s ''bad chunk size'' else (s\<lparr> rs_in_chunk := sz \<rparr>, True))
         else if cs_type c = 2 then
           (if n \<ge> 4 \<and> v < length (rs_cs s)
            then (s\<lparr> rs_assembly := rs_assembly s - length (cs_acc (rs_cs s ! v)), rs_cs := (rs_cs s)[v := (rs_cs s ! v)\<lparr> cs_acc := [] \<rparr>] \<rparr>, True)
            else (s, True))
         else if cs_type c = 5 \<or> cs_type c = 6 then (if n \<ge> 4 then s\<lparr> rs_ack_window := v \<rparr> else s, True)
         else if cs_type c = 4 then
           (if n \<ge> 6 \<and> be_val (take 2 p) = 6 then send_msg s 2 4 0 ([0, 7] @ seg p 2 4) else s, True)
         else if cs_type c = 8 \<or> cs_type c = 9 \<or> cs_type c = 18 then (on_media s (cs_type c) (cs_ts c) p, True)
         else if cs_type c = 20 then on_command s c p
         else (s, True))"

section \<open>Handshake and chunks\<close>

definition handshake_reply :: "bytes \<Rightarrow> bytes" where
  "handshake_reply c1 = 3 # map (\<lambda>i. if i < 8 then 0 else byte_of i) [0..<1536] @ c1"

definition do_handshake :: "rtmp_session \<Rightarrow> rtmp_session \<times> bool" where
  "do_handshake s =
     (if rs_state s = RTMP_WANT_C0C1 then
        if rs_avail s < 1537 then (s, False)
        else if rs_in s ! rs_pos s \<noteq> 3 then rs_fail s ''unsupported RTMP version''
        else (s\<lparr> rs_to_peer := rs_to_peer s @ handshake_reply (seg (rs_in s) (rs_pos s + 1) 1536), rs_pos := rs_pos s + 1537,
                 rs_saw_c0c1 := True, rs_state := RTMP_WANT_C2 \<rparr>, True)
      else if rs_avail s < 1536 then (s, False)
      else (s\<lparr> rs_pos := rs_pos s + 1536, rs_state := RTMP_CHUNKS \<rparr>, True))"

text \<open>The basic header at \<open>i\<close>: format, chunk stream and length; \<open>None\<close> while bytes are missing.\<close>

definition chunk_basic :: "bytes \<Rightarrow> nat \<Rightarrow> (nat \<times> nat \<times> nat) option" where
  "chunk_basic p i =
     (if i \<ge> length p then None
      else
        let fmt = unat (p ! i) div 64; csid = unat (p ! i) mod 64
        in if csid = 0 then (if i + 2 > length p then None else Some (fmt, 64 + unat (p ! (i + 1)), 2))
           else if csid = 1 then
             (if i + 3 > length p then None else Some (fmt, 64 + unat (p ! (i + 1)) + 256 * unat (p ! (i + 2)), 3))
           else Some (fmt, csid, 1))"

definition chunk_mh :: "nat \<Rightarrow> nat" where
  "chunk_mh fmt = (if fmt = 0 then 11 else if fmt = 1 then 7 else if fmt = 2 then 3 else 0)"

text \<open>The message header at \<open>h\<close>: the new values of the stream (its partial message unchanged) and
  the position behind it.\<close>

definition chunk_head :: "chunk_stream \<Rightarrow> bytes \<Rightarrow> nat \<Rightarrow> nat \<Rightarrow> (chunk_stream \<times> nat) option" where
  "chunk_head c p h fmt =
     (let pos = h + chunk_mh fmt
      in if pos > length p then None
         else
           let ts_field = (if fmt \<le> 2 then be_val (seg p h 3) else cs_ts c);
               c1 = (if fmt \<le> 1 then c\<lparr> cs_len := be_val (seg p (h + 3) 3), cs_type := unat (p ! (h + 6)) \<rparr> else c);
               c2 = (if fmt = 0 then c1\<lparr> cs_sid := le_val (seg p (h + 7) 4) \<rparr> else c1);
               want_ext = (fmt \<le> 2 \<and> ts_field = 0xffffff \<or> fmt = 3 \<and> cs_ext c)
           in if want_ext \<and> pos + 4 > length p then None
              else
                let ext = (if want_ext then be_val (seg p pos 4) else 0); pos2 = (if want_ext then pos + 4 else pos);
                    t = (if ts_field = 0xffffff then ext else ts_field)
                in Some
                     (if fmt = 0 then c2\<lparr> cs_ext := (ts_field = 0xffffff), cs_ts := t, cs_delta := 0 \<rparr>
                      else if fmt \<le> 2 then c2\<lparr> cs_ext := (ts_field = 0xffffff), cs_delta := t, cs_ts := u32 (cs_ts c + t) \<rparr>
                      else if cs_acc c = [] then c2\<lparr> cs_ts := u32 (cs_ts c + cs_delta c) \<rparr>
                      else c2, pos2))"

text \<open>The acknowledgement owed after \<open>used\<close> more bytes.\<close>

definition chunk_ack :: "rtmp_session \<Rightarrow> nat \<Rightarrow> rtmp_session" where
  "chunk_ack s used =
     (let s1 = s\<lparr> rs_bytes_in := u64 (rs_bytes_in s + used) \<rparr>
      in if rs_ack_window s1 \<noteq> 0 \<and> u64 (2 ^ 64 + rs_bytes_in s1 - rs_acked s1) \<ge> rs_ack_window s1
         then send_msg (s1\<lparr> rs_acked := rs_bytes_in s1 \<rparr>) 2 3 0 (be_bytes 4 (rs_bytes_in s1))
         else s1)"

text \<open>The chunk is complete: its \<open>k\<close> payload bytes at \<open>pos\<close> join the message of stream \<open>csid\<close>, and
  a message that is whole leaves the stream.\<close>

definition chunk_acc :: "rtmp_session \<Rightarrow> chunk_stream \<Rightarrow> nat \<Rightarrow> nat \<Rightarrow> bytes" where
  "chunk_acc s c pos k = cs_acc c @ seg (rs_in s) pos k"

definition chunk_whole :: "rtmp_session \<Rightarrow> chunk_stream \<Rightarrow> nat \<Rightarrow> nat \<Rightarrow> bool" where
  "chunk_whole s c pos k = (length (chunk_acc s c pos k) \<ge> cs_len c)"

definition chunk_store :: "rtmp_session \<Rightarrow> nat \<Rightarrow> chunk_stream \<Rightarrow> nat \<Rightarrow> nat \<Rightarrow> rtmp_session" where
  "chunk_store s csid c pos k =
     (let s1 = chunk_ack s (pos - rs_pos s + k); whole = chunk_whole s c pos k
      in s1\<lparr> rs_cs := (rs_cs s1)[csid := c\<lparr> cs_acc := (if whole then [] else chunk_acc s c pos k) \<rparr>], rs_pos := pos + k,
             rs_assembly := (if whole then rs_assembly s1 + k - length (chunk_acc s c pos k) else rs_assembly s1 + k) \<rparr>)"

definition chunk_commit :: "rtmp_session \<Rightarrow> nat \<Rightarrow> chunk_stream \<Rightarrow> nat \<Rightarrow> nat \<Rightarrow> rtmp_session \<times> bool" where
  "chunk_commit s csid c pos k =
     (let s2 = chunk_store s csid c pos k;
          (s3, ok) = (if chunk_whole s c pos k then on_message s2 (c\<lparr> cs_acc := [] \<rparr>) (chunk_acc s c pos k) else (s2, True))
      in if \<not> ok then (s3, False)
         else if length (rs_to_peer s3) > RTMP_MAX_OUT_BYTES then rs_fail s3 ''peer is not reading its responses''
         else (s3, True))"

definition cs_resize :: "chunk_stream list \<Rightarrow> nat \<Rightarrow> chunk_stream list" where
  "cs_resize cs csid = cs @ replicate (csid + 1 - length cs) cs_new"

definition parse_chunks :: "rtmp_session \<Rightarrow> rtmp_session \<times> bool" where
  "parse_chunks s =
     (case chunk_basic (rs_in s) (rs_pos s) of
        None \<Rightarrow> (s, False)
      | Some (fmt, csid, hdr) \<Rightarrow>
          if csid > RTMP_MAX_CHUNK_STREAM then rs_fail s ''chunk stream id out of range''
          else
            let s1 = s\<lparr> rs_cs := cs_resize (rs_cs s) csid \<rparr>
            in case chunk_head (rs_cs s1 ! csid) (rs_in s) (rs_pos s + hdr) fmt of
                 None \<Rightarrow> (s1, False)
               | Some (c, pos) \<Rightarrow>
                   if cs_len c > RTMP_MAX_MESSAGE_BYTES then rs_fail s1 ''message too large''
                   else if fmt \<noteq> 3 \<and> cs_acc c \<noteq> [] then rs_fail s1 ''header restarts a message already in progress''
                   else
                     let k = min (cs_len c - length (cs_acc c)) (rs_in_chunk s)
                     in if pos + k > length (rs_in s) then (s1, False)
                        else if rs_assembly s1 + k > RTMP_MAX_ASSEMBLY_BYTES then rs_fail s1 ''too many partial messages''
                        else chunk_commit s1 csid c pos k)"

text \<open>What a message leaves alone: the input, and that the session has no media before publish.\<close>

definition rs_frame :: "rtmp_session \<Rightarrow> rtmp_session \<Rightarrow> bool" where
  "rs_frame s s' = (rs_in s' = rs_in s \<and> rs_pos s' = rs_pos s \<and> rs_publishing s' = rs_publishing s
     \<and> rs_started s' = rs_started s \<and> rs_now s' = rs_now s \<and> rs_total_in s' = rs_total_in s
     \<and> rs_bytes_in s' = rs_bytes_in s \<and> rs_acked s' = rs_acked s)"

lemma rs_frame_send [simp]: "rs_frame s (send_msg s' csid type sid p) = rs_frame s s'"
  "rs_frame s (send_amf s' csid sid p) = rs_frame s s'" "rs_frame s s"
  by (simp_all add: rs_frame_def send_msg_def send_amf_def)

lemma rs_frame_credential [simp]: "rs_frame s (take_credential s' pw) = rs_frame s s'"
  by (simp add: rs_frame_def take_credential_def split: option.splits)

lemma rs_frame_trans: "rs_frame s s1 \<Longrightarrow> rs_frame s1 s2 \<Longrightarrow> rs_frame s s2"
  by (simp add: rs_frame_def)

lemma rs_fail_frame [simp]: "rs_frame s (fst (rs_fail s' why)) = rs_frame s s'" "snd (rs_fail s' why) = False"
  by (simp_all add: rs_frame_def rs_fail_def)

lemma on_media_frame [simp]: "rs_frame s (on_media s type ts p)"
  by (simp add: on_media_def write_flv_tag_def rs_frame_def Let_def)

lemma on_connect_frame [simp]: "rs_frame s (fst (on_connect s p i txn))"
  by (simp add: on_connect_def Let_def split: prod.splits) (simp add: rs_frame_def)

lemma on_fcpublish_frame [simp]: "rs_frame s (on_fcpublish s p i)"
  by (simp add: on_fcpublish_def Let_def split: prod.splits)

lemma on_publish_frame [simp]: "rs_frame s (fst (on_publish s c p i txn))"
  by (simp add: on_publish_def Let_def split: prod.splits option.splits) (simp add: rs_frame_def)

lemma on_command_frame [simp]: "rs_frame s (fst (on_command s c p))"
  by (simp add: on_command_def Let_def split: prod.splits option.splits)

lemma on_message_frame [simp]: "rs_frame s (fst (on_message s c p))"
  by (simp add: on_message_def Let_def) (simp add: rs_frame_def)

lemma on_message_frameD: "on_message s c p = (s', ok) \<Longrightarrow> rs_frame s s'"
  by (metis fst_conv on_message_frame)

lemma chunk_basic_bounds: "chunk_basic p i = Some (fmt, csid, hdr) \<Longrightarrow> 1 \<le> hdr \<and> hdr \<le> 3 \<and> i + hdr \<le> length p \<and> fmt \<le> 3"
  by (auto simp: chunk_basic_def Let_def split: if_splits) (use unat_byte_less [of "p ! i"] in linarith)+

lemma chunk_head_bounds:
  "chunk_head c p h fmt = Some (c', pos) \<Longrightarrow> h \<le> pos \<and> pos \<le> length p \<and> pos \<le> h + 15 \<and> cs_acc c' = cs_acc c"
  by (auto simp: chunk_head_def chunk_mh_def Let_def split: if_splits)

lemma chunk_ack_frame: "rs_in (chunk_ack s k) = rs_in s" "rs_pos (chunk_ack s k) = rs_pos s"
  "rs_cs (chunk_ack s k) = rs_cs s" "rs_assembly (chunk_ack s k) = rs_assembly s" "rs_in_chunk (chunk_ack s k) = rs_in_chunk s"
  "rs_publishing (chunk_ack s k) = rs_publishing s" "rs_publish_pending (chunk_ack s k) = rs_publish_pending s"
  "rs_connected (chunk_ack s k) = rs_connected s" "rs_to_flv (chunk_ack s k) = rs_to_flv s" "rs_state (chunk_ack s k) = rs_state s"
  "rs_app (chunk_ack s k) = rs_app s" "rs_stream (chunk_ack s k) = rs_stream s" "rs_started (chunk_ack s k) = rs_started s" "rs_now (chunk_ack s k) = rs_now s" "rs_total_in (chunk_ack s k) = rs_total_in s"
  by (simp_all add: chunk_ack_def send_msg_def Let_def)

lemma chunk_store_fields [simp]: "rs_in (chunk_store s csid c pos k) = rs_in s" "rs_pos (chunk_store s csid c pos k) = pos + k"
  "rs_in_chunk (chunk_store s csid c pos k) = rs_in_chunk s" "rs_publishing (chunk_store s csid c pos k) = rs_publishing s"
  "rs_publish_pending (chunk_store s csid c pos k) = rs_publish_pending s" "rs_connected (chunk_store s csid c pos k) = rs_connected s"
  "rs_to_flv (chunk_store s csid c pos k) = rs_to_flv s" "rs_state (chunk_store s csid c pos k) = rs_state s"
  "rs_started (chunk_store s csid c pos k) = rs_started s" "rs_now (chunk_store s csid c pos k) = rs_now s"
  "rs_total_in (chunk_store s csid c pos k) = rs_total_in s" "rs_app (chunk_store s csid c pos k) = rs_app s"
  "rs_stream (chunk_store s csid c pos k) = rs_stream s"
  by (simp_all add: chunk_store_def chunk_ack_frame Let_def)

lemma chunk_commit_cases:
  assumes "chunk_commit s csid c pos k = (s', ok)"
  obtains s3 r where "(if chunk_whole s c pos k then on_message (chunk_store s csid c pos k) (c\<lparr> cs_acc := [] \<rparr>) (chunk_acc s c pos k)
       else (chunk_store s csid c pos k, True)) = (s3, r)"
    "ok = (r \<and> length (rs_to_peer s3) \<le> RTMP_MAX_OUT_BYTES)"
    "s' = (if r \<and> \<not> ok then s3\<lparr> rs_error := ''peer is not reading its responses'', rs_state := RTMP_DEAD \<rparr> else s3)"
  using assms by (auto simp: chunk_commit_def Let_def rs_fail_def split: if_splits prod.splits)

lemma chunk_commit_pos:
  assumes "chunk_commit s csid c pos k = (s', ok)"
  shows "rs_in s' = rs_in s \<and> rs_pos s' = pos + k \<and> rs_publishing s' = rs_publishing s \<and> rs_started s' = rs_started s \<and> rs_now s' = rs_now s"
  using assms
proof (cases rule: chunk_commit_cases)
  case (1 s3 r)
  have "rs_frame (chunk_store s csid c pos k) s3"
    using 1(1) by (auto split: if_splits dest: on_message_frameD)
  then show ?thesis using 1(3) by (simp add: rs_frame_def)
qed

text \<open>A chunk is refused, awaited or committed.\<close>

lemma parse_chunks_cases:
  assumes "parse_chunks s = (s', ok)"
  obtains (wait) "\<not> ok" "s' = s \<or> (\<exists>csid \<le> RTMP_MAX_CHUNK_STREAM. s' = s\<lparr> rs_cs := cs_resize (rs_cs s) csid \<rparr>)"
  | (refuse) s1 why where "\<not> ok" "s' = s1\<lparr> rs_error := why, rs_state := RTMP_DEAD \<rparr>"
      "s1 = s \<or> (\<exists>csid \<le> RTMP_MAX_CHUNK_STREAM. s1 = s\<lparr> rs_cs := cs_resize (rs_cs s) csid \<rparr>)"
  | (commit) fmt csid hdr c pos s1 k where "chunk_basic (rs_in s) (rs_pos s) = Some (fmt, csid, hdr)" "csid \<le> RTMP_MAX_CHUNK_STREAM"
      "s1 = s\<lparr> rs_cs := cs_resize (rs_cs s) csid \<rparr>" "chunk_head (rs_cs s1 ! csid) (rs_in s) (rs_pos s + hdr) fmt = Some (c, pos)"
      "cs_len c \<le> RTMP_MAX_MESSAGE_BYTES" "fmt = 3 \<or> cs_acc c = []" "k = min (cs_len c - length (cs_acc c)) (rs_in_chunk s)"
      "pos + k \<le> length (rs_in s)" "rs_assembly s + k \<le> RTMP_MAX_ASSEMBLY_BYTES" "chunk_commit s1 csid c pos k = (s', ok)"
proof -
  consider "chunk_basic (rs_in s) (rs_pos s) = None"
    | fmt csid hdr where "chunk_basic (rs_in s) (rs_pos s) = Some (fmt, csid, hdr)" by (metis not_None_eq prod_cases3)
  then show ?thesis
  proof cases
    case 1
    then show ?thesis using assms wait by (simp add: parse_chunks_def)
  next
    case (2 fmt csid hdr)
    show ?thesis
    proof (cases "csid > RTMP_MAX_CHUNK_STREAM")
      case True
      then show ?thesis using assms 2 refuse by (auto simp: parse_chunks_def rs_fail_def)
    next
      case False
      define s1 where "s1 = s\<lparr> rs_cs := cs_resize (rs_cs s) csid \<rparr>"
      note eq = assms [unfolded parse_chunks_def 2, simplified, unfolded Let_def, folded s1_def]
      have r: "s1 = s \<or> (\<exists>csid \<le> RTMP_MAX_CHUNK_STREAM. s1 = s\<lparr> rs_cs := cs_resize (rs_cs s) csid \<rparr>)"
        using False s1_def leI by blast
      have a: "rs_assembly s1 = rs_assembly s" by (simp add: s1_def)
      consider "chunk_head (rs_cs s1 ! csid) (rs_in s) (rs_pos s + hdr) fmt = None"
        | c pos where "chunk_head (rs_cs s1 ! csid) (rs_in s) (rs_pos s + hdr) fmt = Some (c, pos)" by (metis not_None_eq surj_pair)
      then show ?thesis
      proof cases
        case 1
        then show ?thesis using eq False wait r by simp
      next
        case h: (2 c pos)
        let ?k = "min (cs_len c - length (cs_acc c)) (rs_in_chunk s)"
        consider (bad) why where "rs_fail s1 why = (s', ok)" | (part) "(s1, False) = (s', ok)"
          | (go) "cs_len c \<le> RTMP_MAX_MESSAGE_BYTES" "fmt = 3 \<or> cs_acc c = []" "pos + ?k \<le> length (rs_in s)"
              "rs_assembly s + ?k \<le> RTMP_MAX_ASSEMBLY_BYTES" "chunk_commit s1 csid c pos ?k = (s', ok)"
          using eq False h a by (simp split: if_splits)
        then show ?thesis
        proof cases
          case bad
          then show ?thesis using refuse [of why s1] r by (simp add: rs_fail_def)
        next
          case part
          then show ?thesis using wait r by simp
        next
          case go
          then show ?thesis using commit [OF 2 _ s1_def h _ _ refl] False by simp
        qed
      qed
    qed
  qed
qed

lemma parse_chunks_progress:
  assumes "parse_chunks s = (s', ok)"
  shows "rs_in s' = rs_in s \<and> rs_publishing s' = rs_publishing s \<and> rs_started s' = rs_started s \<and> rs_now s' = rs_now s \<and> rs_pos s \<le> rs_pos s'
    \<and> (rs_pos s < rs_pos s' \<longrightarrow> rs_pos s' \<le> length (rs_in s)) \<and> (ok \<longrightarrow> rs_pos s < rs_pos s')"
  using assms
proof (cases rule: parse_chunks_cases)
  case (commit fmt csid hdr c pos s1 k)
  then show ?thesis
    using chunk_commit_pos [OF commit(10)] chunk_basic_bounds [OF commit(1)] chunk_head_bounds [OF commit(4)] by simp
qed auto

lemma do_handshake_progress:
  assumes "do_handshake s = (s', ok)"
  shows "rs_in s' = rs_in s \<and> rs_publishing s' = rs_publishing s \<and> rs_started s' = rs_started s \<and> rs_now s' = rs_now s \<and> rs_pos s \<le> rs_pos s'
    \<and> (rs_pos s < rs_pos s' \<longrightarrow> rs_pos s' \<le> length (rs_in s)) \<and> (ok \<longrightarrow> rs_pos s < rs_pos s')"
  using assms by (auto simp: do_handshake_def rs_fail_def rs_avail_def split: if_splits)

text \<open>One turn of the loop of \<open>run_parser\<close>.\<close>

definition parser_step :: "rtmp_session \<Rightarrow> rtmp_session \<times> bool" where
  "parser_step s = (if rs_state s = RTMP_CHUNKS then parse_chunks s else do_handshake s)"

lemma parser_step_moves:
  assumes "parser_step s = (s', ok)"
  shows "rs_in s' = rs_in s \<and> rs_publishing s' = rs_publishing s \<and> rs_started s' = rs_started s \<and> rs_now s' = rs_now s \<and> rs_pos s \<le> rs_pos s'
    \<and> (rs_pos s < rs_pos s' \<longrightarrow> rs_pos s' \<le> length (rs_in s)) \<and> (ok \<longrightarrow> rs_pos s < rs_pos s')"
  using assms parse_chunks_progress [of s s' ok] do_handshake_progress [of s s' ok] by (simp add: parser_step_def split: if_splits)

text \<open>The loop: a step that makes no progress ends it, which the code writes both as a false result
  and as the comparison of positions.\<close>

function run_parser :: "rtmp_session \<Rightarrow> rtmp_session \<times> bool" where
  "run_parser s =
     (if rs_state s = RTMP_DEAD then (s, False)
      else
        (case parser_step s of
           (s1, ok) \<Rightarrow>
             if \<not> ok then (s1, rs_state s1 \<noteq> RTMP_DEAD)
             else if rs_publish_pending s1 \<or> rs_pos s1 = rs_pos s then (rs_compact s1, True)
             else run_parser s1))"
  by pat_completeness auto
termination
proof (relation "measure (\<lambda>s. length (rs_in s) - rs_pos s)", goal_cases)
  case (2 s s1 ok)
  then show ?case using parser_step_moves [of s s1 ok] by auto
qed auto

declare run_parser.simps [simp del]

definition rs_feed :: "rtmp_session \<Rightarrow> bytes \<Rightarrow> int \<Rightarrow> rtmp_session \<times> bool" where
  "rs_feed s buf now =
     (if rs_state s = RTMP_DEAD then (s, False)
      else
        let s1 = s\<lparr> rs_started := (if rs_started s = 0 then now else rs_started s), rs_now := now,
                    rs_total_in := u64 (rs_total_in s + length buf) \<rparr>
        in if \<not> rs_publishing s1 \<and> (rs_total_in s1 > RTMP_PREPUBLISH_MAX_BYTES \<or> now - rs_started s1 > RTMP_PREPUBLISH_MAX_S)
           then rs_fail s1 ''did not publish in time''
           else run_parser (s1\<lparr> rs_in := rs_in s1 @ buf \<rparr>))"

definition rs_resume :: "rtmp_session \<Rightarrow> rtmp_session \<times> bool" where
  "rs_resume s = (if rs_state s = RTMP_DEAD then (s, False) else run_parser s)"

text \<open>The session as the parser finds it.\<close>

definition feed_start :: "rtmp_session \<Rightarrow> bytes \<Rightarrow> int \<Rightarrow> rtmp_session" where
  "feed_start s buf now = s\<lparr> rs_started := (if rs_started s = 0 then now else rs_started s), rs_now := now,
     rs_total_in := u64 (rs_total_in s + length buf), rs_in := rs_in s @ buf \<rparr>"

lemma rs_feed_runs: "rs_feed s buf now = (s', True) \<Longrightarrow> run_parser (feed_start s buf now) = (s', True)"
  by (simp add: rs_feed_def rs_fail_def feed_start_def Let_def split: if_split_asm)

section \<open>What the parser keeps\<close>

text \<open>
  A predicate on sessions that every step of the parser keeps and that does not
  look at the input buffer or the clock holds after any call that drives the
  parser.
\<close>

locale rtmp_invariant =
  fixes I :: "rtmp_session \<Rightarrow> bool"
  assumes step_keeps: "I s \<Longrightarrow> parser_step s = (s', ok) \<Longrightarrow> I s'"
    and input_keeps: "I s \<Longrightarrow> I (s\<lparr> rs_in := xs, rs_pos := n \<rparr>)"
    and clock_keeps: "I s \<Longrightarrow> I (s\<lparr> rs_started := a, rs_now := b, rs_total_in := m \<rparr>)"
    and dead_keeps: "I s \<Longrightarrow> I (s\<lparr> rs_error := why, rs_state := RTMP_DEAD \<rparr>)"
begin

lemma compact_keeps: "I s \<Longrightarrow> I (rs_compact s)"
  using input_keeps [of s] by (simp add: rs_compact_def)

lemma run_keeps: "I s \<Longrightarrow> run_parser s = (s', ok) \<Longrightarrow> I s'"
proof (induction s arbitrary: s' ok rule: run_parser.induct)
  case (1 s)
  obtain s1 r where st: "parser_step s = (s1, r)" by (metis surj_pair)
  note eq = 1(3) [unfolded run_parser.simps [of s] st]
  show ?case
    using eq 1(2) 1(1) [OF _ st [symmetric]] step_keeps [OF 1(2) st] compact_keeps [of s1] by (auto split: if_splits)
qed

lemma feed_keeps: "I s \<Longrightarrow> rs_feed s buf now = (s', ok) \<Longrightarrow> I s'"
proof -
  assume I: "I s" and f: "rs_feed s buf now = (s', ok)"
  let ?s1 = "s\<lparr> rs_started := (if rs_started s = 0 then now else rs_started s), rs_now := now, rs_total_in := u64 (rs_total_in s + length buf) \<rparr>"
  have c: "I ?s1" by (rule clock_keeps [OF I])
  have "I (?s1\<lparr> rs_in := rs_in ?s1 @ buf \<rparr>)" using input_keeps [OF c, of "rs_pos ?s1" "rs_in ?s1 @ buf"] by simp
  then show "I s'"
    using f I c run_keeps dead_keeps [OF c] by (auto simp: rs_feed_def rs_fail_def Let_def split: if_splits)
qed

lemma resume_keeps: "I s \<Longrightarrow> rs_resume s = (s', ok) \<Longrightarrow> I s'"
  using run_keeps by (auto simp: rs_resume_def split: if_splits)

end

text \<open>Steps of the parser touch messages in one way only, so an invariant of messages, of the
  bookkeeping of a chunk and of the handshake is one of the parser.\<close>

lemma parser_step_keeps:
  assumes "parser_step s = (s', ok)" "I s"
    and message: "\<And>s c p. I s \<Longrightarrow> I (fst (on_message s c p))"
    and store: "\<And>s csid c pos k. I s \<Longrightarrow> I (chunk_store s csid c pos k)"
    and resize: "\<And>s csid. I s \<Longrightarrow> I (s\<lparr> rs_cs := cs_resize (rs_cs s) csid \<rparr>)"
    and dead: "\<And>s why. I s \<Longrightarrow> I (s\<lparr> rs_error := why, rs_state := RTMP_DEAD \<rparr>)"
    and shake: "\<And>s s' ok. I s \<Longrightarrow> do_handshake s = (s', ok) \<Longrightarrow> I s'"
  shows "I s'"
proof (cases "rs_state s = RTMP_CHUNKS")
  case True
  then have "parse_chunks s = (s', ok)" using assms(1) by (simp add: parser_step_def)
  then show ?thesis
  proof (cases rule: parse_chunks_cases)
    case wait
    then show ?thesis using assms(2) resize by auto
  next
    case (refuse s1 why)
    then show ?thesis using assms(2) resize dead by auto
  next
    case (commit fmt csid hdr c pos s1 k)
    have "I (chunk_store s1 csid c pos k)" using commit(3) resize store assms(2) by simp
    with commit(10) show ?thesis using message dead by (cases rule: chunk_commit_cases) (auto split: if_splits, (metis fst_conv)+)
  qed
qed (use assms in \<open>auto simp: parser_step_def\<close>)

section \<open>Authorisation\<close>

lemma credential_fields [simp]:
  "rs_app (take_credential s pw) = rs_app s" "rs_stream (take_credential s pw) = rs_stream s"
  "rs_connected (take_credential s pw) = rs_connected s" "rs_publish_pending (take_credential s pw) = rs_publish_pending s"
  "rs_publishing (take_credential s pw) = rs_publishing s" "rs_to_flv (take_credential s pw) = rs_to_flv s"
  "rs_cs (take_credential s pw) = rs_cs s" "rs_assembly (take_credential s pw) = rs_assembly s"
  "rs_in_chunk (take_credential s pw) = rs_in_chunk s" "rs_state (take_credential s pw) = rs_state s"
  by (simp_all add: take_credential_def split: option.splits)

lemma send_fields [simp]:
  "rs_app (send_msg s c t i p) = rs_app s" "rs_stream (send_msg s c t i p) = rs_stream s"
  "rs_connected (send_msg s c t i p) = rs_connected s" "rs_publish_pending (send_msg s c t i p) = rs_publish_pending s"
  "rs_publishing (send_msg s c t i p) = rs_publishing s" "rs_to_flv (send_msg s c t i p) = rs_to_flv s"
  "rs_cs (send_msg s c t i p) = rs_cs s" "rs_assembly (send_msg s c t i p) = rs_assembly s"
  "rs_in_chunk (send_msg s c t i p) = rs_in_chunk s" "rs_state (send_msg s c t i p) = rs_state s"
  "send_amf s c i p = send_msg s c 20 i p"
  by (simp_all add: send_msg_def send_amf_def)

text \<open>\<open>rs_gate\<close>: publish is answered only after connect, and media is kept only once it is accepted.\<close>

definition rs_gate :: "rtmp_session \<Rightarrow> bool" where
  "rs_gate s = ((rs_publish_pending s \<longrightarrow> rs_connected s \<and> \<not> rs_publishing s) \<and> (rs_publishing s \<longrightarrow> rs_connected s)
     \<and> (\<not> rs_publishing s \<longrightarrow> rs_to_flv s = []))"

text \<open>\<open>rs_owner A B\<close>: the session publishes as app \<open>A\<close> and stream \<open>B\<close>.\<close>

definition rs_owner :: "string \<Rightarrow> string \<Rightarrow> rtmp_session \<Rightarrow> bool" where
  "rs_owner A B s = (rs_publishing s \<and> rs_connected s \<and> \<not> rs_publish_pending s \<and> rs_app s = A \<and> rs_stream s = B)"

lemma on_media_fields: "rs_app (on_media s t ts p) = rs_app s" "rs_stream (on_media s t ts p) = rs_stream s"
  "rs_connected (on_media s t ts p) = rs_connected s" "rs_publish_pending (on_media s t ts p) = rs_publish_pending s"
  "rs_publishing (on_media s t ts p) = rs_publishing s" "\<not> rs_publishing s \<Longrightarrow> rs_to_flv (on_media s t ts p) = rs_to_flv s"
  by (simp_all add: on_media_def write_flv_tag_def Let_def)

lemma on_command_cases:
  obtains (refuse) why where "on_command s c p = rs_fail s why" | (ignore) "on_command s c p = (s, True)"
  | (answer) b where "on_command s c p = (send_msg s 3 20 0 b, True)" | (connect) i txn where "on_command s c p = on_connect s p i txn"
  | (fcpublish) i where "on_command s c p = (on_fcpublish s p i, True)" | (publish) i txn where "on_command s c p = on_publish s c p i txn"
proof -
  obtain name i0 where r: "amf_read_string p 0 = (name, i0)" by (metis surj_pair)
  obtain num i where n: "amf_read_number p i0 = (num, i)" by (metis surj_pair)
  note eq = on_command_def [of s c p, unfolded r n Let_def prod.case]
  define P where "P r = ((\<exists>why. r = rs_fail s why) \<or> r = (s, True) \<or> (\<exists>b. r = (send_msg s 3 20 0 b, True))
      \<or> (\<exists>i txn. r = on_connect s p i txn) \<or> (\<exists>i. r = (on_fcpublish s p i, True)) \<or> (\<exists>i txn. r = on_publish s c p i txn))" for r
  have "P (rs_fail s w)" "P (s, True)" "P (send_msg s 3 20 0 b, True)" "P (on_connect s p i txn)" "P (on_fcpublish s p i, True)"
    "P (on_publish s c p i txn)" for w b i txn by (auto simp: P_def)
  then have "P (on_command s c p)" unfolding eq by (simp split: option.split)
  then show ?thesis unfolding P_def using that by metis
qed

lemma on_message_cases:
  obtains (refuse) why where "on_message s c p = rs_fail s why" | (ignore) "on_message s c p = (s, True)"
  | (size) v where "on_message s c p = (s\<lparr> rs_in_chunk := v \<rparr>, True)" "0 < v" "v \<le> RTMP_MAX_CHUNK_SIZE"
  | (abort) v where "v < length (rs_cs s)" "on_message s c p = (s\<lparr> rs_assembly := rs_assembly s - length (cs_acc (rs_cs s ! v)),
        rs_cs := (rs_cs s)[v := (rs_cs s ! v)\<lparr> cs_acc := [] \<rparr>] \<rparr>, True)"
  | (window) v where "on_message s c p = (s\<lparr> rs_ack_window := v \<rparr>, True)"
  | (pong) b where "on_message s c p = (send_msg s 2 4 0 b, True)"
  | (media) t where "on_message s c p = (on_media s t (cs_ts c) p, True)" "t = cs_type c"
  | (command) "on_message s c p = on_command s c p"
proof -
  define P where "P r = ((\<exists>why. r = rs_fail s why) \<or> r = (s, True) \<or> (\<exists>v. r = (s\<lparr> rs_in_chunk := v \<rparr>, True) \<and> 0 < v \<and> v \<le> RTMP_MAX_CHUNK_SIZE)
      \<or> (\<exists>v < length (rs_cs s). r = (s\<lparr> rs_assembly := rs_assembly s - length (cs_acc (rs_cs s ! v)),
           rs_cs := (rs_cs s)[v := (rs_cs s ! v)\<lparr> cs_acc := [] \<rparr>] \<rparr>, True))
      \<or> (\<exists>v. r = (s\<lparr> rs_ack_window := v \<rparr>, True)) \<or> (\<exists>b. r = (send_msg s 2 4 0 b, True)) \<or> r = (on_media s (cs_type c) (cs_ts c) p, True)
      \<or> r = on_command s c p)" for r
  have "P (rs_fail s w)" "P (s, True)" "P (send_msg s 2 4 0 b, True)" "P (on_media s (cs_type c) (cs_ts c) p, True)" "P (on_command s c p)"
    "P (s\<lparr> rs_ack_window := v \<rparr>, True)" "0 < v \<Longrightarrow> v \<le> RTMP_MAX_CHUNK_SIZE \<Longrightarrow> P (s\<lparr> rs_in_chunk := v \<rparr>, True)"
    "v < length (rs_cs s) \<Longrightarrow> P (s\<lparr> rs_assembly := rs_assembly s - length (cs_acc (rs_cs s ! v)),
       rs_cs := (rs_cs s)[v := (rs_cs s ! v)\<lparr> cs_acc := [] \<rparr>] \<rparr>, True)" for w b v
    unfolding P_def by metis+
  then have "P (on_message s c p)" unfolding on_message_def Let_def by (simp add: not_less)
  then show ?thesis unfolding P_def using that by metis
qed

lemma on_connect_cases:
  obtains (refuse) s1 why where "on_connect s p i txn = rs_fail s1 why" "s1 = s \<or> (\<not> rs_connected s \<and> (\<exists>app. s1 = s\<lparr> rs_connected := True, rs_app := app \<rparr>))"
  | (answer) app pw present peer where "\<not> rs_connected s" "on_connect s p i txn = (s\<lparr> rs_connected := True, rs_app := app, rs_password := pw,
      rs_password_present := present, rs_to_peer := peer \<rparr>, True)"
proof -
  obtain ok app tc where o: "amf_object_strings p i ''app'' (rs_app s) ''tcUrl'' [] = (ok, app, tc)" by (metis prod_cases3)
  obtain name pw where n: "split_credential app = (name, pw)" by (metis surj_pair)
  note eq = on_connect_def [of s p i txn]
  show ?thesis
  proof (cases "rs_connected s")
    case True
    then show ?thesis using refuse eq by simp
  next
    case False
    show ?thesis
    proof (cases ok)
      case True
      define pw2 where "pw2 = (case pw of Some _ \<Rightarrow> pw | None \<Rightarrow> if tc = [] then None else snd (split_credential tc))"
      define peer where "peer = rs_to_peer (fst (on_connect s p i txn))"
      have "on_connect s p i txn = (s\<lparr> rs_connected := True, rs_app := name, rs_password := (case pw2 of Some x \<Rightarrow> x | None \<Rightarrow> rs_password s),
          rs_password_present := (pw2 \<noteq> None), rs_to_peer := peer \<rparr>, True)"
        using eq False True o n by (simp add: send_msg_def peer_def pw2_def Let_def)
      then show ?thesis using answer False by metis
    next
      case nok: False
      have "on_connect s p i txn = rs_fail (s\<lparr> rs_connected := True, rs_app := app \<rparr>) ''malformed or duplicate connect property''"
        using eq False nok o by simp
      then show ?thesis using refuse False by metis
    qed
  qed
qed

lemma on_publish_cases:
  obtains (refuse) why where "on_publish s c p i txn = rs_fail s why"
  | (pending) name pw sid where "\<not> rs_publishing s" "\<not> rs_publish_pending s" "rs_connected s"
      "on_publish s c p i txn = (take_credential (s\<lparr> rs_stream := name, rs_publish_txn := txn, rs_publish_sid := sid, rs_publish_pending := True \<rparr>) pw, True)"
proof -
  obtain ok j where k: "amf_skip p i 0 = (ok, j)" by (metis surj_pair)
  obtain got j2 where g: "amf_read_string p j = (got, j2)" by (metis surj_pair)
  note eq = on_publish_def [of s c p i txn, unfolded k g Let_def prod.case]
  show ?thesis
  proof (cases "rs_publishing s \<or> rs_publish_pending s \<or> \<not> rs_connected s")
    case True
    then show ?thesis using refuse eq by metis
  next
    case False
    show ?thesis
    proof (cases got)
      case None
      then show ?thesis using False refuse eq by simp
    next
      case (Some n)
      then show ?thesis using False pending eq by (cases "split_credential n") simp
    qed
  qed
qed

lemma on_fcpublish_eq: obtains pw b where "on_fcpublish s p i = send_msg (take_credential s pw) 3 20 0 b"
proof -
  obtain ok j where k: "amf_skip p i 0 = (ok, j)" by (metis surj_pair)
  obtain got j2 where g: "amf_read_string p j = (got, j2)" by (metis surj_pair)
  obtain name pw where n: "split_credential (case got of None \<Rightarrow> [] | Some x \<Rightarrow> x) = (name, pw)" by (metis surj_pair)
  show ?thesis using that on_fcpublish_def [of s p i, unfolded k g Let_def prod.case n] by simp
qed

lemma on_command_gate: "rs_gate s \<Longrightarrow> rs_gate (fst (on_command s c p))"
proof (cases rule: on_command_cases [where s = s and c = c and p = p])
  case (connect i txn)
  assume "rs_gate s"
  with connect show ?thesis by (cases rule: on_connect_cases [where s = s and p = p and i = i and txn = txn]) (auto simp: rs_gate_def rs_fail_def)
next
  case (fcpublish i)
  assume "rs_gate s"
  with fcpublish show ?thesis by (cases rule: on_fcpublish_eq [where s = s and p = p and i = i]) (auto simp: rs_gate_def)
next
  case (publish i txn)
  assume "rs_gate s"
  with publish show ?thesis by (cases rule: on_publish_cases [where s = s and c = c and p = p and i = i and txn = txn]) (auto simp: rs_gate_def rs_fail_def)
qed (auto simp: rs_gate_def rs_fail_def)

lemma on_command_owner: "rs_owner A B s \<Longrightarrow> rs_owner A B (fst (on_command s c p))"
proof (cases rule: on_command_cases [where s = s and c = c and p = p])
  case (connect i txn)
  assume "rs_owner A B s"
  with connect show ?thesis by (cases rule: on_connect_cases [where s = s and p = p and i = i and txn = txn]) (auto simp: rs_owner_def rs_fail_def)
next
  case (fcpublish i)
  assume "rs_owner A B s"
  with fcpublish show ?thesis by (cases rule: on_fcpublish_eq [where s = s and p = p and i = i]) (auto simp: rs_owner_def)
next
  case (publish i txn)
  assume "rs_owner A B s"
  with publish show ?thesis by (cases rule: on_publish_cases [where s = s and c = c and p = p and i = i and txn = txn]) (auto simp: rs_owner_def rs_fail_def)
qed (auto simp: rs_owner_def rs_fail_def)

lemma on_message_gate: "rs_gate s \<Longrightarrow> rs_gate (fst (on_message s c p))"
  by (cases rule: on_message_cases [where s = s and c = c and p = p]) (auto simp: on_command_gate, auto simp: rs_gate_def rs_fail_def on_media_fields)

lemma on_message_owner: "rs_owner A B s \<Longrightarrow> rs_owner A B (fst (on_message s c p))"
  by (cases rule: on_message_cases [where s = s and c = c and p = p]) (auto simp: on_command_owner, auto simp: rs_owner_def rs_fail_def on_media_fields)

lemma do_handshake_fields:
  assumes "do_handshake s = (s', ok)"
  shows "rs_gate s' = rs_gate s" "rs_owner A B s' = rs_owner A B s"
  using assms by (auto simp: do_handshake_def rs_fail_def rs_gate_def rs_owner_def split: if_splits)

interpretation gate: rtmp_invariant rs_gate
proof
  show "rs_gate s'" if "rs_gate s" "parser_step s = (s', ok)" for s s' ok
    using that(2,1) by (rule parser_step_keeps)
      (auto simp: on_message_gate do_handshake_fields(1), auto simp: rs_gate_def)
qed (auto simp: rs_gate_def)

interpretation owner: rtmp_invariant "rs_owner A B" for A B
proof
  show "rs_owner A B s'" if "rs_owner A B s" "parser_step s = (s', ok)" for s s' ok
    using that(2,1) by (rule parser_step_keeps)
      (auto simp: on_message_owner do_handshake_fields(2), auto simp: rs_owner_def)
qed (auto simp: rs_owner_def)

text \<open>The calls of the owner of a session.  \<open>Drain\<close> takes the two output buffers.\<close>

datatype rs_event = Feed bytes int | Resume | Accept | Reject string string | Drain

fun rs_step :: "rtmp_session \<Rightarrow> rs_event \<Rightarrow> rtmp_session" where
  "rs_step s (Feed buf now) = fst (rs_feed s buf now)"
| "rs_step s Resume = fst (rs_resume s)"
| "rs_step s Accept = accept_publish s"
| "rs_step s (Reject code why) = reject_publish s code why"
| "rs_step s Drain = s\<lparr> rs_to_peer := [], rs_to_flv := [] \<rparr>"

definition rs_run :: "rs_event list \<Rightarrow> rtmp_session" where
  "rs_run es = foldl rs_step rs_new es"

lemma accept_fields:
  "rs_app (accept_publish s) = rs_app s" "rs_stream (accept_publish s) = rs_stream s" "rs_connected (accept_publish s) = rs_connected s"
  "rs_publishing (accept_publish s) = (rs_publishing s \<or> rs_publish_pending s)" "\<not> rs_publish_pending (accept_publish s)"
  by (simp_all add: accept_publish_def write_flv_header_def Let_def)

lemma rs_step_gate: "rs_gate s \<Longrightarrow> rs_gate (rs_step s ev)"
proof (cases ev)
  case (Feed buf now)
  assume "rs_gate s"
  then show ?thesis using gate.feed_keeps [of s buf now] Feed by (metis prod.collapse rs_step.simps(1))
next
  case Resume
  assume "rs_gate s"
  then show ?thesis using gate.resume_keeps [of s] Resume by (metis prod.collapse rs_step.simps(2))
next
  case Accept
  assume "rs_gate s"
  then show ?thesis using Accept by (auto simp: rs_gate_def accept_fields) (simp_all add: accept_publish_def)
qed (auto simp: rs_gate_def reject_publish_def Let_def)

lemma rs_step_owner: "rs_owner A B s \<Longrightarrow> rs_owner A B (rs_step s ev)"
proof (cases ev)
  case (Feed buf now)
  assume "rs_owner A B s"
  then show ?thesis using owner.feed_keeps [of A B s buf now] Feed by (metis prod.collapse rs_step.simps(1))
next
  case Resume
  assume "rs_owner A B s"
  then show ?thesis using owner.resume_keeps [of A B s] Resume by (metis prod.collapse rs_step.simps(2))
qed (auto simp: rs_owner_def accept_fields reject_publish_def Let_def)

interpretation pub: rtmp_invariant "\<lambda>s. rs_publishing s = b" for b
  by unfold_locales (auto dest: parser_step_moves)

lemma rs_step_publishes:
  assumes "rs_publishing (rs_step s ev)" "\<not> rs_publishing s"
  shows "ev = Accept \<and> rs_publish_pending s"
proof (cases ev)
  case (Feed buf now)
  then show ?thesis using assms pub.feed_keeps [of s False buf now] by (cases "rs_feed s buf now") auto
next
  case Resume
  then show ?thesis using assms pub.resume_keeps [of s False] by (cases "rs_resume s") auto
qed (use assms in \<open>auto simp: accept_fields reject_publish_def Let_def\<close>)

lemma rs_run_gate: "rs_gate (rs_run es)"
  by (induction es rule: rev_induct) (simp_all add: rs_run_def rs_step_gate, simp add: rs_gate_def rs_new_def)

text \<open>
  C37.  A session publishes only because its owner accepted it while a publish
  command was waiting for the decision, after a connect; the path it publishes
  under is the one it had at that moment, whatever commands follow; and until
  then no media leaves the session.  This holds for every sequence of reads,
  decisions and drains.
\<close>

theorem rtmp_publish_gate:
  "(rs_publishing (rs_run es) \<longrightarrow>
      (\<exists>es1 es2. es = es1 @ Accept # es2 \<and> rs_publish_pending (rs_run es1) \<and> rs_connected (rs_run es1)
         \<and> rs_path (rs_run es1) = rs_path (rs_run es)))
   \<and> (\<not> rs_publishing (rs_run es) \<longrightarrow> rs_to_flv (rs_run es) = [])"
proof (induction es rule: rev_induct)
  case Nil
  show ?case by (simp add: rs_run_def rs_new_def)
next
  case (snoc ev es)
  note g = rs_run_gate
  have run: "rs_run (es @ [ev]) = rs_step (rs_run es) ev" by (simp add: rs_run_def)
  show ?case
  proof (cases "rs_publishing (rs_run es)")
    case True
    then have o: "rs_owner (rs_app (rs_run es)) (rs_stream (rs_run es)) (rs_run es)" using g [of es] by (auto simp: rs_owner_def rs_gate_def)
    from True snoc.IH obtain es1 es2 where e: "es = es1 @ Accept # es2" "rs_publish_pending (rs_run es1)" "rs_connected (rs_run es1)"
      "rs_path (rs_run es1) = rs_path (rs_run es)" by blast
    have "rs_path (rs_run (es @ [ev])) = rs_path (rs_run es)" "rs_publishing (rs_run (es @ [ev]))"
      using rs_step_owner [OF o, of ev] run by (simp_all add: rs_owner_def rs_path_def)
    then show ?thesis using e by (metis append.assoc append_Cons)
  next
    case False
    show ?thesis
    proof (cases "rs_publishing (rs_run (es @ [ev]))")
      case True
      then have "ev = Accept" "rs_publish_pending (rs_run es)" using rs_step_publishes False run by metis+
      moreover from this have "rs_path (rs_run (es @ [ev])) = rs_path (rs_run es)" using run by (simp add: rs_path_def accept_fields)
      ultimately show ?thesis using True g [of es] by (metis rs_gate_def)
    next
      case False
      then show ?thesis using g [of "es @ [ev]"] by (simp add: rs_gate_def)
    qed
  qed
qed

section \<open>Bounds\<close>

text \<open>\<open>rs_mem\<close>: the partial messages are as many bytes as the session counts, within the bounds.\<close>

definition acc_ok :: "chunk_stream \<Rightarrow> bool" where
  "acc_ok c = (cs_acc c = [] \<or> length (cs_acc c) < cs_len c \<and> cs_len c \<le> RTMP_MAX_MESSAGE_BYTES)"

definition acc_total :: "chunk_stream list \<Rightarrow> nat" where
  "acc_total cs = sum_list (map (\<lambda>c. length (cs_acc c)) cs)"

definition rs_mem :: "rtmp_session \<Rightarrow> bool" where
  "rs_mem s = (length (rs_cs s) \<le> RTMP_MAX_CHUNK_STREAM + 1 \<and> (\<forall>c \<in> set (rs_cs s). acc_ok c) \<and> rs_assembly s = acc_total (rs_cs s)
     \<and> rs_assembly s \<le> RTMP_MAX_ASSEMBLY_BYTES \<and> 0 < rs_in_chunk s \<and> rs_in_chunk s \<le> RTMP_MAX_CHUNK_SIZE)"

lemma acc_total_update: "i < length cs \<Longrightarrow> acc_total (cs[i := c]) = acc_total cs - length (cs_acc (cs ! i)) + length (cs_acc c)"
  and acc_total_ge: "i < length cs \<Longrightarrow> length (cs_acc (cs ! i)) \<le> acc_total cs"
proof -
  show "i < length cs \<Longrightarrow> length (cs_acc (cs ! i)) \<le> acc_total cs"
    by (simp add: acc_total_def member_le_sum_list)
  then show "i < length cs \<Longrightarrow> acc_total (cs[i := c]) = acc_total cs - length (cs_acc (cs ! i)) + length (cs_acc c)"
    by (simp add: acc_total_def map_update sum_list_update)
qed

lemma cs_resize_props: "length (cs_resize cs i) = max (length cs) (i + 1)" "i < length (cs_resize cs i)"
  "acc_total (cs_resize cs i) = acc_total cs" "(\<forall>c \<in> set cs. acc_ok c) \<Longrightarrow> c \<in> set (cs_resize cs i) \<Longrightarrow> acc_ok c"
  by (auto simp: cs_resize_def acc_total_def cs_new_def acc_ok_def sum_list_replicate)

lemma on_command_mem: "rs_cs (fst (on_command s c p)) = rs_cs s" "rs_assembly (fst (on_command s c p)) = rs_assembly s"
  "rs_in_chunk (fst (on_command s c p)) = rs_in_chunk s"
proof -
  have "rs_cs (fst (on_command s c p)) = rs_cs s \<and> rs_assembly (fst (on_command s c p)) = rs_assembly s
      \<and> rs_in_chunk (fst (on_command s c p)) = rs_in_chunk s"
  proof (cases rule: on_command_cases [where s = s and c = c and p = p])
    case (connect i txn)
    then show ?thesis by (cases rule: on_connect_cases [where s = s and p = p and i = i and txn = txn]) (auto simp: rs_fail_def)
  next
    case (fcpublish i)
    then show ?thesis by (cases rule: on_fcpublish_eq [where s = s and p = p and i = i]) simp
  next
    case (publish i txn)
    then show ?thesis by (cases rule: on_publish_cases [where s = s and c = c and p = p and i = i and txn = txn]) (auto simp: rs_fail_def)
  qed (auto simp: rs_fail_def)
  then show "rs_cs (fst (on_command s c p)) = rs_cs s" "rs_assembly (fst (on_command s c p)) = rs_assembly s"
    "rs_in_chunk (fst (on_command s c p)) = rs_in_chunk s" by auto
qed

lemma on_media_mem: "rs_cs (on_media s t ts p) = rs_cs s" "rs_assembly (on_media s t ts p) = rs_assembly s"
  "rs_in_chunk (on_media s t ts p) = rs_in_chunk s"
  by (simp_all add: on_media_def write_flv_tag_def Let_def)

lemma on_message_mem: "rs_mem s \<Longrightarrow> rs_mem (fst (on_message s c p))"
proof (cases rule: on_message_cases [where s = s and c = c and p = p])
  case (abort v)
  assume m: "rs_mem s"
  have "acc_total ((rs_cs s)[v := (rs_cs s ! v)\<lparr> cs_acc := [] \<rparr>]) = rs_assembly s - length (cs_acc (rs_cs s ! v))"
    using acc_total_update [OF abort(1)] m by (simp add: rs_mem_def)
  moreover have "\<forall>c \<in> set ((rs_cs s)[v := (rs_cs s ! v)\<lparr> cs_acc := [] \<rparr>]). acc_ok c"
    using m by (auto simp: rs_mem_def acc_ok_def dest!: subsetD [OF set_update_subset_insert])
  ultimately show ?thesis using m abort(2) by (auto simp: rs_mem_def)
qed (auto simp: rs_mem_def rs_fail_def on_media_mem on_command_mem)

lemma chunk_store_mem:
  assumes "rs_mem s" "csid < length (rs_cs s)" "cs_acc c = cs_acc (rs_cs s ! csid)" "cs_len c \<le> RTMP_MAX_MESSAGE_BYTES"
    "k \<le> cs_len c - length (cs_acc c)" "rs_assembly s + k \<le> RTMP_MAX_ASSEMBLY_BYTES" "pos + k \<le> length (rs_in s)"
  shows "rs_mem (chunk_store s csid c pos k)"
proof -
  have l: "length (chunk_acc s c pos k) = length (cs_acc c) + k" using assms(7) by (simp add: chunk_acc_def buf_simps)
  have ge: "length (cs_acc c) \<le> rs_assembly s" using acc_total_ge [OF assms(2)] assms(1,3) by (simp add: rs_mem_def)
  let ?acc = "if chunk_whole s c pos k then [] else chunk_acc s c pos k"
  have "acc_total ((rs_cs s)[csid := c\<lparr> cs_acc := ?acc \<rparr>]) = rs_assembly s - length (cs_acc c) + length ?acc"
    using acc_total_update [OF assms(2)] assms(1,3) by (simp add: rs_mem_def)
  moreover have "acc_ok (c\<lparr> cs_acc := ?acc \<rparr>)" using assms(4) by (simp add: acc_ok_def chunk_whole_def)
  moreover have "set ((rs_cs s)[csid := c\<lparr> cs_acc := ?acc \<rparr>]) \<subseteq> insert (c\<lparr> cs_acc := ?acc \<rparr>) (set (rs_cs s))"
    by (rule set_update_subset_insert)
  ultimately show ?thesis
    using assms(1,6) l ge by (auto simp: rs_mem_def chunk_store_def chunk_ack_frame Let_def)
qed

lemma parse_chunks_mem:
  assumes "parse_chunks s = (s', ok)" "rs_mem s"
  shows "rs_mem s'"
proof -
  have re: "rs_mem (s\<lparr> rs_cs := cs_resize (rs_cs s) csid \<rparr>)" if "csid \<le> RTMP_MAX_CHUNK_STREAM" for csid
    using assms(2) that cs_resize_props(4) by (auto simp: rs_mem_def cs_resize_props(1,3))
  have dead: "rs_mem (s\<lparr> rs_error := why, rs_state := RTMP_DEAD \<rparr>) = rs_mem s" for s why by (simp add: rs_mem_def)
  from assms(1) show ?thesis
  proof (cases rule: parse_chunks_cases)
    case wait
    then show ?thesis using re assms(2) by auto
  next
    case (refuse s1 why)
    then show ?thesis using re assms(2) dead by auto
  next
    case (commit fmt csid hdr c pos s1 k)
    have "cs_acc c = cs_acc (rs_cs s1 ! csid)" using chunk_head_bounds [OF commit(4)] by simp
    then have st: "rs_mem (chunk_store s1 csid c pos k)"
      using chunk_store_mem [of s1 csid c k pos] re [OF commit(2)] commit(3,5,7,8,9) by (simp add: cs_resize_props)
    from commit(10) show ?thesis
    proof (cases rule: chunk_commit_cases)
      case (1 s3 r)
      then have "rs_mem s3" using st on_message_mem [OF st, of "c\<lparr> cs_acc := [] \<rparr>" "chunk_acc s1 c pos k"] by (auto split: if_splits)
      then show ?thesis using 1(3) dead by simp
    qed
  qed
qed

interpretation mem: rtmp_invariant rs_mem
proof
  show "rs_mem s'" if "rs_mem s" "parser_step s = (s', ok)" for s s' ok
  proof (cases "rs_state s = RTMP_CHUNKS")
    case True
    then show ?thesis using parse_chunks_mem that by (simp add: parser_step_def)
  next
    case False
    then have "do_handshake s = (s', ok)" using that by (simp add: parser_step_def)
    then show ?thesis using that(1) by (auto simp: do_handshake_def rs_fail_def rs_mem_def split: if_splits)
  qed
qed (auto simp: rs_mem_def)

lemma on_message_dead: "on_message s c p = (s', False) \<Longrightarrow> rs_state s' = RTMP_DEAD"
proof (cases rule: on_message_cases [where s = s and c = c and p = p])
  case command
  assume "on_message s c p = (s', False)"
  with command have e: "on_command s c p = (s', False)" by simp
  show ?thesis
  proof (cases rule: on_command_cases [where s = s and c = c and p = p])
    case (connect i txn)
    with e show ?thesis by (cases rule: on_connect_cases [where s = s and p = p and i = i and txn = txn]) (auto simp: rs_fail_def)
  next
    case (publish i txn)
    with e show ?thesis by (cases rule: on_publish_cases [where s = s and c = c and p = p and i = i and txn = txn]) (auto simp: rs_fail_def)
  qed (use e in \<open>auto simp: rs_fail_def\<close>)
qed (auto simp: rs_fail_def)

text \<open>A parser that waits has less than one chunk with its longest header.\<close>

lemma parse_chunks_waits:
  assumes "parse_chunks s = (s', False)" "rs_state s' \<noteq> RTMP_DEAD"
  shows "rs_avail s' < rs_in_chunk s + 18 \<and> rs_to_peer s' = rs_to_peer s"
proof (cases "chunk_basic (rs_in s) (rs_pos s)")
  case None
  then have "length (rs_in s) < rs_pos s + 3" by (auto simp: chunk_basic_def Let_def split: if_splits)
  then show ?thesis using assms None by (auto simp: parse_chunks_def rs_avail_def)
next
  case (Some b)
  then obtain fmt csid hdr where b: "chunk_basic (rs_in s) (rs_pos s) = Some (fmt, csid, hdr)" by (metis prod_cases3)
  note hdr = chunk_basic_bounds [OF b]
  define s1 where "s1 = s\<lparr> rs_cs := cs_resize (rs_cs s) csid \<rparr>"
  note eq = assms(1) [unfolded parse_chunks_def b option.case prod.case Let_def, folded s1_def]
  have av: "rs_avail s1 = rs_avail s" "rs_in s1 = rs_in s" "rs_to_peer s1 = rs_to_peer s" by (simp_all add: s1_def rs_avail_def)
  show ?thesis
  proof (cases "chunk_head (rs_cs s1 ! csid) (rs_in s) (rs_pos s + hdr) fmt")
    case None
    then have "length (rs_in s) < rs_pos s + hdr + 15" by (auto simp: chunk_head_def chunk_mh_def Let_def split: if_splits)
    then show ?thesis using eq None assms(2) av hdr by (auto simp: rs_fail_def rs_avail_def split: if_splits)
  next
    case (Some hp)
    then obtain c pos where h: "chunk_head (rs_cs s1 ! csid) (rs_in s) (rs_pos s + hdr) fmt = Some (c, pos)" by (metis surj_pair)
    have dead: "rs_state s' = RTMP_DEAD" if "chunk_commit s1 csid c pos k = (s', False)" for k
      using that by (cases rule: chunk_commit_cases) (auto split: if_splits dest: on_message_dead)
    have "s' = s1" "length (rs_in s) < pos + min (cs_len c - length (cs_acc c)) (rs_in_chunk s)"
      using eq h assms(2) dead by (auto simp: rs_fail_def split: if_splits)
    then show ?thesis using chunk_head_bounds [OF h] hdr av by (auto simp: rs_avail_def)
  qed
qed

lemma on_message_state: "on_message s c p = (s', True) \<Longrightarrow> rs_state s' = rs_state s"
proof (cases rule: on_message_cases [where s = s and c = c and p = p])
  case (media t)
  assume "on_message s c p = (s', True)"
  with media show ?thesis by (auto simp: on_media_def write_flv_tag_def Let_def)
next
  case command
  assume "on_message s c p = (s', True)"
  with command have e: "on_command s c p = (s', True)" by simp
  show ?thesis
  proof (cases rule: on_command_cases [where s = s and c = c and p = p])
    case (connect i txn)
    with e show ?thesis by (cases rule: on_connect_cases [where s = s and p = p and i = i and txn = txn]) (auto simp: rs_fail_def)
  next
    case (fcpublish i)
    with e show ?thesis by (cases rule: on_fcpublish_eq [where s = s and p = p and i = i]) auto
  next
    case (publish i txn)
    with e show ?thesis by (cases rule: on_publish_cases [where s = s and c = c and p = p and i = i and txn = txn]) (auto simp: rs_fail_def)
  qed (use e in \<open>auto simp: rs_fail_def\<close>)
qed (auto simp: rs_fail_def)

lemma parse_chunks_ok:
  assumes "parse_chunks s = (s', True)"
  shows "rs_state s' = rs_state s \<and> length (rs_to_peer s') \<le> RTMP_MAX_OUT_BYTES"
  using assms
proof (cases rule: parse_chunks_cases)
  case (commit fmt csid hdr c pos s1 k)
  from commit(10) show ?thesis
    by (cases rule: chunk_commit_cases) (use commit(3) in \<open>auto split: if_splits dest: on_message_state\<close>)
qed auto

lemma length_handshake_reply: "length c1 = 1536 \<Longrightarrow> length (handshake_reply c1) = 3073"
  by (simp add: handshake_reply_def)

lemma do_handshake_ok:
  assumes "do_handshake s = (s', True)"
  shows "rs_state s' \<noteq> RTMP_WANT_C0C1 \<and> rs_to_peer s' = rs_to_peer s @ (if rs_state s = RTMP_WANT_C0C1
     then handshake_reply (seg (rs_in s) (rs_pos s + 1) 1536) else [])
     \<and> (rs_state s = RTMP_WANT_C0C1 \<longrightarrow> length (seg (rs_in s) (rs_pos s + 1) 1536) = 1536)"
  using assms by (auto simp: do_handshake_def rs_fail_def rs_avail_def buf_simps split: if_splits)

lemma run_parser_bounds:
  assumes "run_parser s = (s', True)" "rs_mem s"
    and "length (rs_to_peer s) + (if rs_state s = RTMP_WANT_C0C1 then 3073 else 0) \<le> RTMP_MAX_OUT_BYTES"
  shows "length (rs_to_peer s') \<le> RTMP_MAX_OUT_BYTES \<and> (rs_publish_pending s' \<or> rs_avail s' < RTMP_MAX_CHUNK_SIZE + 18)"
  using assms
proof (induction s arbitrary: s' rule: run_parser.induct)
  case (1 s)
  obtain s1 ok where st: "parser_step s = (s1, ok)" by (metis surj_pair)
  note eq = 1(2) [unfolded run_parser.simps [of s] st prod.case]
  have alive: "rs_state s \<noteq> RTMP_DEAD" using eq by auto
  have m: "rs_mem s1" by (rule mem.step_keeps [OF 1(3) st])
  have chunk: "rs_in_chunk s \<le> RTMP_MAX_CHUNK_SIZE" using 1(3) by (simp add: rs_mem_def)
  show ?case
  proof (cases ok)
    case False
    then have s': "s' = s1" "rs_state s1 \<noteq> RTMP_DEAD" using eq alive by auto
    show ?thesis
    proof (cases "rs_state s = RTMP_CHUNKS")
      case True
      then show ?thesis using parse_chunks_waits [of s s1] st False s' 1(4) chunk by (auto simp: parser_step_def)
    next
      case nc: False
      have "s1 = s \<and> rs_avail s < 1537"
        using st nc False s'(2) by (auto simp: parser_step_def do_handshake_def rs_fail_def split: if_splits)
      then show ?thesis using s'(1) 1(4) by (auto simp: RTMP_MAX_CHUNK_SIZE_def)
    qed
  next
    case True
    have out: "length (rs_to_peer s1) \<le> RTMP_MAX_OUT_BYTES \<and> rs_state s1 \<noteq> RTMP_WANT_C0C1"
    proof (cases "rs_state s = RTMP_CHUNKS")
      case True
      then show ?thesis using parse_chunks_ok [of s s1] st \<open>ok\<close> by (simp add: parser_step_def)
    next
      case False
      then have "do_handshake s = (s1, True)" using st \<open>ok\<close> by (simp add: parser_step_def)
      from do_handshake_ok [OF this] show ?thesis using 1(4) by (auto simp: length_handshake_reply split: if_splits)
    qed
    show ?thesis
    proof (cases "rs_publish_pending s1 \<or> rs_pos s1 = rs_pos s")
      case stop: True
      then have "rs_publish_pending s1" using parser_step_moves [OF st] True by auto
      then show ?thesis using eq alive True stop out by (auto simp: rs_compact_def)
    next
      case False
      then show ?thesis using 1(1) [OF alive st [symmetric] _ False] eq alive True m out by simp
    qed
  qed
qed

lemma rs_step_mem: "rs_mem s \<Longrightarrow> rs_mem (rs_step s ev)"
proof (cases ev)
  case (Feed buf now)
  assume "rs_mem s"
  then show ?thesis using mem.feed_keeps [of s buf now] Feed by (cases "rs_feed s buf now") simp
next
  case Resume
  assume "rs_mem s"
  then show ?thesis using mem.resume_keeps [of s] Resume by (cases "rs_resume s") simp
qed (auto simp: rs_mem_def accept_publish_def write_flv_header_def reject_publish_def Let_def)

text \<open>
  C38.  Whatever an unauthenticated peer sends, a session keeps at most 256 chunk
  streams, at most 8 MiB of partial messages in all and 4 MiB in each; after a
  read that returns, less than one chunk of 1 MiB with its header is left
  unparsed unless a publish is waiting for its decision, and a session whose
  answers were taken before owes the peer at most 256 KiB.
\<close>

theorem rtmp_memory_bounds:
  "length (rs_cs (rs_run es)) \<le> 256 \<and> sum_list (map (\<lambda>c. length (cs_acc c)) (rs_cs (rs_run es))) \<le> 8388608
   \<and> (\<forall>c \<in> set (rs_cs (rs_run es)). length (cs_acc c) \<le> 4194304)
   \<and> (rs_to_peer (rs_run es) = [] \<longrightarrow> rs_feed (rs_run es) buf now = (s', True) \<longrightarrow>
        length (rs_to_peer s') \<le> 262144 \<and> (rs_publish_pending s' \<or> rs_avail s' < 1048594))"
proof -
  have m: "rs_mem (rs_run es)"
    by (induction es rule: rev_induct)
      (simp_all add: rs_run_def rs_step_mem, simp add: rs_mem_def rs_new_def acc_total_def RTMP_DEFAULT_CHUNK_SIZE_def RTMP_MAX_CHUNK_SIZE_def)
  have "length (cs_acc c) \<le> 4194304" if "c \<in> set (rs_cs (rs_run es))" for c
    using m that by (auto simp: rs_mem_def acc_ok_def RTMP_MAX_MESSAGE_BYTES_def)
  moreover have "length (rs_to_peer s') \<le> 262144 \<and> (rs_publish_pending s' \<or> rs_avail s' < 1048594)"
    if "rs_to_peer (rs_run es) = []" "rs_feed (rs_run es) buf now = (s', True)"
  proof -
    have "rs_mem (feed_start (rs_run es) buf now)" using m by (simp add: rs_mem_def feed_start_def)
    from run_parser_bounds [OF rs_feed_runs [OF that(2)] this] that(1) show ?thesis
      by (simp add: feed_start_def RTMP_MAX_OUT_BYTES_def RTMP_MAX_CHUNK_SIZE_def)
  qed
  ultimately show ?thesis
    using m by (auto simp: rs_mem_def acc_total_def RTMP_MAX_CHUNK_STREAM_def RTMP_MAX_ASSEMBLY_BYTES_def)
qed

end
