(* ===== verification/Video_Slot.thy ===== *)
theory Video_Slot
  imports Video_View Video_Rec Rtsp_Backend Rtmp_Session Conn_Db
begin

text \<open>
  A video slot of an entry and the video child's handlers for it
  (\<open>src/video.cpp\<close>, \<open>struct Slot\<close> and \<open>class VideoChild\<close>): admission of UDP,
  Matroska and RTSP publishers, ingest into scanner, ring and recorder, the
  viewer table, the request guard of the RTSP splice, the periodic tick and the
  rows of the connection database; RTMP handshakes in their pool and the RTMP
  session that owns the slot.

  A handler takes the environment of the call (the entry, the clock, answers of
  sockets, files and processes) and gives the new slot.  \<open>sl_forwarded\<close> records
  the datagrams handed to an RTP backend, \<open>sl_tick_now\<close> that the handler has reset
  the child's \<open>last_tick_\<close> to 0.
\<close>

definition VIDEO_PUB_IDLE_S :: int where "VIDEO_PUB_IDLE_S = 10"
definition VIDEO_MAX_VIEWERS_PER_IP :: nat where "VIDEO_MAX_VIEWERS_PER_IP = 8"
definition VIDEO_MAX_PENDING_RTMP :: nat where "VIDEO_MAX_PENDING_RTMP = 4"
definition VIDEO_RTP_SNIFF_MAX :: nat where "VIDEO_RTP_SNIFF_MAX = 64"
definition VIDEO_RTP_RETRY_S :: int where "VIDEO_RTP_RETRY_S = 5"
definition VIDEO_LOG_MIN_INTERVAL_S :: int where "VIDEO_LOG_MIN_INTERVAL_S = 1"
definition SPLICE_QUEUE_MAX :: nat where "SPLICE_QUEUE_MAX = 1024 * 1024"

definition video_entry_wants_child :: "32 word \<Rightarrow> (32 word) list \<Rightarrow> bool" where
  "video_entry_wants_child flags ports = (flags AND KEY_FLAG_VIDEO \<noteq> 0 \<and> (\<exists>p \<in> set (take KEY_MAX_VIDEO_PORTS ports). p \<noteq> 0))"

section \<open>State\<close>

record splice_queue =
  sq_buf :: bytes
  sq_sent :: nat
  sq_armed :: bool

definition sq_new :: splice_queue where
  "sq_new = \<lparr> sq_buf = [], sq_sent = 0, sq_armed = False \<rparr>"

definition sq_pending :: "splice_queue \<Rightarrow> nat" where
  "sq_pending q = length (sq_buf q) - sq_sent q"

definition sq_compact :: "splice_queue \<Rightarrow> splice_queue" where
  "sq_compact q =
     (if sq_sent q = length (sq_buf q) then q\<lparr> sq_buf := [], sq_sent := 0 \<rparr>
      else if sq_sent q > 65536 then q\<lparr> sq_buf := drop (sq_sent q) (sq_buf q), sq_sent := 0 \<rparr> else q)"

record pending_rtmp =
  pr_active :: bool
  pr_sess :: rtmp_session
  pr_out :: splice_queue
  pr_since :: int
  pr_ip :: "32 word"
  pr_port :: "16 word"

definition pr_new :: pending_rtmp where
  "pr_new = \<lparr> pr_active = False, pr_sess = rs_new, pr_out = sq_new, pr_since = 0, pr_ip = 0, pr_port = 0 \<rparr>"

record slot =
  sl_has_pub :: bool
  sl_pub_ip :: "32 word"
  sl_pub_port :: "16 word"
  sl_pub_since :: int
  sl_pub_last :: int
  sl_pub_bytes :: nat
  sl_last_reject_log :: int
  sl_rejects :: nat
  sl_backend :: backend
  sl_client :: bool
  sl_to_backend :: splice_queue
  sl_to_client :: splice_queue
  sl_guard :: bytes
  sl_opaque_left :: nat
  sl_rtmp :: "rtmp_session option"
  sl_pending :: "pending_rtmp list"
  sl_mkv :: bool
  sl_chunks :: video_chunks
  sl_ring :: video_ring
  sl_scanner :: video_scanner
  sl_rec :: video_writer
  sl_tree :: port_tree
  sl_viewers :: "(32 word \<times> viewer) list"
  sl_viewers_seen :: nat
  sl_viewers_dropped :: nat
  sl_recording :: bool
  sl_last_anchor :: nat
  sl_had_anchor :: bool
  sl_bad_datagrams :: nat
  sl_warned_204 :: bool
  sl_rtp_seen :: nat
  sl_rtp_retry_after :: int
  sl_forwarded :: "bytes list"
  sl_tick_now :: bool

definition vw_new :: viewer where
  "vw_new = \<lparr> vw_open = False, vw_port2 = 0, vw_state = VV_DETECT, vw_kind = VVK_UNKNOWN, vw_holding = False, vw_connected_at = 0,
     vw_last_progress = 0, vw_behind_since = 0, vw_req = hr_new, vw_prefix = [], vw_prefix_sent = 0, vw_out = [], vw_out_sent = 0,
     vw_read_pos = 0, vw_streaming = False, vw_bytes_sent = 0, vw_blocked = False, vw_ws = None, vw_rtsp = None, vw_ws_ready = False,
     vw_drop_reason = [], vw_wire = [] \<rparr>"

text \<open>A slot before its first publisher; \<open>tree\<close> is the log directory of the port as the child finds it.\<close>

definition slot_new :: "port_tree \<Rightarrow> slot" where
  "slot_new tree = \<lparr> sl_has_pub = False, sl_pub_ip = 0, sl_pub_port = 0, sl_pub_since = 0, sl_pub_last = 0, sl_pub_bytes = 0,
     sl_last_reject_log = 0, sl_rejects = 0, sl_backend = be_new, sl_client = False, sl_to_backend = sq_new, sl_to_client = sq_new,
     sl_guard = [], sl_opaque_left = 0, sl_rtmp = None, sl_pending = replicate VIDEO_MAX_PENDING_RTMP pr_new, sl_mkv = False,
     sl_chunks = ch_new, sl_ring = \<lparr> ring_buf = [], ring_wpos = 0 \<rparr>, sl_scanner = sc_new, sl_rec = vr_new, sl_tree = tree,
     sl_viewers = replicate VIDEO_MAX_VIEWERS (0, vw_new), sl_viewers_seen = 0, sl_viewers_dropped = 0, sl_recording = False,
     sl_last_anchor = 0, sl_had_anchor = False, sl_bad_datagrams = 0, sl_warned_204 = False, sl_rtp_seen = 0, sl_rtp_retry_after = 0,
     sl_forwarded = [], sl_tick_now = False \<rparr>"

record 'db slot_env =
  se_sha :: "string \<Rightarrow> bytes"
  se_tdb :: "'db tdb_ops"
  se_conn_db :: "'db option"
  se_ke :: key_entry
  se_port2 :: int
  se_idx :: nat
  se_now :: int
  se_ring_bytes :: nat
  se_rec :: rec_env
  se_files :: "nat \<Rightarrow> net_write list"
  se_start :: start_answers

definition slot_opt :: "'db slot_env \<Rightarrow> 32 word \<Rightarrow> bool" where
  "slot_opt e m = (video_slot_opts_of (se_ke e) (se_idx e) AND m \<noteq> 0)"

definition session_ok :: "'db slot_env \<Rightarrow> bool" where
  "session_ok e = slot_opt e VIDEO_SLOT_SESSION_OK"

definition open_publish :: "'db slot_env \<Rightarrow> bool" where
  "open_publish e = slot_opt e VIDEO_SLOT_OPEN_PUB"

definition slot_admit :: "'db slot_env \<Rightarrow> video_auth \<Rightarrow> 32 word \<Rightarrow> string option \<Rightarrow> bool \<Rightarrow> video_auth \<times> video_admit_t" where
  "slot_admit e a ip pw capable =
     (let (a', r, n) = admit (se_sha e) (se_tdb e) (se_conn_db e) a (se_ke e) ip pw capable (session_ok e) (open_publish e) (se_now e)
      in (a', r))"

definition log_reject :: "slot \<Rightarrow> int \<Rightarrow> slot" where
  "log_reject s now =
     (let s1 = s\<lparr> sl_rejects := u32 (sl_rejects s + 1) \<rparr>
      in if now - sl_last_reject_log s < VIDEO_LOG_MIN_INTERVAL_S then s1 else s1\<lparr> sl_last_reject_log := now \<rparr>)"

definition reset_rtp :: "slot \<Rightarrow> slot" where
  "reset_rtp s = s\<lparr> sl_rtp_seen := 0, sl_rtp_retry_after := 0 \<rparr>"

section \<open>RTP datagrams\<close>

datatype rtp_codec = RTP_CODEC_UNKNOWN | RTP_CODEC_H264 | RTP_CODEC_HEVC

definition rtp_payload_offset :: "bytes \<Rightarrow> nat option" where
  "rtp_payload_offset buf =
     (let n = length buf
      in if n < 13 \<or> buf ! 0 AND 0xC0 \<noteq> 0x80 then None
         else
           let pt = unat (buf ! 1 AND 0x7f)
           in if pt < 96 \<or> pt > 127 then None
              else
                let off = 12 + 4 * unat (buf ! 0 AND 0x0f)
                in if buf ! 0 AND 0x10 \<noteq> 0 then
                     if off + 4 > n then None
                     else let off2 = off + 4 + 4 * (unat (buf ! (off + 2)) * 256 + unat (buf ! (off + 3)))
                          in if off2 < n then Some off2 else None
                   else if off < n then Some off else None)"

definition rtp_codec_hint :: "bytes \<Rightarrow> rtp_codec" where
  "rtp_codec_hint p =
     (if length p < 2 \<or> p ! 0 AND 0x80 \<noteq> 0 then RTP_CODEC_UNKNOWN
      else if p ! 0 \<in> {0x40, 0x42, 0x44, 0x60, 0x62}
      then (if p ! 1 AND 0xF8 = 0 \<and> p ! 1 AND 0x07 \<noteq> 0 then RTP_CODEC_HEVC else RTP_CODEC_UNKNOWN)
      else
        let t = p ! 0 AND 0x1f
        in if t = 28 \<or> t = 24 then RTP_CODEC_H264
           else if t = 5 \<or> t = 7 \<or> t = 8
           then (if p ! 0 AND 0x60 = 0x60 then RTP_CODEC_H264 else RTP_CODEC_UNKNOWN)
           else RTP_CODEC_UNKNOWN)"

section \<open>Ingest\<close>

definition slot_store :: "slot \<Rightarrow> bytes \<Rightarrow> slot" where
  "slot_store s buf =
     s\<lparr> sl_pub_bytes := u64 (sl_pub_bytes s + length buf),
        sl_scanner := fst (sc_feed (sl_scanner s) buf (ring_wpos (sl_ring s))),
        sl_ring := ring_write (sl_ring s) buf \<rparr>"

text \<open>The recorder's part of both ingest functions; \<open>before\<close> is the write position ahead of \<open>buf\<close>.\<close>

definition at_boundary :: "slot \<Rightarrow> nat \<Rightarrow> bool" where
  "at_boundary s before = (case sc_join_offset (sl_scanner s) of None \<Rightarrow> False
     | Some a \<Rightarrow> sl_had_anchor s \<and> a > sl_last_anchor s \<and> a \<ge> before)"

definition slot_record :: "'db slot_env \<Rightarrow> slot \<Rightarrow> bytes \<Rightarrow> nat \<Rightarrow> slot" where
  "slot_record e s buf before =
     (if \<not> sl_recording s \<or> vr_stopped (sl_rec s) then s
      else
        let (r1, due) = vr_rotation_due (se_rec e) (sl_rec s) (se_now e);
            r2 = (if due \<and> (at_boundary s before \<or> vr_rotation_overdue r1 (se_now e)) then vr_rotate r1 else r1);
            s1 = (case sc_join_offset (sl_scanner s) of None \<Rightarrow> s | Some a \<Rightarrow> s\<lparr> sl_last_anchor := a, sl_had_anchor := True \<rparr>);
            (r3, t, ok) = vr_write (se_rec e) r2 (sl_tree s) buf (se_files e 0) (se_now e)
        in s1\<lparr> sl_rec := r3, sl_tree := t \<rparr>)"

definition ingest_stream :: "'db slot_env \<Rightarrow> slot \<Rightarrow> bytes \<Rightarrow> slot" where
  "ingest_stream e s buf = slot_record e (slot_store s buf) buf (ring_wpos (sl_ring s))"

definition ts_datagram :: "bytes \<Rightarrow> bool" where
  "ts_datagram buf = (length buf \<ge> TS_PACKET_SIZE \<and> buf ! 0 = TS_SYNC_BYTE \<and> length buf mod TS_PACKET_SIZE = 0
     \<and> (length buf > TS_PACKET_SIZE \<longrightarrow> buf ! TS_PACKET_SIZE = TS_SYNC_BYTE))"

definition ingest :: "'db slot_env \<Rightarrow> slot \<Rightarrow> bytes \<Rightarrow> slot" where
  "ingest e s buf =
     (if \<not> ts_datagram buf then
        let s1 = (if \<not> sl_warned_204 s \<and> length buf mod 204 = 0 \<and> length buf \<ge> 204 \<and> buf ! 0 = TS_SYNC_BYTE
                  then s\<lparr> sl_warned_204 := True \<rparr> else s)
        in s1\<lparr> sl_bad_datagrams := u64 (sl_bad_datagrams s1 + 1) \<rparr>
      else ingest_stream e s buf)"

definition ingest_rtp :: "'db slot_env \<Rightarrow> slot \<Rightarrow> bytes \<Rightarrow> slot" where
  "ingest_rtp e s buf =
     (case rtp_payload_offset buf of
        None \<Rightarrow> s
      | Some off \<Rightarrow>
          let s1 = (if sl_rtp_seen s < 4294967295 then s\<lparr> sl_rtp_seen := sl_rtp_seen s + 1 \<rparr> else s)
          in if se_now e < sl_rtp_retry_after s1 then s1
             else
               let hint = rtp_codec_hint (drop off buf)
               in if hint = RTP_CODEC_UNKNOWN \<and> sl_rtp_seen s1 < VIDEO_RTP_SNIFF_MAX then s1
                  else
                    let codec = (if hint = RTP_CODEC_UNKNOWN then RTP_CODEC_H264 else hint);
                        name = (if codec = RTP_CODEC_HEVC then ''H265'' else ''H264'');
                        (b, ok) = be_start (se_start e) (sl_backend s1) False SPLICE_RTP None (Some name) (int (unat (buf ! 1 AND 0x7f)))
                    in if \<not> ok then s1\<lparr> sl_backend := b, sl_rtp_retry_after := se_now e + VIDEO_RTP_RETRY_S \<rparr>
                       else s1\<lparr> sl_backend := b, sl_forwarded := sl_forwarded s1 @ [buf] \<rparr>)"

definition ingest_udp :: "'db slot_env \<Rightarrow> slot \<Rightarrow> bytes \<Rightarrow> slot" where
  "ingest_udp e s buf =
     (if be_running (sl_backend s) then
        if be_proto (sl_backend s) = SPLICE_RTP then s\<lparr> sl_forwarded := sl_forwarded s @ [buf] \<rparr> else s
      else if sl_rtp_seen s > 0 \<or> st_packets (ts_stats (sc_ts (sl_scanner s))) = 0 \<and> rtp_payload_offset buf \<noteq> None
      then ingest_rtp e s buf
      else ingest e s buf)"

section \<open>Publishers\<close>

definition entry_tz :: "key_entry \<Rightarrow> rat option" where
  "entry_tz ke = (if ke_flags ke AND KEY_FLAG_USE_TZ \<noteq> 0
     then (case float_value (tz_offset_hours ke) of Finite r \<Rightarrow> Some r | _ \<Rightarrow> None) else None)"

definition latch_publisher :: "'db slot_env \<Rightarrow> slot \<Rightarrow> slot" where
  "latch_publisher e s =
     (let s1 = reset_rtp (s\<lparr> sl_has_pub := True, sl_pub_since := se_now e, sl_pub_last := se_now e, sl_pub_bytes := 0,
                 sl_ring := ring_init (se_ring_bytes e), sl_scanner := sc_new, sl_rec := vr_set_matroska (sl_rec s) False,
                 sl_had_anchor := False, sl_recording := slot_opt e VIDEO_SLOT_RECORD, sl_tick_now := True \<rparr>)
      in if sl_recording s1
         then s1\<lparr> sl_rec := vr_configure (sl_rec s1) (word_of_int (se_port2 e)) (se_idx e) (entry_tz (se_ke e)) (Some ''logs'')
                              (video_quota_mb (se_ke e)) \<rparr>
         else s1)"

definition slot_busy :: "slot \<Rightarrow> int \<Rightarrow> bool" where
  "slot_busy s now = (sl_has_pub s \<and> now - sl_pub_last s \<le> VIDEO_PUB_IDLE_S \<or> be_running (sl_backend s) \<or> sl_client s)"

definition UDP_BUF :: nat where "UDP_BUF = 65536"

definition handle_udp :: "'db slot_env \<Rightarrow> video_auth \<Rightarrow> slot \<Rightarrow> 32 word \<Rightarrow> 16 word \<Rightarrow> bytes \<Rightarrow> video_auth \<times> slot" where
  "handle_udp e a s ip port d =
     (if d = [] \<or> sl_mkv s then (a, s)
      else if length d > UDP_BUF then (a, s\<lparr> sl_bad_datagrams := u64 (sl_bad_datagrams s + 1) \<rparr>)
      else if sl_has_pub s \<and> sl_pub_ip s = ip \<and> sl_pub_port s = port
      then (a, ingest_udp e (s\<lparr> sl_pub_last := se_now e \<rparr>) d)
      else
        let (a', r) = slot_admit e a ip None False
        in if r \<noteq> VIDEO_ADMIT_OK then (a', log_reject s (se_now e))
           else if slot_busy s (se_now e) then (a', log_reject s (se_now e))
           else (a', ingest_udp e (latch_publisher e (s\<lparr> sl_pub_ip := ip, sl_pub_port := port \<rparr>)) d))"

section \<open>Viewers of the slot\<close>

definition vw_active :: "32 word \<times> viewer \<Rightarrow> bool" where
  "vw_active x = vw_open (snd x)"

definition from_ip :: "slot \<Rightarrow> 32 word \<Rightarrow> nat" where
  "from_ip s ip = length (filter (\<lambda>x. vw_active x \<and> fst x = ip) (take VIDEO_MAX_VIEWERS (sl_viewers s)))"

fun free_slot :: "(32 word \<times> viewer) list \<Rightarrow> nat option" where
  "free_slot [] = None"
| "free_slot (x # xs) = (if \<not> vw_active x then Some 0 else map_option Suc (free_slot xs))"

text \<open>An accepted connection: the index it gets, or \<open>None\<close> for the 503 response.\<close>

definition handle_tcp :: "'db slot_env \<Rightarrow> slot \<Rightarrow> 32 word \<Rightarrow> slot \<times> nat option" where
  "handle_tcp e s ip =
     (case (if from_ip s ip < VIDEO_MAX_VIEWERS_PER_IP then free_slot (take VIDEO_MAX_VIEWERS (sl_viewers s)) else None) of
        None \<Rightarrow> (s, None)
      | Some v \<Rightarrow>
          (s\<lparr> sl_viewers := (sl_viewers s)[v := (ip, vw_start (snd (sl_viewers s ! v)) (se_port2 e) (se_now e))],
              sl_viewers_seen := u32 (sl_viewers_seen s + 1) \<rparr>, Some v))"

definition drop_viewer :: "slot \<Rightarrow> nat \<Rightarrow> slot" where
  "drop_viewer s v =
     (if \<not> vw_active (sl_viewers s ! v) then s
      else s\<lparr> sl_viewers := (sl_viewers s)[v := (fst (sl_viewers s ! v), vw_close (snd (sl_viewers s ! v)))],
              sl_viewers_dropped := u32 (sl_viewers_dropped s + 1), sl_tick_now := True \<rparr>)"

text \<open>The loop over the viewers in \<open>end_stream\<close>.\<close>

definition end_viewer :: "string \<Rightarrow> nat \<Rightarrow> slot \<Rightarrow> slot" where
  "end_viewer why v s =
     (if vw_active (sl_viewers s ! v)
      then drop_viewer (s\<lparr> sl_viewers := (sl_viewers s)[v := (fst (sl_viewers s ! v), (snd (sl_viewers s ! v))\<lparr> vw_drop_reason := why \<rparr>)] \<rparr>) v
      else s)"

definition end_stream :: "slot \<Rightarrow> string \<Rightarrow> slot" where
  "end_stream s why =
     (let s1 = fold (end_viewer why) [0..<length (sl_viewers s)] s
      in s1\<lparr> sl_ring := ring_reset (sl_ring s1), sl_scanner := sc_reset (sl_scanner s1), sl_last_anchor := 0,
             sl_had_anchor := False, sl_bad_datagrams := 0, sl_warned_204 := False, sl_pub_bytes := 0 \<rparr>)"

section \<open>Matroska publishers\<close>

text \<open>The \<open>cluster\<close> callback: every segment starts with the codec header and holds whole clusters.
  \<open>k\<close> counts the clusters of one read.\<close>

definition mkv_record :: "'db slot_env \<Rightarrow> nat \<Rightarrow> bytes \<Rightarrow> slot \<Rightarrow> slot" where
  "mkv_record e k c s =
     (if \<not> sl_recording s \<or> vr_stopped (sl_rec s) then s
      else
        let (r1, due) = vr_rotation_due (se_rec e) (sl_rec s) (se_now e);
            r2 = (if due then vr_rotate r1 else r1);
            (r3, t3, ok) = (if vr_open r2 then (r2, sl_tree s, True)
                            else vr_write (se_rec e) r2 (sl_tree s) (sc_prefix (sl_scanner s)) (se_files e (2 * k)) (se_now e))
        in if \<not> ok then s\<lparr> sl_rec := r3, sl_tree := t3 \<rparr>
           else let (r4, t4, ok4) = vr_write (se_rec e) r3 t3 c (se_files e (2 * k + 1)) (se_now e)
                in s\<lparr> sl_rec := r4, sl_tree := t4 \<rparr>)"

fun mkv_records :: "'db slot_env \<Rightarrow> nat \<Rightarrow> bytes list \<Rightarrow> slot \<Rightarrow> slot" where
  "mkv_records e k [] s = s"
| "mkv_records e k (c # cs) s = mkv_records e (k + 1) cs (mkv_record e k c s)"

text \<open>One read of the publisher.  The pieces the chunk decoder hands out reach the scanner together;
  where they are cut makes no difference to it.\<close>

definition pump_mkv :: "'db slot_env \<Rightarrow> slot \<Rightarrow> net_read \<Rightarrow> slot \<times> bool" where
  "pump_mkv e s inp =
     (case inp of
        R_again \<Rightarrow> (s, True)
      | R_fail \<Rightarrow> (s, False)
      | R_data d \<Rightarrow>
          if d = [] then (s, False)
          else
            let (ch, data) = ch_feed (sl_chunks s) (take UDP_BUF d);
                (sc, cs) = sc_feed (sl_scanner s) data (ring_wpos (sl_ring s));
                s1 = mkv_records e 0 cs (s\<lparr> sl_pub_last := se_now e, sl_scanner := sc \<rparr>);
                s2 = s1\<lparr> sl_ring := ring_write (sl_ring s1) data, sl_pub_bytes := u64 (sl_pub_bytes s1 + length data),
                          sl_chunks := (case ch of Some c \<Rightarrow> c | None \<Rightarrow> sl_chunks s1) \<rparr>
            in (s2, ch \<noteq> None \<and> \<not> sc_failed (sl_scanner s2)))"

definition close_mkv :: "slot \<Rightarrow> string \<Rightarrow> slot" where
  "close_mkv s why =
     end_stream (s\<lparr> sl_mkv := False, sl_has_pub := False, sl_rec := vr_close_segment (sl_rec s), sl_recording := False \<rparr>) why"

definition mkv_request_ok :: "nat \<Rightarrow> http_request \<Rightarrow> bool" where
  "mkv_request_ok idx req =
     (hr_path req = ''/v'' @ show_nat (idx + 1) @ ''.mkv'' \<and> hr_header_count req ''Content-Type'' = 1
      \<and> hr_header req ''Content-Type'' = ''video/x-matroska'' \<and> hr_header_count req ''Transfer-Encoding'' = 1
      \<and> hr_header req ''Transfer-Encoding'' = ''chunked'' \<and> hr_header_count req ''Content-Length'' = 0
      \<and> hr_header req ''Expect'' = ''100-continue'')"

text \<open>\<open>io\<close> is whether the header is read back and the \<open>100 Continue\<close> is sent in full.\<close>

definition handle_mkv :: "'db slot_env \<Rightarrow> video_auth \<Rightarrow> slot \<Rightarrow> 32 word \<Rightarrow> 16 word \<Rightarrow> net_read \<Rightarrow> bool \<Rightarrow> video_auth \<times> slot" where
  "handle_mkv e a s ip port peek io =
     (case peek of
        R_data d \<Rightarrow>
          let (req, r) = hr_feed hr_new (bytes_str (take PEEK_SIZE d))
          in if d = [] \<or> r \<noteq> Hr_complete then (a, s)
             else
               let (a', adm) = slot_admit e a ip (http_query_value (hr_target req) ''pw'') True
               in if adm \<noteq> VIDEO_ADMIT_OK \<or> sl_has_pub s \<or> be_running (sl_backend s) \<or> sl_mkv s \<or> \<not> mkv_request_ok (se_idx e) req \<or> \<not> io
                  then (a', s)
                  else
                    let s1 = latch_publisher e (s\<lparr> sl_pub_ip := ip, sl_pub_port := port \<rparr>)
                    in (a', s1\<lparr> sl_mkv := True, sl_chunks := ch_new, sl_scanner := (sl_scanner s1)\<lparr> sc_matroska := True \<rparr>,
                               sl_rec := vr_set_matroska (sl_rec s1) True \<rparr>)
      | _ \<Rightarrow> (a, s))"

section \<open>RTSP publishers\<close>

definition close_rtsp :: "slot \<Rightarrow> slot" where
  "close_rtsp s =
     (if \<not> be_running (sl_backend s) \<and> \<not> be_media_fd (sl_backend s) \<and> \<not> sl_client s \<and> sl_rtmp s = None then s
      else end_stream (reset_rtp (s\<lparr> sl_client := False, sl_rtmp := None, sl_to_backend := sq_new, sl_to_client := sq_new,
             sl_guard := [], sl_opaque_left := 0, sl_backend := be_stop (sl_backend s), sl_rec := vr_close_segment (sl_rec s),
             sl_recording := False, sl_has_pub := False \<rparr>)) ''publisher gone'')"

text \<open>The target of the request line in the bytes peeked.\<close>

definition rtsp_line_target :: "string \<Rightarrow> string option" where
  "rtsp_line_target req =
     (case cut_at LF req of
        None \<Rightarrow> None
      | Some (line, rest) \<Rightarrow>
          (case cut_at CHR '' '' (strip_cr line) of
             None \<Rightarrow> None
           | Some (method, r1) \<Rightarrow> map_option fst (cut_at CHR '' '' r1)))"

definition handle_rtsp :: "'db slot_env \<Rightarrow> video_auth \<Rightarrow> slot \<Rightarrow> 32 word \<Rightarrow> 16 word \<Rightarrow> net_read \<Rightarrow> video_auth \<times> slot" where
  "handle_rtsp e a s ip port peek =
     (case peek of
        R_data d \<Rightarrow>
          (case (if d = [] then None else rtsp_line_target (bytes_str (take PEEK_SIZE d))) of
             None \<Rightarrow> (a, s)
           | Some target \<Rightarrow>
               let (a', r) = slot_admit e a ip (http_query_value target ''pw'') True
               in if r \<noteq> VIDEO_ADMIT_OK then (a', log_reject s (se_now e))
                  else if sl_mkv s \<or> slot_busy s (se_now e) then (a', log_reject s (se_now e))
                  else
                    let (b, ok) = be_start (se_start e) (sl_backend s) (video_entry_opts (video_flags (se_ke e)) AND VIDEO_OPT_AUDIO \<noteq> 0)
                                    SPLICE_RTSP None None 96
                    in if \<not> ok then (a', s\<lparr> sl_backend := b \<rparr>)
                       else (a', latch_publisher e (s\<lparr> sl_backend := b, sl_client := True, sl_guard := [], sl_opaque_left := 0,
                                                       sl_pub_ip := ip, sl_pub_port := port \<rparr>)))
      | _ \<Rightarrow> (a, s))"

text \<open>\<open>splice_flush\<close>: a send of zero bytes is an error.\<close>

definition splice_flush :: "splice_queue \<Rightarrow> net_write list \<Rightarrow> splice_queue \<times> net_write list \<times> bool" where
  "splice_flush q outs =
     (let (m, outs1, r) = flush_loop True (drop (sq_sent q) (sq_buf q)) outs; q1 = q\<lparr> sq_sent := sq_sent q + m \<rparr>
      in if r = F_failed then (q1, outs1, False) else (sq_compact q1, outs1, True))"

text \<open>\<open>mod_ok\<close> is whether \<open>epoll_ctl\<close> succeeds.\<close>

definition splice_arm :: "bool \<Rightarrow> bool \<Rightarrow> splice_queue \<Rightarrow> splice_queue" where
  "splice_arm fd_open mod_ok q =
     (let want = (sq_pending q > 0) in if want = sq_armed q \<or> \<not> fd_open \<or> \<not> mod_ok then q else q\<lparr> sq_armed := want \<rparr>)"

text \<open>The length of the request header at the front of the buffer, if it is complete.\<close>

fun header_len :: "bytes \<Rightarrow> nat option" where
  "header_len [] = None"
| "header_len (x # xs) =
     (if x = 10 \<and> take 1 xs = [10] then Some 2
      else if take 4 (x # xs) = [13, 10, 13, 10] then Some 4
      else map_option Suc (header_len xs))"

text \<open>\<open>strtoull(s, &end, 10)\<close>: like \<open>strtoll\<close>, with a sign that negates modulo \<open>2 ^ 64\<close>.\<close>

definition strtoull10 :: "string \<Rightarrow> nat \<times> string \<times> bool" where
  "strtoull10 s =
     (let t = dropWhile is_space s;
          neg = (t \<noteq> [] \<and> hd t = CHR ''-'');
          t' = (if t \<noteq> [] \<and> (hd t = CHR ''-'' \<or> hd t = CHR ''+'') then tl t else t);
          ds = takeWhile is_digit t'; v = nat (dec_val ds)
      in if ds = [] then (0, s, False)
         else if v > 18446744073709551615 then (18446744073709551615, dropWhile is_digit t', True)
         else (if neg then u64 (18446744073709551616 - v) else v, dropWhile is_digit t', False))"

definition last_slash :: "string \<Rightarrow> string option" where
  "last_slash s = (if CHR ''/'' \<in> set s then Some (butlast (rev (dropWhile (\<lambda>c. c \<noteq> CHR ''/'') (rev s)))) else None)"

text \<open>Whether the request may pass: the password it carries, if any, is the entry's, or is it up to
  the last slash.\<close>

definition guard_password :: "(string \<Rightarrow> bytes) \<Rightarrow> key_entry \<Rightarrow> http_request \<Rightarrow> bool" where
  "guard_password sha ke req =
     (case http_query_value (hr_target req) ''pw'' of
        None \<Rightarrow> True
      | Some pw \<Rightarrow> \<not> any_nonzero (video_publish_key ke) \<or> video_password_matches sha (video_publish_key ke) pw
          \<or> (case last_slash pw of None \<Rightarrow> False | Some p \<Rightarrow> video_password_matches sha (video_publish_key ke) p))"

text \<open>The length of the body, \<open>None\<close> for a request that ends the session.\<close>

definition guard_body :: "http_request \<Rightarrow> nat option" where
  "guard_body req =
     (let n = hr_header_count req ''Content-Length''; v = hr_header req ''Content-Length''
      in if n > 1 \<or> n = 1 \<and> v = [] then None
         else if v = [] then Some 0
         else let (body, rest, er) = strtoull10 (c_str v)
              in if er \<or> rest = c_str v \<or> rest \<noteq> [] \<or> body > 16 * 1024 * 1024 then None else Some body)"

lemma header_len_pos: "header_len xs = Some n \<Longrightarrow> 2 \<le> n \<and> n \<le> length xs"
proof (induction xs arbitrary: n)
  case (Cons x xs)
  show ?case
  proof (cases "x = 10 \<and> take 1 xs = [10] \<or> take 4 (x # xs) = [13, 10, 13, 10]")
    case True
    then show ?thesis
    proof
      assume "x = 10 \<and> take 1 xs = [10]"
      then show ?thesis using Cons.prems by (cases xs) auto
    next
      assume t: "take 4 (x # xs) = [13, 10, 13, 10]"
      then have "4 \<le> length (x # xs)" by (metis length_take list.size(3,4) min.cobounded1 One_nat_def Suc_eq_plus1 eval_nat_numeral(2,3) BitM.simps numeral_One)
      then show ?thesis using Cons.prems t by (auto split: if_splits)
    qed
  next
    case False
    then obtain m where "header_len xs = Some m" "n = Suc m" using Cons.prems by auto
    then show ?thesis using Cons.IH by fastforce
  qed
qed simp

datatype guard_end = G_go | G_close | G_reject

text \<open>The guard loop: \<open>left\<close> opaque bytes pass, then a frame head or a request header is examined.
  The results are what stays buffered, the opaque bytes still due, what goes to the backend, and how
  the session goes on.\<close>

function guard_loop :: "(string \<Rightarrow> bytes) \<Rightarrow> key_entry \<Rightarrow> bytes \<Rightarrow> nat \<Rightarrow> bytes \<times> nat \<times> bytes \<times> guard_end" where
  "guard_loop sha ke buf left =
     (if buf = [] then (buf, left, [], G_go)
      else if left > 0 then
        let k = min left (length buf); (b, l, out, g) = guard_loop sha ke (drop k buf) (left - k)
        in (b, l, take k buf @ out, g)
      else if hd buf = 36 then
        if length buf < 4 then (buf, left, [], G_go)
        else
          let (b, l, out, g) = guard_loop sha ke (drop 4 buf) (unat (buf ! 2) * 256 + unat (buf ! 3))
          in (b, l, take 4 buf @ out, g)
      else (case header_len buf of
              None \<Rightarrow> (buf, left, [], if length buf \<le> HTTP_MAX_REQUEST then G_go else G_close)
            | Some n \<Rightarrow>
                let (req, r) = hr_feed hr_new (bytes_str (take n buf))
                in if r \<noteq> Hr_complete then (buf, left, [], G_close)
                   else if \<not> guard_password sha ke req then (buf, left, [], G_reject)
                   else (case guard_body req of
                           None \<Rightarrow> (buf, left, [], G_close)
                         | Some body \<Rightarrow>
                             let (b, l, out, g) = guard_loop sha ke (drop n buf) body
                             in (b, l, take n buf @ out, g))))"
  by pat_completeness auto
termination
  by (relation "measure (\<lambda>(sha, ke, buf, left). length buf)") (auto dest: header_len_pos)

declare guard_loop.simps [simp del]

definition guard_rtsp_requests :: "'db slot_env \<Rightarrow> slot \<Rightarrow> bytes \<Rightarrow> slot \<times> bool" where
  "guard_rtsp_requests e s buf =
     (let (b, l, out, g) = guard_loop (se_sha e) (se_ke e) (sl_guard s @ buf) (sl_opaque_left s);
          s1 = s\<lparr> sl_guard := b, sl_opaque_left := l, sl_to_backend := (sl_to_backend s)\<lparr> sq_buf := sq_buf (sl_to_backend s) @ out \<rparr> \<rparr>
      in (if g = G_reject then log_reject s1 (se_now e) else s1, g = G_go))"

datatype splice_fd = Client_fd | Backend_fd | Media_fd

definition SPLICE_READ :: nat where "SPLICE_READ = 16384"

text \<open>Bytes from the backend's standard output.\<close>

definition pump_media :: "'db slot_env \<Rightarrow> slot \<Rightarrow> net_read \<Rightarrow> slot \<times> bool" where
  "pump_media e s inp =
     (case inp of R_again \<Rightarrow> (s, True) | R_fail \<Rightarrow> (s, False)
      | R_data d \<Rightarrow> if d = [] then (s, False)
                   else (ingest_stream e (s\<lparr> sl_pub_last := se_now e \<rparr>) (take SPLICE_READ d), True))"

text \<open>The publisher's direction: drain both queues, read while the backend's queue has room, guard,
  push on.\<close>

definition pump_client :: "'db slot_env \<Rightarrow> slot \<Rightarrow> net_read \<Rightarrow> net_write list \<Rightarrow> net_write list \<Rightarrow> net_write list \<Rightarrow> bool \<Rightarrow> slot \<times> bool" where
  "pump_client e s inp to_outs from_outs to_outs2 mod_ok =
     (if \<not> be_backend_fd (sl_backend s) then (s, False)
      else
        let (q1, x1, ok1) = splice_flush (sl_to_backend s) to_outs; s1 = s\<lparr> sl_to_backend := q1 \<rparr>
        in if \<not> ok1 then (s1, False)
           else
             let (q2, x2, ok2) = splice_flush (sl_to_client s1) from_outs; s2 = s1\<lparr> sl_to_client := q2 \<rparr>
             in if \<not> ok2 then (s2, False)
                else
                  let (s3, ok3) =
                        (if sq_pending (sl_to_backend s2) < SPLICE_QUEUE_MAX then
                           (case inp of
                              R_again \<Rightarrow> (s2, True)
                            | R_fail \<Rightarrow> (s2, False)
                            | R_data d \<Rightarrow>
                                if d = [] then (s2, False)
                                else
                                  let (s', ok) = guard_rtsp_requests e s2 (take SPLICE_READ d)
                                  in if \<not> ok then (s', False)
                                     else
                                       let (q', x', ok') = splice_flush (sl_to_backend s') to_outs2
                                       in if \<not> ok' then (s'\<lparr> sl_to_backend := q' \<rparr>, False)
                                          else (s'\<lparr> sl_to_backend := q', sl_pub_last := se_now e \<rparr>, True))
                         else (s2, True))
                  in if \<not> ok3 then (s3, False)
                     else (s3\<lparr> sl_to_backend := splice_arm True mod_ok (sl_to_backend s3),
                               sl_to_client := splice_arm (sl_client s3) mod_ok (sl_to_client s3) \<rparr>, True))"

text \<open>The backend's direction: the same without the guard.\<close>

definition pump_backend :: "'db slot_env \<Rightarrow> slot \<Rightarrow> net_read \<Rightarrow> net_write list \<Rightarrow> net_write list \<Rightarrow> net_write list \<Rightarrow> bool \<Rightarrow> slot \<times> bool" where
  "pump_backend e s inp to_outs from_outs to_outs2 mod_ok =
     (if \<not> sl_client s then (s, False)
      else
        let (q1, x1, ok1) = splice_flush (sl_to_client s) to_outs; s1 = s\<lparr> sl_to_client := q1 \<rparr>
        in if \<not> ok1 then (s1, False)
           else
             let (q2, x2, ok2) = splice_flush (sl_to_backend s1) from_outs; s2 = s1\<lparr> sl_to_backend := q2 \<rparr>
             in if \<not> ok2 then (s2, False)
                else
                  let (s3, ok3) =
                        (if sq_pending (sl_to_client s2) < SPLICE_QUEUE_MAX then
                           (case inp of
                              R_again \<Rightarrow> (s2, True)
                            | R_fail \<Rightarrow> (s2, False)
                            | R_data d \<Rightarrow>
                                if d = [] then (s2, False)
                                else
                                  let q = (sl_to_client s2)\<lparr> sq_buf := sq_buf (sl_to_client s2) @ take SPLICE_READ d \<rparr>;
                                      (q', x', ok') = splice_flush q to_outs2
                                  in if \<not> ok' then (s2\<lparr> sl_to_client := q' \<rparr>, False)
                                     else (s2\<lparr> sl_to_client := q', sl_pub_last := se_now e \<rparr>, True))
                         else (s2, True))
                  in if \<not> ok3 then (s3, False)
                     else (s3\<lparr> sl_to_client := splice_arm True mod_ok (sl_to_client s3),
                               sl_to_backend := splice_arm (be_backend_fd (sl_backend s3)) mod_ok (sl_to_backend s3) \<rparr>, True))"

section \<open>RTMP publishers\<close>

definition close_pending :: "pending_rtmp \<Rightarrow> pending_rtmp" where
  "close_pending p = (if \<not> pr_active p then p else p\<lparr> pr_active := False, pr_sess := rs_new, pr_out := sq_new, pr_since := 0 \<rparr>)"

text \<open>The entry a new handshake takes: the first free one, else the oldest.\<close>

fun oldest_pending :: "pending_rtmp list \<Rightarrow> nat \<Rightarrow> (nat \<times> int) option \<Rightarrow> nat option" where
  "oldest_pending [] i best = map_option fst best"
| "oldest_pending (p # ps) i best =
     (if \<not> pr_active p then Some i
      else oldest_pending ps (i + 1) (case best of None \<Rightarrow> Some (i, pr_since p)
             | Some (j, t) \<Rightarrow> if pr_since p < t then Some (i, pr_since p) else best))"

definition handle_rtmp :: "'db slot_env \<Rightarrow> slot \<Rightarrow> 32 word \<Rightarrow> 16 word \<Rightarrow> slot" where
  "handle_rtmp e s ip port =
     (case oldest_pending (sl_pending s) 0 None of
        None \<Rightarrow> s
      | Some i \<Rightarrow> s\<lparr> sl_pending := (sl_pending s)[i := \<lparr> pr_active = True, pr_sess = rs_new, pr_out = sq_new, pr_since = se_now e,
                       pr_ip = ip, pr_port = port \<rparr>] \<rparr>)"

definition sq_append :: "splice_queue \<Rightarrow> bytes \<Rightarrow> splice_queue" where
  "sq_append q d = q\<lparr> sq_buf := sq_buf q @ d \<rparr>"

definition rtmp_start_backend :: "'db slot_env \<Rightarrow> slot \<Rightarrow> rtmp_session \<Rightarrow> slot \<times> bool" where
  "rtmp_start_backend e s r =
     (let vbsf = (if rs_vcodec r = RTMP_VCODEC_H264 then Some ''h264_metadata'' else None);
          (b, ok) = be_start (se_start e) (sl_backend s) (video_entry_opts (video_flags (se_ke e)) AND VIDEO_OPT_AUDIO \<noteq> 0) SPLICE_RTMP vbsf None 96
      in (s\<lparr> sl_backend := b \<rparr>, ok))"

text \<open>Flushing the queue to the client, and the one to the backend while it runs.\<close>

definition flush_client :: "slot \<Rightarrow> net_write list \<Rightarrow> slot \<times> bool" where
  "flush_client s outs = (let (q, x, ok) = splice_flush (sl_to_client s) outs in (s\<lparr> sl_to_client := q \<rparr>, ok))"

definition flush_backend :: "slot \<Rightarrow> net_write list \<Rightarrow> slot \<times> bool" where
  "flush_backend s outs =
     (if be_running (sl_backend s) then let (q, x, ok) = splice_flush (sl_to_backend s) outs in (s\<lparr> sl_to_backend := q \<rparr>, ok)
      else (s, True))"

definition rtmp_drain_owner :: "'db slot_env \<Rightarrow> slot \<Rightarrow> rtmp_session \<Rightarrow> bool \<Rightarrow> net_write list \<Rightarrow> slot \<times> bool" where
  "rtmp_drain_owner e s r alive outs =
     (let s1 = s\<lparr> sl_to_client := sq_append (sl_to_client s) (rs_to_peer r), sl_to_backend := sq_append (sl_to_backend s) (rs_to_flv r),
                  sl_rtmp := Some (r\<lparr> rs_to_peer := [], rs_to_flv := [] \<rparr>) \<rparr>;
          (s2, started) = (if rs_publishing r \<and> \<not> be_running (sl_backend s1) \<and> rs_vcodec r \<noteq> RTMP_VCODEC_NONE
                           then rtmp_start_backend e s1 r else (s1, True))
      in if \<not> started then (s2, False)
         else if rs_publish_pending r \<or> \<not> alive then (fst (flush_client s2 outs), False)
         else (s2, True))"

text \<open>The path the slot expects, read as a C string.\<close>

definition rtmp_want :: "'db slot_env \<Rightarrow> string" where
  "rtmp_want e = c_str (bytes_str (take 32 (video_rtmp_path_of (se_ke e) (se_idx e))))"

definition refuse_pending :: "slot \<Rightarrow> nat \<Rightarrow> string \<Rightarrow> slot" where
  "refuse_pending s k why =
     s\<lparr> sl_pending := (sl_pending s)[k := (sl_pending s ! k)\<lparr> pr_sess := reject_publish (pr_sess (sl_pending s ! k)) ''NetStream.Publish.Denied'' why \<rparr>] \<rparr>"

text \<open>A handshake that asked to publish: the answer is whether the slot has taken it over.  \<open>outs\<close> are
  the answers of the sends, in their order.\<close>

definition promote_pending :: "'db slot_env \<Rightarrow> video_auth \<Rightarrow> slot \<Rightarrow> nat \<Rightarrow> (nat \<Rightarrow> net_write list) \<Rightarrow> bool \<Rightarrow> video_auth \<times> slot \<times> bool" where
  "promote_pending e a s k outs mod_ok =
     (let p = sl_pending s ! k; r = pr_sess p;
          (a', adm) = slot_admit e a (pr_ip p) (if rs_password_present r then Some (rs_password r) else None) True
      in if adm \<noteq> VIDEO_ADMIT_OK then (a', refuse_pending (log_reject s (se_now e)) k (video_admit_str adm), False)
         else if rtmp_want e \<noteq> [] \<and> rs_path r \<noteq> rtmp_want e
         then (a', refuse_pending s k ''stream path does not match this slot'', False)
         else if sl_mkv s \<or> slot_busy s (se_now e)
         then (a', refuse_pending (log_reject s (se_now e)) k ''another publisher holds this slot'', False)
         else
           let r1 = accept_publish r;
               s1 = latch_publisher e (s\<lparr> sl_client := True, sl_rtmp := Some r1, sl_to_client := pr_out p, sl_to_backend := sq_new,
                      sl_pending := (sl_pending s)[k := p\<lparr> pr_active := False, pr_sess := rs_new, pr_out := sq_new, pr_since := 0 \<rparr>],
                      sl_pub_ip := pr_ip p, sl_pub_port := pr_port p \<rparr>);
               (r2, alive) = rs_resume r1;
               (s2, ok2) = rtmp_drain_owner e s1 r2 alive (outs 0)
           in if \<not> ok2 then (a', close_rtsp s2, True)
              else
                let (s3, ok3) = flush_client s2 (outs 1)
                in if \<not> ok3 then (a', close_rtsp s3, True)
                   else (a', s3\<lparr> sl_to_client := splice_arm (sl_client s3) mod_ok (sl_to_client s3) \<rparr>, True))"

definition PENDING_READ :: nat where "PENDING_READ = 8192"

definition put_pending :: "slot \<Rightarrow> nat \<Rightarrow> pending_rtmp \<Rightarrow> slot" where
  "put_pending s k p = s\<lparr> sl_pending := (sl_pending s)[k := p] \<rparr>"

definition arm_pending :: "bool \<Rightarrow> pending_rtmp \<Rightarrow> pending_rtmp" where
  "arm_pending mod_ok p = p\<lparr> pr_out := splice_arm (pr_active p) mod_ok (pr_out p) \<rparr>"

text \<open>The end of a read: responses move to the queue, media before publish is dropped.\<close>

definition settle_pending :: "slot \<Rightarrow> nat \<Rightarrow> bool \<Rightarrow> net_write list \<Rightarrow> bool \<Rightarrow> slot \<times> bool" where
  "settle_pending s k alive outs mod_ok =
     (let p = sl_pending s ! k; r = pr_sess p;
          (q, x, ok) = splice_flush (sq_append (pr_out p) (rs_to_peer r)) outs;
          p1 = p\<lparr> pr_sess := r\<lparr> rs_to_peer := [], rs_to_flv := [] \<rparr>, pr_out := q \<rparr>
      in if \<not> ok \<or> \<not> alive then (put_pending s k p1, False) else (put_pending s k (arm_pending mod_ok p1), True))"

definition pump_pending :: "'db slot_env \<Rightarrow> video_auth \<Rightarrow> slot \<Rightarrow> nat \<Rightarrow> net_read \<Rightarrow> (nat \<Rightarrow> net_write list) \<Rightarrow> bool \<Rightarrow> video_auth \<times> slot \<times> bool" where
  "pump_pending e a s k inp outs mod_ok =
     (let p = sl_pending s ! k; (q, x, ok) = splice_flush (pr_out p) (outs 0); p1 = p\<lparr> pr_out := q \<rparr>
      in if \<not> ok then (a, put_pending s k p1, False)
         else
           (case inp of
              R_fail \<Rightarrow> (a, put_pending s k p1, False)
            | R_again \<Rightarrow> (a, put_pending s k (arm_pending mod_ok p1), True)
            | R_data d \<Rightarrow>
                if d = [] then (a, put_pending s k p1, False)
                else
                  let (r, alive) = rs_feed (pr_sess p1) (take PENDING_READ d) (se_now e); s1 = put_pending s k (p1\<lparr> pr_sess := r \<rparr>)
                  in if rs_publish_pending r then
                       let (a', s2, promoted) = promote_pending e a s1 k (\<lambda>i. outs (i + 1)) mod_ok
                       in if promoted then (a', s2, False)
                          else let (s3, ok3) = settle_pending s2 k False (outs 3) mod_ok in (a', s3, ok3)
                     else let (s3, ok3) = settle_pending s1 k alive (outs 3) mod_ok in (a, s3, ok3)))"

definition pump_rtmp :: "'db slot_env \<Rightarrow> slot \<Rightarrow> rtmp_session \<Rightarrow> splice_fd \<Rightarrow> net_read \<Rightarrow> (nat \<Rightarrow> net_write list) \<Rightarrow> bool \<Rightarrow> slot \<times> bool" where
  "pump_rtmp e s r fd inp outs mod_ok =
     (case fd of
        Media_fd \<Rightarrow> pump_media e s inp
      | Backend_fd \<Rightarrow>
          let (q, x, ok) = splice_flush (sl_to_backend s) (outs 0)
          in if \<not> ok then (s\<lparr> sl_to_backend := q \<rparr>, False) else (s\<lparr> sl_to_backend := splice_arm True mod_ok q \<rparr>, True)
      | Client_fd \<Rightarrow>
          let (s1, ok1) = flush_client s (outs 0)
          in if \<not> ok1 then (s1, False)
             else
               let (s2, ok2) = flush_backend s1 (outs 1)
               in if \<not> ok2 then (s2, False)
                  else
                    let (s3, ok3) =
                          (if sq_pending (sl_to_backend s2) < SPLICE_QUEUE_MAX \<and> sq_pending (sl_to_client s2) < SPLICE_QUEUE_MAX then
                             (case inp of
                                R_again \<Rightarrow> (s2, True)
                              | R_fail \<Rightarrow> (s2, False)
                              | R_data d \<Rightarrow>
                                  if d = [] then (s2, False)
                                  else let (r1, alive) = rs_feed r (take SPLICE_READ d) (se_now e)
                                       in rtmp_drain_owner e (s2\<lparr> sl_pub_last := se_now e \<rparr>) r1 alive (outs 2))
                           else (s2, True))
                    in if \<not> ok3 then (s3, False)
                       else
                         let (s4, ok4) = flush_client s3 (outs 3)
                         in if \<not> ok4 then (s4, False)
                            else
                              let (s5, ok5) = flush_backend s4 (outs 4)
                              in if \<not> ok5 then (s5, False)
                                 else
                                   let s6 = (if be_running (sl_backend s5)
                                             then s5\<lparr> sl_to_backend := splice_arm (be_backend_fd (sl_backend s5)) mod_ok (sl_to_backend s5) \<rparr> else s5)
                                   in (s6\<lparr> sl_to_client := splice_arm True mod_ok (sl_to_client s6) \<rparr>, True))"

text \<open>An event of one of the three descriptors of a spliced publisher; \<open>outs\<close> are the answers of the
  sends, in their order.\<close>

definition pump_rtsp :: "'db slot_env \<Rightarrow> slot \<Rightarrow> splice_fd \<Rightarrow> net_read \<Rightarrow> (nat \<Rightarrow> net_write list) \<Rightarrow> bool \<Rightarrow> slot \<times> bool" where
  "pump_rtsp e s fd inp outs mod_ok =
     (case sl_rtmp s of
        Some r \<Rightarrow> pump_rtmp e s r fd inp outs mod_ok
      | None \<Rightarrow>
          (case fd of
             Client_fd \<Rightarrow> pump_client e s inp (outs 0) (outs 1) (outs 2) mod_ok
           | Backend_fd \<Rightarrow> pump_backend e s inp (outs 0) (outs 1) (outs 2) mod_ok
           | Media_fd \<Rightarrow> pump_media e s inp))"

section \<open>The viewer pump and the tick\<close>

record viewer_io =
  vi_crypto :: video_crypto
  vi_accept :: "string \<Rightarrow> string"
  vi_again :: bool
  vi_clock :: rtp_clock
  vi_port :: "16 word"
  vi_peek :: net_read
  vi_io :: bool
  vi_first :: bytes
  vi_in :: net_read
  vi_in2 :: net_read
  vi_outs :: "net_write list"

definition viewer_env :: "'db slot_env \<Rightarrow> slot \<Rightarrow> viewer_io \<Rightarrow> rv_env" where
  "viewer_env e s io = \<lparr> rve_cr = vi_crypto io, rve_ke = se_ke e, rve_slot = int (se_idx e), rve_ring = sl_ring s, rve_sc = sl_scanner s,
     rve_now = se_now e \<rparr>"

definition put_viewer :: "slot \<Rightarrow> nat \<Rightarrow> viewer \<Rightarrow> slot" where
  "put_viewer s v vw = s\<lparr> sl_viewers := (sl_viewers s)[v := (fst (sl_viewers s ! v), vw)] \<rparr>"

text \<open>One step of the pump, for the viewer at index \<open>v\<close>.  A connection that turned out to be a
  publisher is handed over.\<close>

definition pump_viewer :: "'db slot_env \<Rightarrow> video_auth \<Rightarrow> slot \<Rightarrow> nat \<Rightarrow> viewer_io \<Rightarrow> video_auth \<times> slot" where
  "pump_viewer e a s v io =
     (let (ip, vw) = sl_viewers s ! v; env = viewer_env e s io
      in if \<not> vw_open vw then (a, s)
         else if vw_kind vw \<in> {VVK_RTSP, VVK_RTMP, VVK_MKV} then
           let s1 = put_viewer s v (vw_release_fd vw)
           in if vw_kind vw = VVK_MKV then handle_mkv e a s1 ip (vi_port io) (vi_peek io) (vi_io io)
              else if vw_kind vw = VVK_RTSP then handle_rtsp e a s1 ip (vi_port io) (vi_peek io)
              else (a, handle_rtmp e s1 ip (vi_port io))
         else if vw_state vw = VV_DETECT \<and> vw_kind vw = VVK_WS then
           let (vw1, keep) = begin_ws (vi_accept io) env vw (vi_first io) (vi_in io) (vi_in2 io) (vi_outs io); s1 = put_viewer s v vw1
           in (a, if keep then s1 else drop_viewer s1 v)
         else if vw_state vw = VV_DETECT \<and> se_now e - vw_connected_at vw < VIDEO_DETECT_SILENCE_S then (a, s)
         else
           let (vw1, keep1) = (if vw_state vw = VV_DETECT then vw_detect_timeout env vw else (vw, True)); s1 = put_viewer s v vw1
           in if \<not> keep1 then (a, drop_viewer s1 v)
              else
                let (vw2, outs2, keep2) = vw_on_writable (vi_clock io) (vi_again io) vw1 (sl_ring s) (se_now e) (vi_outs io);
                    s2 = put_viewer s1 v vw2
                in (a, if keep2 then s2 else drop_viewer s2 v))"

fun pump_viewers :: "'db slot_env \<Rightarrow> video_auth \<Rightarrow> slot \<Rightarrow> nat \<Rightarrow> viewer_io list \<Rightarrow> video_auth \<times> slot" where
  "pump_viewers e a s v [] = (a, s)"
| "pump_viewers e a s v (io # ios) = (let (a1, s1) = pump_viewer e a s v io in pump_viewers e a1 s1 (v + 1) ios)"

text \<open>\<open>gone\<close> is whether the backend process has exited.\<close>

definition release_idle :: "slot \<Rightarrow> slot" where
  "release_idle s =
     (if be_running (sl_backend s) \<or> sl_client s then close_rtsp s
      else end_stream ((reset_rtp (s\<lparr> sl_has_pub := False \<rparr>))\<lparr> sl_rec := vr_close_segment (sl_rec s), sl_recording := False \<rparr>)
             ''publisher gone'')"

definition expire_pending :: "int \<Rightarrow> pending_rtmp \<Rightarrow> pending_rtmp" where
  "expire_pending now p = (if pr_active p \<and> pr_since p \<noteq> 0 \<and> now - pr_since p > RTMP_PREPUBLISH_MAX_S then close_pending p else p)"

definition codec_overdue :: "slot \<Rightarrow> int \<Rightarrow> bool" where
  "codec_overdue s now = (case sl_rtmp s of None \<Rightarrow> False
     | Some r \<Rightarrow> rs_publishing r \<and> \<not> be_running (sl_backend s) \<and> rs_publishing_since r \<noteq> 0 \<and> now - rs_publishing_since r > RTMP_CODEC_DEADLINE_S)"

definition tick_slot :: "slot \<Rightarrow> int \<Rightarrow> bool \<Rightarrow> slot" where
  "tick_slot s now gone =
     (let s1 = (if sl_mkv s \<and> now - sl_pub_last s > VIDEO_PUB_IDLE_S then close_mkv s ''publisher idle'' else s);
          (b, reaped) = be_reap gone (sl_backend s1);
          s2 = (if be_running (sl_backend s1) then
                  if reaped then close_rtsp (s1\<lparr> sl_backend := b \<rparr>) else s1\<lparr> sl_backend := b \<rparr>
                else s1);
          s3 = s2\<lparr> sl_pending := map (expire_pending now) (sl_pending s2) \<rparr>
      in if codec_overdue s3 now then close_rtsp s3
         else if sl_has_pub s3 \<and> now - sl_pub_last s3 > VIDEO_PUB_IDLE_S then release_idle s3
         else s3)"

section \<open>Rows of the connection database\<close>

definition app_proto_of :: "slot \<Rightarrow> byte" where
  "app_proto_of s =
     (let rtp_pub = (be_running (sl_backend s) \<and> be_proto (sl_backend s) = SPLICE_RTP);
          tcp_pub = (\<not> rtp_pub \<and> (sl_mkv s \<or> sl_rtmp s \<noteq> None \<or> be_running (sl_backend s) \<or> sl_client s))
      in if sl_mkv s then 7 else if sl_rtmp s \<noteq> None then 5 else if rtp_pub then 6 else if tcp_pub then 2 else 1)"

definition transport_of :: "slot \<Rightarrow> byte" where
  "transport_of s =
     (let rtp_pub = (be_running (sl_backend s) \<and> be_proto (sl_backend s) = SPLICE_RTP)
      in if \<not> rtp_pub \<and> (sl_mkv s \<or> sl_rtmp s \<noteq> None \<or> be_running (sl_backend s) \<or> sl_client s) then CONN_TRANSPORT_TCP else CONN_TRANSPORT_UDP)"

definition slot_row :: "32 word \<Rightarrow> 32 word \<Rightarrow> int \<Rightarrow> nat \<Rightarrow> slot \<Rightarrow> conn_entry" where
  "slot_row port2 pid now i s =
     \<lparr> ce_magic = CONN_MAGIC, connected_at = word_of_int (sl_pub_since s), last_update = word_of_int now, ce_port2 = port2,
       conn_index = word_of_int (VIDEO_PUB_INDEX (int i)), ce_pid = pid, rx_msgs = word_of_nat (sl_pub_bytes s div 1024), tx_msgs = 0,
       peer_ip_be = sl_pub_ip s, peer_port_be = sl_pub_port s, transport = transport_of s, is_user = 0, ce_flags = 0, ce_pad = 0,
       ce_pad2 = 0, role = CONN_ROLE_VIDEO_PUB, stream_idx = word_of_nat i, app_proto = app_proto_of s, authenticated = 0, ce_pad3 = 0 \<rparr>"

fun write_rows :: "'db tdb_ops \<Rightarrow> 32 word \<Rightarrow> 32 word \<Rightarrow> int \<Rightarrow> nat \<Rightarrow> slot list \<Rightarrow> 'db \<Rightarrow> 'db" where
  "write_rows T port2 pid now i [] db = db"
| "write_rows T port2 pid now i (s # ss) db =
     write_rows T port2 pid now (i + 1) ss (if sl_has_pub s then fst (conn_write T db (slot_row port2 pid now i s)) else db)"

definition write_conn_rows :: "'db tdb_ops \<Rightarrow> 'db option \<Rightarrow> 32 word \<Rightarrow> 32 word \<Rightarrow> int \<Rightarrow> slot list \<Rightarrow> 'db option" where
  "write_conn_rows T db port2 pid now slots =
     map_option (\<lambda>d. write_rows T port2 pid now 0 slots (fst (conn_delete_index_range T d port2 VIDEO_CONN_INDEX_BASE 2147483647))) db"

end
