(* ===== verification/Video_Child.thy ===== *)
theory Video_Child
  imports Video_Slot
begin

text \<open>
  The video child of an entry (\<open>src/video.cpp\<close>, \<open>class VideoChild\<close>): start, the
  dispatch of an event to the handler of its slot, the push to the viewers, the
  periodic tick and the end of the process.  A turn is one round of the loop of
  \<open>run\<close>.  An event names the socket it is for; one whose socket was closed by an
  earlier event of the round matches nothing, as in the code.

  The invariant of the slots is proved as a contract that every handler keeps.
\<close>

section \<open>State\<close>

definition VIDEO_TICK_S :: int where "VIDEO_TICK_S = 5"

record video_child =
  vc_ke :: key_entry
  vc_auth :: video_auth
  vc_slots :: "slot list"
  vc_ports :: "(32 word) list"
  vc_udp :: "bool list"
  vc_tcp :: "bool list"
  vc_last_tick :: int

text \<open>What does not change while the child runs, and what a call finds: the clock, the connection
  database if it opens, the answers of files and processes.\<close>

record 'db child_env =
  cv_sha :: "string \<Rightarrow> bytes"
  cv_tdb :: "'db tdb_ops"
  cv_port2 :: int
  cv_ring_bytes :: nat
  cv_pid :: "32 word"

record 'db call_answers =
  ca_now :: int
  ca_conn :: "'db option"
  ca_rec :: rec_env
  ca_files :: "nat \<Rightarrow> net_write list"
  ca_start :: start_answers

definition slot_call :: "'db child_env \<Rightarrow> key_entry \<Rightarrow> nat \<Rightarrow> 'db call_answers \<Rightarrow> 'db slot_env" where
  "slot_call E ke i x = \<lparr> se_sha = cv_sha E, se_tdb = cv_tdb E, se_conn_db = ca_conn x, se_ke = ke, se_port2 = cv_port2 E, se_idx = i,
     se_now = ca_now x, se_ring_bytes = cv_ring_bytes E, se_rec = ca_rec x, se_files = ca_files x, se_start = ca_start x \<rparr>"

section \<open>Start\<close>

text \<open>\<open>keys\<close> is \<open>None\<close> when \<open>keys.tdb\<close> does not open.\<close>

definition load_entry :: "'db child_env \<Rightarrow> 'db option \<Rightarrow> video_child \<Rightarrow> video_child \<times> bool" where
  "load_entry E keys c =
     (case keys of
        None \<Rightarrow> (c, False)
      | Some db \<Rightarrow>
          (case db_load_key (cv_tdb E) db (word_of_int (cv_port2 E)) of
             Some (k, True) \<Rightarrow> (c\<lparr> vc_ke := k \<rparr>, True)
           | _ \<Rightarrow> (c, False)))"

definition signal_ready :: "nat \<Rightarrow> nat" where
  "signal_ready err = (if err > 255 then 255 else err)"

definition EADDRINUSE :: nat where "EADDRINUSE = 98"
definition VIDEO_ENOENT :: nat where "VIDEO_ENOENT = 2"

text \<open>\<open>open_socket_in_udp\<close> and \<open>open_socket_in_tcp\<close>: a socket, or the \<open>errno\<close> they leave.\<close>

datatype bind_answer = Bound | Bind_errno nat

definition note_err :: "nat \<Rightarrow> bind_answer \<Rightarrow> nat" where
  "note_err first_err b =
     (case b of Bound \<Rightarrow> first_err | Bind_errno n \<Rightarrow> if first_err = 0 then (if n \<noteq> 0 then n else EADDRINUSE) else first_err)"

definition bind_slot :: "(nat \<Rightarrow> bind_answer \<times> bind_answer) \<Rightarrow> nat \<Rightarrow> video_child \<times> nat \<Rightarrow> video_child \<times> nat" where
  "bind_slot ans i ce =
     (let (c, err) = ce; port = video_port_of (vc_ke c) i; (u, t) = ans i
      in if port = 0 then (c, err)
         else (c\<lparr> vc_ports := (vc_ports c)[i := port], vc_udp := (vc_udp c)[i := (u = Bound)], vc_tcp := (vc_tcp c)[i := (t = Bound)] \<rparr>,
               note_err (note_err err u) t))"

definition bind_slots :: "(nat \<Rightarrow> bind_answer \<times> bind_answer) \<Rightarrow> video_child \<Rightarrow> video_child \<times> nat" where
  "bind_slots ans c = fold (bind_slot ans) [0..<KEY_MAX_VIDEO_PORTS] (c, 0)"

section \<open>Events\<close>

text \<open>An event of the loop with the index of its slot: a datagram, a connection (\<open>None\<close> when
  \<open>accept\<close> fails), a handshake, the Matroska publisher, a descriptor of the splice, a viewer.  The flags
  are those of \<open>epoll\<close>: hang-up or error, then readable and writable for a viewer.\<close>

datatype child_event =
    Ev_udp "32 word" "16 word" bytes
  | Ev_tcp "(32 word) option"
  | Ev_pending nat bool net_read "nat \<Rightarrow> net_write list" bool
  | Ev_mkv bool net_read
  | Ev_splice splice_fd bool net_read "nat \<Rightarrow> net_write list" bool
  | Ev_viewer nat bool bool bool viewer_io "bytes option" "net_write list"

definition splice_fd_open :: "slot \<Rightarrow> splice_fd \<Rightarrow> bool" where
  "splice_fd_open s fd = (case fd of Client_fd \<Rightarrow> sl_client s | Backend_fd \<Rightarrow> be_backend_fd (sl_backend s)
     | Media_fd \<Rightarrow> be_media_fd (sl_backend s))"

definition on_pending :: "'db slot_env \<Rightarrow> video_auth \<Rightarrow> slot \<Rightarrow> nat \<Rightarrow> bool \<Rightarrow> net_read \<Rightarrow> (nat \<Rightarrow> net_write list) \<Rightarrow> bool
    \<Rightarrow> video_auth \<times> slot" where
  "on_pending e a s k hup inp outs mod_ok =
     (if k < VIDEO_MAX_PENDING_RTMP \<and> pr_active (sl_pending s ! k) then
        let (a1, s1, ok) = (if hup then (a, s, False) else pump_pending e a s k inp outs mod_ok)
        in (a1, if ok then s1 else put_pending s1 k (close_pending (sl_pending s1 ! k)))
      else (a, s))"

definition on_viewer :: "'db slot_env \<Rightarrow> slot \<Rightarrow> nat \<Rightarrow> bool \<Rightarrow> bool \<Rightarrow> bool \<Rightarrow> viewer_io \<Rightarrow> bytes option \<Rightarrow> net_write list \<Rightarrow> slot" where
  "on_viewer e s v hup rd wr io random wouts =
     (if v < VIDEO_MAX_VIEWERS \<and> vw_active (sl_viewers s ! v) then
        let vw = snd (sl_viewers s ! v);
            (vw1, ok1) = (if hup then (vw, False)
                          else if rd then vw_on_readable (vi_accept io) (viewer_env e s io) random vw (vi_in io) (vi_in2 io) (vi_outs io)
                          else (vw, True));
            (vw2, ok2) = (if ok1 \<and> wr then let (x, y, ok) = vw_on_writable (vi_clock io) (vi_again io) vw1 (sl_ring s) (se_now e) wouts in (x, ok)
                          else (vw1, ok1));
            s1 = put_viewer s v vw2
        in if ok2 then s1 else drop_viewer s1 v
      else s)"

text \<open>\<open>udp\<close> and \<open>tcp\<close> say whether the slot has its listening sockets.\<close>

definition slot_event :: "bool \<Rightarrow> bool \<Rightarrow> 'db slot_env \<Rightarrow> video_auth \<Rightarrow> slot \<Rightarrow> child_event \<Rightarrow> video_auth \<times> slot" where
  "slot_event udp tcp e a s ev =
     (case ev of
        Ev_udp ip port d \<Rightarrow> if udp then handle_udp e a s ip port d else (a, s)
      | Ev_tcp conn \<Rightarrow> (a, case conn of Some ip \<Rightarrow> if tcp then fst (handle_tcp e s ip) else s | None \<Rightarrow> s)
      | Ev_pending k hup inp outs mod_ok \<Rightarrow> on_pending e a s k hup inp outs mod_ok
      | Ev_mkv err inp \<Rightarrow>
          (a, if \<not> sl_mkv s then s
              else let (s1, ok) = (if err then (s, False) else pump_mkv e s inp)
                   in if ok then s1 else close_mkv s1 ''Matroska publisher disconnected or malformed'')
      | Ev_splice fd hup inp outs mod_ok \<Rightarrow>
          (a, if \<not> splice_fd_open s fd then s
              else let (s1, ok) = (if hup then (s, False) else pump_rtsp e s fd inp outs mod_ok) in if ok then s1 else close_rtsp s1)
      | Ev_viewer v hup rd wr io random wouts \<Rightarrow> (a, on_viewer e s v hup rd wr io random wouts))"

text \<open>The slot back in its place; a handler that asked for a tick resets \<open>last_tick_\<close>.\<close>

definition put_slot :: "video_child \<Rightarrow> nat \<Rightarrow> video_auth \<Rightarrow> slot \<Rightarrow> video_child" where
  "put_slot c i a s = c\<lparr> vc_auth := a, vc_slots := (vc_slots c)[i := s\<lparr> sl_tick_now := False \<rparr>],
     vc_last_tick := (if sl_tick_now s then 0 else vc_last_tick c) \<rparr>"

definition on_event :: "'db child_env \<Rightarrow> nat \<times> 'db call_answers \<times> child_event \<Rightarrow> video_child \<Rightarrow> video_child" where
  "on_event E x c =
     (let (i, ans, ev) = x
      in if i < KEY_MAX_VIDEO_PORTS
         then let (a, s) = slot_event (vc_udp c ! i) (vc_tcp c ! i) (slot_call E (vc_ke c) i ans) (vc_auth c) (vc_slots c ! i) ev
              in put_slot c i a s
         else c)"

definition push_slot :: "'db child_env \<Rightarrow> (nat \<Rightarrow> 'db call_answers \<times> (nat \<Rightarrow> viewer_io)) \<Rightarrow> nat \<Rightarrow> video_child \<Rightarrow> video_child" where
  "push_slot E pushes i c =
     (if vc_udp c ! i \<or> vc_tcp c ! i then
        let (ans, ios) = pushes i;
            (a, s) = pump_viewers (slot_call E (vc_ke c) i ans) (vc_auth c) (vc_slots c ! i) 0 (map ios [0..<VIDEO_MAX_VIEWERS])
        in put_slot c i a s
      else c)"

section \<open>Tick, turn and process\<close>

record 'db tick_answers =
  tk_keys :: "'db option"
  tk_seen :: "'db option"
  tk_rows :: "'db option"
  tk_gone :: "nat \<Rightarrow> bool"

text \<open>The tick gives the connection database it commits, if the transaction opened.\<close>

definition child_tick :: "'db child_env \<Rightarrow> int \<Rightarrow> 'db tick_answers \<Rightarrow> video_child \<Rightarrow> video_child \<times> 'db option" where
  "child_tick E now k c =
     (let (c1, loaded) = load_entry E (tk_keys k) c;
          a1 = (if loaded then va_invalidate (vc_auth c1) else vc_auth c1);
          a2 = va_observe (cv_tdb E) (tk_seen k) a1 now;
          slots = map (\<lambda>(i, s). (tick_slot s now (tk_gone k i))\<lparr> sl_tick_now := False \<rparr>) (enumerate 0 (vc_slots c1))
      in (c1\<lparr> vc_auth := a2, vc_slots := slots, vc_last_tick := now \<rparr>,
          write_conn_rows (cv_tdb E) (tk_rows k) (word_of_int (cv_port2 E)) (cv_pid E) now slots))"

record 'db video_turn =
  tu_events :: "(nat \<times> 'db call_answers \<times> child_event) list"
  tu_now :: int
  tu_push :: "nat \<Rightarrow> 'db call_answers \<times> (nat \<Rightarrow> viewer_io)"
  tu_tick :: "'db tick_answers"

definition child_turn :: "'db child_env \<Rightarrow> 'db video_turn \<Rightarrow> video_child \<Rightarrow> video_child \<times> 'db option" where
  "child_turn E t c =
     (let c1 = fold (on_event E) (tu_events t) c;
          c2 = fold (push_slot E (tu_push t)) [0..<KEY_MAX_VIDEO_PORTS] c1
      in if tu_now t - vc_last_tick c2 \<ge> VIDEO_TICK_S then child_tick E (tu_now t) (tu_tick t) c2 else (c2, None))"

text \<open>\<open>video_child_main\<close>: the byte on the ready pipe, the child after the turns (\<open>None\<close> when it never
  came up) and the connection database it leaves.  The turns end when \<open>epoll_wait\<close> fails or the parent
  is gone; \<open>epoll\<close> is whether \<open>epoll_create1\<close> succeeds, \<open>final\<close> the database opened for the removal.\<close>

definition vc_start :: "32 word \<Rightarrow> port_tree \<Rightarrow> key_entry \<Rightarrow> video_child" where
  "vc_start port2 tree ke = \<lparr> vc_ke = ke, vc_auth = va_new port2, vc_slots = replicate KEY_MAX_VIDEO_PORTS (slot_new tree),
     vc_ports = replicate KEY_MAX_VIDEO_PORTS 0, vc_udp = replicate KEY_MAX_VIDEO_PORTS False,
     vc_tcp = replicate KEY_MAX_VIDEO_PORTS False, vc_last_tick = 0 \<rparr>"

fun child_turns :: "'db child_env \<Rightarrow> 'db video_turn list \<Rightarrow> video_child \<Rightarrow> video_child" where
  "child_turns E [] c = c"
| "child_turns E (t # ts) c = child_turns E ts (fst (child_turn E t c))"

definition video_child_main :: "'db child_env \<Rightarrow> port_tree \<Rightarrow> key_entry \<Rightarrow> 'db option \<Rightarrow> (nat \<Rightarrow> bind_answer \<times> bind_answer) \<Rightarrow> bool
    \<Rightarrow> 'db video_turn list \<Rightarrow> 'db option \<Rightarrow> nat \<times> video_child option \<times> 'db option" where
  "video_child_main E tree ke0 keys binds epoll turns final =
     (let (c, loaded) = load_entry E keys (vc_start (word_of_int (cv_port2 E)) tree ke0)
      in if \<not> loaded then (signal_ready VIDEO_ENOENT, None, None)
         else
           let (c1, err) = bind_slots binds c
           in if \<not> epoll then (signal_ready err, None, None)
              else (signal_ready err, Some (child_turns E turns c1),
                    map_option (\<lambda>db. conn_remove_video (cv_tdb E) True db (word_of_int (cv_port2 E))) final))"

section \<open>What the handlers leave alone\<close>

definition slot_face :: "slot \<Rightarrow> (32 word \<times> viewer) list \<times> nat \<times> (bool \<times> 32 word \<times> 16 word \<times> int) \<times> bool \<times> bool \<times> bool" where
  "slot_face s = (sl_viewers s, length (sl_pending s), (sl_has_pub s, sl_pub_ip s, sl_pub_port s, sl_pub_since s), sl_mkv s, sl_client s,
     sl_rtmp s = None)"

definition slot_flags :: "slot \<Rightarrow> bool \<times> bool \<times> bool" where
  "slot_flags s = (be_running (sl_backend s), be_backend_fd (sl_backend s), be_media_fd (sl_backend s))"

lemmas slot_view = slot_face_def slot_flags_def

lemma face_log_reject [simp]: "slot_face (log_reject s now) = slot_face s" "sl_backend (log_reject s now) = sl_backend s"
  by (simp_all add: log_reject_def slot_face_def Let_def)

lemma face_reset_rtp [simp]: "slot_face (reset_rtp s) = slot_face s" "sl_backend (reset_rtp s) = sl_backend s"
  by (simp_all add: reset_rtp_def slot_face_def)

lemma face_record [simp]: "slot_face (slot_record e s d b) = slot_face s" "sl_backend (slot_record e s d b) = sl_backend s"
  by (auto simp: slot_record_def slot_face_def Let_def split: prod.splits option.splits)

lemma face_ingest_stream [simp]: "slot_face (ingest_stream e s d) = slot_face s" "sl_backend (ingest_stream e s d) = sl_backend s"
  by (simp_all add: ingest_stream_def slot_store_def) (simp add: slot_face_def)

lemma face_ingest [simp]: "slot_face (ingest e s d) = slot_face s" "sl_backend (ingest e s d) = sl_backend s"
  unfolding ingest_def by (simp_all add: Let_def) (simp_all add: slot_face_def)

lemma face_mkv_record: "slot_face (mkv_record e k c s) = slot_face s \<and> sl_backend (mkv_record e k c s) = sl_backend s"
  by (auto simp: mkv_record_def slot_face_def Let_def split: prod.splits)

lemma face_mkv_records [simp]:
  "slot_face (mkv_records e k cs s) = slot_face s" "sl_backend (mkv_records e k cs s) = sl_backend s"
  by (induction cs arbitrary: k s) (simp_all add: face_mkv_record)

text \<open>A failed start leaves the backend's processes and descriptors as they were; a successful one runs.\<close>

lemma start_fails: "be_start a b w p v c n = (b', False) \<Longrightarrow> \<not> be_running b \<Longrightarrow> \<not> be_backend_fd b \<Longrightarrow> \<not> be_media_fd b
    \<Longrightarrow> \<not> be_running b' \<and> \<not> be_backend_fd b' \<and> \<not> be_media_fd b'"
  by (auto simp: be_start_def be_stop_def Let_def split: option.splits if_splits splice_proto.splits)

lemma start_runs: "be_start a b w p v c n = (b', True) \<Longrightarrow> be_running b' \<and> be_media_fd b'"
  by (auto simp: be_start_def Let_def split: option.splits if_splits splice_proto.splits)

section \<open>One publisher at a time, and the limits\<close>

text \<open>Whoever holds a connection or a backend is the slot's publisher, a Matroska publisher shares
  the slot with nobody, and the backend's output is open exactly while it runs.\<close>

definition slot_one :: "slot \<Rightarrow> bool" where
  "slot_one s = (((sl_client s \<or> be_running (sl_backend s) \<or> sl_mkv s) \<longrightarrow> sl_has_pub s)
     \<and> \<not> (sl_mkv s \<and> (sl_client s \<or> be_running (sl_backend s))) \<and> (sl_rtmp s = None \<or> sl_client s)
     \<and> (be_backend_fd (sl_backend s) \<longrightarrow> be_running (sl_backend s)) \<and> be_media_fd (sl_backend s) = be_running (sl_backend s))"

definition slot_caps :: "slot \<Rightarrow> bool" where
  "slot_caps s = (length (sl_viewers s) = VIDEO_MAX_VIEWERS \<and> length (sl_pending s) = VIDEO_MAX_PENDING_RTMP
     \<and> (\<forall>ip. from_ip s ip \<le> VIDEO_MAX_VIEWERS_PER_IP))"

definition publisher :: "slot \<Rightarrow> 32 word \<times> 16 word \<times> int" where
  "publisher s = (sl_pub_ip s, sl_pub_port s, sl_pub_since s)"

text \<open>\<open>kept s s'\<close>: no viewer has come, the pool of handshakes has its size, and a publisher that is there
  was there.\<close>

definition narrower :: "32 word \<times> viewer \<Rightarrow> 32 word \<times> viewer \<Rightarrow> bool" where
  "narrower x y = (fst y = fst x \<and> (vw_active y \<longrightarrow> vw_active x))"

definition kept :: "slot \<Rightarrow> slot \<Rightarrow> bool" where
  "kept s s' = (list_all2 narrower (sl_viewers s) (sl_viewers s') \<and> length (sl_pending s') = length (sl_pending s)
     \<and> (sl_has_pub s' \<longrightarrow> sl_has_pub s \<and> publisher s' = publisher s))"

lemma narrower_refl [simp]: "list_all2 narrower xs xs"
  by (simp add: list_all2_refl narrower_def)

lemma narrower_trans: "list_all2 narrower xs ys \<Longrightarrow> list_all2 narrower ys zs \<Longrightarrow> list_all2 narrower xs zs"
  using list_all2_trans [of narrower narrower narrower xs ys zs] by (auto simp: narrower_def)

lemma narrower_update: "fst y = fst (xs ! v) \<Longrightarrow> (vw_active y \<Longrightarrow> vw_active (xs ! v)) \<Longrightarrow> list_all2 narrower xs (xs[v := y])"
  by (cases "v < length xs") (auto simp: list_all2_conv_all_nth narrower_def nth_list_update list_update_beyond not_less)

lemma kept_trans: "kept s s1 \<Longrightarrow> kept s1 s2 \<Longrightarrow> kept s s2"
  by (auto simp: kept_def intro: narrower_trans)

lemma kept_face: "slot_face s' = slot_face s \<Longrightarrow> kept s s'"
  by (auto simp: kept_def slot_face_def publisher_def)

lemma one_face: "slot_face s' = slot_face s \<Longrightarrow> slot_flags s' = slot_flags s \<Longrightarrow> slot_one s' = slot_one s"
  by (simp add: slot_one_def slot_view)

lemma one_calm: "slot_one s \<Longrightarrow> slot_face s' = slot_face s \<Longrightarrow> sl_backend s' = sl_backend s \<Longrightarrow> slot_one s'"
  using one_face [of s' s] by (simp add: slot_flags_def)

lemma from_ip_narrower:
  assumes "list_all2 narrower xs ys"
  shows "length (filter (\<lambda>x. vw_active x \<and> fst x = ip) ys) \<le> length (filter (\<lambda>x. vw_active x \<and> fst x = ip) xs)"
  using assms by induction (auto simp: narrower_def)

lemma caps_kept: "slot_caps s \<Longrightarrow> kept s s' \<Longrightarrow> slot_caps s'"
proof -
  assume c: "slot_caps s" and k: "kept s s'"
  have "from_ip s' ip \<le> from_ip s ip" for ip
    unfolding from_ip_def by (rule from_ip_narrower) (use k in \<open>auto simp: kept_def intro: list_all2_takeI\<close>)
  then have "from_ip s' ip \<le> VIDEO_MAX_VIEWERS_PER_IP" for ip using c by (auto simp: slot_caps_def intro: le_trans)
  then show ?thesis using c k by (auto simp: slot_caps_def kept_def dest: list_all2_lengthD)
qed

subsection \<open>Viewers leave\<close>

definition slot_core :: "slot \<Rightarrow> nat \<times> (bool \<times> 32 word \<times> 16 word \<times> int) \<times> bool \<times> bool \<times> bool" where
  "slot_core s = snd (slot_face s)"

lemma core_drop [simp]: "slot_core (drop_viewer s v) = slot_core s" "sl_backend (drop_viewer s v) = sl_backend s"
  "length (sl_viewers (drop_viewer s v)) = length (sl_viewers s)"
  by (simp_all add: drop_viewer_def slot_core_def slot_face_def)

lemma core_end_viewer: "slot_core (end_viewer why v s) = slot_core s \<and> sl_backend (end_viewer why v s) = sl_backend s
    \<and> length (sl_viewers (end_viewer why v s)) = length (sl_viewers s)"
  by (simp add: end_viewer_def) (simp add: slot_core_def slot_face_def)

lemma drop_narrows: "list_all2 narrower (sl_viewers s) (sl_viewers (drop_viewer s v))"
  by (auto simp: drop_viewer_def vw_active_def vw_close_def intro!: narrower_update)

lemma end_viewer_narrows: "list_all2 narrower (sl_viewers s) (sl_viewers (end_viewer why v s))"
  by (cases "v < length (sl_viewers s)")
    (auto simp: end_viewer_def drop_viewer_def vw_active_def vw_close_def list_update_beyond not_less intro!: narrower_update)

lemma end_viewers:
  "slot_core (fold (end_viewer why) vs s) = slot_core s
     \<and> sl_backend (fold (end_viewer why) vs s) = sl_backend s \<and> list_all2 narrower (sl_viewers s) (sl_viewers (fold (end_viewer why) vs s))"
proof (induction vs arbitrary: s)
  case (Cons v vs)
  show ?case using Cons.IH [of "end_viewer why v s"] core_end_viewer [of why v s] narrower_trans [OF end_viewer_narrows] by auto
qed simp

lemma end_stream_core [simp]: "slot_core (end_stream s why) = slot_core s" "sl_backend (end_stream s why) = sl_backend s"
  using end_viewers [of why "[0..<length (sl_viewers s)]" s] by (auto simp: end_stream_def Let_def slot_core_def slot_face_def)

lemma end_stream_narrows: "list_all2 narrower (sl_viewers s) (sl_viewers (end_stream s why))"
  using end_viewers [of why "[0..<length (sl_viewers s)]" s] by (auto simp: end_stream_def Let_def)

text \<open>What \<open>end_stream\<close> gives, field by field.\<close>

lemma end_stream_fields [simp]:
  "sl_has_pub (end_stream s why) = sl_has_pub s" "sl_mkv (end_stream s why) = sl_mkv s" "sl_client (end_stream s why) = sl_client s"
  "(sl_rtmp (end_stream s why) = None) = (sl_rtmp s = None)" "length (sl_pending (end_stream s why)) = length (sl_pending s)"
  using end_stream_core(1) [of s why] by (auto simp: slot_core_def slot_face_def)

lemma kept_end: "\<not> sl_has_pub s1 \<Longrightarrow> sl_viewers s1 = sl_viewers s \<Longrightarrow> length (sl_pending s1) = length (sl_pending s) \<Longrightarrow> kept s (end_stream s1 why)"
  using end_stream_narrows [of s1 why] by (simp add: kept_def)

lemma close_mkv_ok: "kept s (close_mkv s why)" "\<not> sl_has_pub (close_mkv s why)" "\<not> sl_mkv (close_mkv s why)"
  "slot_one s \<Longrightarrow> sl_mkv s \<Longrightarrow> slot_one (close_mkv s why)"
  by (auto simp: close_mkv_def intro!: kept_end) (auto simp: slot_one_def)

lemma close_rtsp_ok: "kept s (close_rtsp s)" "slot_one s \<Longrightarrow> slot_one (close_rtsp s)"
  by (auto simp: close_rtsp_def reset_rtp_def kept_face intro!: kept_end) (auto simp: slot_one_def be_stop_def)

subsection \<open>Publishers come\<close>

text \<open>A publisher that is new was admitted by this call, on a slot nobody held.\<close>

definition taken :: "'db slot_env \<Rightarrow> video_auth \<Rightarrow> slot \<Rightarrow> slot \<Rightarrow> bool" where
  "taken e a s s' = (list_all2 narrower (sl_viewers s) (sl_viewers s') \<and> length (sl_pending s') = length (sl_pending s)
     \<and> \<not> slot_busy s (se_now e) \<and> \<not> sl_mkv s \<and> sl_pub_since s' = se_now e
     \<and> (\<exists>pw capable. snd (slot_admit e a (sl_pub_ip s') pw capable) = VIDEO_ADMIT_OK))"

definition sound_step :: "'db slot_env \<Rightarrow> video_auth \<Rightarrow> slot \<Rightarrow> slot \<Rightarrow> bool" where
  "sound_step e a s s' = ((slot_one s \<longrightarrow> slot_one s' \<and> (kept s s' \<or> taken e a s s')) \<and> (slot_caps s \<longrightarrow> slot_one s \<longrightarrow> slot_caps s'))"

lemma caps_taken: "slot_caps s \<Longrightarrow> taken e a s s' \<Longrightarrow> slot_caps s'"
proof -
  assume c: "slot_caps s" and t: "taken e a s s'"
  have "kept s (s'\<lparr> sl_has_pub := False \<rparr>)" using t by (simp add: kept_def taken_def)
  from caps_kept [OF c this] show ?thesis by (auto simp: slot_caps_def from_ip_def)
qed

lemma sound_stepI: "(slot_one s \<Longrightarrow> slot_one s' \<and> (kept s s' \<or> taken e a s s')) \<Longrightarrow> sound_step e a s s'"
  using caps_kept caps_taken unfolding sound_step_def by blast

lemma sound_kept: "kept s s' \<Longrightarrow> (slot_one s \<Longrightarrow> slot_one s') \<Longrightarrow> sound_step e a s s'"
  by (rule sound_stepI) simp

lemma sound_refl [simp]: "sound_step e a s s"
  by (rule sound_kept) (simp_all add: kept_def)

lemma sound_log [simp]: "sound_step e a s (log_reject s now)"
  by (rule sound_kept) (auto intro: kept_face one_calm)

lemma one_backend: "slot_one s \<Longrightarrow> sl_has_pub s \<Longrightarrow> \<not> sl_mkv s \<Longrightarrow> \<not> be_running (sl_backend s) \<Longrightarrow> be_start x (sl_backend s) w p v c n = (b, ok)
    \<Longrightarrow> slot_face s' = slot_face s \<Longrightarrow> sl_backend s' = b \<Longrightarrow> slot_one s'"
  using start_fails [of x "sl_backend s" w p v c n b] start_runs [of x "sl_backend s" w p v c n b]
  by (cases ok) (auto simp: slot_one_def slot_face_def)

lemma ingest_rtp_ok:
  "slot_face (ingest_rtp e s d) = slot_face s"
  "slot_one s \<Longrightarrow> sl_has_pub s \<Longrightarrow> \<not> sl_mkv s \<Longrightarrow> \<not> be_running (sl_backend s) \<Longrightarrow> slot_one (ingest_rtp e s d)"
proof -
  show f: "slot_face (ingest_rtp e s d) = slot_face s"
    by (auto simp: ingest_rtp_def slot_face_def Let_def split: option.splits prod.splits)
  assume a: "slot_one s" "sl_has_pub s" "\<not> sl_mkv s" "\<not> be_running (sl_backend s)"
  have "sl_backend (ingest_rtp e s d) = sl_backend s
      \<or> (\<exists>w p v c n ok. be_start (se_start e) (sl_backend s) w p v c n = (sl_backend (ingest_rtp e s d), ok))"
    by (auto simp: ingest_rtp_def Let_def split: option.splits prod.splits)
  then show "slot_one (ingest_rtp e s d)" using a one_face [OF f] one_backend [OF a _ f refl] by (auto simp: slot_flags_def)
qed

lemma ingest_udp_ok:
  "slot_face (ingest_udp e s d) = slot_face s" "slot_one s \<Longrightarrow> sl_has_pub s \<Longrightarrow> \<not> sl_mkv s \<Longrightarrow> slot_one (ingest_udp e s d)"
proof -
  show f: "slot_face (ingest_udp e s d) = slot_face s"
    unfolding ingest_udp_def by (simp add: ingest_rtp_ok(1)) (simp add: slot_face_def)
  assume a: "slot_one s" "sl_has_pub s" "\<not> sl_mkv s"
  show "slot_one (ingest_udp e s d)"
    using a ingest_rtp_ok(2) [OF a] one_face [OF f] by (auto simp: ingest_udp_def slot_flags_def)
qed

lemma latch_fields [simp]:
  "sl_viewers (latch_publisher e s) = sl_viewers s" "sl_pending (latch_publisher e s) = sl_pending s" "sl_has_pub (latch_publisher e s)"
  "sl_pub_ip (latch_publisher e s) = sl_pub_ip s" "sl_pub_port (latch_publisher e s) = sl_pub_port s" "sl_pub_since (latch_publisher e s) = se_now e"
  "sl_mkv (latch_publisher e s) = sl_mkv s" "sl_client (latch_publisher e s) = sl_client s" "sl_rtmp (latch_publisher e s) = sl_rtmp s"
  "sl_backend (latch_publisher e s) = sl_backend s"
  by (simp_all add: latch_publisher_def reset_rtp_def Let_def)

lemma handle_udp_sound: "sound_step e a s (snd (handle_udp e a s ip port d))"
proof (rule sound_stepI)
  assume one: "slot_one s"
  obtain a' r where r: "slot_admit e a ip None False = (a', r)" by force
  let ?s1 = "s\<lparr> sl_pub_last := se_now e \<rparr>" let ?s2 = "latch_publisher e (s\<lparr> sl_pub_ip := ip, sl_pub_port := port \<rparr>)"
  define x where "x = snd (handle_udp e a s ip port d)"
  have x: "x = (if d = [] \<or> sl_mkv s then s else if length d > UDP_BUF then s\<lparr> sl_bad_datagrams := u64 (sl_bad_datagrams s + 1) \<rparr>
      else if sl_has_pub s \<and> sl_pub_ip s = ip \<and> sl_pub_port s = port then ingest_udp e ?s1 d
      else if r \<noteq> VIDEO_ADMIT_OK \<or> slot_busy s (se_now e) then log_reject s (se_now e) else ingest_udp e ?s2 d)"
    unfolding x_def handle_udp_def r by (simp del: slot.update_convs)
  consider "x = s" | "x = s\<lparr> sl_bad_datagrams := u64 (sl_bad_datagrams s + 1) \<rparr>" | "x = log_reject s (se_now e)"
    | "\<not> sl_mkv s" "sl_has_pub s" "x = ingest_udp e ?s1 d"
    | "\<not> sl_mkv s" "r = VIDEO_ADMIT_OK" "\<not> slot_busy s (se_now e)" "x = ingest_udp e ?s2 d"
    using x by argo
  then have "slot_one x \<and> (kept s x \<or> taken e a s x)"
  proof cases
    case 1
    then show ?thesis using one by (simp add: kept_face)
  next
    case 2
    moreover have "slot_face (s\<lparr> sl_bad_datagrams := u64 (sl_bad_datagrams s + 1) \<rparr>) = slot_face s" by (simp add: slot_face_def)
    ultimately show ?thesis using one by (auto intro: kept_face one_calm)
  next
    case 3
    then show ?thesis using one by (auto intro: kept_face one_calm)
  next
    case 4
    have "slot_face ?s1 = slot_face s" "slot_one ?s1" using one by (simp_all add: slot_face_def slot_one_def)
    then show ?thesis using 4 ingest_udp_ok(1) [of e ?s1 d] ingest_udp_ok(2) [of ?s1 e d] by (auto intro: kept_face)
  next
    case 5
    have "slot_one ?s2" using one 5 by (auto simp: slot_one_def slot_busy_def)
    then have "slot_one (ingest_udp e ?s2 d)" using 5 by (intro ingest_udp_ok) simp_all
    moreover have "taken e a s (ingest_udp e ?s2 d)"
    proof -
      have f: "slot_face (ingest_udp e ?s2 d) = slot_face ?s2" by (rule ingest_udp_ok)
      have "snd (slot_admit e a ip None False) = VIDEO_ADMIT_OK" using r 5 by simp
      then show ?thesis using 5 f by (auto simp: taken_def slot_face_def)
    qed
    ultimately show ?thesis using 5 by simp
  qed
  then show "slot_one (snd (handle_udp e a s ip port d)) \<and> (kept s (snd (handle_udp e a s ip port d)) \<or> taken e a s (snd (handle_udp e a s ip port d)))"
    by (simp add: x_def)
qed

lemma mkv_outcome:
  assumes "handle_mkv e a s ip port peek io = (a', x)"
  shows "x = s \<or> (\<exists>pw. snd (slot_admit e a ip pw True) = VIDEO_ADMIT_OK) \<and> \<not> sl_has_pub s \<and> \<not> be_running (sl_backend s) \<and> \<not> sl_mkv s
      \<and> sl_mkv x \<and> sl_has_pub x \<and> sl_client x = sl_client s \<and> sl_rtmp x = sl_rtmp s \<and> sl_backend x = sl_backend s
      \<and> sl_viewers x = sl_viewers s \<and> sl_pending x = sl_pending s \<and> sl_pub_ip x = ip \<and> sl_pub_since x = se_now e"
proof (cases "x = s")
  case False
  then obtain d req where d: "peek = R_data d" "hr_feed hr_new (bytes_str (take PEEK_SIZE d)) = (req, Hr_complete)" "d \<noteq> []"
    using assms by (auto simp: handle_mkv_def Let_def split: net_read.splits prod.splits if_splits)
  obtain a1 adm where adm: "slot_admit e a ip (http_query_value (hr_target req) ''pw'') True = (a1, adm)" by force
  then show ?thesis using False assms by (auto simp: handle_mkv_def d Let_def split: if_splits intro: exI [of _ "http_query_value (hr_target req) ''pw''"])
qed simp

lemma handle_mkv_sound: "sound_step e a s (snd (handle_mkv e a s ip port peek io))"
proof -
  obtain a' x where h: "handle_mkv e a s ip port peek io = (a', x)" by force
  have "sound_step e a s x"
  proof (cases "x = s")
    case False
    then show ?thesis using mkv_outcome [OF h] by (intro sound_stepI) (auto simp: slot_one_def taken_def slot_busy_def)
  qed simp
  then show ?thesis using h by simp
qed

lemma rtsp_outcome:
  assumes "handle_rtsp e a s ip port peek = (a', x)"
  shows "x = s \<or> x = log_reject s (se_now e)
    \<or> \<not> slot_busy s (se_now e) \<and> (\<exists>b w. be_start (se_start e) (sl_backend s) w SPLICE_RTSP None None 96 = (b, False) \<and> x = s\<lparr> sl_backend := b \<rparr>)
    \<or> (\<exists>pw. snd (slot_admit e a ip pw True) = VIDEO_ADMIT_OK) \<and> \<not> slot_busy s (se_now e) \<and> \<not> sl_mkv s
      \<and> (\<exists>b w. be_start (se_start e) (sl_backend s) w SPLICE_RTSP None None 96 = (b, True)
           \<and> x = latch_publisher e (s\<lparr> sl_backend := b, sl_client := True, sl_guard := [], sl_opaque_left := 0, sl_pub_ip := ip, sl_pub_port := port \<rparr>))"
proof (cases "x = s \<or> x = log_reject s (se_now e)")
  case False
  then obtain d target where d: "peek = R_data d" "(if d = [] then None else rtsp_line_target (bytes_str (take PEEK_SIZE d))) = Some target"
    using assms by (auto simp: handle_rtsp_def split: net_read.splits option.splits)
  obtain a1 adm where adm: "slot_admit e a ip (http_query_value target ''pw'') True = (a1, adm)" by force
  have ok: "adm = VIDEO_ADMIT_OK" "\<not> sl_mkv s" "\<not> slot_busy s (se_now e)"
    using False assms by (auto simp: handle_rtsp_def d adm split: if_splits)
  have p: "\<exists>pw. snd (slot_admit e a ip pw True) = VIDEO_ADMIT_OK"
    using adm ok by (intro exI [of _ "http_query_value target ''pw''"]) simp
  obtain b started where b: "be_start (se_start e) (sl_backend s) (video_entry_opts (video_flags (se_ke e)) AND VIDEO_OPT_AUDIO \<noteq> 0)
      SPLICE_RTSP None None 96 = (b, started)" by force
  have x: "x = (if started then latch_publisher e (s\<lparr> sl_backend := b, sl_client := True, sl_guard := [], sl_opaque_left := 0,
      sl_pub_ip := ip, sl_pub_port := port \<rparr>) else s\<lparr> sl_backend := b \<rparr>)"
    using assms ok by (simp add: handle_rtsp_def d adm b split: if_splits)
  show ?thesis
  proof (cases started)
    case True
    then show ?thesis using x p ok b by (simp only: if_True) blast
  next
    case False
    then show ?thesis using x ok b by (simp only: if_False) blast
  qed
qed blast

lemma handle_rtsp_sound: "sound_step e a s (snd (handle_rtsp e a s ip port peek))"
proof -
  obtain a' x where h: "handle_rtsp e a s ip port peek = (a', x)" by force
  from rtsp_outcome [OF h] consider "x = s" | "x = log_reject s (se_now e)"
    | b w where "\<not> slot_busy s (se_now e)" "be_start (se_start e) (sl_backend s) w SPLICE_RTSP None None 96 = (b, False)" "x = s\<lparr> sl_backend := b \<rparr>"
    | pw b w where "snd (slot_admit e a ip pw True) = VIDEO_ADMIT_OK" "\<not> slot_busy s (se_now e)" "\<not> sl_mkv s"
      "be_start (se_start e) (sl_backend s) w SPLICE_RTSP None None 96 = (b, True)"
      "x = latch_publisher e (s\<lparr> sl_backend := b, sl_client := True, sl_guard := [], sl_opaque_left := 0, sl_pub_ip := ip, sl_pub_port := port \<rparr>)"
    by blast
  then have "sound_step e a s x"
  proof cases
    case 3
    have "slot_face x = slot_face s" using 3 by (simp add: slot_face_def)
    moreover have "slot_one x" if "slot_one s" using that 3 start_fails [OF 3(2)] by (auto simp: slot_one_def slot_busy_def)
    ultimately show ?thesis by (intro sound_kept) (simp_all add: kept_face)
  next
    case 4
    then show ?thesis using start_runs [OF 4(4)] by (intro sound_stepI) (auto simp: slot_one_def taken_def slot_busy_def)
  qed simp_all
  then show ?thesis using h by simp
qed

lemma handle_rtmp_face [simp]: "slot_face (handle_rtmp e s ip port) = slot_face s" "sl_backend (handle_rtmp e s ip port) = sl_backend s"
  by (auto simp: handle_rtmp_def slot_face_def split: option.splits)

subsection \<open>The splice\<close>

lemma face_pump_mkv: "pump_mkv e s inp = (s', ok) \<Longrightarrow> slot_face s' = slot_face s \<and> sl_backend s' = sl_backend s"
  using face_mkv_records [where e = e and s = "s\<lparr> sl_pub_last := t, sl_scanner := sc \<rparr>" for t sc]
  by (auto simp: pump_mkv_def Let_def slot_face_def split: net_read.splits prod.splits if_splits)

lemma face_pump_media: "pump_media e s inp = (s', ok) \<Longrightarrow> slot_face s' = slot_face s \<and> sl_backend s' = sl_backend s"
  using face_ingest_stream [where e = e and s = "s\<lparr> sl_pub_last := se_now e \<rparr>"]
  by (auto simp: pump_media_def slot_face_def split: net_read.splits if_splits)

lemma face_guard: "guard_rtsp_requests e s d = (s', ok) \<Longrightarrow> slot_face s' = slot_face s \<and> sl_backend s' = sl_backend s"
  by (auto simp: guard_rtsp_requests_def Let_def split: prod.splits if_splits) (simp_all add: slot_face_def)

lemma face_flush: "flush_client s outs = (s', ok) \<Longrightarrow> slot_face s' = slot_face s \<and> sl_backend s' = sl_backend s"
  "flush_backend s outs = (s', ok) \<Longrightarrow> slot_face s' = slot_face s \<and> sl_backend s' = sl_backend s"
  by (auto simp: flush_client_def flush_backend_def slot_face_def split: prod.splits if_splits)

text \<open>A step of the splice: it leaves who publishes and the connection alone.\<close>

definition spliced :: "slot \<Rightarrow> slot \<Rightarrow> bool" where
  "spliced s s' = (kept s s' \<and> (slot_one s \<longrightarrow> slot_one s') \<and> sl_client s' = sl_client s \<and> sl_mkv s' = sl_mkv s \<and> sl_has_pub s' = sl_has_pub s)"

lemma spliced_face: "slot_face s' = slot_face s \<and> sl_backend s' = sl_backend s \<Longrightarrow> spliced s s'"
  using one_calm [of s s'] by (auto simp: spliced_def kept_face) (auto simp: slot_face_def)

lemma spliced_refl [simp]: "spliced s s"
  by (rule spliced_face) simp

lemma spliced_trans: "spliced s s1 \<Longrightarrow> spliced s1 s2 \<Longrightarrow> spliced s s2"
  by (auto simp: spliced_def intro: kept_trans)

lemma spliced_queues [simp]:
  "spliced s (s\<lparr> sl_to_client := q \<rparr>)" "spliced s (s\<lparr> sl_to_backend := q \<rparr>)" "spliced s (s\<lparr> sl_to_backend := q, sl_pub_last := t \<rparr>)"
  "spliced s (s\<lparr> sl_to_client := q, sl_pub_last := t \<rparr>)" "spliced s (s\<lparr> sl_pub_last := t \<rparr>)"
  "spliced s (s\<lparr> sl_to_backend := q, sl_to_client := q' \<rparr>)"
  by (rule spliced_face; simp add: slot_face_def)+

lemma face_client: "pump_client e s inp o1 o2 o3 mod_ok = (s', ok) \<Longrightarrow> slot_face s' = slot_face s \<and> sl_backend s' = sl_backend s"
  unfolding pump_client_def Let_def by (auto simp: slot_face_def split: prod.splits if_splits net_read.splits dest!: face_guard)

lemma face_backend: "pump_backend e s inp o1 o2 o3 mod_ok = (s', ok) \<Longrightarrow> slot_face s' = slot_face s \<and> sl_backend s' = sl_backend s"
  unfolding pump_backend_def Let_def by (auto simp: slot_face_def split: prod.splits if_splits net_read.splits)

lemma spliced_backend:
  assumes "be_start x (sl_backend s) w p v c n = (b, ok)" "\<not> be_running (sl_backend s)" "sl_client s"
  shows "spliced s (s\<lparr> sl_backend := b \<rparr>)"
proof -
  have "slot_one (s\<lparr> sl_backend := b \<rparr>)" if "slot_one s"
    by (rule one_backend [OF that _ _ assms(2,1)]) (use that assms(3) in \<open>auto simp: slot_one_def slot_face_def\<close>)
  then show ?thesis by (simp add: spliced_def kept_def publisher_def)
qed

lemma spliced_rtmp: "sl_client s \<Longrightarrow> spliced s (s\<lparr> sl_to_client := q, sl_to_backend := q', sl_rtmp := Some r \<rparr>)"
  by (auto simp: spliced_def kept_def publisher_def slot_one_def)

lemma spliced_drain:
  assumes "rtmp_drain_owner e s r alive outs = (s', ok)" "sl_client s"
  shows "spliced s s'"
proof -
  let ?s1 = "s\<lparr> sl_to_client := sq_append (sl_to_client s) (rs_to_peer r), sl_to_backend := sq_append (sl_to_backend s) (rs_to_flv r),
                  sl_rtmp := Some (r\<lparr> rs_to_peer := [], rs_to_flv := [] \<rparr>) \<rparr>"
  obtain s2 st where s2: "(if rs_publishing r \<and> \<not> be_running (sl_backend ?s1) \<and> rs_vcodec r \<noteq> RTMP_VCODEC_NONE
      then rtmp_start_backend e ?s1 r else (?s1, True)) = (s2, st)" by force
  have "spliced ?s1 s2"
  proof (cases "rs_publishing r \<and> \<not> be_running (sl_backend ?s1) \<and> rs_vcodec r \<noteq> RTMP_VCODEC_NONE")
    case True
    then have "rtmp_start_backend e ?s1 r = (s2, st)" using s2 by simp
    then obtain b w v where b: "be_start (se_start e) (sl_backend ?s1) w SPLICE_RTMP v None 96 = (b, st)" "s2 = ?s1\<lparr> sl_backend := b \<rparr>"
      by (auto simp: rtmp_start_backend_def Let_def split: prod.splits)
    show ?thesis unfolding b(2) by (rule spliced_backend [OF b(1)]) (use True assms(2) in simp_all)
  next
    case False
    then have "s2 = ?s1" using s2 by (simp only: if_False prod.inject)
    then show ?thesis by simp
  qed
  then have ss: "spliced s s2" by (rule spliced_trans [OF spliced_rtmp [OF assms(2)]])
  have "s' = s2 \<or> s' = fst (flush_client s2 outs)"
    using assms(1) unfolding rtmp_drain_owner_def Let_def s2 by (auto split: if_splits)
  then show ?thesis using ss spliced_trans [OF ss] face_flush(1) [of s2 outs, THEN spliced_face] by (metis prod.collapse)
qed

lemma spliced_pump_rtmp:
  assumes "pump_rtmp e s r fd inp outs mod_ok = (s', ok)" "splice_fd_open s fd" "slot_one s" "sl_rtmp s = Some r"
  shows "spliced s s'"
proof (cases fd)
  case Media_fd
  then show ?thesis using assms(1) face_pump_media spliced_face by (simp add: pump_rtmp_def) blast
next
  case Backend_fd
  then show ?thesis using assms(1) by (auto simp: pump_rtmp_def Let_def split: prod.splits if_splits)
next
  case Client_fd
  then have c: "sl_client s" using assms(2) by (simp add: splice_fd_open_def)
  obtain s1 ok1 where 1: "flush_client s (outs 0) = (s1, ok1)" by force
  obtain s2 ok2 where 2: "flush_backend s1 (outs 1) = (s2, ok2)" by force
  have s1: "spliced s s1" and s2: "spliced s s2"
    using face_flush(1) [OF 1, THEN spliced_face] face_flush(2) [OF 2, THEN spliced_face] spliced_trans by blast+
  have c2: "sl_client s2" using s2 c by (simp add: spliced_def)
  obtain s3 ok3 where 3: "(if sq_pending (sl_to_backend s2) < SPLICE_QUEUE_MAX \<and> sq_pending (sl_to_client s2) < SPLICE_QUEUE_MAX then
       (case inp of R_again \<Rightarrow> (s2, True) | R_fail \<Rightarrow> (s2, False)
        | R_data d \<Rightarrow> if d = [] then (s2, False)
            else case rs_feed r (take SPLICE_READ d) (se_now e) of (r1, alive) \<Rightarrow>
                 rtmp_drain_owner e (s2\<lparr> sl_pub_last := se_now e \<rparr>) r1 alive (outs 2)) else (s2, True)) = (s3, ok3)" by force
  have "spliced s2 s3" using 3 c2 spliced_trans [OF spliced_queues(5) spliced_drain]
    by (auto split: if_splits net_read.splits prod.splits)
  then have s3: "spliced s s3" by (rule spliced_trans [OF s2])
  obtain s4 ok4 where 4: "flush_client s3 (outs 3) = (s4, ok4)" by force
  obtain s5 ok5 where 5: "flush_backend s4 (outs 4) = (s5, ok5)" by force
  have s4: "spliced s s4" and s5: "spliced s s5"
    using s3 face_flush(1) [OF 4, THEN spliced_face] face_flush(2) [OF 5, THEN spliced_face] spliced_trans by blast+
  show ?thesis using assms(1) s1 s2 s3 s4 s5 unfolding pump_rtmp_def Client_fd splice_fd.case 1 2 Let_def prod.case 3 4 5
    by (auto split: if_splits intro: spliced_trans [OF s5])
qed

lemma spliced_pump_rtsp:
  assumes "pump_rtsp e s fd inp outs mod_ok = (s', ok)" "splice_fd_open s fd" "slot_one s"
  shows "spliced s s'"
proof (cases "sl_rtmp s")
  case (Some r)
  then show ?thesis using spliced_pump_rtmp [of e s r fd inp outs mod_ok s' ok] assms by (simp add: pump_rtsp_def)
next
  case None
  then show ?thesis using assms(1) face_client face_backend face_pump_media
    by (intro spliced_face) (simp add: pump_rtsp_def split: splice_fd.splits)
qed

subsection \<open>Handshakes and viewers\<close>

text \<open>A change of the handshakes or of the viewers that the publisher does not notice.\<close>

definition aside :: "slot \<Rightarrow> slot \<Rightarrow> bool" where
  "aside s s1 = (list_all2 narrower (sl_viewers s) (sl_viewers s1) \<and> slot_core s1 = slot_core s \<and> sl_backend s1 = sl_backend s
     \<and> sl_pub_last s1 = sl_pub_last s)"

lemma aside_fields:
  assumes "aside s s1"
  shows "kept s s1" "slot_one s1 = slot_one s" "taken e a s1 s' \<Longrightarrow> taken e a s s'"
  using assms narrower_trans [of "sl_viewers s" "sl_viewers s1" "sl_viewers s'"]
  by (auto simp: aside_def kept_def slot_one_def taken_def slot_core_def slot_face_def publisher_def slot_busy_def)

lemma sound_aside: "aside s s1 \<Longrightarrow> sound_step e a s1 s' \<Longrightarrow> sound_step e a s s'"
  using aside_fields [of s s1] kept_trans [of s s1 s'] by (intro sound_stepI) (auto simp: sound_step_def)

lemma sound_of_aside: "aside s s1 \<Longrightarrow> sound_step e a s s1"
  by (rule sound_aside [OF _ sound_refl])

lemma aside_trans: "aside s s1 \<Longrightarrow> aside s1 s2 \<Longrightarrow> aside s s2"
  by (auto simp: aside_def intro: narrower_trans)

lemma aside_refl [simp]: "aside s s"
  by (simp add: aside_def)

lemma aside_put_pending [simp]: "aside s (put_pending s k p)"
  by (simp add: aside_def put_pending_def slot_core_def slot_face_def)

lemma aside_log [simp]: "aside s (log_reject s now)"
  by (simp add: aside_def log_reject_def slot_core_def slot_face_def Let_def)

lemma aside_refuse [simp]: "aside s (refuse_pending s k why)"
  by (simp add: aside_def refuse_pending_def slot_core_def slot_face_def)

lemma aside_put_viewer: "(vw_open vw \<Longrightarrow> vw_active (sl_viewers s ! v)) \<Longrightarrow> aside s (put_viewer s v vw)"
  by (auto simp: aside_def put_viewer_def slot_core_def slot_face_def vw_active_def intro!: narrower_update)

lemma aside_drop [simp]: "aside s (drop_viewer s v)"
  using drop_narrows [of s v] core_drop [of s v] by (simp add: aside_def drop_viewer_def)

lemma taken_then: "taken e a s s1 \<Longrightarrow> kept s1 s' \<Longrightarrow> taken e a s s' \<or> kept s s'"
  using narrower_trans [of "sl_viewers s" "sl_viewers s1" "sl_viewers s'"] by (auto simp: taken_def kept_def publisher_def)

lemma promote_sound:
  assumes "promote_pending e a s k outs mod_ok = (a', s', promoted)"
  shows "sound_step e a s s' \<and> (\<not> promoted \<longrightarrow> aside s s')"
proof (cases promoted)
  case False
  then have "aside s s'" using assms unfolding promote_pending_def Let_def
    by (auto split: prod.splits if_splits intro: aside_trans [OF aside_log aside_refuse])
  then show ?thesis using sound_of_aside False by blast
next
  case True
  let ?p = "sl_pending s ! k" let ?r = "pr_sess ?p" let ?r1 = "accept_publish ?r"
  define s1 where "s1 = latch_publisher e (s\<lparr> sl_client := True, sl_rtmp := Some ?r1, sl_to_client := pr_out ?p, sl_to_backend := sq_new,
       sl_pending := (sl_pending s)[k := ?p\<lparr> pr_active := False, pr_sess := rs_new, pr_out := sq_new, pr_since := 0 \<rparr>],
       sl_pub_ip := pr_ip ?p, sl_pub_port := pr_port ?p \<rparr>)"
  obtain a1 adm where adm: "slot_admit e a (pr_ip ?p) (if rs_password_present ?r then Some (rs_password ?r) else None) True = (a1, adm)" by force
  obtain r2 alive where r2: "rs_resume ?r1 = (r2, alive)" by force
  obtain s2 ok2 where s2: "rtmp_drain_owner e s1 r2 alive (outs 0) = (s2, ok2)" by force
  obtain s3 ok3 where s3: "flush_client s2 (outs 1) = (s3, ok3)" by force
  have g: "adm = VIDEO_ADMIT_OK" "\<not> sl_mkv s" "\<not> slot_busy s (se_now e)"
    and s': "s' \<in> {close_rtsp s2, close_rtsp s3, s3\<lparr> sl_to_client := splice_arm (sl_client s3) mod_ok (sl_to_client s3) \<rparr>}"
    using assms True unfolding promote_pending_def Let_def adm prod.case s1_def [symmetric] r2 s2 s3 by (auto split: if_splits)
  have "snd (slot_admit e a (pr_ip ?p) (if rs_password_present ?r then Some (rs_password ?r) else None) True) = VIDEO_ADMIT_OK" using adm g by simp
  then have t: "taken e a s s1" unfolding taken_def using g by (auto simp: s1_def)
  have o1: "slot_one s1" if "slot_one s" using that g by (auto simp: slot_one_def slot_busy_def s1_def)
  have "spliced s1 s2" by (rule spliced_drain [OF s2]) (simp add: s1_def)
  moreover have "spliced s2 s3" by (rule spliced_face [OF face_flush(1) [OF s3]])
  ultimately have sp: "spliced s1 s2" "spliced s1 s3" using spliced_trans by blast+
  have k: "kept s1 x \<and> (slot_one s1 \<longrightarrow> slot_one x)" if "spliced s1 x" for x using that by (simp add: spliced_def)
  have c: "kept s1 (close_rtsp x) \<and> (slot_one s1 \<longrightarrow> slot_one (close_rtsp x))" if "spliced s1 x" for x
    using k [OF that] close_rtsp_ok [of x] kept_trans by blast
  have "kept s1 s' \<and> (slot_one s1 \<longrightarrow> slot_one s')"
    using s' c [OF sp(1)] c [OF sp(2)] k [OF spliced_trans [OF sp(2) spliced_queues(1)]] by (elim insertE emptyE) simp_all
  then show ?thesis using o1 taken_then [OF t] True by (auto intro!: sound_stepI)
qed

lemma settle_aside: "settle_pending s k alive outs mod_ok = (s', ok) \<Longrightarrow> aside s s'"
  by (auto simp: settle_pending_def Let_def split: prod.splits if_splits)

lemma pump_pending_sound:
  assumes "pump_pending e a s k inp outs mod_ok = (a', s', ok)"
  shows "sound_step e a s s'"
proof -
  obtain q x fl where f: "splice_flush (pr_out (sl_pending s ! k)) (outs 0) = (q, x, fl)" by (metis prod_cases3)
  let ?p1 = "(sl_pending s ! k)\<lparr> pr_out := q \<rparr>"
  show ?thesis
  proof (cases "\<exists>p. s' = put_pending s k p")
    case True
    then show ?thesis using sound_of_aside [OF aside_put_pending] by auto
  next
    case False
    then obtain d where d: "inp = R_data d" "d \<noteq> []" "fl"
      using assms f by (auto simp: pump_pending_def Let_def split: net_read.splits if_splits)
    obtain r alive where r: "rs_feed (pr_sess ?p1) (take PENDING_READ d) (se_now e) = (r, alive)" by force
    let ?s1 = "put_pending s k (?p1\<lparr> pr_sess := r \<rparr>)"
    have eq: "pump_pending e a s k inp outs mod_ok =
        (if rs_publish_pending r then
           (case promote_pending e a ?s1 k (\<lambda>i. outs (i + 1)) mod_ok of (a2, s2, pr) \<Rightarrow>
              if pr then (a2, s2, False) else (case settle_pending s2 k False (outs 3) mod_ok of (s3, ok3) \<Rightarrow> (a2, s3, ok3)))
         else (case settle_pending ?s1 k alive (outs 3) mod_ok of (s3, ok3) \<Rightarrow> (a, s3, ok3)))"
      unfolding pump_pending_def Let_def f d(1) prod.case net_read.case r by (simp only: d not_True_eq_False if_False)
    show ?thesis
    proof (cases "rs_publish_pending r")
      case False
      then have "settle_pending ?s1 k alive (outs 3) mod_ok = (s', ok)"
        using assms unfolding eq by (simp only: if_False split: prod.splits) blast
      then have "aside ?s1 s'" by (rule settle_aside)
      from aside_trans [OF aside_put_pending this] show ?thesis by (rule sound_of_aside)
    next
      case True
      obtain a2 s2 pr where p: "promote_pending e a ?s1 k (\<lambda>i. outs (i + 1)) mod_ok = (a2, s2, pr)" by (metis prod_cases3)
      have "s' = s2 \<or> \<not> pr \<and> aside s2 s'"
        using assms settle_aside unfolding eq p prod.case by (simp only: True if_True split: if_splits prod.splits) blast+
      then have "sound_step e a ?s1 s'" using promote_sound [OF p] sound_of_aside aside_trans by blast
      then show ?thesis by (rule sound_aside [OF aside_put_pending])
    qed
  qed
qed

text \<open>A step after a sound one that the publisher does not notice.\<close>

lemma sound_then: "sound_step e a s s1 \<Longrightarrow> aside s1 s2 \<Longrightarrow> sound_step e a s s2"
  using aside_fields(1,2) [of s1 s2] kept_trans [of s s1 s2] taken_then [of e a s s1 s2]
  by (intro sound_stepI) (auto simp: sound_step_def)

lemma on_pending_sound: "sound_step e a s (snd (on_pending e a s k hup inp outs mod_ok))"
proof -
  obtain a1 s1 ok where p: "(if hup then (a, s, False) else pump_pending e a s k inp outs mod_ok) = (a1, s1, ok)" by (metis prod_cases3)
  have "sound_step e a s s1" using p pump_pending_sound by (cases hup) auto
  moreover have "snd (on_pending e a s k hup inp outs mod_ok) \<in> {s, s1, put_pending s1 k (close_pending (sl_pending s1 ! k))}"
    unfolding on_pending_def p Let_def by simp
  ultimately show ?thesis using sound_then [OF _ aside_put_pending] by auto
qed

lemma on_viewer_aside: "aside s (on_viewer e s v hup rd wr io random wouts)"
proof (cases "v < VIDEO_MAX_VIEWERS \<and> vw_active (sl_viewers s ! v)")
  case True
  then have "aside s (put_viewer s v vw)" "aside s (drop_viewer (put_viewer s v vw) v)" for vw
    using aside_put_viewer [of vw s v] aside_trans [OF _ aside_drop] by blast+
  then show ?thesis using True by (auto simp: on_viewer_def Let_def split: prod.splits)
qed (simp only: on_viewer_def if_False aside_refl)

lemma pump_viewer_sound: "sound_step e a s (snd (pump_viewer e a s v io))"
proof (cases "vw_open (snd (sl_viewers s ! v))")
  case False
  then show ?thesis by (simp add: pump_viewer_def split_beta)
next
  case True
  then have p: "aside s (put_viewer s v vw)" "aside s (drop_viewer (put_viewer s v vw) v)" for vw
    using aside_put_viewer [of vw s v] aside_trans [OF _ aside_drop] by (auto simp: vw_active_def)
  have p2: "aside s (put_viewer (put_viewer s v vw) v vw')" "aside s (drop_viewer (put_viewer (put_viewer s v vw) v vw') v)" for vw vw'
    using p [of vw'] by (cases "v < length (sl_viewers s)"; simp add: put_viewer_def list_update_beyond)+
  obtain ip vw where vw: "sl_viewers s ! v = (ip, vw)" by force
  show ?thesis
  proof (cases "vw_kind vw \<in> {VVK_RTSP, VVK_RTMP, VVK_MKV}")
    case k: True
    let ?s1 = "put_viewer s v (vw_release_fd vw)"
    have r: "sound_step e a ?s1 (handle_rtmp e ?s1 ip (vi_port io))" by (rule sound_kept) (auto intro: kept_face one_calm)
    have "sound_step e a s (snd (handle_mkv e a ?s1 ip (vi_port io) (vi_peek io) (vi_io io)))"
      "sound_step e a s (snd (handle_rtsp e a ?s1 ip (vi_port io) (vi_peek io)))" "sound_step e a s (handle_rtmp e ?s1 ip (vi_port io))"
      using sound_aside [OF p(1) handle_mkv_sound] sound_aside [OF p(1) handle_rtsp_sound] sound_aside [OF p(1) r] by blast+
    then show ?thesis using k True vw by (simp add: pump_viewer_def Let_def)
  next
    case False
    then have "aside s (snd (pump_viewer e a s v io))" using True p p2 unfolding pump_viewer_def vw Let_def prod.case
      by (simp split: prod.splits)
    then show ?thesis by (rule sound_of_aside)
  qed
qed

subsection \<open>Connections and events\<close>

lemma free_slot_Some: "free_slot xs = Some v \<Longrightarrow> v < length xs \<and> \<not> vw_active (xs ! v)"
  by (induction xs arbitrary: v) (auto split: if_splits)

lemma handle_tcp_core: "slot_core (fst (handle_tcp e s ip)) = slot_core s \<and> sl_backend (fst (handle_tcp e s ip)) = sl_backend s"
  by (auto simp: handle_tcp_def slot_core_def slot_face_def split: option.splits)

lemma count_update:
  assumes "v < length xs" "\<not> P (xs ! v)"
  shows "length (filter P (xs[v := y])) = length (filter P xs) + (if P y then 1 else 0)"
proof -
  have "xs[v := y] = take v xs @ y # drop (Suc v) xs" by (rule upd_conv_take_nth_drop [OF assms(1)])
  moreover have "xs = take v xs @ xs ! v # drop (Suc v) xs" by (rule id_take_nth_drop [OF assms(1)])
  then have "length (filter P xs) = length (filter P (take v xs @ xs ! v # drop (Suc v) xs))" by simp
  ultimately show ?thesis using assms(2) by simp
qed

lemma handle_tcp_caps:
  assumes c: "slot_caps s"
  shows "slot_caps (fst (handle_tcp e s ip))"
proof (cases "if from_ip s ip < VIDEO_MAX_VIEWERS_PER_IP then free_slot (take VIDEO_MAX_VIEWERS (sl_viewers s)) else None")
  case None
  then show ?thesis using c by (simp add: handle_tcp_def)
next
  case (Some v)
  let ?y = "(ip, vw_start (snd (sl_viewers s ! v)) (se_port2 e) (se_now e))"
  have l: "length (sl_viewers s) = VIDEO_MAX_VIEWERS" using c by (simp add: slot_caps_def)
  have f: "from_ip s ip < VIDEO_MAX_VIEWERS_PER_IP" "v < length (sl_viewers s)" "\<not> vw_active (sl_viewers s ! v)"
    using Some free_slot_Some [of "sl_viewers s" v] l by (auto split: if_splits)
  have n: "sl_viewers (fst (handle_tcp e s ip)) = (sl_viewers s)[v := ?y]" "sl_pending (fst (handle_tcp e s ip)) = sl_pending s"
    by (simp_all add: handle_tcp_def Some)
  have "from_ip (fst (handle_tcp e s ip)) ip' \<le> VIDEO_MAX_VIEWERS_PER_IP" for ip'
  proof -
    have "from_ip (fst (handle_tcp e s ip)) ip' = from_ip s ip' + (if ip' = ip then 1 else 0)"
      using count_update [OF f(2), of "\<lambda>x. vw_active x \<and> fst x = ip'" ?y] f(3) l
      by (auto simp: from_ip_def n vw_active_def vw_start_def)
    then show ?thesis using f(1) c by (auto simp: slot_caps_def)
  qed
  then show ?thesis using c n by (simp add: slot_caps_def)
qed

text \<open>What every event of a slot guarantees.\<close>

definition step_ok :: "'db slot_env \<Rightarrow> video_auth \<Rightarrow> slot \<Rightarrow> slot \<Rightarrow> bool" where
  "step_ok e a s s' = ((slot_one s \<longrightarrow> slot_one s' \<and> (sl_has_pub s' \<longrightarrow> sl_has_pub s \<and> publisher s' = publisher s \<or> taken e a (s\<lparr> sl_viewers := sl_viewers s' \<rparr>) s'))
     \<and> (slot_caps s \<and> slot_one s \<longrightarrow> slot_caps s'))"

lemma sound_ok: "sound_step e a s s' \<Longrightarrow> step_ok e a s s'"
  by (auto simp: sound_step_def step_ok_def kept_def taken_def slot_busy_def)

lemma slot_event_ok: "step_ok e a s (snd (slot_event udp tcp e a s ev))"
proof (cases ev)
  case (Ev_udp ip port d)
  then show ?thesis by (simp add: slot_event_def sound_ok [OF handle_udp_sound] sound_ok [OF sound_refl])
next
  case (Ev_tcp conn)
  have "step_ok e a s (fst (handle_tcp e s ip))" for ip
    using handle_tcp_core [of e s ip] handle_tcp_caps [of s e ip]
    by (auto simp: step_ok_def slot_one_def slot_core_def slot_face_def publisher_def)
  then show ?thesis using Ev_tcp by (simp add: slot_event_def sound_ok [OF sound_refl] split: option.splits)
next
  case (Ev_pending k hup inp outs mod_ok)
  then show ?thesis by (simp add: slot_event_def sound_ok [OF on_pending_sound])
next
  case (Ev_mkv err inp)
  obtain s1 ok where p: "(if err then (s, False) else pump_mkv e s inp) = (s1, ok)" by force
  have f: "slot_face s1 = slot_face s \<and> sl_backend s1 = sl_backend s" using p face_pump_mkv [of e s inp s1 ok] by (cases err) auto
  have "sound_step e a s s1" by (rule sound_kept) (use f kept_face one_calm in blast)+
  moreover have "sound_step e a s (close_mkv s1 why)" if "sl_mkv s" for why
  proof (rule sound_kept)
    show "kept s (close_mkv s1 why)" using kept_trans [OF kept_face [of s1 s] close_mkv_ok(1)] f by simp
    show "slot_one (close_mkv s1 why)" if "slot_one s"
      by (rule close_mkv_ok(4)) (use one_calm [OF that] f \<open>sl_mkv s\<close> in \<open>auto simp: slot_face_def\<close>)
  qed
  ultimately show ?thesis using Ev_mkv p by (simp add: slot_event_def sound_ok)
next
  case (Ev_splice fd hup inp outs mod_ok)
  obtain s1 ok where p: "(if hup then (s, False) else pump_rtsp e s fd inp outs mod_ok) = (s1, ok)" by force
  have "step_ok e a s s1 \<and> step_ok e a s (close_rtsp s1)" if "splice_fd_open s fd"
  proof -
    have sp: "spliced s s1" if "slot_one s" using p spliced_pump_rtsp [OF _ \<open>splice_fd_open s fd\<close> that, of e inp outs mod_ok s1 ok] by (cases hup) auto
    have "sound_step e a s s1" "sound_step e a s (close_rtsp s1)"
      using sp close_rtsp_ok [of s1] kept_trans [of s s1 "close_rtsp s1"] by (auto simp: spliced_def intro!: sound_stepI)
    then show ?thesis by (simp add: sound_ok)
  qed
  then show ?thesis using Ev_splice p by (simp add: slot_event_def sound_ok [OF sound_refl])
next
  case (Ev_viewer v hup rd wr io random wouts)
  then show ?thesis by (simp add: slot_event_def sound_ok [OF sound_of_aside [OF on_viewer_aside]])
qed

subsection \<open>The tick\<close>

lemma release_idle_ok: "kept s (release_idle s)" "slot_one s \<Longrightarrow> \<not> sl_mkv s \<Longrightarrow> slot_one (release_idle s)"
proof -
  let ?s = "(reset_rtp (s\<lparr> sl_has_pub := False \<rparr>))\<lparr> sl_rec := vr_close_segment (sl_rec s), sl_recording := False \<rparr>"
  show "kept s (release_idle s)"
    using close_rtsp_ok(1) [of s] kept_end [of ?s s] by (auto simp: release_idle_def reset_rtp_def)
  assume "slot_one s" "\<not> sl_mkv s"
  then show "slot_one (release_idle s)"
    using close_rtsp_ok(2) [of s] by (auto simp: release_idle_def reset_rtp_def) (auto simp: slot_one_def)
qed

text \<open>The slot after the first two steps of a tick: the idle Matroska publisher and the dead backend are gone.\<close>

definition tick_swept :: "slot \<Rightarrow> int \<Rightarrow> bool \<Rightarrow> slot" where
  "tick_swept s now gone =
     (let s1 = (if sl_mkv s \<and> now - sl_pub_last s > VIDEO_PUB_IDLE_S then close_mkv s ''publisher idle'' else s);
          (b, reaped) = be_reap gone (sl_backend s1)
      in if be_running (sl_backend s1) then
           if reaped then close_rtsp (s1\<lparr> sl_backend := b \<rparr>) else s1\<lparr> sl_backend := b \<rparr>
         else s1)"

lemma tick_slot_eq:
  "tick_slot s now gone =
     (let s3 = (tick_swept s now gone)\<lparr> sl_pending := map (expire_pending now) (sl_pending (tick_swept s now gone)) \<rparr>
      in if codec_overdue s3 now then close_rtsp s3
         else if sl_has_pub s3 \<and> now - sl_pub_last s3 > VIDEO_PUB_IDLE_S then release_idle s3 else s3)"
  unfolding tick_slot_def tick_swept_def Let_def case_prod_beta by (rule refl)

lemma end_stream_pub_last [simp]: "sl_pub_last (end_stream s why) = sl_pub_last s"
proof -
  have "sl_pub_last (fold (end_viewer why) vs s) = sl_pub_last s" for vs
    by (induction vs arbitrary: s) (simp_all add: end_viewer_def drop_viewer_def)
  then show ?thesis by (simp add: end_stream_def Let_def)
qed

lemma tick_swept_ok:
  "kept s (tick_swept s now gone)" "slot_one s \<Longrightarrow> slot_one (tick_swept s now gone)"
  "slot_one s \<Longrightarrow> sl_mkv (tick_swept s now gone) \<Longrightarrow> now - sl_pub_last (tick_swept s now gone) \<le> VIDEO_PUB_IDLE_S"
proof -
  define s1 where "s1 = (if sl_mkv s \<and> now - sl_pub_last s > VIDEO_PUB_IDLE_S then close_mkv s ''publisher idle'' else s)"
  let ?c = "close_rtsp (s1\<lparr> sl_backend := (sl_backend s1)\<lparr> be_running := False \<rparr> \<rparr>)"
  have k1: "kept s s1" by (simp add: s1_def close_mkv_ok kept_face)
  have e: "tick_swept s now gone = (if be_running (sl_backend s1) \<and> gone then ?c else s1)"
    unfolding tick_swept_def s1_def [symmetric] be_reap_def Let_def by (simp split: if_splits)
  have "kept s1 ?c" using close_rtsp_ok(1) [of "s1\<lparr> sl_backend := (sl_backend s1)\<lparr> be_running := False \<rparr> \<rparr>"]
    by (simp add: kept_def publisher_def)
  then show "kept s (tick_swept s now gone)" using k1 kept_trans e by auto
  assume one: "slot_one s"
  then have o1: "slot_one s1" by (auto simp: s1_def intro: close_mkv_ok)
  have m1: "now - sl_pub_last s1 \<le> VIDEO_PUB_IDLE_S" if "sl_mkv s1" using that close_mkv_ok(3) by (auto simp: s1_def split: if_splits)
  have c: "slot_one ?c \<and> \<not> sl_mkv ?c" if "be_running (sl_backend s1)"
    using that o1 by (auto simp: close_rtsp_def reset_rtp_def) (auto simp: slot_one_def be_stop_def)
  then show "slot_one (tick_swept s now gone)" using e o1 by auto
  assume "sl_mkv (tick_swept s now gone)"
  then show "now - sl_pub_last (tick_swept s now gone) \<le> VIDEO_PUB_IDLE_S" using e c m1 by (auto split: if_splits)
qed

lemma tick_ok: "kept s (tick_slot s now gone)" "slot_one s \<Longrightarrow> slot_one (tick_slot s now gone)"
proof -
  define s3 where "s3 = (tick_swept s now gone)\<lparr> sl_pending := map (expire_pending now) (sl_pending (tick_swept s now gone)) \<rparr>"
  have k: "kept s s3" using tick_swept_ok(1) [of s now gone] by (simp add: s3_def kept_def publisher_def)
  have e: "tick_slot s now gone = (if codec_overdue s3 now then close_rtsp s3
      else if sl_has_pub s3 \<and> now - sl_pub_last s3 > VIDEO_PUB_IDLE_S then release_idle s3 else s3)"
    unfolding tick_slot_eq Let_def s3_def by (rule refl)
  show "kept s (tick_slot s now gone)" unfolding e using k kept_trans [OF k] close_rtsp_ok(1) release_idle_ok(1) by simp
  assume one: "slot_one s"
  then have o3: "slot_one s3" using tick_swept_ok(2) [of s now gone] by (simp add: s3_def slot_one_def)
  have "\<not> sl_mkv s3" if "now - sl_pub_last s3 > VIDEO_PUB_IDLE_S" using that tick_swept_ok(3) [OF one, of now gone] by (auto simp: s3_def)
  then show "slot_one (tick_slot s now gone)" unfolding e using o3 close_rtsp_ok(2) release_idle_ok(2) by simp
qed

section \<open>The contract of a slot and the child\<close>

text \<open>A predicate that a fresh slot has and every handler keeps; the child then keeps it for all its slots.\<close>

definition all_slots :: "(slot \<Rightarrow> bool) \<Rightarrow> video_child \<Rightarrow> bool" where
  "all_slots P c = (length (vc_slots c) = KEY_MAX_VIDEO_PORTS \<and> (\<forall>s \<in> set (vc_slots c). P s))"

locale slot_invariant =
  fixes ok :: "slot \<Rightarrow> bool" and E :: "'db child_env"
  assumes ok_new: "ok (slot_new tree)"
    and ok_event: "ok s \<Longrightarrow> ok (snd (slot_event udp tcp (slot_call E ke i x) a s ev))"
    and ok_push: "ok s \<Longrightarrow> ok (snd (pump_viewer (slot_call E ke i x) a s v io))"
    and ok_tick: "ok s \<Longrightarrow> ok (tick_slot s now gone)"
    and ok_calm: "ok s \<Longrightarrow> ok (s\<lparr> sl_tick_now := b \<rparr>)"
begin

lemma ok_put_slot: "all_slots ok c \<Longrightarrow> ok s \<Longrightarrow> all_slots ok (put_slot c i a s)"
  using set_update_subset_insert [of "vc_slots c" i "s\<lparr> sl_tick_now := False \<rparr>"] ok_calm [of s False]
  by (auto simp: all_slots_def put_slot_def)

lemma ok_pump_viewers: "ok s \<Longrightarrow> ok (snd (pump_viewers (slot_call E ke i x) a s v ios))"
proof (induction ios arbitrary: a s v)
  case (Cons io ios)
  then show ?case using ok_push [OF Cons.prems, of ke i x a v io] by (simp add: split_beta)
qed simp

lemma ok_on_event: "all_slots ok c \<Longrightarrow> all_slots ok (on_event E x c)"
proof -
  assume c: "all_slots ok c"
  obtain i ans ev where x: "x = (i, ans, ev)" by (cases x)
  have "ok (snd (slot_event (vc_udp c ! i) (vc_tcp c ! i) (slot_call E (vc_ke c) i ans) (vc_auth c) (vc_slots c ! i) ev))" if "i < KEY_MAX_VIDEO_PORTS"
    by (rule ok_event) (use c that in \<open>simp add: all_slots_def\<close>)
  then show ?thesis using c ok_put_slot [OF c] by (simp add: on_event_def x split_beta)
qed

lemma ok_push_slot: "all_slots ok c \<Longrightarrow> i < KEY_MAX_VIDEO_PORTS \<Longrightarrow> all_slots ok (push_slot E pushes i c)"
proof -
  assume c: "all_slots ok c" and i: "i < KEY_MAX_VIDEO_PORTS"
  have "ok (snd (pump_viewers (slot_call E (vc_ke c) i (fst (pushes i))) (vc_auth c) (vc_slots c ! i) 0 (map (snd (pushes i)) [0..<VIDEO_MAX_VIEWERS])))"
    by (rule ok_pump_viewers) (use c i in \<open>simp add: all_slots_def\<close>)
  then show ?thesis using c ok_put_slot [OF c] by (simp add: push_slot_def split_beta)
qed

lemma ok_fold: "(\<And>x c. x \<in> set xs \<Longrightarrow> all_slots ok c \<Longrightarrow> all_slots ok (f x c)) \<Longrightarrow> all_slots ok c \<Longrightarrow> all_slots ok (fold f xs c)"
  by (induction xs arbitrary: c) auto

lemma ok_child_tick: "all_slots ok c \<Longrightarrow> all_slots ok (fst (child_tick E now k c))"
proof -
  assume c: "all_slots ok c"
  have l: "vc_slots (fst (load_entry E (tk_keys k) c)) = vc_slots c" by (auto simp: load_entry_def split: option.splits bool.splits)
  have "ok ((tick_slot s now g)\<lparr> sl_tick_now := False \<rparr>)" if "s \<in> set (vc_slots c)" for s g
    using c that by (intro ok_calm ok_tick) (simp add: all_slots_def)
  then show ?thesis using c l by (auto simp: all_slots_def child_tick_def split_beta Let_def enumerate_eq_zip dest!: set_zip_rightD)
qed

lemma ok_child_turn: "all_slots ok c \<Longrightarrow> all_slots ok (fst (child_turn E t c))"
  unfolding child_turn_def Let_def
  by (auto intro!: ok_child_tick ok_fold intro: ok_on_event ok_push_slot)

lemma ok_child_turns: "all_slots ok c \<Longrightarrow> all_slots ok (child_turns E ts c)"
  by (induction ts arbitrary: c) (simp_all add: ok_child_turn)

lemma ok_bind_slots: "all_slots ok c \<Longrightarrow> all_slots ok (fst (bind_slots ans c))"
proof -
  have "vc_slots (fst (fold (bind_slot ans) is ce)) = vc_slots (fst ce)" for "is" ce
  proof (induction "is" arbitrary: ce)
    case (Cons i "is")
    then show ?case by (simp add: bind_slot_def Let_def split_beta)
  qed simp
  from this [of "[0..<KEY_MAX_VIDEO_PORTS]" "(c, 0)"] show "all_slots ok c \<Longrightarrow> ?thesis" by (simp add: all_slots_def bind_slots_def)
qed

lemma ok_child_main: "video_child_main E tree ke0 keys binds epoll turns final = (ready, Some c, db) \<Longrightarrow> all_slots ok c"
proof -
  assume m: "video_child_main E tree ke0 keys binds epoll turns final = (ready, Some c, db)"
  obtain c0 l where c0: "load_entry E keys (vc_start (word_of_int (cv_port2 E)) tree ke0) = (c0, l)" by force
  have "all_slots ok c0" using c0 ok_new by (auto simp: load_entry_def all_slots_def vc_start_def split: option.splits bool.splits)
  then have "all_slots ok (child_turns E turns (fst (bind_slots binds c0)))" by (intro ok_child_turns ok_bind_slots)
  then show ?thesis using m c0 by (auto simp: video_child_main_def split: if_splits prod.splits)
qed

end

text \<open>The states of a slot that can occur.\<close>

inductive slot_reach :: "'db child_env \<Rightarrow> slot \<Rightarrow> bool" for E where
  reach_new: "slot_reach E (slot_new tree)"
| reach_event: "slot_reach E s \<Longrightarrow> slot_reach E (snd (slot_event udp tcp (slot_call E ke i x) a s ev))"
| reach_push: "slot_reach E s \<Longrightarrow> slot_reach E (snd (pump_viewer (slot_call E ke i x) a s v io))"
| reach_tick: "slot_reach E s \<Longrightarrow> slot_reach E (tick_slot s now gone)"
| reach_calm: "slot_reach E s \<Longrightarrow> slot_reach E (s\<lparr> sl_tick_now := b \<rparr>)"

interpretation reach: slot_invariant "slot_reach E" E for E
  by unfold_locales (fact slot_reach.intros)+

interpretation tidy: slot_invariant "\<lambda>s. slot_one s \<and> slot_caps s" E for E
proof unfold_locales
  show "slot_one (slot_new tree) \<and> slot_caps (slot_new tree)" for tree
    by (auto simp: slot_new_def slot_one_def slot_caps_def from_ip_def be_new_def vw_active_def vw_new_def)
next
  fix s and udp tcp ke i and x :: "'a call_answers" and a ev assume "slot_one s \<and> slot_caps s"
  then show "slot_one (snd (slot_event udp tcp (slot_call E ke i x) a s ev)) \<and> slot_caps (snd (slot_event udp tcp (slot_call E ke i x) a s ev))"
    using slot_event_ok [of "slot_call E ke i x" a s udp tcp ev] by (simp add: step_ok_def)
next
  fix s ke i and x :: "'a call_answers" and a v io assume "slot_one s \<and> slot_caps s"
  then show "slot_one (snd (pump_viewer (slot_call E ke i x) a s v io)) \<and> slot_caps (snd (pump_viewer (slot_call E ke i x) a s v io))"
    using pump_viewer_sound [of "slot_call E ke i x" a s v io] by (simp add: sound_step_def)
next
  fix s now gone assume "slot_one s \<and> slot_caps s"
  then show "slot_one (tick_slot s now gone) \<and> slot_caps (tick_slot s now gone)" using tick_ok [of s now gone] caps_kept by blast
next
  fix s b assume "slot_one s \<and> slot_caps s"
  then show "slot_one (s\<lparr> sl_tick_now := b \<rparr>) \<and> slot_caps (s\<lparr> sl_tick_now := b \<rparr>)" by (auto simp: slot_one_def slot_caps_def from_ip_def)
qed

lemma reach_tidy: "slot_reach E s \<Longrightarrow> slot_one s \<and> slot_caps s"
  by (induction rule: slot_reach.induct)
    (rule tidy.ok_new tidy.ok_event tidy.ok_push tidy.ok_tick tidy.ok_calm; assumption?)+

section \<open>Properties\<close>



definition ex_child_env :: "mem_db child_env" where
  "ex_child_env = \<lparr> cv_sha = \<lambda>_. [], cv_tdb = mem_tdb, cv_port2 = 7, cv_ring_bytes = 4096, cv_pid = 3 \<rparr>"

definition ex_answers :: "mem_db call_answers" where
  "ex_answers = \<lparr> ca_now = 100, ca_conn = None, ca_rec = ex_rec_env, ca_files = \<lambda>_. [],
     ca_start = \<lparr> sa_lport = Some 9, sa_pipes = True, sa_fork = True, sa_feed = True, sa_wait = Up \<rparr> \<rparr>"

text \<open>An entry whose first slot is open to everybody.\<close>

definition ex_open_entry :: key_entry where
  "ex_open_entry = sample_key_entry\<lparr> video_flags := video_slot_opts_set 0 0 VIDEO_SLOT_OPEN_PUB, video_flags_hi := 0 \<rparr>"

lemma ex_open: "open_publish (slot_call ex_child_env ex_open_entry 0 ex_answers)"
  using video_slot_opts_roundtrip [of 0 0 VIDEO_SLOT_OPEN_PUB 0]
  by (simp add: open_publish_def slot_opt_def slot_call_def ex_open_entry_def video_slot_opts_of_def VIDEO_SLOT_OPEN_PUB_def)

lemma ex_admit: "snd (slot_admit (slot_call ex_child_env ex_open_entry 0 ex_answers) a ip None False) = VIDEO_ADMIT_OK"
  using ex_open by (simp add: slot_admit_def admit_def Let_def split_beta)

lemma ex_publishes:
  "sl_has_pub (snd (slot_event True True (slot_call ex_child_env ex_open_entry 0 ex_answers) (va_new 7) (slot_new []) (Ev_udp 5 6 [1])))"
proof -
  let ?e = "slot_call ex_child_env ex_open_entry 0 ex_answers" and ?s = "slot_new []"
  obtain a r where r: "slot_admit ?e (va_new 7) 5 None False = (a, r)" by force
  then have "r = VIDEO_ADMIT_OK" using ex_admit [of "va_new 7" 5] by simp
  then have "snd (handle_udp ?e (va_new 7) ?s 5 6 [1]) = ingest_udp ?e (latch_publisher ?e (?s\<lparr> sl_pub_ip := 5, sl_pub_port := 6 \<rparr>)) [1]"
    unfolding handle_udp_def r by (simp add: slot_new_def UDP_BUF_def slot_busy_def be_new_def)
  moreover have "sl_has_pub (ingest_udp ?e x d) = sl_has_pub x" for x d using ingest_udp_ok(1) [of ?e x d] by (simp add: slot_face_def)
  ultimately show ?thesis by (simp add: slot_event_def)
qed


lemma end_stream_keeps [simp]: "sl_rtmp (end_stream s why) = sl_rtmp s" "sl_pending (end_stream s why) = sl_pending s"
proof -
  have "sl_rtmp (fold (end_viewer why) vs s) = sl_rtmp s \<and> sl_pending (fold (end_viewer why) vs s) = sl_pending s" for vs
    by (induction vs arbitrary: s) (simp_all add: end_viewer_def drop_viewer_def)
  then show "sl_rtmp (end_stream s why) = sl_rtmp s" "sl_pending (end_stream s why) = sl_pending s" by (simp_all add: end_stream_def Let_def)
qed

definition handshake_overdue :: "int \<Rightarrow> pending_rtmp \<Rightarrow> bool" where
  "handshake_overdue now p = (pr_active p \<and> pr_since p \<noteq> 0 \<and> now - pr_since p > RTMP_PREPUBLISH_MAX_S)"

definition slot_fresh :: "int \<Rightarrow> slot \<Rightarrow> bool" where
  "slot_fresh now s = (\<not> (sl_has_pub s \<and> now - sl_pub_last s > VIDEO_PUB_IDLE_S) \<and> \<not> codec_overdue s now
     \<and> (\<forall>p \<in> set (sl_pending s). \<not> handshake_overdue now p))"

lemma close_rtsp_gone:
  "be_running (sl_backend s) \<or> sl_client s \<or> sl_rtmp s \<noteq> None \<Longrightarrow> \<not> sl_has_pub (close_rtsp s) \<and> sl_rtmp (close_rtsp s) = None"
  "sl_pending (close_rtsp s) = sl_pending s"
  by (auto simp: close_rtsp_def reset_rtp_def)

lemma release_idle_gone:
  "\<not> sl_has_pub (release_idle s)" "sl_pending (release_idle s) = sl_pending s" "\<not> codec_overdue s now \<Longrightarrow> \<not> codec_overdue (release_idle s) now"
  using close_rtsp_gone [of s] by (auto simp: release_idle_def reset_rtp_def codec_overdue_def split: option.splits)

lemma tick_fresh: "slot_fresh now (tick_slot s now gone)"
proof -
  define s3 where "s3 = (tick_swept s now gone)\<lparr> sl_pending := map (expire_pending now) (sl_pending (tick_swept s now gone)) \<rparr>"
  have e: "tick_slot s now gone = (if codec_overdue s3 now then close_rtsp s3
      else if sl_has_pub s3 \<and> now - sl_pub_last s3 > VIDEO_PUB_IDLE_S then release_idle s3 else s3)"
    unfolding tick_slot_eq Let_def s3_def by (rule refl)
  have p: "\<not> handshake_overdue now q" if "q \<in> set (sl_pending s3)" for q
    using that by (auto simp: s3_def expire_pending_def handshake_overdue_def close_pending_def)
  consider "codec_overdue s3 now" | "\<not> codec_overdue s3 now" "sl_has_pub s3 \<and> now - sl_pub_last s3 > VIDEO_PUB_IDLE_S"
    | "\<not> codec_overdue s3 now" "\<not> (sl_has_pub s3 \<and> now - sl_pub_last s3 > VIDEO_PUB_IDLE_S)" by blast
  then show ?thesis
  proof cases
    case 1
    then have "sl_rtmp s3 \<noteq> None" by (auto simp: codec_overdue_def split: option.splits)
    then show ?thesis using e 1 close_rtsp_gone [of s3] p by (simp add: slot_fresh_def codec_overdue_def)
  next
    case 2
    then show ?thesis using e release_idle_gone [of s3] p by (simp add: slot_fresh_def)
  next
    case 3
    then have "tick_slot s now gone = s3" unfolding e by argo
    then show ?thesis using 3 p by (simp add: slot_fresh_def)
  qed
qed

text \<open>Handlers and pushes leave \<open>last_tick_\<close> or reset it to 0.\<close>

lemma last_tick_events: "vc_last_tick (fold (on_event E) evs c) \<in> {0, vc_last_tick c}"
proof (induction evs arbitrary: c)
  case (Cons x evs)
  have "vc_last_tick (on_event E x c) \<in> {0, vc_last_tick c}" by (simp add: on_event_def put_slot_def split_beta)
  then show ?case using Cons.IH [of "on_event E x c"] by auto
qed simp

lemma last_tick_pushes: "vc_last_tick (fold (push_slot E pushes) is c) \<in> {0, vc_last_tick c}"
proof (induction "is" arbitrary: c)
  case (Cons i "is")
  have "vc_last_tick (push_slot E pushes i c) \<in> {0, vc_last_tick c}" by (simp add: push_slot_def put_slot_def split_beta)
  then show ?case using Cons.IH [of "push_slot E pushes i c"] by auto
qed simp

text \<open>
  C11. A silent publisher does not hold its slot: a turn of the loop that ends five
  seconds or more after the last tick leaves no slot with a publisher quiet for
  more than 10 seconds, no RTMP publisher without a codec past its deadline and
  no handshake older than 20 seconds; the tick is dated.
\<close>

theorem video_tick_releases:
  assumes "VIDEO_TICK_S \<le> tu_now t - vc_last_tick c" "VIDEO_TICK_S \<le> tu_now t"
  shows "{s \<in> set (vc_slots (fst (child_turn E t c))). \<not> slot_fresh (tu_now t) s} = {} \<and> vc_last_tick (fst (child_turn E t c)) = tu_now t"
proof -
  let ?c2 = "fold (push_slot E (tu_push t)) [0..<KEY_MAX_VIDEO_PORTS] (fold (on_event E) (tu_events t) c)"
  have "vc_last_tick ?c2 \<in> {0, vc_last_tick c}" using last_tick_pushes [of E "tu_push t" "[0..<KEY_MAX_VIDEO_PORTS]" "fold (on_event E) (tu_events t) c"]
      last_tick_events [of E "tu_events t" c] by auto
  then have e: "child_turn E t c = child_tick E (tu_now t) (tu_tick t) ?c2" using assms by (auto simp: child_turn_def Let_def)
  have "slot_fresh now ((tick_slot s now g)\<lparr> sl_tick_now := False \<rparr>)" for s now g
    using tick_fresh [of now s g] by (simp add: slot_fresh_def codec_overdue_def split: option.splits)
  then show ?thesis unfolding e by (auto simp: child_tick_def split_beta Let_def)
qed

definition ex_viewer_io :: viewer_io where
  "ex_viewer_io = \<lparr> vi_crypto = rve_cr ex_vw_env, vi_accept = (\<lambda>s. s), vi_again = False, vi_clock = (\<lambda>_. (0, 0, 0)), vi_port = 0,
     vi_peek = R_again, vi_io = False, vi_first = [], vi_in = R_again, vi_in2 = R_again, vi_outs = [] \<rparr>"

definition ex_video_turn :: "mem_db video_turn" where
  "ex_video_turn = \<lparr> tu_events = [], tu_now = 100, tu_push = \<lambda>_. (ex_answers, \<lambda>_. ex_viewer_io),
     tu_tick = \<lparr> tk_keys = None, tk_seen = None, tk_rows = None, tk_gone = \<lambda>_. False \<rparr> \<rparr>"

theorem video_tick_releases_witness:
  "let c = (vc_start 7 [] ex_open_entry)\<lparr> vc_slots := replicate KEY_MAX_VIDEO_PORTS ((slot_new [])\<lparr> sl_has_pub := True, sl_pub_last := 80 \<rparr>) \<rparr>
   in {s \<in> set (vc_slots c). \<not> slot_fresh 100 s} \<noteq> {} \<and> {s \<in> set (vc_slots (fst (child_turn ex_child_env ex_video_turn c))). \<not> slot_fresh 100 s} = {}"
proof -
  let ?s = "(slot_new [])\<lparr> sl_has_pub := True, sl_pub_last := 80 \<rparr>"
  let ?c = "(vc_start 7 [] ex_open_entry)\<lparr> vc_slots := replicate KEY_MAX_VIDEO_PORTS ?s \<rparr>"
  have "\<not> slot_fresh 100 ?s" by (simp add: slot_fresh_def VIDEO_PUB_IDLE_S_def)
  moreover have "?s \<in> set (vc_slots ?c)" by (simp add: KEY_MAX_VIDEO_PORTS_def)
  ultimately show ?thesis
    using video_tick_releases [of ex_video_turn ?c ex_child_env] by (auto simp: ex_video_turn_def vc_start_def VIDEO_TICK_S_def Let_def)
qed

end
