(* ===== verification/Rtsp_Guard.thy ===== *)
theory Rtsp_Guard
  imports Video_Slot
begin

text \<open>
  The request guard of the RTSP splice (\<open>src/video.cpp\<close>, \<open>guard_rtsp_requests\<close>):
  what it hands to the backend is described by the language \<open>passes\<close>, and the cuts
  the network makes in the publisher's bytes make no difference to it.
\<close>

section \<open>What may pass\<close>

text \<open>\<open>passes sha ke l out l'\<close>: \<open>out\<close> is a sequence of opaque bytes (\<open>l\<close> of them due at its start, \<open>l'\<close>
  at its end), interleaved frames and requests that carry no password or the entry's.\<close>

inductive passes :: "(string \<Rightarrow> bytes) \<Rightarrow> key_entry \<Rightarrow> nat \<Rightarrow> bytes \<Rightarrow> nat \<Rightarrow> bool" for sha ke where
  passes_nil: "passes sha ke l [] l"
| passes_opaque: "length d \<le> l \<Longrightarrow> passes sha ke (l - length d) out l' \<Longrightarrow> passes sha ke l (d @ out) l'"
| passes_frame: "passes sha ke (unat h * 256 + unat w) out l' \<Longrightarrow> passes sha ke 0 ([36, ch, h, w] @ out) l'"
| passes_request: "d \<noteq> [] \<Longrightarrow> hd d \<noteq> 36 \<Longrightarrow> header_len d = Some (length d) \<Longrightarrow> hr_feed hr_new (bytes_str d) = (req, Hr_complete)
    \<Longrightarrow> guard_password sha ke req \<Longrightarrow> guard_body req = Some n \<Longrightarrow> passes sha ke n out l' \<Longrightarrow> passes sha ke 0 (d @ out) l'"

lemma passes_trans: "passes sha ke l o1 l1 \<Longrightarrow> passes sha ke l1 o2 l2 \<Longrightarrow> passes sha ke l (o1 @ o2) l2"
  by (induction rule: passes.induct) (auto intro: passes.intros simp del: append_Cons simp: append_Cons [symmetric])

lemma take4_eq: "4 \<le> length xs \<Longrightarrow> take 4 xs = [xs ! 0, xs ! 1, xs ! 2, xs ! 3]"
  by (rule nth_equalityI) (auto simp: less_Suc_eq numeral_eq_Suc)

lemma header_len_take: "header_len xs = Some n \<Longrightarrow> header_len (take n xs) = Some n"
proof (induction xs arbitrary: n)
  case (Cons x xs)
  show ?case
  proof (cases "x = 10 \<and> take 1 xs = [10] \<or> take 4 (x # xs) = [13, 10, 13, 10]")
    case True
    then show ?thesis using Cons.prems by (auto simp: numeral_2_eq_2 split: if_splits; cases xs; auto)
  next
    case False
    then obtain m where m: "header_len xs = Some m" "n = Suc m" using Cons.prems by auto
    have "2 \<le> m" using header_len_pos [OF m(1)] by simp
    then have t: "take 1 (take m xs) = take 1 xs" by (simp add: take_take min_def)
    have "take 4 (x # take m xs) \<noteq> [13, 10, 13, 10]"
    proof
      assume a: "take 4 (x # take m xs) = [13, 10, 13, 10]"
      then have "length (take 4 (x # take m xs)) = 4" by simp
      then have "3 \<le> m" by simp
      then have "take 4 (x # take m xs) = take 4 (x # xs)" by (simp add: take_Cons' take_take min_def)
      then show False using a False by simp
    qed
    then show ?thesis using False Cons.IH [OF m(1)] m(2) t by auto
  qed
qed simp

lemma header_len_append: "header_len xs = Some n \<Longrightarrow> header_len (xs @ ys) = Some n"
proof (induction xs arbitrary: n)
  case (Cons x xs)
  show ?case
  proof (cases "x = 10 \<and> take 1 xs = [10] \<or> take 4 (x # xs) = [13, 10, 13, 10]")
    case True
    then show ?thesis
    proof
      assume "x = 10 \<and> take 1 xs = [10]"
      then show ?thesis using Cons.prems by (cases xs) auto
    next
      assume t: "take 4 (x # xs) = [13, 10, 13, 10]"
      then have "length (take 4 (x # xs)) = 4" by simp
      then have "take 4 (x # xs @ ys) = take 4 (x # xs)" by simp
      then show ?thesis using Cons.prems t by (auto split: if_splits)
    qed
  next
    case False
    then obtain m where m: "header_len xs = Some m" "n = Suc m" using Cons.prems by auto
    have l: "2 \<le> m" "m \<le> length xs" using header_len_pos [OF m(1)] by simp_all
    then have t: "take 1 (xs @ ys) = take 1 xs" by simp
    have "take 4 (x # xs @ ys) \<noteq> [13, 10, 13, 10]"
    proof
      assume a: "take 4 (x # xs @ ys) = [13, 10, 13, 10]"
      show False
      proof (cases "length xs < 3")
        case True
        then obtain u v where "xs = [u, v]" using l by (cases xs; cases "tl xs"; cases "tl (tl xs)") auto
        then show False using a m(1) by (auto split: if_splits)
      next
        case c: False
        then have "3 - length xs = 0" by simp
        then have "take 4 (x # xs @ ys) = take 4 (x # xs)" by (simp add: take_Cons')
        then show False using a False by presburger
      qed
    qed
    then show ?thesis using False Cons.IH [OF m(1)] m(2) t by auto
  qed
qed simp

section \<open>The guard loop\<close>

lemma guard_step:
  "guard_loop sha ke [] left = ([], left, [], G_go)"
  "buf \<noteq> [] \<Longrightarrow> 0 < left \<Longrightarrow> guard_loop sha ke buf left =
     (let k = min left (length buf); (b, l, out, g) = guard_loop sha ke (drop k buf) (left - k) in (b, l, take k buf @ out, g))"
  "buf \<noteq> [] \<Longrightarrow> hd buf = 36 \<Longrightarrow> length buf < 4 \<Longrightarrow> guard_loop sha ke buf 0 = (buf, 0, [], G_go)"
  "hd buf = 36 \<Longrightarrow> 4 \<le> length buf \<Longrightarrow> guard_loop sha ke buf 0 =
     (let (b, l, out, g) = guard_loop sha ke (drop 4 buf) (unat (buf ! 2) * 256 + unat (buf ! 3)) in (b, l, take 4 buf @ out, g))"
  "buf \<noteq> [] \<Longrightarrow> hd buf \<noteq> 36 \<Longrightarrow> header_len buf = None \<Longrightarrow>
     guard_loop sha ke buf 0 = (buf, 0, [], if length buf \<le> HTTP_MAX_REQUEST then G_go else G_close)"
  "buf \<noteq> [] \<Longrightarrow> hd buf \<noteq> 36 \<Longrightarrow> header_len buf = Some n \<Longrightarrow> guard_loop sha ke buf 0 =
     (let (req, r) = hr_feed hr_new (bytes_str (take n buf))
      in if r \<noteq> Hr_complete then (buf, 0, [], G_close)
         else if \<not> guard_password sha ke req then (buf, 0, [], G_reject)
         else (case guard_body req of None \<Rightarrow> (buf, 0, [], G_close)
               | Some body \<Rightarrow> let (b, l, out, g) = guard_loop sha ke (drop n buf) body in (b, l, take n buf @ out, g)))"
  by (subst guard_loop.simps; auto simp: Let_def)+

text \<open>The case analysis of the loop, with its result spelled out.\<close>

lemma guard_cases:
  assumes "guard_loop sha ke buf left = (b, l, out, g)"
  obtains (stop) "b = buf" "l = left" "out = []" "g = G_go \<or> buf \<noteq> [] \<and> left = 0 \<and> hd buf \<noteq> 36"
  | (opaque) out' where "buf \<noteq> []" "0 < left"
      "guard_loop sha ke (drop (min left (length buf)) buf) (left - min left (length buf)) = (b, l, out', g)"
      "out = take (min left (length buf)) buf @ out'"
  | (frame) out' where "left = 0" "hd buf = 36" "4 \<le> length buf"
      "guard_loop sha ke (drop 4 buf) (unat (buf ! 2) * 256 + unat (buf ! 3)) = (b, l, out', g)" "out = take 4 buf @ out'"
  | (request) n req body out' where "left = 0" "buf \<noteq> []" "hd buf \<noteq> 36" "header_len buf = Some n"
      "hr_feed hr_new (bytes_str (take n buf)) = (req, Hr_complete)" "guard_password sha ke req" "guard_body req = Some body"
      "guard_loop sha ke (drop n buf) body = (b, l, out', g)" "out = take n buf @ out'"
proof (cases "buf = []")
  case True
  then show ?thesis using assms stop by (simp add: guard_step)
next
  case ne: False
  show ?thesis
  proof (cases "0 < left")
    case True
    then show ?thesis using assms opaque ne by (auto simp: guard_step(2) Let_def split: prod.splits)
  next
    case False
    then have z: "left = 0" by simp
    consider "hd buf = 36" "length buf < 4" | "hd buf = 36" "4 \<le> length buf" | "hd buf \<noteq> 36" "header_len buf = None"
      | n where "hd buf \<noteq> 36" "header_len buf = Some n" by (cases "header_len buf") fastforce+
    then show ?thesis
    proof cases
      case 1
      then show ?thesis using assms stop z ne by (simp add: guard_step)
    next
      case 2
      then show ?thesis using assms frame z by (auto simp: guard_step(4) split: prod.splits)
    next
      case 3
      then show ?thesis using assms stop z ne by (simp add: guard_step)
    next
      case 4
      then show ?thesis using assms stop request z ne
        by (auto simp: guard_step(6) Let_def split: prod.splits if_splits option.splits)
    qed
  qed
qed

lemma guard_shorter: "buf \<noteq> [] \<Longrightarrow> 0 < left \<Longrightarrow> length (drop (min left (length buf)) buf) < length buf"
  by simp

lemma guard_passes:
  "guard_loop sha ke buf left = (b, l, out, g) \<Longrightarrow> passes sha ke left out l \<and> out @ b = buf"
proof (induction "length buf" arbitrary: buf left b l out g rule: less_induct)
  case less
  from less.prems show ?case
  proof (cases rule: guard_cases)
    case stop
    then show ?thesis by (simp add: passes_nil)
  next
    case (opaque out')
    let ?k = "min left (length buf)"
    have "passes sha ke (left - ?k) out' l \<and> out' @ b = drop ?k buf" by (rule less.hyps [OF guard_shorter opaque(3)]) (fact opaque)+
    then show ?thesis using passes_opaque [of "take ?k buf" left sha ke out' l] opaque(4) by (simp add: min_def split: if_splits)
  next
    case (frame out')
    have "passes sha ke (unat (buf ! 2) * 256 + unat (buf ! 3)) out' l \<and> out' @ b = drop 4 buf"
      by (rule less.hyps [OF _ frame(4)]) (use frame in simp)
    moreover have "take 4 buf = [36, buf ! 1, buf ! 2, buf ! 3]" using take4_eq [OF frame(3)] frame(2,3) by (cases buf) (simp_all add: hd_conv_nth)
    ultimately show ?thesis using passes_frame [of sha ke "buf ! 2" "buf ! 3" out' l "buf ! 1"] frame(1,5)
      by (metis append.assoc append_take_drop_id)
  next
    case (request n req body out')
    have n: "2 \<le> n" "n \<le> length buf" using header_len_pos [OF request(4)] by simp_all
    have ih: "passes sha ke body out' l \<and> out' @ b = drop n buf" by (rule less.hyps [OF _ request(8)]) (use n in simp)
    have "passes sha ke 0 (take n buf @ out') l"
      by (rule passes_request [OF _ _ _ request(5,6,7)])
        (use n request(2,3) header_len_take [OF request(4)] ih in \<open>auto simp: hd_take\<close>)
    then show ?thesis using request(1,9) ih by simp
  qed
qed

lemma guard_append:
  "guard_loop sha ke x left = (b, l, out, G_go) \<Longrightarrow> guard_loop sha ke (b @ y) l = (b2, l2, out2, g) \<Longrightarrow>
     guard_loop sha ke (x @ y) left = (b2, l2, out @ out2, g)"
proof (induction "length x" arbitrary: x left b l out rule: less_induct)
  case less
  from less.prems(1) show ?case
  proof (cases rule: guard_cases)
    case stop
    then show ?thesis using less.prems(2) by simp
  next
    case (opaque out')
    show ?thesis
    proof (cases "left \<le> length x")
      case True
      have ih: "guard_loop sha ke (drop left x @ y) 0 = (b2, l2, out' @ out2, g)"
        by (rule less.hyps [OF _ _ less.prems(2)]) (use opaque True in \<open>simp_all add: min_absorb1\<close>)
      then show ?thesis using opaque True by (simp add: guard_step(2) min_absorb1 Let_def)
    next
      case False
      then have e: "b = []" "l = left - length x" "out = x" using opaque by (simp_all add: guard_step(1))
      show ?thesis
      proof (cases "y = []")
        case True
        then show ?thesis using less.prems e by (simp add: guard_step(1))
      next
        case ne: False
        then show ?thesis using less.prems(2) e False opaque(1)
          by (auto simp: guard_step(2) Let_def min_def diff_le_mono le_diff_conv add.commute split: prod.splits if_splits)
      qed
    qed
  next
    case (frame out')
    have "guard_loop sha ke (drop 4 x @ y) (unat (x ! 2) * 256 + unat (x ! 3)) = (b2, l2, out' @ out2, g)"
      by (rule less.hyps [OF _ frame(4) less.prems(2)]) (use frame in simp)
    moreover have "hd (x @ y) = 36" using frame by (cases x) auto
    ultimately show ?thesis using frame by (simp add: guard_step(4) nth_append)
  next
    case (request n req body out')
    have n: "2 \<le> n" "n \<le> length x" using header_len_pos [OF request(4)] by simp_all
    have "guard_loop sha ke (drop n x @ y) body = (b2, l2, out' @ out2, g)"
      by (rule less.hyps [OF _ request(8) less.prems(2)]) (use n in simp)
    then show ?thesis using request n header_len_append [OF request(4), of y] by (simp add: guard_step(6))
  qed
qed

section \<open>The guard of a slot\<close>

text \<open>The guard over successive reads of the publisher; it stops at the first one that ends the session.\<close>

fun guard_reads :: "'db slot_env \<Rightarrow> slot \<Rightarrow> bytes list \<Rightarrow> slot \<times> bool" where
  "guard_reads e s [] = (s, True)"
| "guard_reads e s (d # ds) = (let (s1, ok) = guard_rtsp_requests e s d in if ok then guard_reads e s1 ds else (s1, False))"

lemma log_reject_fields [simp]:
  "sl_guard (log_reject s now) = sl_guard s" "sl_opaque_left (log_reject s now) = sl_opaque_left s"
  "sl_to_backend (log_reject s now) = sl_to_backend s"
  by (simp_all add: log_reject_def Let_def)

lemma guard_one:
  assumes "guard_rtsp_requests e s d = (s', ok)"
  shows "\<exists>out. sq_buf (sl_to_backend s') = sq_buf (sl_to_backend s) @ out \<and> passes (se_sha e) (se_ke e) (sl_opaque_left s) out (sl_opaque_left s')
     \<and> out @ sl_guard s' = sl_guard s @ d"
proof -
  obtain b l out g where g: "guard_loop (se_sha e) (se_ke e) (sl_guard s @ d) (sl_opaque_left s) = (b, l, out, g)"
    by (cases "guard_loop (se_sha e) (se_ke e) (sl_guard s @ d) (sl_opaque_left s)") auto
  show ?thesis using guard_passes [OF g] assms g by (intro exI [of _ out]) (auto simp: guard_rtsp_requests_def Let_def split: if_splits)
qed

lemma guard_reads_spec:
  "\<exists>out. sq_buf (sl_to_backend (fst (guard_reads e s reads))) = sq_buf (sl_to_backend s) @ out
     \<and> passes (se_sha e) (se_ke e) (sl_opaque_left s) out (sl_opaque_left (fst (guard_reads e s reads)))
     \<and> (\<exists>unread. out @ sl_guard (fst (guard_reads e s reads)) @ unread = sl_guard s @ concat reads \<and> (snd (guard_reads e s reads) \<longrightarrow> unread = []))"
proof (induction reads arbitrary: s)
  case Nil
  then show ?case by (intro exI [of _ "[]"]) (simp add: passes_nil)
next
  case (Cons d ds)
  obtain s1 ok where g: "guard_rtsp_requests e s d = (s1, ok)" by (cases "guard_rtsp_requests e s d")
  from guard_one [OF g] obtain o1 where o1: "sq_buf (sl_to_backend s1) = sq_buf (sl_to_backend s) @ o1"
    "passes (se_sha e) (se_ke e) (sl_opaque_left s) o1 (sl_opaque_left s1)" "o1 @ sl_guard s1 = sl_guard s @ d" by blast
  show ?case
  proof (cases ok)
    case False
    then show ?thesis using g o1 by (intro exI [of _ o1]) (auto simp: append_assoc [symmetric] simp del: append_assoc)
  next
    case True
    from Cons.IH [of s1] obtain o2 un where o2: "sq_buf (sl_to_backend (fst (guard_reads e s1 ds))) = sq_buf (sl_to_backend s1) @ o2"
      "passes (se_sha e) (se_ke e) (sl_opaque_left s1) o2 (sl_opaque_left (fst (guard_reads e s1 ds)))"
      "o2 @ sl_guard (fst (guard_reads e s1 ds)) @ un = sl_guard s1 @ concat ds" "snd (guard_reads e s1 ds) \<longrightarrow> un = []" by blast
    have "(o1 @ o2) @ sl_guard (fst (guard_reads e s1 ds)) @ un = sl_guard s @ concat (d # ds)" using o1(3) o2(3) by (metis append.assoc concat.simps(2))
    then show ?thesis using g True o1 o2 passes_trans [OF o1(2) o2(2)] by (intro exI [of _ "o1 @ o2"] conjI exI [of _ un]) auto
  qed
qed


definition ex_slot_env :: "mem_db slot_env" where
  "ex_slot_env = \<lparr> se_sha = \<lambda>_. [], se_tdb = mem_tdb, se_conn_db = None, se_ke = sample_key_entry, se_port2 = 7, se_idx = 0, se_now = 100,
     se_ring_bytes = 4096, se_rec = ex_rec_env, se_files = \<lambda>_. [],
     se_start = \<lparr> sa_lport = Some 9, sa_pipes = True, sa_fork = True, sa_feed = True, sa_wait = Up \<rparr> \<rparr>"

lemma ex_guard:
  "guard_rtsp_requests ex_slot_env (slot_new []) [36, 0, 0] = ((slot_new [])\<lparr> sl_guard := [36, 0, 0] \<rparr>, True)"
  "guard_rtsp_requests ex_slot_env ((slot_new [])\<lparr> sl_guard := [36, 0, 0] \<rparr>) [2, 5] =
     ((slot_new [])\<lparr> sl_opaque_left := 1, sl_to_backend := sq_new\<lparr> sq_buf := [36, 0, 0, 2, 5] \<rparr> \<rparr>, True)"
  by (simp_all add: guard_rtsp_requests_def guard_step slot_new_def sq_new_def Let_def)


text \<open>
  C12. The guard does not depend on where the network cuts the publisher's bytes:
  when it lets the session go on after a first read, a second read leaves the
  slot and gives the verdict that one read of both pieces together would.
\<close>

theorem rtsp_guard_chunking:
  assumes "guard_rtsp_requests e s x = (s1, True)"
  shows "guard_rtsp_requests e s (x @ y) = guard_rtsp_requests e s1 y"
proof -
  obtain b l out where g: "guard_loop (se_sha e) (se_ke e) (sl_guard s @ x) (sl_opaque_left s) = (b, l, out, G_go)"
    and s1: "s1 = s\<lparr> sl_guard := b, sl_opaque_left := l, sl_to_backend := (sl_to_backend s)\<lparr> sq_buf := sq_buf (sl_to_backend s) @ out \<rparr> \<rparr>"
    using assms by (auto simp: guard_rtsp_requests_def Let_def split: prod.splits if_splits)
  obtain b2 l2 out2 g2 where g2: "guard_loop (se_sha e) (se_ke e) (b @ y) l = (b2, l2, out2, g2)"
    by (cases "guard_loop (se_sha e) (se_ke e) (b @ y) l") auto
  show ?thesis using guard_append [OF g g2] g2 by (simp add: guard_rtsp_requests_def s1 Let_def)
qed

theorem rtsp_guard_chunking_witness:
  "guard_rtsp_requests ex_slot_env (slot_new []) ([36, 0, 0] @ [2, 5]) =
     ((slot_new [])\<lparr> sl_opaque_left := 1, sl_to_backend := sq_new\<lparr> sq_buf := [36, 0, 0, 2, 5] \<rparr> \<rparr>, True)"
  using rtsp_guard_chunking [OF ex_guard(1), of "[2, 5]"] by (simp only: ex_guard(2))

end
