(* ===== verification/Sha_256.thy ===== *)
theory Sha_256
  imports SP_Prelude
begin

text \<open>
  The SHA-256 of the MAVLink signing code (\<open>src/sha256.cpp\<close>): the context with its
  two-word bit count and its block buffer, \<open>sha256_init\<close>, \<open>sha256_calc\<close>,
  \<open>sha256_update\<close> and \<open>sha256_final_32bytes\<close>, for a little-endian host.

  The reference is the standard (FIPS 180-4): pad the whole message, cut it into
  blocks of 64 bytes and fold the compression function, whose message schedule is
  given by its recurrence, over them.
\<close>

section \<open>The code\<close>

record sha256_ctx =
  sha_sz0 :: "32 word"
  sha_sz1 :: "32 word"
  sha_counter :: "(32 word) list"
  sha_save :: bytes

definition Ch :: "32 word \<Rightarrow> 32 word \<Rightarrow> 32 word \<Rightarrow> 32 word" where
  "Ch x y z = (x AND y) XOR (NOT x AND z)"

definition Maj :: "32 word \<Rightarrow> 32 word \<Rightarrow> 32 word \<Rightarrow> 32 word" where
  "Maj x y z = (x AND y) XOR (x AND z) XOR (y AND z)"

definition ROTR :: "32 word \<Rightarrow> nat \<Rightarrow> 32 word" where
  "ROTR x n = drop_bit n x OR push_bit (32 - n) x"

definition Sigma0 :: "32 word \<Rightarrow> 32 word" where "Sigma0 x = ROTR x 2 XOR ROTR x 13 XOR ROTR x 22"
definition Sigma1 :: "32 word \<Rightarrow> 32 word" where "Sigma1 x = ROTR x 6 XOR ROTR x 11 XOR ROTR x 25"
definition sigma0 :: "32 word \<Rightarrow> 32 word" where "sigma0 x = ROTR x 7 XOR ROTR x 18 XOR drop_bit 3 x"
definition sigma1 :: "32 word \<Rightarrow> 32 word" where "sigma1 x = ROTR x 17 XOR ROTR x 19 XOR drop_bit 10 x"

text \<open>The table of the code, row by row.\<close>

definition sha256_constant_256 :: "(32 word) list" where
  "sha256_constant_256 = concat [
    [0x428a2f98, 0x71374491, 0xb5c0fbcf, 0xe9b5dba5],
    [0x3956c25b, 0x59f111f1, 0x923f82a4, 0xab1c5ed5],
    [0xd807aa98, 0x12835b01, 0x243185be, 0x550c7dc3],
    [0x72be5d74, 0x80deb1fe, 0x9bdc06a7, 0xc19bf174],
    [0xe49b69c1, 0xefbe4786, 0x0fc19dc6, 0x240ca1cc],
    [0x2de92c6f, 0x4a7484aa, 0x5cb0a9dc, 0x76f988da],
    [0x983e5152, 0xa831c66d, 0xb00327c8, 0xbf597fc7],
    [0xc6e00bf3, 0xd5a79147, 0x06ca6351, 0x14292967],
    [0x27b70a85, 0x2e1b2138, 0x4d2c6dfc, 0x53380d13],
    [0x650a7354, 0x766a0abb, 0x81c2c92e, 0x92722c85],
    [0xa2bfe8a1, 0xa81a664b, 0xc24b8b70, 0xc76c51a3],
    [0xd192e819, 0xd6990624, 0xf40e3585, 0x106aa070],
    [0x19a4c116, 0x1e376c08, 0x2748774c, 0x34b0bcb5],
    [0x391c0cb3, 0x4ed8aa4a, 0x5b9cca4f, 0x682e6ff3],
    [0x748f82ee, 0x78a5636f, 0x84c87814, 0x8cc70208],
    [0x90befffa, 0xa4506ceb, 0xbef9a3f7, 0xc67178f2]]"

definition sha_iv :: "(32 word) list" where
  "sha_iv = [0x6a09e667, 0xbb67ae85, 0x3c6ef372, 0xa54ff53a, 0x510e527f, 0x9b05688c, 0x1f83d9ab, 0x5be0cd19]"

definition sha256_init :: "sha256_ctx \<Rightarrow> sha256_ctx" where
  "sha256_init m = m\<lparr> sha_sz0 := 0, sha_sz1 := 0, sha_counter := sha_iv \<rparr>"

text \<open>\<open>data\<close>: 16 words of the block, then 48 computed ones.\<close>

definition sha_extend :: "nat \<Rightarrow> (32 word) list \<Rightarrow> (32 word) list" where
  "sha_extend i data = data @ [sigma1 (data ! (i - 2)) + data ! (i - 7) + sigma0 (data ! (i - 15)) + data ! (i - 16)]"

definition sha_data :: "(32 word) list \<Rightarrow> (32 word) list" where
  "sha_data inp = fold sha_extend [16..<64] inp"

type_synonym sha_regs = "32 word \<times> 32 word \<times> 32 word \<times> 32 word \<times> 32 word \<times> 32 word \<times> 32 word \<times> 32 word"

definition sha_round :: "(32 word) list \<Rightarrow> nat \<Rightarrow> sha_regs \<Rightarrow> sha_regs" where
  "sha_round data i r =
     (case r of (AA, BB, CC, DD, EE, FF, GG, HH) \<Rightarrow>
        let T1 = HH + Sigma1 EE + Ch EE FF GG + sha256_constant_256 ! i + data ! i; T2 = Sigma0 AA + Maj AA BB CC
        in (T1 + T2, AA, BB, CC, DD + T1, EE, FF, GG))"

definition sha256_calc :: "sha256_ctx \<Rightarrow> (32 word) list \<Rightarrow> sha256_ctx" where
  "sha256_calc m inp =
     (let c = sha_counter m;
          (AA, BB, CC, DD, EE, FF, GG, HH) =
            fold (sha_round (sha_data inp)) [0..<64] (c ! 0, c ! 1, c ! 2, c ! 3, c ! 4, c ! 5, c ! 6, c ! 7)
      in m\<lparr> sha_counter := [c ! 0 + AA, c ! 1 + BB, c ! 2 + CC, c ! 3 + DD, c ! 4 + EE, c ! 5 + FF, c ! 6 + GG, c ! 7 + HH] \<rparr>)"

text \<open>The words of the buffer with their bytes reversed, on a little-endian host the big-endian words.\<close>

definition sha_current :: "bytes \<Rightarrow> (32 word) list" where
  "sha_current save = map (\<lambda>i. word_of_nat (be_val [save ! (4 * i), save ! (4 * i + 1), save ! (4 * i + 2), save ! (4 * i + 3)])) [0..<16]"

text \<open>The copy loop of \<open>sha256_update\<close>; the offset of the code is always below 64.\<close>

function sha_loop :: "sha256_ctx \<Rightarrow> nat \<Rightarrow> bytes \<Rightarrow> sha256_ctx" where
  "sha_loop m offset p =
     (if p = [] \<or> offset \<ge> 64 then m
      else
        let l = min (64 - offset) (length p); m1 = m\<lparr> sha_save := overwrite (sha_save m) offset (take l p) \<rparr>
        in if offset + l = 64 then sha_loop (sha256_calc m1 (sha_current (sha_save m1))) 0 (drop l p)
           else sha_loop m1 (offset + l) (drop l p))"
  by pat_completeness auto
termination
  by (relation "measure (\<lambda>(m, offset, p). length p)") auto

declare sha_loop.simps [simp del]

definition sha_offset :: "sha256_ctx \<Rightarrow> nat" where
  "sha_offset m = (unat (sha_sz0 m) div 8) mod 64"

definition sha256_update :: "sha256_ctx \<Rightarrow> bytes \<Rightarrow> sha256_ctx" where
  "sha256_update m v =
     (let sz0 = sha_sz0 m + word_of_nat (length v) * 8; m1 = m\<lparr> sha_sz0 := sz0 \<rparr>;
          m2 = (if sz0 < sha_sz0 m then m1\<lparr> sha_sz1 := sha_sz1 m1 + 1 \<rparr> else m1)
      in sha_loop m2 (sha_offset m) v)"

definition sha_dstart :: "sha256_ctx \<Rightarrow> nat" where
  "sha_dstart m = (120 - sha_offset m - 1) mod 64 + 1"

definition sha_zeros :: "sha256_ctx \<Rightarrow> bytes" where
  "sha_zeros m =
     (let d = sha_dstart m; z = 0x80 # replicate 71 0; b = (\<lambda>w n. ucast (drop_bit n w AND (0xff :: 32 word)))
      in z[d + 7 := b (sha_sz0 m) 0, d + 6 := b (sha_sz0 m) 8, d + 5 := b (sha_sz0 m) 16, d + 4 := b (sha_sz0 m) 24,
           d + 3 := b (sha_sz1 m) 0, d + 2 := b (sha_sz1 m) 8, d + 1 := b (sha_sz1 m) 16, d := b (sha_sz1 m) 24])"

definition sha256_final_32bytes :: "sha256_ctx \<Rightarrow> bytes" where
  "sha256_final_32bytes m =
     (let m1 = sha256_update m (take (sha_dstart m + 8) (sha_zeros m))
      in concat (map (\<lambda>w. be_bytes 4 (unat w)) (take 8 (sha_counter m1))))"

section \<open>The standard\<close>

definition S0 :: "32 word \<Rightarrow> 32 word" where "S0 x = word_rotr 2 x XOR word_rotr 13 x XOR word_rotr 22 x"
definition S1 :: "32 word \<Rightarrow> 32 word" where "S1 x = word_rotr 6 x XOR word_rotr 11 x XOR word_rotr 25 x"
definition s0 :: "32 word \<Rightarrow> 32 word" where "s0 x = word_rotr 7 x XOR word_rotr 18 x XOR drop_bit 3 x"
definition s1 :: "32 word \<Rightarrow> 32 word" where "s1 x = word_rotr 17 x XOR word_rotr 19 x XOR drop_bit 10 x"

fun sha_W :: "bytes \<Rightarrow> nat \<Rightarrow> 32 word" where
  "sha_W block t =
     (if t < 16 then word_of_nat (be_val (take 4 (drop (4 * t) block)))
      else s1 (sha_W block (t - 2)) + sha_W block (t - 7) + s0 (sha_W block (t - 15)) + sha_W block (t - 16))"

declare sha_W.simps [simp del]

fun sha_working :: "bytes \<Rightarrow> nat \<Rightarrow> sha_regs \<Rightarrow> sha_regs" where
  "sha_working block 0 r = r"
| "sha_working block (Suc t) r =
     (case sha_working block t r of (a, b, c, d, e, f, g, h) \<Rightarrow>
        (h + S1 e + Ch e f g + sha256_constant_256 ! t + sha_W block t + (S0 a + Maj a b c), a, b, c,
         d + (h + S1 e + Ch e f g + sha256_constant_256 ! t + sha_W block t), e, f, g))"

definition sha_compress :: "(32 word) list \<Rightarrow> bytes \<Rightarrow> (32 word) list" where
  "sha_compress H block =
     (case sha_working block 64 (H ! 0, H ! 1, H ! 2, H ! 3, H ! 4, H ! 5, H ! 6, H ! 7) of (a, b, c, d, e, f, g, h) \<Rightarrow>
        [H ! 0 + a, H ! 1 + b, H ! 2 + c, H ! 3 + d, H ! 4 + e, H ! 5 + f, H ! 6 + g, H ! 7 + h])"

definition sha_pad :: "nat \<Rightarrow> bytes" where
  "sha_pad n = [0x80] @ replicate ((119 - n mod 64) mod 64) 0 @ be_bytes 8 (8 * n)"

definition sha_blocks :: "bytes \<Rightarrow> bytes list" where
  "sha_blocks msg = map (\<lambda>i. take 64 (drop (64 * i) msg)) [0..<length msg div 64]"

definition sha_absorb :: "bytes \<Rightarrow> (32 word) list" where
  "sha_absorb msg = fold (\<lambda>block H. sha_compress H block) (sha_blocks msg) sha_iv"

definition SHA256 :: "bytes \<Rightarrow> bytes" where
  "SHA256 msg = concat (map (\<lambda>w. be_bytes 4 (unat w)) (sha_absorb (msg @ sha_pad (length msg))))"

section \<open>The compression function\<close>

lemma ROTR_rotr:
  assumes "0 < n" "n < 32"
  shows "ROTR x n = word_rotr n x"
proof (rule bit_word_eqI)
  fix k assume "k < LENGTH(32)"
  then have k: "k < 32" by simp
  have "(k + n) mod 32 = (if k + n < 32 then k + n else k - (32 - n))" using k assms by (simp add: mod_if)
  then show "bit (ROTR x n) k = bit (word_rotr n x) k"
    using k assms bit_imp_le_length [of x "n + k"]
    by (auto simp: ROTR_def bit_or_iff bit_drop_bit_eq bit_push_bit_iff bit_word_rotr_iff add.commute)
qed

lemma sigmas: "Sigma0 = S0" "Sigma1 = S1" "sigma0 = s0" "sigma1 = s1"
  by (simp_all add: fun_eq_iff Sigma0_def S0_def Sigma1_def S1_def sigma0_def s0_def sigma1_def s1_def ROTR_rotr)

lemma data_W:
  assumes "length block = 64" "16 \<le> k"
  shows "fold sha_extend [16..<k] (sha_current block) = map (sha_W block) [0..<k]"
  using assms(2)
proof (induction k rule: dec_induct)
  case base
  have "sha_current block ! i = sha_W block i" if "i < 16" for i
  proof -
    have "take 4 (drop (4 * i) block) = [block ! (4 * i), block ! (4 * i + 1), block ! (4 * i + 2), block ! (4 * i + 3)]"
      by (rule nth_equalityI) (use that assms(1) in \<open>auto simp: less_Suc_eq numeral_eq_Suc\<close>)
    then show ?thesis using that by (simp add: sha_current_def sha_W.simps [of block i])
  qed
  then show ?case by (intro nth_equalityI) (auto simp: sha_current_def)
next
  case (step k)
  then show ?case by (simp add: sha_extend_def sigmas sha_W.simps [of block k])
qed

lemma rounds_working:
  "length block = 64 \<Longrightarrow> t \<le> 64 \<Longrightarrow> fold (sha_round (sha_data (sha_current block))) [0..<t] r = sha_working block t r"
proof (induction t)
  case (Suc t)
  have "sha_data (sha_current block) ! t = sha_W block t" using data_W [OF Suc.prems(1), of 64] Suc.prems(2) by (simp add: sha_data_def)
  then show ?case using Suc by (simp add: sha_round_def sigmas Let_def split: prod.split)
qed simp

lemma calc_compress:
  "length (sha_save m) = 64 \<Longrightarrow> sha256_calc m (sha_current (sha_save m)) = m\<lparr> sha_counter := sha_compress (sha_counter m) (sha_save m) \<rparr>"
  by (simp add: sha256_calc_def sha_compress_def rounds_working Let_def split: prod.split)

section \<open>Streaming\<close>

lemma length_compress [simp]: "length (sha_compress H block) = 8"
  by (simp add: sha_compress_def split: prod.split)

text \<open>The part of a message that does not fill a block.\<close>

definition sha_rest :: "bytes \<Rightarrow> bytes" where
  "sha_rest msg = drop (64 * (length msg div 64)) msg"

lemma length_rest [simp]: "length (sha_rest msg) = length msg mod 64"
  by (simp add: sha_rest_def minus_mult_div_eq_mod)

lemma div_fill: "length msg mod 64 + length x < 64 \<Longrightarrow> length (msg @ x) div 64 = length msg div 64"
  "length msg mod 64 + length x = 64 \<Longrightarrow> length (msg @ x) div 64 = Suc (length msg div 64) \<and> length (msg @ x) mod 64 = 0"
proof -
  show "length (msg @ x) div 64 = length msg div 64" if "length msg mod 64 + length x < 64"
  proof (rule div_nat_eqI)
    show "64 * (length msg div 64) \<le> length (msg @ x)" by (simp add: trans_le_add1)
    show "length (msg @ x) < 64 * Suc (length msg div 64)"
      using that mult_div_mod_eq [of 64 "length msg"] by (simp only: length_append mult_Suc_right)
  qed
  assume "length msg mod 64 + length x = 64"
  then have "length (msg @ x) = Suc (length msg div 64) * 64" using mult_div_mod_eq [of 64 "length msg"] by (simp only: length_append mult_Suc)
  then show "length (msg @ x) div 64 = Suc (length msg div 64) \<and> length (msg @ x) mod 64 = 0"
    by (simp only: div_mult_self_is_m mod_mult_self2_is_0)
qed

lemma mod_fill: "length msg mod 64 + length x < 64 \<Longrightarrow> length (msg @ x) mod 64 = length msg mod 64 + length x"
  by (metis length_append mod_add_left_eq mod_less)

lemma blocks_part:
  assumes "length msg mod 64 + length x < 64"
  shows "sha_blocks (msg @ x) = sha_blocks msg" "sha_rest (msg @ x) = sha_rest msg @ x"
proof -
  have "64 * Suc i \<le> length msg" if "i < length msg div 64" for i
    using that less_eq_div_iff_mult_less_eq [of 64 "Suc i" "length msg"] by (simp add: Suc_le_eq)
  then show "sha_blocks (msg @ x) = sha_blocks msg" unfolding sha_blocks_def div_fill(1) [OF assms] by (auto simp: mult.commute)
  show "sha_rest (msg @ x) = sha_rest msg @ x" unfolding sha_rest_def div_fill(1) [OF assms] by (simp add: div_times_less_eq_dividend)
qed

lemma blocks_full:
  assumes "length msg mod 64 + length x = 64"
  shows "sha_blocks (msg @ x) = sha_blocks msg @ [sha_rest msg @ x]" "sha_rest (msg @ x) = []"
proof -
  have "64 * Suc i \<le> length msg" if "i < length msg div 64" for i
    using that less_eq_div_iff_mult_less_eq [of 64 "Suc i" "length msg"] by (simp add: Suc_le_eq)
  moreover have "take 64 (sha_rest msg @ x) = sha_rest msg @ x" using assms by simp
  moreover have "drop (64 * (length msg div 64)) (msg @ x) = sha_rest msg @ x" by (simp add: sha_rest_def div_times_less_eq_dividend)
  ultimately show "sha_blocks (msg @ x) = sha_blocks msg @ [sha_rest msg @ x]"
    using div_fill(2) [OF assms] by (auto simp: sha_blocks_def mult.commute)
  have "length (sha_rest (msg @ x)) = 0" using div_fill(2) [OF assms] by (simp only: length_rest)
  then show "sha_rest (msg @ x) = []" by (simp only: length_0_conv)
qed

text \<open>The context has taken \<open>msg\<close>: whole blocks in the state, the rest in the buffer.\<close>

definition sha_taken :: "sha256_ctx \<Rightarrow> bytes \<Rightarrow> bool" where
  "sha_taken m msg = (length (sha_save m) = 64 \<and> sha_counter m = sha_absorb msg \<and> take (length msg mod 64) (sha_save m) = sha_rest msg)"

lemma take_overwrite: "a + length ys \<le> length xs \<Longrightarrow> take (a + length ys) (overwrite xs a ys) = take a xs @ ys"
  by (simp add: overwrite_def)

lemma loop_taken: "sha_taken m msg \<Longrightarrow> offset = length msg mod 64 \<Longrightarrow> sha_taken (sha_loop m offset p) (msg @ p)"
proof (induction "length p" arbitrary: m msg offset p rule: less_induct)
  case less
  show ?case
  proof (cases "p = []")
    case True
    then show ?thesis using less.prems by (simp add: sha_loop.simps)
  next
    case False
    let ?l = "min (64 - offset) (length p)" let ?x = "take ?l p"
    let ?m1 = "m\<lparr> sha_save := overwrite (sha_save m) offset ?x \<rparr>"
    have off: "offset < 64" using less.prems(2) by simp
    have fit: "offset + length ?x \<le> length (sha_save m)" "length ?x = ?l" using less.prems(1) off by (auto simp: sha_taken_def)
    have save: "take (offset + ?l) (sha_save ?m1) = sha_rest msg @ ?x" "length (sha_save ?m1) = 64"
      using take_overwrite [OF fit(1)] less.prems length_overwrite [OF fit(1)] fit(2) by (simp_all add: sha_taken_def)
    have c: "\<not> (p = [] \<or> offset \<ge> 64)" using False off by simp
    have smaller: "length (drop ?l p) < length p" using False off by (simp add: min_def)
    show ?thesis
    proof (cases "offset + ?l = 64")
      case full: True
      let ?m2 = "sha256_calc ?m1 (sha_current (sha_save ?m1))"
      have f: "length msg mod 64 + length ?x = 64" using full fit(2) less.prems(2) by simp
      have "sha_taken ?m2 (msg @ ?x)"
        using less.prems(1) save full blocks_full [OF f] div_fill(2) [OF f] calc_compress [OF save(2)]
        by (simp add: sha_taken_def sha_absorb_def)
      then have "sha_taken (sha_loop ?m2 0 (drop ?l p)) ((msg @ ?x) @ drop ?l p)"
        by (rule less.hyps [OF smaller]) (use div_fill(2) [OF f] in simp)
      then show ?thesis unfolding sha_loop.simps [of m offset p] Let_def by (simp only: c full if_False refl if_True append_assoc append_take_drop_id)
    next
      case part: False
      have f: "length msg mod 64 + length ?x < 64" using part fit(2) less.prems(2) off by linarith
      have md: "length (msg @ ?x) mod 64 = offset + ?l" using mod_fill [OF f] fit(2) less.prems(2) by simp
      have "sha_taken ?m1 (msg @ ?x)"
        unfolding sha_taken_def md using less.prems(1) save blocks_part [OF f] by (simp add: sha_taken_def sha_absorb_def)
      then have "sha_taken (sha_loop ?m1 (offset + ?l) (drop ?l p)) ((msg @ ?x) @ drop ?l p)"
        by (rule less.hyps [OF smaller]) (simp only: md)
      then show ?thesis unfolding sha_loop.simps [of m offset p] Let_def by (simp only: c part if_False append_assoc append_take_drop_id)
    qed
  qed
qed

subsection \<open>The bit count\<close>

definition sha_bits :: "sha256_ctx \<Rightarrow> nat" where
  "sha_bits m = unat (sha_sz1 m) * 2 ^ 32 + unat (sha_sz0 m)"

lemma loop_sz [simp]: "sha_sz0 (sha_loop m offset p) = sha_sz0 m" "sha_sz1 (sha_loop m offset p) = sha_sz1 m"
proof (induction m offset p rule: sha_loop.induct)
  case (1 m offset p)
  { case 1 then show ?case using "1.IH" by (subst sha_loop.simps) (simp add: Let_def sha256_calc_def split: prod.split) }
  { case 2 then show ?case using "1.IH" by (subst sha_loop.simps) (simp add: Let_def sha256_calc_def split: prod.split) }
qed

lemma offset_bits: "sha_bits m = 8 * n \<Longrightarrow> sha_offset m = n mod 64"
proof -
  assume "sha_bits m = 8 * n"
  then have "unat (sha_sz0 m) div 8 = n - unat (sha_sz1 m) * 2 ^ 29" "unat (sha_sz1 m) * 2 ^ 29 \<le> n" by (simp_all add: sha_bits_def)
  then have "n = unat (sha_sz0 m) div 8 + unat (sha_sz1 m) * 2 ^ 23 * 64" by simp
  then show ?thesis unfolding sha_offset_def by (metis mod_mult_self1)
qed

lemma update_bits:
  assumes "length v < 2 ^ 29" "sha_bits m + 8 * length v < 2 ^ 64"
  shows "sha_bits (sha256_update m v) = sha_bits m + 8 * length v"
proof -
  let ?a = "unat (sha_sz0 m)" let ?b = "8 * length v" let ?s = "sha_sz0 m + word_of_nat (length v) * 8"
  have a: "?a < 2 ^ 32" using unsigned_less [of "sha_sz0 m"] by simp
  have s: "unat ?s = (?a + ?b) mod 2 ^ 32"
    by (simp add: unat_word_ariths unat_of_nat mod_simps mult.commute)
  have c: "?s < sha_sz0 m \<longleftrightarrow> 2 ^ 32 \<le> ?a + ?b"
    unfolding word_less_nat_alt s using a assms(1) by (simp add: mod_if) linarith
  show ?thesis
  proof (cases "2 ^ 32 \<le> ?a + ?b")
    case True
    then have "unat (sha_sz1 m) + 1 < 2 ^ 32" using assms(2) by (simp add: sha_bits_def)
    then have "unat (sha_sz1 m + 1) = unat (sha_sz1 m) + 1" by (simp add: unat_word_ariths)
    moreover have "unat ?s = ?a + ?b - 2 ^ 32" using s True a assms(1) by (simp add: mod_if)
    ultimately show ?thesis using True c by (simp add: sha256_update_def sha_bits_def Let_def)
  next
    case False
    then have "unat ?s = ?a + ?b" using s by simp
    then show ?thesis using False c by (simp add: sha256_update_def sha_bits_def Let_def)
  qed
qed

lemma update_taken:
  assumes "sha_taken m msg" "sha_bits m = 8 * length msg"
  shows "sha_taken (sha256_update m v) (msg @ v)"
proof -
  have "sha_taken x msg" if "sha_save x = sha_save m" "sha_counter x = sha_counter m" for x using assms(1) that by (simp add: sha_taken_def)
  then show ?thesis unfolding sha256_update_def Let_def by (intro loop_taken) (simp_all add: offset_bits [OF assms(2)])
qed

subsection \<open>The padding\<close>

lemma be_bytes_split: "lo < 256 ^ k \<Longrightarrow> be_bytes (j + k) (hi * 256 ^ k + lo) = be_bytes j hi @ be_bytes k lo"
proof (induction k arbitrary: lo)
  case (Suc k)
  have "lo div 256 < 256 ^ k" using Suc.prems by (simp add: less_mult_imp_div_less)
  moreover have e: "hi * 256 ^ Suc k = (hi * 256 ^ k) * 256" by (simp add: ac_simps)
  moreover have "((hi * 256 ^ k) * 256 + lo) div 256 = hi * 256 ^ k + lo div 256" "((hi * 256 ^ k) * 256 + lo) mod 256 = lo mod 256" by simp_all
  ultimately show ?case using Suc.IH [of "lo div 256"] by (simp only: add_Suc_right be_bytes.simps append_assoc)
qed simp

lemma byte_of_word: "ucast (drop_bit n w AND (0xff :: 32 word)) = (word_of_nat (unat w div 2 ^ n mod 256) :: byte)"
proof -
  have "(0xff :: 32 word) = mask 8" by (simp add: mask_eq_exp_minus_1)
  then have t: "drop_bit n w AND 0xff = take_bit 8 (drop_bit n w)" by (simp only: take_bit_eq_mask)
  have "unat (take_bit 8 (drop_bit n w)) = take_bit 8 (drop_bit n (unat w))" by (rule bit_eqI) (auto simp: bit_simps)
  then have "unat (drop_bit n w AND 0xff) = unat w div 2 ^ n mod 256" unfolding t by (simp add: take_bit_eq_mod drop_bit_eq_div)
  then show ?thesis by (metis of_nat_unat)
qed

lemma be_bytes4: "be_bytes 4 v = map (\<lambda>n. word_of_nat (v div 2 ^ n mod 256)) [24, 16, 8, 0]"
proof -
  have "be_bytes (Suc (Suc (Suc (Suc 0)))) v = map (\<lambda>n. word_of_nat (v div 2 ^ n mod 256)) [24, 16, 8, 0]"
    by (simp add: div_mult2_eq [symmetric])
  moreover have "Suc (Suc (Suc (Suc 0))) = 4" by simp
  ultimately show ?thesis by (simp only:)
qed

lemma word_bytes: "be_bytes 4 (unat (w :: 32 word)) = map (\<lambda>n. ucast (drop_bit n w AND (0xff :: 32 word))) [24, 16, 8, 0]"
  by (simp only: be_bytes4 byte_of_word)

lemma zeros_pad:
  assumes "sha_bits m = 8 * n"
  shows "take (sha_dstart m + 8) (sha_zeros m) = sha_pad n"
proof -
  define k where "k = (119 - n mod 64) mod 64"
  have k: "k \<le> 63" "sha_dstart m = Suc k" by (simp_all add: k_def sha_dstart_def offset_bits [OF assms])
  let ?A = "0x80 # replicate k (0 :: byte)"
  have z: "(0x80 :: byte) # replicate 71 0 = ?A @ [0, 0, 0, 0, 0, 0, 0, 0] @ replicate (63 - k) 0"
  proof -
    have "replicate 71 (0 :: byte) = replicate (k + (8 + (63 - k))) 0" using k(1) by simp
    then show ?thesis by (simp only: replicate_add append_Cons) (simp add: numeral_eq_Suc)
  qed
  have up: "sha_zeros m = ?A @ (be_bytes 4 (unat (sha_sz1 m)) @ be_bytes 4 (unat (sha_sz0 m))) @ replicate (63 - k) 0"
    unfolding sha_zeros_def k(2) z Let_def word_bytes by (simp add: list_update_append)
  have pad: "sha_pad n = ?A @ be_bytes 4 (unat (sha_sz1 m)) @ be_bytes 4 (unat (sha_sz0 m))"
    using be_bytes_split [of "unat (sha_sz0 m)" 4 4 "unat (sha_sz1 m)"] assms unsigned_less [of "sha_sz0 m"]
    by (simp add: sha_pad_def k_def sha_bits_def)
  have t: "take (length xs) (xs @ ys) = xs" for xs ys :: bytes by simp
  have "Suc k + 8 = length (sha_pad n)" by (simp add: pad)
  moreover have "sha_zeros m = sha_pad n @ replicate (63 - k) 0" by (simp only: up pad append_assoc)
  ultimately show ?thesis unfolding k(2) using t by simp
qed

text \<open>The padded message is a whole number of blocks, so the reference leaves no byte out.\<close>

lemma pad_whole: "length (msg @ sha_pad (length msg)) mod 64 = 0"
proof -
  have "(a + (1 + ((119 - a mod 64) mod 64 + 8))) mod 64 = 0" for a :: nat
  proof -
    obtain q r where a: "a = q * 64 + r" "r < 64" "a mod 64 = r" using mod_less_divisor [of 64 a] div_mult_mod_eq [of a 64] by (metis zero_less_numeral)
    have "(119 - r) mod 64 = (if r \<le> 55 then 55 - r else 119 - r)" using a(2) by (simp add: mod_if [of "119 - r"])
    then have "a + (1 + ((119 - a mod 64) mod 64 + 8)) = (q + (if r \<le> 55 then 1 else 2)) * 64"
      using a(2) unfolding a(3) by (simp add: a(1) add_mult_distrib)
    then show ?thesis by (simp only: mod_mult_self2_is_0)
  qed
  from this [of "length msg"] show ?thesis by (simp add: sha_pad_def)
qed

section \<open>Property\<close>

lemma init_taken: "length (sha_save m) = 64 \<Longrightarrow> sha_taken (sha256_init m) [] \<and> sha_bits (sha256_init m) = 0"
  by (simp add: sha_taken_def sha256_init_def sha_absorb_def sha_blocks_def sha_rest_def sha_bits_def)

lemma updates_taken:
  assumes "sha_taken m msg" "sha_bits m = 8 * length msg" "\<forall>d \<in> set ds. length d < 2 ^ 29" "length (msg @ concat ds) < 2 ^ 61"
  shows "sha_taken (fold (\<lambda>d m. sha256_update m d) ds m) (msg @ concat ds)
    \<and> sha_bits (fold (\<lambda>d m. sha256_update m d) ds m) = 8 * length (msg @ concat ds)"
  using assms
proof (induction ds arbitrary: m msg)
  case (Cons d ds)
  have "sha_taken (sha256_update m d) (msg @ d)" by (rule update_taken) (fact Cons.prems)+
  moreover have "sha_bits (sha256_update m d) = 8 * length (msg @ d)" using update_bits [of d m] Cons.prems by simp
  ultimately show ?case using Cons.IH [of "sha256_update m d" "msg @ d"] Cons.prems by simp
qed simp

lemma length_absorb: "length (sha_absorb msg) = 8"
  unfolding sha_absorb_def by (cases "sha_blocks msg" rule: rev_cases) (simp_all add: sha_iv_def)

text \<open>
  C20. The streaming SHA-256 is the standard's: for any split of a message into
  calls of \<open>sha256_update\<close> (each below 512 MiB, the message below 2 ^ 61 bytes),
  \<open>sha256_final_32bytes\<close> gives the hash that the standard defines on the whole
  message, whatever the buffer held before \<open>sha256_init\<close>.
\<close>

theorem sha256_streaming_correct:
  assumes "length (sha_save m) = 64" "\<forall>d \<in> set ds. length d < 2 ^ 29" "length (concat ds) < 2 ^ 61"
  shows "sha256_final_32bytes (fold (\<lambda>d m. sha256_update m d) ds (sha256_init m)) = SHA256 (concat ds)"
proof -
  let ?m = "fold (\<lambda>d m. sha256_update m d) ds (sha256_init m)" let ?msg = "concat ds"
  have t: "sha_taken ?m ?msg" "sha_bits ?m = 8 * length ?msg"
    using updates_taken [of "sha256_init m" "[]" ds] init_taken [OF assms(1)] assms(2,3) by simp_all
  have "sha_taken (sha256_update ?m (sha_pad (length ?msg))) (?msg @ sha_pad (length ?msg))" by (rule update_taken [OF t])
  then have "sha_counter (sha256_update ?m (take (sha_dstart ?m + 8) (sha_zeros ?m))) = sha_absorb (?msg @ sha_pad (length ?msg))"
    by (simp add: zeros_pad [OF t(2)] sha_taken_def)
  then show ?thesis by (simp add: sha256_final_32bytes_def SHA256_def length_absorb)
qed

theorem sha256_streaming_correct_witness:
  "sha256_final_32bytes (sha256_update (sha256_update (sha256_init \<lparr> sha_sz0 = 9, sha_sz1 = 9, sha_counter = [], sha_save = replicate 64 7 \<rparr>)
     [0x61]) [0x62, 0x63]) = SHA256 [0x61, 0x62, 0x63]"
  using sha256_streaming_correct [of "\<lparr> sha_sz0 = 9, sha_sz1 = 9, sha_counter = [], sha_save = replicate 64 7 \<rparr>" "[[0x61], [0x62, 0x63]]"] by simp

end
