(* ===== verification/Rtmp_Wire.thy ===== *)
theory Rtmp_Wire
  imports Rtmp_Session
begin

text \<open>
  The RTMP session seen from the wire: messages written by a peer are
  reassembled whatever the chunk size and however the socket cuts the bytes, and
  their media reaches the FLV stream unchanged.
\<close>

section \<open>More input\<close>

text \<open>\<open>rs_more s ys\<close>: the session with \<open>ys\<close> appended to its input.  A step that completes or fails does
  the same with more input, and a step that waits is repeated as if it had not run.\<close>

definition rs_more :: "rtmp_session \<Rightarrow> bytes \<Rightarrow> rtmp_session" where
  "rs_more s ys = s\<lparr> rs_total_in := u64 (rs_total_in s + length ys), rs_in := rs_in s @ ys \<rparr>"

lemma more_fields [simp]: "rs_in (rs_more s ys) = rs_in s @ ys" "rs_pos (rs_more s ys) = rs_pos s" "rs_cs (rs_more s ys) = rs_cs s"
  "rs_state (rs_more s ys) = rs_state s" "rs_publish_pending (rs_more s ys) = rs_publish_pending s" "rs_publishing (rs_more s ys) = rs_publishing s"
  "rs_in_chunk (rs_more s ys) = rs_in_chunk s" "rs_assembly (rs_more s ys) = rs_assembly s" "rs_to_peer (rs_more s ys) = rs_to_peer s"
  "rs_connected (rs_more s ys) = rs_connected s" "rs_to_flv (rs_more s ys) = rs_to_flv s"
  by (simp_all add: rs_more_def)

lemma more_more: "rs_more (rs_more s xs) ys = rs_more s (xs @ ys)"
  by (simp add: rs_more_def u64_def mod_simps add.assoc)

lemma send_more: "send_msg (rs_more s ys) c t i p = rs_more (send_msg s c t i p) ys"
  by (simp add: rs_more_def send_msg_def)

lemma credential_more: "take_credential (rs_more s ys) pw = rs_more (take_credential s pw) ys"
  by (simp add: rs_more_def take_credential_def split: option.splits)

lemma fail_more: "rs_fail (rs_more s ys) why = apfst (\<lambda>s. rs_more s ys) (rs_fail s why)"
  by (simp add: rs_more_def rs_fail_def)

lemma media_more: "on_media (rs_more s ys) t ts p = rs_more (on_media s t ts p) ys"
  by (simp add: rs_more_def on_media_def write_flv_tag_def Let_def)

lemma fcpublish_more: "on_fcpublish (rs_more s ys) p i = rs_more (on_fcpublish s p i) ys"
  by (simp add: on_fcpublish_def Let_def credential_more send_more split: prod.split)

lemma connect_more: "on_connect (rs_more s ys) p i txn = apfst (\<lambda>s. rs_more s ys) (on_connect s p i txn)"
proof -
  obtain ok app tc where o: "amf_object_strings p i ''app'' (rs_app s) ''tcUrl'' [] = (ok, app, tc)" by (metis prod_cases3)
  obtain name pw where n: "split_credential app = (name, pw)" by (metis surj_pair)
  define pw2 where "pw2 = (case pw of Some _ \<Rightarrow> pw | None \<Rightarrow> if tc = [] then None else snd (split_credential tc))"
  show ?thesis
    using o n by (cases pw2) (simp_all add: on_connect_def Let_def rs_more_def rs_fail_def send_msg_def pw2_def [symmetric])
qed

lemma publish_more: "on_publish (rs_more s ys) c p i txn = apfst (\<lambda>s. rs_more s ys) (on_publish s c p i txn)"
  by (simp add: on_publish_def Let_def rs_more_def rs_fail_def take_credential_def split: prod.split option.split)

lemma command_more: "on_command (rs_more s ys) c p = apfst (\<lambda>s. rs_more s ys) (on_command s c p)"
proof -
  obtain name i0 where r: "amf_read_string p 0 = (name, i0)" by (metis surj_pair)
  obtain num i where n: "amf_read_number p i0 = (num, i)" by (metis surj_pair)
  have sid: "rs_publish_sid (rs_more s ys) = rs_publish_sid s" by (simp add: rs_more_def)
  show ?thesis
    by (cases name) (simp_all add: on_command_def r n Let_def connect_more publish_more fcpublish_more fail_more send_more sid
        if_distrib [of "apfst (\<lambda>s. rs_more s ys)"] cong: if_cong split del: if_split)
qed

lemma message_more: "on_message (rs_more s ys) c p = apfst (\<lambda>s. rs_more s ys) (on_message s c p)"
proof -
  have "(rs_more s ys)\<lparr> rs_in_chunk := v \<rparr> = rs_more (s\<lparr> rs_in_chunk := v \<rparr>) ys" "(rs_more s ys)\<lparr> rs_ack_window := v \<rparr> = rs_more (s\<lparr> rs_ack_window := v \<rparr>) ys"
    "(rs_more s ys)\<lparr> rs_assembly := v, rs_cs := cs \<rparr> = rs_more (s\<lparr> rs_assembly := v, rs_cs := cs \<rparr>) ys" for v cs by (simp_all add: rs_more_def)
  then show ?thesis
    by (simp add: on_message_def Let_def command_more media_more fail_more send_more if_distrib [of "apfst (\<lambda>s. rs_more s ys)"]
        if_distrib [of "\<lambda>s. rs_more s ys"] cong: if_cong split del: if_split)
qed

lemma chunk_basic_more: "chunk_basic p i = Some x \<Longrightarrow> chunk_basic (p @ ys) i = Some x"
  by (auto simp: chunk_basic_def Let_def nth_append split: if_splits)

lemma seg_append_le: "a + n \<le> length xs \<Longrightarrow> seg (xs @ ys) a n = seg xs a n"
  by (simp add: seg_def)

lemma chunk_head_more: "chunk_head c p h fmt = Some x \<Longrightarrow> chunk_head c (p @ ys) h fmt = Some x"
  by (auto simp: chunk_head_def chunk_mh_def Let_def nth_append seg_append_le split: if_splits)

lemma chunk_store_more:
  assumes "pos + k \<le> length (rs_in s)"
  shows "chunk_acc (rs_more s ys) c pos k = chunk_acc s c pos k" "chunk_whole (rs_more s ys) c pos k = chunk_whole s c pos k"
    "chunk_store (rs_more s ys) csid c pos k = rs_more (chunk_store s csid c pos k) ys"
proof -
  show a: "chunk_acc (rs_more s ys) c pos k = chunk_acc s c pos k" using assms by (simp add: chunk_acc_def seg_append_le)
  then show w: "chunk_whole (rs_more s ys) c pos k = chunk_whole s c pos k" by (simp add: chunk_whole_def)
  have "chunk_ack (rs_more s ys) n = rs_more (chunk_ack s n) ys" for n by (simp add: chunk_ack_def send_msg_def rs_more_def Let_def)
  then show "chunk_store (rs_more s ys) csid c pos k = rs_more (chunk_store s csid c pos k) ys"
    using a w by (simp add: chunk_store_def Let_def) (simp add: rs_more_def)
qed

lemma chunk_commit_more:
  "pos + k \<le> length (rs_in s) \<Longrightarrow> chunk_commit (rs_more s ys) csid c pos k = apfst (\<lambda>s. rs_more s ys) (chunk_commit s csid c pos k)"
  by (cases "on_message (chunk_store s csid c pos k) (c\<lparr> cs_acc := [] \<rparr>) (chunk_acc s c pos k)")
    (simp add: chunk_commit_def chunk_store_more message_more fail_more Let_def)

lemma cs_resize_twice: "cs_resize (cs_resize cs i) i = cs_resize cs i"
  by (simp add: cs_resize_def)

lemma parse_chunks_more:
  assumes "parse_chunks s = (s1, ok)" "rs_state s \<noteq> RTMP_DEAD"
  shows "parse_chunks (rs_more s ys) = (if ok \<or> rs_state s1 = RTMP_DEAD then (rs_more s1 ys, ok) else parse_chunks (rs_more s1 ys))"
proof (cases "chunk_basic (rs_in s) (rs_pos s)")
  case None
  then show ?thesis using assms by (simp add: parse_chunks_def)
next
  case (Some b)
  then obtain fmt csid hdr where b: "chunk_basic (rs_in s) (rs_pos s) = Some (fmt, csid, hdr)" by (metis prod_cases3)
  note b' = chunk_basic_more [OF b, of ys]
  show ?thesis
  proof (cases "csid > RTMP_MAX_CHUNK_STREAM")
    case True
    have "parse_chunks s = rs_fail s ''chunk stream id out of range''" using True b by (simp add: parse_chunks_def)
    then show ?thesis using assms True b' by (auto simp: parse_chunks_def rs_fail_def rs_more_def)
  next
    case small: False
    define t where "t = s\<lparr> rs_cs := cs_resize (rs_cs s) csid \<rparr>"
    have t: "rs_in t = rs_in s" "rs_pos t = rs_pos s" "rs_assembly t = rs_assembly s" "rs_in_chunk t = rs_in_chunk s" "rs_state t = rs_state s"
      "(rs_more s ys)\<lparr> rs_cs := cs_resize (rs_cs s) csid \<rparr> = rs_more t ys" "(rs_more t ys)\<lparr> rs_cs := cs_resize (rs_cs t) csid \<rparr> = rs_more t ys"
      by (simp_all add: t_def rs_more_def cs_resize_twice)
    have rc: "cs_resize (rs_cs s) csid = rs_cs t" by (simp add: t_def)
    note eq = assms(1) [unfolded parse_chunks_def b option.case prod.case Let_def, folded t_def]
    have again: "parse_chunks (rs_more t ys) = parse_chunks (rs_more s ys)"
      using t b' small by (cases "chunk_head (rs_cs t ! csid) (rs_in s @ ys) (rs_pos s + hdr) fmt") (auto simp: parse_chunks_def Let_def)
    show ?thesis
    proof (cases "chunk_head (rs_cs t ! csid) (rs_in s) (rs_pos s + hdr) fmt")
      case None
      then have "s1 = t \<and> \<not> ok" using eq small by simp
      then show ?thesis using again t assms(2) by auto
    next
      case (Some hp)
      then obtain c pos where h: "chunk_head (rs_cs t ! csid) (rs_in s) (rs_pos s + hdr) fmt = Some (c, pos)" by (metis surj_pair)
      note h' = chunk_head_more [OF h, of ys]
      let ?k = "min (cs_len c - length (cs_acc c)) (rs_in_chunk s)"
      have eq': "parse_chunks (rs_more s ys) =
          (if cs_len c > RTMP_MAX_MESSAGE_BYTES then rs_fail (rs_more t ys) ''message too large''
           else if fmt \<noteq> 3 \<and> cs_acc c \<noteq> [] then rs_fail (rs_more t ys) ''header restarts a message already in progress''
           else if pos + ?k > length (rs_in s @ ys) then (rs_more t ys, False)
           else if rs_assembly s + ?k > RTMP_MAX_ASSEMBLY_BYTES then rs_fail (rs_more t ys) ''too many partial messages''
           else chunk_commit (rs_more t ys) csid c pos ?k)"
        using small t rc by (simp add: parse_chunks_def Let_def b' h' cong: if_cong split del: if_split)
      have eq2: "(if cs_len c > RTMP_MAX_MESSAGE_BYTES then rs_fail t ''message too large''
           else if fmt \<noteq> 3 \<and> cs_acc c \<noteq> [] then rs_fail t ''header restarts a message already in progress''
           else if pos + ?k > length (rs_in s) then (t, False)
           else if rs_assembly s + ?k > RTMP_MAX_ASSEMBLY_BYTES then rs_fail t ''too many partial messages''
           else chunk_commit t csid c pos ?k) = (s1, ok)"
        using eq small t by (simp add: h cong: if_cong split del: if_split)
      have bad: ?thesis if "rs_fail t why = (s1, ok)" "parse_chunks (rs_more s ys) = rs_fail (rs_more t ys) why" for why
        using that by (auto simp: rs_fail_def rs_more_def)
      consider (big) "cs_len c > RTMP_MAX_MESSAGE_BYTES \<or> fmt \<noteq> 3 \<and> cs_acc c \<noteq> []"
        | (short) "\<not> cs_len c > RTMP_MAX_MESSAGE_BYTES" "\<not> (fmt \<noteq> 3 \<and> cs_acc c \<noteq> [])" "pos + ?k > length (rs_in s)"
        | (full) "\<not> cs_len c > RTMP_MAX_MESSAGE_BYTES" "\<not> (fmt \<noteq> 3 \<and> cs_acc c \<noteq> [])" "pos + ?k \<le> length (rs_in s)" by linarith
      then show ?thesis
      proof cases
        case big
        show ?thesis
        proof (cases "cs_len c > RTMP_MAX_MESSAGE_BYTES")
          case True
          then show ?thesis using bad eq2 eq' by simp
        next
          case False
          then show ?thesis using bad eq2 eq' big by simp
        qed
      next
        case short
        then have "s1 = t \<and> \<not> ok" using eq2 [unfolded if_not_P [OF short(1)] if_not_P [OF short(2)]] by simp
        then show ?thesis using again t assms(2) by auto
      next
        case full
        note go = if_not_P [OF full(1)] if_not_P [OF full(2)]
        note eqs = eq2 [unfolded go] eq' [unfolded go]
        show ?thesis
        proof (cases "rs_assembly s + ?k > RTMP_MAX_ASSEMBLY_BYTES")
          case True
          then show ?thesis using bad eqs full(3) by simp
        next
          case False
          then have c: "chunk_commit t csid c pos ?k = (s1, ok)" using eqs full(3) by simp
          then have "parse_chunks (rs_more s ys) = (rs_more s1 ys, ok)"
            using eqs full(3) False chunk_commit_more [of pos ?k t ys csid c] t by simp
          moreover have "ok \<or> rs_state s1 = RTMP_DEAD"
            using c by (cases rule: chunk_commit_cases) (auto split: if_splits dest: on_message_dead)
          ultimately show ?thesis by auto
        qed
      qed
    qed
  qed
qed

lemma do_handshake_more:
  assumes "do_handshake s = (s1, ok)" "rs_pos s \<le> length (rs_in s)"
  shows "do_handshake (rs_more s ys) = (if ok \<or> rs_state s1 = RTMP_DEAD \<and> rs_state s \<noteq> RTMP_DEAD then (rs_more s1 ys, ok) else do_handshake (rs_more s1 ys))"
proof -
  have av: "rs_avail (rs_more s ys) = rs_avail s + length ys" using assms(2) by (simp add: rs_avail_def)
  have hd: "0 < rs_avail s \<Longrightarrow> (rs_in s @ ys) ! rs_pos s = rs_in s ! rs_pos s" by (simp add: nth_append rs_avail_def)
  have sg: "1537 \<le> rs_avail s \<Longrightarrow> seg (rs_in s @ ys) (rs_pos s + 1) 1536 = seg (rs_in s) (rs_pos s + 1) 1536"
    by (simp add: seg_append_le rs_avail_def)
  consider (wait) "s1 = s" "\<not> ok" | (first) "rs_state s = RTMP_WANT_C0C1" "1537 \<le> rs_avail s"
    | (second) "rs_state s \<noteq> RTMP_WANT_C0C1" "1536 \<le> rs_avail s"
    using assms(1) by (auto simp: do_handshake_def split: if_splits)
  then show ?thesis
  proof cases
    case wait
    then show ?thesis by simp
  next
    case first
    then have "0 < rs_avail s" by simp
    note hd = hd [OF this] and sg = sg [OF first(2)]
    show ?thesis
    proof (cases "rs_in s ! rs_pos s = 3")
      case True
      have "do_handshake (rs_more s ys) = (rs_more (s\<lparr> rs_to_peer := rs_to_peer s @ handshake_reply (seg (rs_in s) (rs_pos s + 1) 1536),
          rs_pos := rs_pos s + 1537, rs_saw_c0c1 := True, rs_state := RTMP_WANT_C2 \<rparr>) ys, True)"
        using first True hd sg av by (simp add: do_handshake_def) (simp add: rs_more_def)
      moreover have "do_handshake s = (s\<lparr> rs_to_peer := rs_to_peer s @ handshake_reply (seg (rs_in s) (rs_pos s + 1) 1536),
          rs_pos := rs_pos s + 1537, rs_saw_c0c1 := True, rs_state := RTMP_WANT_C2 \<rparr>, True)"
        using first True by (simp add: do_handshake_def)
      ultimately show ?thesis using assms(1) by simp
    next
      case False
      have "do_handshake (rs_more s ys) = rs_fail (rs_more s ys) ''unsupported RTMP version''"
        using first False hd av by (simp add: do_handshake_def)
      moreover have "do_handshake s = rs_fail s ''unsupported RTMP version''" using first False by (simp add: do_handshake_def)
      ultimately show ?thesis using assms(1) first(1) by (auto simp: rs_fail_def rs_more_def)
    qed
  next
    case second
    then show ?thesis using assms(1) av by (auto simp: do_handshake_def rs_more_def)
  qed
qed

lemma parser_step_waits:
  assumes "parser_step s = (s1, False)" "rs_state s1 \<noteq> RTMP_DEAD"
  shows "rs_state s1 = rs_state s \<and> rs_pos s1 = rs_pos s"
proof (cases "rs_state s = RTMP_CHUNKS")
  case True
  then have p: "parse_chunks s = (s1, False)" using assms(1) by (simp add: parser_step_def)
  then show ?thesis
  proof (cases rule: parse_chunks_cases)
    case (commit fmt csid hdr c pos t k)
    from commit(10) have "rs_state s1 = RTMP_DEAD" by (cases rule: chunk_commit_cases) (auto split: if_splits dest: on_message_dead)
    then show ?thesis using assms(2) by simp
  qed (use assms(2) in auto)
qed (use assms in \<open>auto simp: parser_step_def do_handshake_def rs_fail_def split: if_splits\<close>)

lemma parser_step_more:
  assumes "parser_step s = (s1, ok)" "rs_state s \<noteq> RTMP_DEAD" "rs_pos s \<le> length (rs_in s)"
  shows "parser_step (rs_more s ys) = (if ok \<or> rs_state s1 = RTMP_DEAD then (rs_more s1 ys, ok) else parser_step (rs_more s1 ys))"
proof -
  have st: "rs_state (rs_more s1 ys) = rs_state s" if "\<not> (ok \<or> rs_state s1 = RTMP_DEAD)"
    using parser_step_waits [of s s1] assms(1) that by simp
  show ?thesis
  proof (cases "rs_state s = RTMP_CHUNKS")
    case True
    then have "parse_chunks s = (s1, ok)" using assms(1) by (simp add: parser_step_def)
    from parse_chunks_more [OF this assms(2), of ys] show ?thesis using True st by (simp add: parser_step_def)
  next
    case False
    then have "do_handshake s = (s1, ok)" using assms(1) by (simp add: parser_step_def)
    from do_handshake_more [OF this assms(3), of ys] show ?thesis
      using False st assms(2) by (cases "ok \<or> rs_state s1 = RTMP_DEAD") (auto simp: parser_step_def)
  qed
qed

lemma run_parser_more:
  assumes "run_parser s = (s1, ok)" "rs_owner A B s" "rs_pos s \<le> length (rs_in s)"
  shows "run_parser (rs_more s ys) = (if ok then run_parser (rs_more s1 ys) else (rs_more s1 ys, False))
    \<and> rs_in s1 = rs_in s \<and> rs_pos s1 \<le> length (rs_in s) \<and> rs_owner A B s1 \<and> rs_started s1 = rs_started s \<and> rs_now s1 = rs_now s
    \<and> ok = (rs_state s1 \<noteq> RTMP_DEAD)"
  using assms
proof (induction s arbitrary: s1 ok rule: run_parser.induct)
  case (1 s)
  show ?case
  proof (cases "rs_state s = RTMP_DEAD")
    case True
    then have "run_parser s = (s, False)" "run_parser (rs_more s ys) = (rs_more s ys, False)" by (simp_all add: run_parser.simps)
    then show ?thesis using True 1(2,3,4) by auto
  next
    case alive: False
    obtain t r where st: "parser_step s = (t, r)" by (metis surj_pair)
    note eq = 1(2) [unfolded run_parser.simps [of s] st prod.case]
    note mv = parser_step_moves [OF st]
    have o: "rs_owner A B t" by (rule owner.step_keeps [OF 1(3) st])
    have np: "\<not> rs_publish_pending t" using o by (simp add: rs_owner_def)
    have pos: "rs_pos t \<le> length (rs_in t)" using mv 1(4) by (cases "rs_pos s = rs_pos t") auto
    note more = parser_step_more [OF st alive 1(4), of ys]
    show ?thesis
    proof (cases r)
      case True
      then have go: "\<not> (rs_publish_pending t \<or> rs_pos t = rs_pos s)" using np mv by auto
      have run: "run_parser t = (s1, ok)" using eq alive True go by simp
      have "run_parser (rs_more s ys) = run_parser (rs_more t ys)"
        using more True alive go by (simp add: run_parser.simps [of "rs_more s ys"])
      then show ?thesis using 1(1) [OF alive st [symmetric] _ go run o pos] True mv by auto
    next
      case False
      then have e: "s1 = t" "ok = (rs_state t \<noteq> RTMP_DEAD)" using eq alive by auto
      show ?thesis
      proof (cases ok)
        case ok: True
        note w = parser_step_waits [of s t] st False e ok
        have "run_parser (rs_more s ys) = run_parser (rs_more t ys)"
          using more False e ok w alive
          by (cases "parser_step (rs_more t ys)") (simp add: run_parser.simps [of "rs_more s ys"] run_parser.simps [of "rs_more t ys"])
        then show ?thesis using e ok mv o pos by simp
      next
        case dead: False
        then have "run_parser (rs_more s ys) = (rs_more t ys, False)"
          using more False e alive by (simp add: run_parser.simps [of "rs_more s ys"])
        then show ?thesis using e dead mv o pos by simp
      qed
    qed
  qed
qed

section \<open>Reads\<close>

text \<open>The reads of a socket, until one ends the session.\<close>

fun rs_feeds :: "rtmp_session \<Rightarrow> bytes list \<Rightarrow> int \<Rightarrow> rtmp_session \<times> bool" where
  "rs_feeds s [] now = (s, True)"
| "rs_feeds s (b # bs) now = (let (s1, ok) = rs_feed s b now in if ok then rs_feeds s1 bs now else (s1, False))"

definition rs_clock :: "rtmp_session \<Rightarrow> int \<Rightarrow> rtmp_session" where
  "rs_clock s now = s\<lparr> rs_started := (if rs_started s = 0 then now else rs_started s), rs_now := now \<rparr>"

lemma rs_feed_owner: "rs_owner A B s \<Longrightarrow> rs_state s \<noteq> RTMP_DEAD \<Longrightarrow> rs_feed s buf now = run_parser (rs_more (rs_clock s now) buf)"
  by (simp add: rs_feed_def rs_owner_def rs_clock_def rs_more_def Let_def)

lemma rs_clock_owner: "rs_owner A B (rs_more (rs_clock s now) buf) = rs_owner A B s"
  by (simp add: rs_owner_def rs_clock_def rs_more_def)

lemma rs_clock_fields: "rs_in (rs_clock s now) = rs_in s" "rs_pos (rs_clock s now) = rs_pos s" "rs_state (rs_clock s now) = rs_state s"
  by (simp_all add: rs_clock_def)

lemma rs_clock_settled: "rs_started s = (if t = 0 then now else t) \<Longrightarrow> rs_now s = now \<Longrightarrow> rs_clock s now = s"
  by (simp add: rs_clock_def)

lemma rs_feeds_concat:
  assumes "rs_feeds s bs now = (s1, ok)" "bs \<noteq> []" "rs_owner A B s" "rs_state s \<noteq> RTMP_DEAD" "rs_pos s \<le> length (rs_in s)"
  shows "\<exists>ys. rs_feed s (concat bs) now = (if ok then (s1, True) else (rs_more s1 ys, False))"
  using assms
proof (induction bs arbitrary: s)
  case (Cons b bs)
  let ?t = "rs_more (rs_clock s now) b"
  obtain t ok1 where f: "rs_feed s b now = (t, ok1)" by (metis surj_pair)
  have run: "run_parser ?t = (t, ok1)" using f rs_feed_owner [OF Cons.prems(3,4)] by simp
  have o: "rs_owner A B ?t" using Cons.prems(3) by (simp add: rs_clock_owner)
  have p: "rs_pos ?t \<le> length (rs_in ?t)" using Cons.prems(5) by (simp add: rs_clock_fields)
  note m = run_parser_more [OF run o p]
  have whole: "rs_feed s (concat (b # bs)) now = run_parser (rs_more ?t (concat bs))"
    using rs_feed_owner [OF Cons.prems(3,4)] by (simp add: more_more)
  show ?case
  proof (cases ok1)
    case False
    then show ?thesis using Cons.prems(1) f whole m [of "concat bs"] by auto
  next
    case ok1: True
    then have alive: "rs_state t \<noteq> RTMP_DEAD" using m by simp
    have rest: "rs_feeds t bs now = (s1, ok)" using Cons.prems(1) f ok1 by simp
    show ?thesis
    proof (cases "bs = []")
      case True
      then show ?thesis using rest f ok1 by simp
    next
      case False
      have "rs_started t = (if rs_started s = 0 then now else rs_started s) \<and> rs_now t = now" using m by (simp add: rs_clock_def rs_more_def)
      then have settled: "rs_clock t now = t" using rs_clock_settled [of t "rs_started s" now] by simp
      have "rs_feed t (concat bs) now = run_parser (rs_more ?t (concat bs))"
        using rs_feed_owner [of A B t] m alive settled ok1 by simp
      moreover have "\<exists>ys. rs_feed t (concat bs) now = (if ok then (s1, True) else (rs_more s1 ys, False))"
        using Cons.IH [OF rest False _ alive] m by simp
      ultimately show ?thesis using whole by simp
    qed
  qed
qed simp

section \<open>A message on the wire\<close>

text \<open>How a peer writes a message: a format 0 header, the payload in pieces of the announced chunk
  size, and a format 3 header before every piece but the first; a timestamp that does not fit
  24 bits is repeated behind every header.\<close>

definition enc_ext :: "nat \<Rightarrow> bytes" where
  "enc_ext ts = (if ts \<ge> 0xffffff then be_bytes 4 ts else [])"

function enc_rest :: "nat \<Rightarrow> nat \<Rightarrow> nat \<Rightarrow> bytes \<Rightarrow> bytes" where
  "enc_rest z csid ts p =
     (if p = [] \<or> z = 0 then [] else byte_of (192 + csid) # enc_ext ts @ take z p @ enc_rest z csid ts (drop z p))"
  by pat_completeness auto
termination
  by (relation "measure (\<lambda>(z, c, t, p). length p)") auto

declare enc_rest.simps [simp del]

definition enc_msg :: "nat \<Rightarrow> nat \<Rightarrow> nat \<Rightarrow> nat \<Rightarrow> nat \<Rightarrow> bytes \<Rightarrow> bytes" where
  "enc_msg z csid ts type sid p =
     byte_of csid # be_bytes 3 (min ts 0xffffff) @ be_bytes 3 (length p) @ [byte_of type] @ le_bytes 4 sid @ enc_ext ts
     @ take z p @ enc_rest z csid ts (drop z p)"

definition enc_stream :: "nat \<Rightarrow> nat \<Rightarrow> nat \<Rightarrow> nat \<Rightarrow> bytes \<Rightarrow> chunk_stream" where
  "enc_stream ts type sid len acc =
     \<lparr> cs_ts = ts, cs_delta = 0, cs_len = len, cs_type = type, cs_sid = sid, cs_ext = (ts \<ge> 0xffffff), cs_acc = acc \<rparr>"

lemma drop_length_eq: "drop h p = d \<Longrightarrow> d \<noteq> [] \<Longrightarrow> length p = h + length d"
  by (metis drop_all le_add_diff_inverse length_drop nat_le_linear)

lemma seg_drop: "drop h p = d \<Longrightarrow> seg p (h + k) n = take n (drop k d)" "drop h p = d \<Longrightarrow> seg p h n = take n d"
  by (auto simp: seg_def add.commute)

lemma nth_drop_eq: "drop h p = d \<Longrightarrow> d \<noteq> [] \<Longrightarrow> p ! (h + k) = d ! k"
  by (metis drop_all le_cases nth_drop)

lemma drop_past: "drop a xs = u @ v \<Longrightarrow> length u = n \<Longrightarrow> drop (a + n) xs = v"
  by (metis add.commute append_eq_conv_conj drop_drop)

lemma seg_mid: "length u = a \<Longrightarrow> length v = n \<Longrightarrow> seg (u @ v @ w) a n = v"
  by (simp add: seg_def)

lemma enc_ext_length: "length (enc_ext ts) = (if ts \<ge> 0xffffff then 4 else 0)"
  by (simp add: enc_ext_def)

lemma chunk_head_first:
  assumes d: "drop h p = be_bytes 3 (min ts 0xffffff) @ be_bytes 3 len @ [byte_of type] @ le_bytes 4 sid @ enc_ext ts @ r"
    and b: "ts < 2 ^ 32" "len < 2 ^ 24" "type < 256" "sid < 2 ^ 32"
  shows "chunk_head c p h 0 = Some (enc_stream ts type sid len (cs_acc c), h + 11 + length (enc_ext ts))"
proof -
  have len: "length p = h + 11 + length (enc_ext ts) + length r" using drop_length_eq [OF d] by simp
  have t: "be_val (seg p h 3) = min ts 0xffffff" using seg_drop(2) [OF d, of 3] by (simp add: enc_simps)
  have l: "be_val (seg p (h + 3) 3) = len" using seg_drop(1) [OF d, of 3 3] b(2) by (simp add: enc_simps)
  have y: "unat (p ! (h + 6)) = type" using nth_drop_eq [OF d, of 6] b(3) by (simp add: nth_append)
  have s: "le_val (seg p (h + 7) 4) = sid" using seg_drop(1) [OF d, of 7 4] b(4) by (simp add: enc_simps)
  have e: "ts \<ge> 0xffffff \<Longrightarrow> be_val (seg p (h + 11) 4) = ts"
    using seg_drop(1) [OF d, of 11 4] b(1) by (simp add: enc_ext_def enc_simps)
  show ?thesis
    using t l y s e len by (auto simp: chunk_head_def chunk_mh_def Let_def enc_stream_def enc_ext_length)
qed

lemma chunk_head_next:
  assumes "drop h p = enc_ext ts @ r" "h \<le> length p" "acc \<noteq> []" "ts < 2 ^ 32"
  shows "chunk_head (enc_stream ts type sid len acc) p h 3 = Some (enc_stream ts type sid len acc, h + length (enc_ext ts))"
proof -
  have "length p = h + length (enc_ext ts) + length r" using assms(1,2) by (metis add.assoc length_append length_drop le_add_diff_inverse)
  then show ?thesis using assms(3) by (auto simp: chunk_head_def chunk_mh_def Let_def enc_stream_def enc_ext_length)
qed

lemma chunk_basic_enc:
  "drop i p = byte_of (64 * fmt + csid) # d \<Longrightarrow> fmt < 4 \<Longrightarrow> 2 \<le> csid \<Longrightarrow> csid < 64 \<Longrightarrow> chunk_basic p i = Some (fmt, csid, 1)"
proof -
  assume d: "drop i p = byte_of (64 * fmt + csid) # d" and f: "fmt < 4" "2 \<le> csid" "csid < 64"
  have "p ! i = byte_of (64 * fmt + csid)" "i < length p" using nth_drop_eq [OF d, of 0] drop_length_eq [OF d] by simp_all
  moreover have "(64 * fmt + csid) mod 256 = 64 * fmt + csid" using f by simp
  moreover have "(64 * fmt + csid) div 64 = fmt" "(64 * fmt + csid) mod 64 = csid" using f(3) by simp_all
  ultimately show ?thesis using f(2) by (simp add: chunk_basic_def Let_def)
qed

text \<open>How the parser goes on behind a message.\<close>

definition msg_end :: "rtmp_session \<times> bool \<Rightarrow> rtmp_session \<times> bool" where
  "msg_end r =
     (let (s, ok) = r
      in if \<not> ok then (s, rs_state s \<noteq> RTMP_DEAD)
         else if length (rs_to_peer s) > RTMP_MAX_OUT_BYTES then rs_fail s ''peer is not reading its responses''
         else if rs_publish_pending s then (rs_compact s, True)
         else run_parser s)"

lemma run_parser_chunk:
  assumes "rs_state s = RTMP_CHUNKS" "parse_chunks s = chunk_commit s1 csid c pos k" "rs_pos s < pos + k"
    and "\<not> rs_publish_pending s1" "length (rs_to_peer (chunk_store s1 csid c pos k)) \<le> RTMP_MAX_OUT_BYTES"
  shows "run_parser s =
    (if chunk_whole s1 c pos k then msg_end (on_message (chunk_store s1 csid c pos k) (c\<lparr> cs_acc := [] \<rparr>) (chunk_acc s1 c pos k))
     else run_parser (chunk_store s1 csid c pos k))"
proof -
  have step: "parser_step s = chunk_commit s1 csid c pos k" using assms(1,2) by (simp add: parser_step_def)
  show ?thesis
  proof (cases "chunk_whole s1 c pos k")
    case False
    then have "chunk_commit s1 csid c pos k = (chunk_store s1 csid c pos k, True)" using assms(5) by (simp add: chunk_commit_def)
    then show ?thesis using step False assms(1,3,4) by (simp add: run_parser.simps [of s])
  next
    case True
    obtain s3 r where m: "on_message (chunk_store s1 csid c pos k) (c\<lparr> cs_acc := [] \<rparr>) (chunk_acc s1 c pos k) = (s3, r)"
      by (metis surj_pair)
    have "rs_pos s3 = pos + k" using on_message_frameD [OF m] by (simp add: rs_frame_def)
    then show ?thesis
      using step True m assms(1,3)
      by (simp add: run_parser.simps [of s] chunk_commit_def msg_end_def rs_fail_def Let_def)
  qed
qed

lemma parse_chunks_commit:
  assumes "chunk_basic (rs_in s) (rs_pos s) = Some (fmt, csid, hdr)" "csid \<le> RTMP_MAX_CHUNK_STREAM"
    and "chunk_head (cs_resize (rs_cs s) csid ! csid) (rs_in s) (rs_pos s + hdr) fmt = Some (c, pos)"
    and "cs_len c \<le> RTMP_MAX_MESSAGE_BYTES" "fmt = 3 \<or> cs_acc c = []"
    and "k = min (cs_len c - length (cs_acc c)) (rs_in_chunk s)" "pos + k \<le> length (rs_in s)" "rs_assembly s + k \<le> RTMP_MAX_ASSEMBLY_BYTES"
  shows "parse_chunks s = chunk_commit (s\<lparr> rs_cs := cs_resize (rs_cs s) csid \<rparr>) csid c pos k"
proof -
  have a: "\<not> csid > RTMP_MAX_CHUNK_STREAM" "\<not> cs_len c > RTMP_MAX_MESSAGE_BYTES" "\<not> (fmt \<noteq> 3 \<and> cs_acc c \<noteq> [])"
    "\<not> pos + k > length (rs_in s)" "\<not> rs_assembly s + k > RTMP_MAX_ASSEMBLY_BYTES" using assms by auto
  have sel: "rs_cs (s\<lparr> rs_cs := cs \<rparr>) = cs" "rs_assembly (s\<lparr> rs_cs := cs \<rparr>) = rs_assembly s" for cs by simp_all
  show ?thesis
    unfolding parse_chunks_def assms(1) option.case prod.case Let_def if_not_P [OF a(1)] sel assms(3) assms(6) [symmetric]
      if_not_P [OF a(2)] if_not_P [OF a(3)] if_not_P [OF a(4)] if_not_P [OF a(5)] ..
qed

text \<open>Without an acknowledgement window a chunk moves only these fields.\<close>

definition rx_state :: "rtmp_session \<Rightarrow> nat \<Rightarrow> chunk_stream \<Rightarrow> nat \<Rightarrow> nat \<Rightarrow> rtmp_session \<Rightarrow> bool" where
  "rx_state s csid c pos m s' = (\<exists>b. s' = s\<lparr> rs_bytes_in := b, rs_cs := (cs_resize (rs_cs s) csid)[csid := c], rs_pos := pos, rs_assembly := m \<rparr>)"

lemma chunk_store_rx:
  assumes "rs_ack_window s = 0" "s1 = s\<lparr> rs_cs := cs_resize (rs_cs s) csid \<rparr>"
  shows "rx_state s csid (c\<lparr> cs_acc := (if chunk_whole s1 c pos k then [] else chunk_acc s1 c pos k) \<rparr>) (pos + k)
      (if chunk_whole s1 c pos k then rs_assembly s + k - length (chunk_acc s1 c pos k) else rs_assembly s + k) (chunk_store s1 csid c pos k)"
  using assms by (auto simp: rx_state_def chunk_store_def chunk_ack_def Let_def)

lemma rx_state_trans:
  assumes "rx_state s csid c pos m s1" "rx_state s1 csid c' pos' m' s2"
  shows "rx_state s csid c' pos' m' s2"
proof -
  have "cs_resize ((cs_resize (rs_cs s) csid)[csid := c]) csid = (cs_resize (rs_cs s) csid)[csid := c]" by (simp add: cs_resize_def)
  then show ?thesis using assms by (auto simp: rx_state_def)
qed

lemma rx_state_fields:
  assumes "rx_state s csid c pos m s'"
  shows "rs_in s' = rs_in s" "rs_pos s' = pos" "rs_assembly s' = m" "rs_state s' = rs_state s" "rs_ack_window s' = rs_ack_window s"
    "rs_publish_pending s' = rs_publish_pending s" "rs_to_peer s' = rs_to_peer s" "rs_in_chunk s' = rs_in_chunk s" "rs_to_flv s' = rs_to_flv s"
    "rs_publishing s' = rs_publishing s" "csid < length (rs_cs s')" "rs_cs s' ! csid = c" "cs_resize (rs_cs s') csid = rs_cs s'"
    "rs_connected s' = rs_connected s"
  using assms by (auto simp: rx_state_def cs_resize_def)

text \<open>A session that has room for a message of \<open>n\<close> more bytes and nothing to interrupt it.\<close>

definition rx_ready :: "rtmp_session \<Rightarrow> nat \<Rightarrow> bool" where
  "rx_ready s n = (rs_state s = RTMP_CHUNKS \<and> rs_ack_window s = 0 \<and> \<not> rs_publish_pending s \<and> length (rs_to_peer s) \<le> RTMP_MAX_OUT_BYTES
     \<and> 0 < rs_in_chunk s \<and> rs_assembly s + n \<le> RTMP_MAX_ASSEMBLY_BYTES)"

lemma rx_chunk:
  assumes ready: "rx_ready s (length q)"
    and head: "chunk_basic (rs_in s) (rs_pos s) = Some (fmt, csid, hdr)" "csid \<le> RTMP_MAX_CHUNK_STREAM"
      "chunk_head (cs_resize (rs_cs s) csid ! csid) (rs_in s) (rs_pos s + hdr) fmt = Some (c, pos)" "fmt = 3 \<or> cs_acc c = []"
    and len: "cs_len c = length (cs_acc c) + length q" "cs_len c \<le> RTMP_MAX_MESSAGE_BYTES"
    and data: "drop pos (rs_in s) = take (rs_in_chunk s) q @ r"
  shows "length q \<le> rs_in_chunk s \<Longrightarrow> \<exists>s2. rx_state s csid (c\<lparr> cs_acc := [] \<rparr>) (pos + length q) (rs_assembly s + length q - cs_len c) s2
      \<and> run_parser s = msg_end (on_message s2 (c\<lparr> cs_acc := [] \<rparr>) (cs_acc c @ q))"
    and "rs_in_chunk s < length q \<Longrightarrow> \<exists>s2. rx_state s csid (c\<lparr> cs_acc := cs_acc c @ take (rs_in_chunk s) q \<rparr>) (pos + rs_in_chunk s)
      (rs_assembly s + rs_in_chunk s) s2 \<and> run_parser s = run_parser s2"
proof -
  define k where "k = min (length q) (rs_in_chunk s)"
  define s1 where "s1 = s\<lparr> rs_cs := cs_resize (rs_cs s) csid \<rparr>"
  have b: "1 \<le> hdr" "rs_pos s + hdr \<le> pos" "pos \<le> length (rs_in s)"
    using chunk_basic_bounds [OF head(1)] chunk_head_bounds [OF head(3)] by auto
  have tk: "take (rs_in_chunk s) q = take k q" "length (take k q) = k" by (simp_all add: k_def min_def)
  then have n: "pos + k \<le> length (rs_in s)" using data b(3) by (metis add_le_cancel_left le_add_diff_inverse length_append length_drop le_add1)
  have acc: "chunk_acc s1 c pos k = cs_acc c @ take k q"
    using data tk by (simp add: chunk_acc_def seg_def s1_def)
  have whole: "chunk_whole s1 c pos k = (length q \<le> rs_in_chunk s)" using acc tk len(1) by (auto simp: chunk_whole_def k_def)
  have step: "parse_chunks s = chunk_commit s1 csid c pos k"
  proof -
    have "rs_assembly s + k \<le> RTMP_MAX_ASSEMBLY_BYTES" "k = min (cs_len c - length (cs_acc c)) (rs_in_chunk s)"
      using ready len(1) by (auto simp: k_def rx_ready_def)
    then show ?thesis unfolding s1_def using parse_chunks_commit [OF head(1-3) len(2) head(4) _ n] by blast
  qed
  have rx: "rx_state s csid (c\<lparr> cs_acc := (if chunk_whole s1 c pos k then [] else chunk_acc s1 c pos k) \<rparr>) (pos + k)
      (if chunk_whole s1 c pos k then rs_assembly s + k - length (chunk_acc s1 c pos k) else rs_assembly s + k) (chunk_store s1 csid c pos k)"
    using chunk_store_rx [OF _ s1_def] ready by (simp add: rx_ready_def)
  note run = run_parser_chunk [OF _ step, unfolded whole acc]
  have go: "rs_state s = RTMP_CHUNKS" "rs_pos s < pos + k" "\<not> rs_publish_pending s1" "length (rs_to_peer (chunk_store s1 csid c pos k)) \<le> RTMP_MAX_OUT_BYTES"
    using ready b rx_state_fields [OF rx] by (auto simp: rx_ready_def s1_def)
  show "length q \<le> rs_in_chunk s \<Longrightarrow> \<exists>s2. rx_state s csid (c\<lparr> cs_acc := [] \<rparr>) (pos + length q) (rs_assembly s + length q - cs_len c) s2
      \<and> run_parser s = msg_end (on_message s2 (c\<lparr> cs_acc := [] \<rparr>) (cs_acc c @ q))"
  proof -
    assume l: "length q \<le> rs_in_chunk s"
    then have "k = length q" by (simp add: k_def)
    then show ?thesis using run [OF go] rx l whole acc len(1) by (auto intro: exI [of _ "chunk_store s1 csid c pos k"])
  qed
  show "rs_in_chunk s < length q \<Longrightarrow> \<exists>s2. rx_state s csid (c\<lparr> cs_acc := cs_acc c @ take (rs_in_chunk s) q \<rparr>) (pos + rs_in_chunk s)
      (rs_assembly s + rs_in_chunk s) s2 \<and> run_parser s = run_parser s2"
  proof -
    assume l: "rs_in_chunk s < length q"
    then have "k = rs_in_chunk s" by (simp add: k_def)
    then show ?thesis using run [OF go] rx l whole acc by (auto intro: exI [of _ "chunk_store s1 csid c pos k"])
  qed
qed

lemma enc_rest_runs:
  assumes "rx_ready s (length q)" "2 \<le> csid" "csid < 64" "ts < 2 ^ 32" "acc \<noteq> []" "q \<noteq> []"
    and "csid < length (rs_cs s)" "rs_cs s ! csid = enc_stream ts type sid (length acc + length q) acc"
    and "length acc + length q \<le> RTMP_MAX_MESSAGE_BYTES"
    and "drop (rs_pos s) (rs_in s) = enc_rest (rs_in_chunk s) csid ts q @ rest"
  shows "\<exists>s2. rx_state s csid (enc_stream ts type sid (length acc + length q) []) (rs_pos s + length (enc_rest (rs_in_chunk s) csid ts q))
        (rs_assembly s - length acc) s2
      \<and> run_parser s = msg_end (on_message s2 (enc_stream ts type sid (length acc + length q) []) (acc @ q))"
  using assms
proof (induction "length q" arbitrary: s acc q rule: less_induct)
  case less
  let ?z = "rs_in_chunk s" and ?c = "enc_stream ts type sid (length acc + length q) acc"
  have z: "0 < ?z" using less.prems(1) by (simp add: rx_ready_def)
  have e: "enc_rest ?z csid ts q = byte_of (192 + csid) # enc_ext ts @ take ?z q @ enc_rest ?z csid ts (drop ?z q)"
    using less.prems(6) z by (simp add: enc_rest.simps [of ?z csid ts q])
  have d: "drop (rs_pos s) (rs_in s) = byte_of (64 * 3 + csid) # enc_ext ts @ take ?z q @ enc_rest ?z csid ts (drop ?z q) @ rest"
    using less.prems(10) e by simp
  have b: "chunk_basic (rs_in s) (rs_pos s) = Some (3, csid, 1)" by (rule chunk_basic_enc [OF d _ less.prems(2,3)]) simp
  have d1: "drop (rs_pos s + 1) (rs_in s) = enc_ext ts @ take ?z q @ enc_rest ?z csid ts (drop ?z q) @ rest"
    using drop_past [of _ _ "[byte_of (64 * 3 + csid)]" _ 1] d by simp
  have l1: "rs_pos s + 1 \<le> length (rs_in s)" using drop_length_eq [OF d] by simp
  have rs: "cs_resize (rs_cs s) csid ! csid = ?c" using less.prems(7,8) by (simp add: cs_resize_def)
  have h: "chunk_head (cs_resize (rs_cs s) csid ! csid) (rs_in s) (rs_pos s + 1) 3 = Some (?c, rs_pos s + 1 + length (enc_ext ts))"
    using chunk_head_next [OF d1 l1 less.prems(5,4)] rs by simp
  have d2: "drop (rs_pos s + 1 + length (enc_ext ts)) (rs_in s) = take ?z q @ enc_rest ?z csid ts (drop ?z q) @ rest"
    by (rule drop_past [OF d1 refl])
  have c: "cs_acc ?c = acc" "cs_len ?c = length acc + length q" "?c\<lparr> cs_acc := x \<rparr> = enc_stream ts type sid (length acc + length q) x" for x
    by (simp_all add: enc_stream_def)
  have s8: "csid \<le> RTMP_MAX_CHUNK_STREAM" using less.prems(3) by (simp add: RTMP_MAX_CHUNK_STREAM_def)
  note rx = rx_chunk [OF less.prems(1) b s8 h, unfolded c, OF _ refl less.prems(9) d2]
  show ?case
  proof (cases "length q \<le> ?z")
    case True
    then have "enc_rest ?z csid ts (drop ?z q) = []" by (simp add: enc_rest.simps)
    then have pos: "rs_pos s + length (enc_rest ?z csid ts q) = rs_pos s + 1 + length (enc_ext ts) + length q" using e True by simp
    show ?thesis unfolding pos using rx(1) True by simp
  next
    case False
    then obtain s2 where s2: "rx_state s csid (enc_stream ts type sid (length acc + length q) (acc @ take ?z q)) (rs_pos s + 1 + length (enc_ext ts) + ?z)
        (rs_assembly s + ?z) s2" "run_parser s = run_parser s2" using rx(2) by auto
    note f = rx_state_fields [OF s2(1)]
    let ?q = "drop ?z q" and ?a = "acc @ take ?z q"
    have lq: "length ?q < length q" "?q \<noteq> []" "length ?a + length ?q = length acc + length q" "?a @ ?q = acc @ q" "?a \<noteq> []"
      using False z less.prems(5) by auto
    have rd: "rx_ready s2 (length ?q)" using less.prems(1) f False by (simp add: rx_ready_def)
    have "drop (rs_pos s2) (rs_in s2) = enc_rest (rs_in_chunk s2) csid ts ?q @ rest"
      using drop_past [OF d2, of ?z] f False by simp
    then obtain s3 where s3: "rx_state s2 csid (enc_stream ts type sid (length acc + length q) []) (rs_pos s2 + length (enc_rest (rs_in_chunk s2) csid ts ?q))
        (rs_assembly s2 - length ?a) s3" "run_parser s2 = msg_end (on_message s3 (enc_stream ts type sid (length acc + length q) []) (acc @ q))"
      using less.hyps [OF lq(1) rd less.prems(2,3,4) lq(5,2)] f less.prems(9) lq(3,4) by metis
    have "rs_pos s2 + length (enc_rest (rs_in_chunk s2) csid ts ?q) = rs_pos s + length (enc_rest ?z csid ts q)"
      "rs_assembly s2 - length ?a = rs_assembly s - length acc" using f e False by simp_all
    then show ?thesis using s3 s2(2) rx_state_trans [OF s2(1) s3(1)] by auto
  qed
qed

lemma enc_msg_runs:
  assumes "rx_ready s (length p)" "2 \<le> csid" "csid < 64" "ts < 2 ^ 32" "type < 256" "sid < 2 ^ 32" "p \<noteq> []"
    and "csid < length (rs_cs s) \<Longrightarrow> cs_acc (rs_cs s ! csid) = []" "length p \<le> RTMP_MAX_MESSAGE_BYTES"
    and "drop (rs_pos s) (rs_in s) = enc_msg (rs_in_chunk s) csid ts type sid p @ rest"
  shows "\<exists>s2. rx_state s csid (enc_stream ts type sid (length p) []) (rs_pos s + length (enc_msg (rs_in_chunk s) csid ts type sid p)) (rs_assembly s) s2
      \<and> run_parser s = msg_end (on_message s2 (enc_stream ts type sid (length p) []) p)"
proof -
  let ?z = "rs_in_chunk s" and ?c = "enc_stream ts type sid (length p) []"
  let ?R = "enc_rest ?z csid ts (drop ?z p)"
  let ?h = "be_bytes 3 (min ts 0xffffff) @ be_bytes 3 (length p) @ [byte_of type] @ le_bytes 4 sid @ enc_ext ts"
  have d: "drop (rs_pos s) (rs_in s) = byte_of (64 * 0 + csid) # ?h @ take ?z p @ ?R @ rest"
    using assms(10) by (simp add: enc_msg_def)
  have b: "chunk_basic (rs_in s) (rs_pos s) = Some (0, csid, 1)" by (rule chunk_basic_enc [OF d _ assms(2,3)]) simp
  have d1: "drop (rs_pos s + 1) (rs_in s) = be_bytes 3 (min ts 0xffffff) @ be_bytes 3 (length p) @ [byte_of type] @ le_bytes 4 sid @ enc_ext ts
      @ take ?z p @ ?R @ rest"
    using drop_past [of _ _ "[byte_of csid]" _ 1] d by simp
  have idle: "cs_acc (cs_resize (rs_cs s) csid ! csid) = []"
    using assms(8) by (cases "csid < length (rs_cs s)") (auto simp: cs_resize_def nth_append cs_new_def)
  have len: "length p < 2 ^ 24" using assms(9) by (simp add: RTMP_MAX_MESSAGE_BYTES_def)
  let ?pos = "rs_pos s + 1 + 11 + length (enc_ext ts)"
  have h: "chunk_head (cs_resize (rs_cs s) csid ! csid) (rs_in s) (rs_pos s + 1) 0 = Some (?c, ?pos)"
    using chunk_head_first [OF d1 assms(4) len assms(5,6)] idle by simp
  have "length ?h = 11 + length (enc_ext ts)" by simp
  then have d2: "drop ?pos (rs_in s) = take ?z p @ ?R @ rest"
    using drop_past [of "rs_pos s + 1" "rs_in s" ?h "take ?z p @ ?R @ rest"] d1 by (simp only: append.assoc add.assoc)
  have c: "cs_acc ?c = []" "cs_len ?c = length p" "?c\<lparr> cs_acc := x \<rparr> = enc_stream ts type sid (length p) x" for x
    by (simp_all add: enc_stream_def)
  have s8: "csid \<le> RTMP_MAX_CHUNK_STREAM" using assms(3) by (simp add: RTMP_MAX_CHUNK_STREAM_def)
  have lm: "length (enc_msg ?z csid ts type sid p) = 12 + length (enc_ext ts) + length (take ?z p) + length ?R" by (simp add: enc_msg_def)
  note rx = rx_chunk [OF assms(1) b s8 h, unfolded c, OF _ _ assms(9) d2]
  show ?thesis
  proof (cases "length p \<le> ?z")
    case True
    then have "?R = []" by (simp add: enc_rest.simps)
    then have pos: "rs_pos s + length (enc_msg ?z csid ts type sid p) = ?pos + length p" using lm True by simp
    show ?thesis unfolding pos using rx(1) True by simp
  next
    case False
    then obtain s2 where s2: "rx_state s csid (enc_stream ts type sid (length p) (take ?z p)) (?pos + ?z) (rs_assembly s + ?z) s2"
      "run_parser s = run_parser s2" using rx(2) by auto
    note f = rx_state_fields [OF s2(1)]
    have z: "0 < ?z" using assms(1) by (simp add: rx_ready_def)
    have lq: "take ?z p \<noteq> []" "drop ?z p \<noteq> []" "length (take ?z p) + length (drop ?z p) = length p" "take ?z p @ drop ?z p = p"
      using False z assms(7) by auto
    have rd: "rx_ready s2 (length (drop ?z p))" using assms(1) f False by (simp add: rx_ready_def)
    have "drop (?pos + ?z) (rs_in s) = ?R @ rest"
      using drop_past [OF d2, of ?z] False by simp
    then have "drop (rs_pos s2) (rs_in s2) = enc_rest (rs_in_chunk s2) csid ts (drop ?z p) @ rest" using f by simp
    then obtain s3 where s3: "rx_state s2 csid (enc_stream ts type sid (length p) []) (rs_pos s2 + length (enc_rest (rs_in_chunk s2) csid ts (drop ?z p)))
        (rs_assembly s2 - length (take ?z p)) s3" "run_parser s2 = msg_end (on_message s3 (enc_stream ts type sid (length p) []) p)"
      using enc_rest_runs [OF rd assms(2,3,4) lq(1,2)] f assms(9) lq(3,4) by metis
    have e: "rs_pos s2 + length (enc_rest (rs_in_chunk s2) csid ts (drop ?z p)) = rs_pos s + length (enc_msg ?z csid ts type sid p)"
      "rs_assembly s2 - length (take ?z p) = rs_assembly s" using f lm False by simp_all
    show ?thesis using s3 s2(2) rx_state_trans [OF s2(1) s3(1)] e by auto
  qed
qed

text \<open>Reading one FLV tag back: type, timestamp, body, and what follows.\<close>

definition flv_untag :: "bytes \<Rightarrow> (nat \<times> nat \<times> bytes \<times> bytes) option" where
  "flv_untag d =
     (let n = be_val (seg d 1 3); ts = be_val (seg d 4 3) + 2 ^ 24 * unat (d ! 7); body = seg d 11 n
      in if length d < 15 + n \<or> seg d 8 3 \<noteq> [0, 0, 0] \<or> be_val (seg d (11 + n) 4) \<noteq> 11 + n then None
         else Some (unat (d ! 0), ts, body, drop (15 + n) d))"

lemma flv_untag_tag:
  assumes "type < 256" "ts < 2 ^ 32" "length p < 2 ^ 24"
  shows "flv_untag (flv_tag type ts p @ rest) = Some (type, ts, p, rest)"
proof -
  let ?d = "flv_tag type ts p @ rest" and ?t = "[byte_of type]" and ?l = "be_bytes 3 (length p)" and ?s = "be_bytes 3 ts"
    and ?x = "[byte_of (ts div 2 ^ 24)]" and ?o = "[0, 0, 0] :: bytes" and ?e = "be_bytes 4 (length p + 11)"
  have d: "?d = ?t @ ?l @ ?s @ ?x @ ?o @ p @ ?e @ rest" by (simp add: flv_tag_def)
  have "seg ?d 1 3 = ?l" "seg ?d 4 3 = ?s" "seg ?d 8 3 = ?o" "seg ?d 11 (length p) = p" "seg ?d (11 + length p) 4 = ?e"
    using seg_mid [of ?t 1 ?l 3] seg_mid [of "?t @ ?l" 4 ?s 3] seg_mid [of "?t @ ?l @ ?s @ ?x" 8 ?o 3]
      seg_mid [of "?t @ ?l @ ?s @ ?x @ ?o" 11 p] seg_mid [of "?t @ ?l @ ?s @ ?x @ ?o @ p" "11 + length p" ?e 4] unfolding d by simp_all
  moreover have "be_val ?l = length p" "be_val ?s + 2 ^ 24 * (ts div 2 ^ 24) = ts" "be_val ?e = 11 + length p"
    using assms(3) by (simp_all add: enc_simps)
  moreover have "?d ! 7 = byte_of (ts div 2 ^ 24)"
    using nth_append_length [of "?t @ ?l @ ?s" "byte_of (ts div 2 ^ 24)" "?o @ p @ ?e @ rest"] unfolding d by simp
  moreover have "unat (byte_of (ts div 2 ^ 24)) = ts div 2 ^ 24" using assms(2) by simp
  moreover have "drop (15 + length p) ?d = rest" using drop_past [of 0 ?d "?t @ ?l @ ?s @ ?x @ ?o @ p @ ?e" rest "15 + length p"] d by simp
  moreover have "unat (?d ! 0) = type" unfolding d using assms(1) by simp
  moreover have "length ?d = 15 + length p + length rest" unfolding d by simp
  ultimately show ?thesis by (simp add: flv_untag_def Let_def)
qed

lemma strip_data_frame_length: "length (strip_data_frame p) \<le> length p"
  by (simp add: strip_data_frame_def)

lemma on_media_publishing:
  assumes "rs_publishing s" "p \<noteq> []"
  shows "rs_to_flv (on_media s type ts p) = rs_to_flv s @ flv_tag type ts (if type = 18 then strip_data_frame p else p)"
    "rs_to_peer (on_media s type ts p) = rs_to_peer s" "rs_state (on_media s type ts p) = rs_state s"
    "rs_in (on_media s type ts p) = rs_in s" "rs_pos (on_media s type ts p) = rs_pos s" "rs_publish_pending (on_media s type ts p) = rs_publish_pending s"
  using assms by (simp_all add: on_media_def write_flv_tag_def Let_def)

lemma run_parser_drained: "rs_state s = RTMP_CHUNKS \<Longrightarrow> rs_pos s = length (rs_in s) \<Longrightarrow> run_parser s = (s, True)"
  by (simp add: run_parser.simps parser_step_def parse_chunks_def chunk_basic_def)

lemma run_parser_wait: "rs_state s = RTMP_CHUNKS \<Longrightarrow> parse_chunks s = (s1, False) \<Longrightarrow> rs_state s1 \<noteq> RTMP_DEAD \<Longrightarrow> run_parser s = (s1, True)"
  by (simp add: run_parser.simps [of s] parser_step_def)

lemma run_parser_step:
  "rs_state s \<noteq> RTMP_DEAD \<Longrightarrow> parser_step s = (s1, True) \<Longrightarrow> \<not> rs_publish_pending s1 \<Longrightarrow> rs_pos s1 \<noteq> rs_pos s \<Longrightarrow>
     run_parser s = run_parser s1"
  by (simp add: run_parser.simps [of s])


section \<open>A publisher\<close>

lemma amf_read_str: "length s < 65536 \<Longrightarrow> length pre = i \<Longrightarrow> amf_read_string (pre @ amf_str s @ r) i = (Some s, i + 3 + length s)"
proof -
  assume l: "length s < 65536" and i: "length pre = i"
  let ?p = "pre @ [AMF_STRING] @ be_bytes 2 (length s) @ str_bytes s @ r"
  have p: "pre @ amf_str s @ r = ?p" by (simp add: amf_str_def)
  have "seg ?p (i + 1) 2 = be_bytes 2 (length s)" using seg_mid [of "pre @ [AMF_STRING]" "i + 1" "be_bytes 2 (length s)" 2] i by simp
  moreover have "seg ?p (i + 3) (length s) = str_bytes s"
    using seg_mid [of "pre @ [AMF_STRING] @ be_bytes 2 (length s)" "i + 3" "str_bytes s" "length s"] i by simp
  moreover have "?p ! i = AMF_STRING" using i by (simp add: nth_append)
  ultimately show ?thesis unfolding p using l i by (simp add: amf_read_string_def enc_simps bytes_str_str_bytes Let_def)
qed

lemma amf_read_num: "d < 2 ^ 64 \<Longrightarrow> length pre = i \<Longrightarrow> amf_read_number (pre @ amf_num d @ r) i = (Some d, i + 9)"
proof -
  assume l: "d < 2 ^ 64" and i: "length pre = i"
  let ?p = "pre @ [AMF_NUMBER] @ be_bytes 8 d @ r"
  have p: "pre @ amf_num d @ r = ?p" by (simp add: amf_num_def)
  have "?p ! i = AMF_NUMBER" "take 8 (drop (i + 1) ?p) = be_bytes 8 d" using i by (simp_all add: nth_append)
  then show ?thesis unfolding p using l i by (simp add: amf_read_number_def be_double_def enc_simps)
qed

lemma amf_skip_null: "length pre = i \<Longrightarrow> amf_skip (pre @ amf_null @ r) i 0 = (True, i + 1)"
  by (simp add: amf_skip.simps [of _ i 0] amf_null_def nth_append amf_markers Let_def)

lemma length_rtmp_msg: "length p \<le> 4096 \<Longrightarrow> length (rtmp_msg csid type sid p) = 12 + length p"
  by (simp add: rtmp_msg_def out_chunks.simps [of csid p] RTMP_OUT_CHUNK_SIZE_def)

lemma length_connect_reply: "length (connect_reply txn) \<le> 400" "length bw_done \<le> 100"
  by (simp_all add: connect_reply_def status_object_def bw_done_def amf_str_def amf_num_def amf_key_def amf_null_def amf_obj_end_def)

definition ex_hello :: bytes where "ex_hello = 3 # replicate 3072 0"
definition ex_connect :: bytes where "ex_connect = amf_str ''connect'' @ amf_num 0 @ amf_null"
definition ex_publish :: bytes where "ex_publish = amf_str ''publish'' @ amf_num 0 @ amf_null @ amf_str ''cam''"

text \<open>A session between messages, before publish, that has taken and owes less than \<open>n\<close> bytes.\<close>

definition rs_calm :: "nat \<Rightarrow> rtmp_session \<Rightarrow> bool" where
  "rs_calm n s = (rs_state s = RTMP_CHUNKS \<and> rs_pos s = length (rs_in s) \<and> rs_ack_window s = 0 \<and> \<not> rs_publish_pending s \<and> \<not> rs_publishing s
     \<and> rs_in_chunk s = 128 \<and> rs_assembly s = 0 \<and> (\<forall>c \<in> set (rs_cs s). cs_acc c = []) \<and> rs_started s = 1
     \<and> length (rs_to_peer s) \<le> n \<and> rs_total_in s \<le> n)"

lemma ex_hello_run: "\<exists>s. rs_feed rs_new ex_hello 1 = (s, True) \<and> rs_calm 4000 s \<and> \<not> rs_connected s"
proof -
  let ?a = "rs_new\<lparr> rs_started := 1, rs_now := 1, rs_total_in := 3073, rs_in := ex_hello \<rparr>"
  have l: "length ex_hello = 3073" "ex_hello ! 0 = 3" by (simp_all add: ex_hello_def)
  have np: "\<not> rs_publish_pending rs_new" "rs_state rs_new = RTMP_WANT_C0C1" "rs_pos rs_new = 0" by (simp_all add: rs_new_def)
  have f: "rs_feed rs_new ex_hello 1 = run_parser ?a"
    by (simp add: rs_feed_def rs_new_def l RTMP_PREPUBLISH_MAX_BYTES_def RTMP_PREPUBLISH_MAX_S_def Let_def)
  let ?b = "?a\<lparr> rs_to_peer := handshake_reply (seg ex_hello 1 1536), rs_pos := 1537, rs_saw_c0c1 := True, rs_state := RTMP_WANT_C2 \<rparr>"
  let ?c = "?b\<lparr> rs_pos := 3073, rs_state := RTMP_CHUNKS \<rparr>"
  have "parser_step ?a = (?b, True)" by (simp add: parser_step_def do_handshake_def rs_avail_def l) (simp add: rs_new_def l)
  then have "run_parser ?a = run_parser ?b" using np by (intro run_parser_step) simp_all
  moreover have "parser_step ?b = (?c, True)" by (simp add: parser_step_def do_handshake_def rs_avail_def l)
  then have "run_parser ?b = run_parser ?c" using np by (intro run_parser_step) simp_all
  moreover have "run_parser ?c = (?c, True)" using l by (simp add: run_parser_drained)
  moreover have "length (handshake_reply (seg ex_hello 1 1536)) = 3073" using l by (simp add: length_handshake_reply buf_simps)
  ultimately show ?thesis unfolding f using l by (simp add: rs_calm_def) (simp add: rs_new_def RTMP_DEFAULT_CHUNK_SIZE_def)
qed

text \<open>One command of the handshake phase.\<close>

lemma calm_feed:
  assumes "rs_calm n s" "n + length (enc_msg 128 3 0 20 0 p) \<le> 262144" "p \<noteq> []"
  shows "\<exists>s2. rs_feed s (enc_msg 128 3 0 20 0 p) 1 = msg_end (on_message s2 (enc_stream 0 20 0 (length p) []) p)
      \<and> rs_calm (n + length (enc_msg 128 3 0 20 0 p)) s2 \<and> rs_connected s2 = rs_connected s"
proof -
  let ?m = "enc_msg 128 3 0 20 0 p" and ?t = "feed_start s (enc_msg 128 3 0 20 0 p) 1"
  have c: "rs_state s = RTMP_CHUNKS" "\<not> rs_publishing s" "rs_started s = 1" "rs_total_in s \<le> n" "rs_in_chunk s = 128" "rs_assembly s = 0"
    "\<And>c. c \<in> set (rs_cs s) \<Longrightarrow> cs_acc c = []" using assms(1) by (simp_all add: rs_calm_def)
  have f: "rs_feed s ?m 1 = run_parser ?t"
    using c assms(2) by (simp add: rs_feed_def feed_start_def Let_def RTMP_PREPUBLISH_MAX_BYTES_def RTMP_PREPUBLISH_MAX_S_def)
  have lp: "length p \<le> length ?m"
  proof -
    have "length q \<le> length (enc_rest z csid ts q)" if "0 < z" for z csid ts q
      using that by (induction z csid ts q rule: enc_rest.induct) (subst enc_rest.simps, fastforce)
    from this [of 128 "drop 128 p" 3 0] show ?thesis by (simp add: enc_msg_def)
  qed
  have rd: "rx_ready ?t (length p)"
    using assms lp by (simp add: rx_ready_def rs_calm_def feed_start_def RTMP_MAX_OUT_BYTES_def RTMP_MAX_ASSEMBLY_BYTES_def)
  have d: "drop (rs_pos ?t) (rs_in ?t) = enc_msg (rs_in_chunk ?t) 3 0 20 0 p @ []" using assms(1) by (simp add: rs_calm_def feed_start_def)
  have idle: "cs_acc (rs_cs ?t ! 3) = []" if "3 < length (rs_cs ?t)" using that c(7) by (simp add: feed_start_def)
  obtain s2 where s2: "rx_state ?t 3 (enc_stream 0 20 0 (length p) []) (rs_pos ?t + length (enc_msg (rs_in_chunk ?t) 3 0 20 0 p)) (rs_assembly ?t) s2"
    "run_parser ?t = msg_end (on_message s2 (enc_stream 0 20 0 (length p) []) p)"
    using enc_msg_runs [OF rd, of 3 0 20 0 "[]"] idle d assms(2,3) lp by (auto simp: RTMP_MAX_MESSAGE_BYTES_def)
  have z: "rs_in_chunk ?t = 128" using c(5) by (simp add: feed_start_def)
  have "rs_calm (n + length ?m) s2 \<and> rs_connected s2 = rs_connected s"
    using s2(1) [unfolded z] assms(1,2) c
    by (auto simp: rx_state_def rs_calm_def feed_start_def cs_resize_def enc_stream_def cs_new_def dest!: subsetD [OF set_update_subset_insert])
  then show ?thesis using f s2(2) by auto
qed

lemma ex_commands:
  "on_command s c ex_connect = on_connect s ex_connect 19 0" "on_command s c ex_publish = on_publish s c ex_publish 19 0"
proof -
  have "amf_read_string ex_connect 0 = (Some ''connect'', 10)" "amf_read_string ex_publish 0 = (Some ''publish'', 10)"
    using amf_read_str [of "''connect''" "[]" 0] amf_read_str [of "''publish''" "[]" 0] by (simp_all add: ex_connect_def ex_publish_def)
  moreover have "amf_read_number ex_connect 10 = (Some 0, 19)" "amf_read_number ex_publish 10 = (Some 0, 19)"
    using amf_read_num [of 0 "amf_str ''connect''" 10 amf_null] amf_read_num [of 0 "amf_str ''publish''" 10 "amf_null @ amf_str ''cam''"]
    by (simp_all add: ex_connect_def ex_publish_def amf_str_def)
  ultimately show "on_command s c ex_connect = on_connect s ex_connect 19 0" "on_command s c ex_publish = on_publish s c ex_publish 19 0"
    by (simp_all add: on_command_def)
qed

lemma ex_connect_run:
  assumes "rs_calm n s" "\<not> rs_connected s" "n \<le> 100000"
  shows "\<exists>s'. rs_feed s (enc_msg 128 3 0 20 0 ex_connect) 1 = (s', True) \<and> rs_calm (n + 1000) s' \<and> rs_connected s'"
proof -
  have l: "length ex_connect = 20" "ex_connect \<noteq> []" by (simp_all add: ex_connect_def amf_str_def amf_num_def amf_null_def)
  then have m: "length (enc_msg 128 3 0 20 0 ex_connect) = 32" by (simp add: enc_msg_def enc_rest.simps enc_ext_def)
  obtain s2 where s2: "rs_feed s (enc_msg 128 3 0 20 0 ex_connect) 1 = msg_end (on_message s2 (enc_stream 0 20 0 (length ex_connect) []) ex_connect)"
    "rs_calm (n + 32) s2" "\<not> rs_connected s2" using calm_feed [OF assms(1) _ l(2)] m assms(2,3) by auto
  have "ex_connect ! 19 = AMF_NULL" "amf_skip ex_connect 19 0 = (True, 20)"
    using amf_skip_null [of "amf_str ''connect'' @ amf_num 0" 19 "[]"] by (simp_all add: ex_connect_def amf_str_def amf_num_def amf_null_def nth_append)
  then have obj: "amf_object_strings ex_connect 19 ''app'' (rs_app s2) ''tcUrl'' [] = (True, rs_app s2, [])"
    by (simp add: amf_object_strings_def l amf_markers)
  have "\<exists>app pw pr peer. on_connect s2 ex_connect 19 0 = (s2\<lparr> rs_connected := True, rs_app := app, rs_password := pw, rs_password_present := pr,
      rs_to_peer := peer \<rparr>, True) \<and> length peer \<le> length (rs_to_peer s2) + 700"
  proof -
    obtain name pw where n: "split_credential (rs_app s2) = (name, pw)" by (metis surj_pair)
    have lc: "length (rtmp_msg 3 20 0 (connect_reply 0)) \<le> 412"
      using length_rtmp_msg [of "connect_reply 0" 3 20 0] length_connect_reply(1) [of 0] by simp
    have "on_connect s2 ex_connect 19 0 = (s2\<lparr> rs_connected := True, rs_app := name, rs_password := (case pw of Some x \<Rightarrow> x | None \<Rightarrow> rs_password s2),
        rs_password_present := (pw \<noteq> None), rs_to_peer := rs_to_peer (fst (on_connect s2 ex_connect 19 0)) \<rparr>, True)"
      using obj n s2(3) by (cases pw) (simp_all add: on_connect_def Let_def send_msg_def)
    moreover have "length (rs_to_peer (fst (on_connect s2 ex_connect 19 0))) \<le> length (rs_to_peer s2) + 700"
      using obj n s2(3) length_connect_reply(2) lc
      by (simp add: on_connect_def Let_def send_msg_def length_rtmp_msg RTMP_OUT_CHUNK_SIZE_def)
    ultimately show ?thesis by blast
  qed
  then obtain app pw pr peer where k: "on_connect s2 ex_connect 19 0 = (s2\<lparr> rs_connected := True, rs_app := app, rs_password := pw,
      rs_password_present := pr, rs_to_peer := peer \<rparr>, True)" "length peer \<le> length (rs_to_peer s2) + 700" by blast
  let ?s = "s2\<lparr> rs_connected := True, rs_app := app, rs_password := pw, rs_password_present := pr, rs_to_peer := peer \<rparr>"
  have calm: "rs_calm (n + 1000) ?s" using s2(2) k(2) by (simp add: rs_calm_def)
  have "on_message s2 (enc_stream 0 20 0 (length ex_connect) []) ex_connect = (?s, True)"
    using k(1) by (simp add: on_message_def enc_stream_def ex_commands(1))
  moreover have "length peer \<le> RTMP_MAX_OUT_BYTES" using s2(2) k(2) assms(3) by (simp add: rs_calm_def RTMP_MAX_OUT_BYTES_def)
  ultimately have "rs_feed s (enc_msg 128 3 0 20 0 ex_connect) 1 = run_parser ?s"
    using s2(1,2) by (simp add: msg_end_def rs_calm_def)
  moreover have "run_parser ?s = (?s, True)" using s2(2) by (intro run_parser_drained) (simp_all add: rs_calm_def)
  ultimately show ?thesis using calm by auto
qed

lemma ex_publish_run:
  assumes "rs_calm n s" "rs_connected s" "n \<le> 100000"
  shows "\<exists>s'. rs_feed s (enc_msg 128 3 0 20 0 ex_publish) 1 = (s', True) \<and> rs_publish_pending s' \<and> rs_state s' = RTMP_CHUNKS
      \<and> rs_in s' = [] \<and> rs_pos s' = 0"
proof -
  have l: "length ex_publish = 26" "ex_publish \<noteq> []" by (simp_all add: ex_publish_def amf_str_def amf_num_def amf_null_def)
  then have m: "length (enc_msg 128 3 0 20 0 ex_publish) = 38" by (simp add: enc_msg_def enc_rest.simps enc_ext_def)
  obtain s2 where s2: "rs_feed s (enc_msg 128 3 0 20 0 ex_publish) 1 = msg_end (on_message s2 (enc_stream 0 20 0 (length ex_publish) []) ex_publish)"
    "rs_calm (n + 38) s2" "rs_connected s2" using calm_feed [OF assms(1) _ l(2)] m assms(2,3) by auto
  have "amf_skip ex_publish 19 0 = (True, 20)" "amf_read_string ex_publish 20 = (Some ''cam'', 26)"
    using amf_skip_null [of "amf_str ''publish'' @ amf_num 0" 19 "amf_str ''cam''"] amf_read_str [of "''cam''" "amf_str ''publish'' @ amf_num 0 @ amf_null" 20 "[]"]
    by (simp_all add: ex_publish_def amf_str_def amf_num_def amf_null_def)
  then have "\<exists>t. on_message s2 (enc_stream 0 20 0 (length ex_publish) []) ex_publish = (t, True) \<and> rs_publish_pending t \<and> rs_to_peer t = rs_to_peer s2
      \<and> rs_state t = RTMP_CHUNKS \<and> rs_in t = rs_in s2 \<and> rs_pos t = rs_pos s2"
    using s2(2,3) by (simp add: on_message_def enc_stream_def ex_commands(2) on_publish_def rs_calm_def split_credential_def take_credential_def)
  then show ?thesis using s2(1,2) assms(3) by (auto simp: msg_end_def rs_calm_def RTMP_MAX_OUT_BYTES_def rs_compact_def)
qed

definition ex_session :: "rs_event list" where
  "ex_session = [Feed ex_hello 1, Feed (enc_msg 128 3 0 20 0 ex_connect) 1, Feed (enc_msg 128 3 0 20 0 ex_publish) 1, Accept]"

lemma ex_session_publishes: "rs_publishing (rs_run ex_session)" "rs_state (rs_run ex_session) = RTMP_CHUNKS" "rs_in (rs_run ex_session) = []"
  "rs_pos (rs_run ex_session) = 0"
proof -
  obtain s1 where s1: "rs_feed rs_new ex_hello 1 = (s1, True)" "rs_calm 4000 s1" "\<not> rs_connected s1" using ex_hello_run by auto
  obtain s2 where s2: "rs_feed s1 (enc_msg 128 3 0 20 0 ex_connect) 1 = (s2, True)" "rs_calm 5000 s2" "rs_connected s2"
    using ex_connect_run [OF s1(2,3)] by auto
  obtain s3 where s3: "rs_feed s2 (enc_msg 128 3 0 20 0 ex_publish) 1 = (s3, True)" "rs_publish_pending s3" "rs_state s3 = RTMP_CHUNKS"
    "rs_in s3 = []" "rs_pos s3 = 0" using ex_publish_run [OF s2(2,3)] by auto
  have "rs_run ex_session = accept_publish s3" using s1(1) s2(1) s3(1) by (simp add: rs_run_def ex_session_def)
  then show "rs_publishing (rs_run ex_session)" "rs_state (rs_run ex_session) = RTMP_CHUNKS" "rs_in (rs_run ex_session) = []"
    "rs_pos (rs_run ex_session) = 0" using s3 by (simp_all add: accept_publish_def write_flv_header_def send_msg_def Let_def)
qed


text \<open>
  The input buffer of a publishing session never shrinks: a read that
  returns leaves the whole buffer in place behind its bytes, although all but
  a partial chunk has been parsed, so the memory of the session grows by every
  byte the publisher sends.  \<open>compact()\<close> is reached only by a parse that stops
  at a publish.
\<close>

theorem rtmp_input_retained:
  assumes "rs_publishing (rs_run es)" "rs_feed (rs_run es) buf now = (s', True)"
  shows "rs_in s' = rs_in (rs_run es) @ buf"
proof -
  have o: "rs_owner (rs_app (rs_run es)) (rs_stream (rs_run es)) (rs_run es)" using assms(1) rs_run_gate [of es] by (auto simp: rs_gate_def rs_owner_def)
  have keep: "rs_in t' = rs_in t" if "run_parser t = (t', True)" "rs_owner A B t" for t t' A B
    using that
  proof (induction t arbitrary: t' rule: run_parser.induct)
    case (1 t)
    obtain u r where st: "parser_step t = (u, r)" by (metis surj_pair)
    have "rs_owner A B u" by (rule owner.step_keeps [OF 1(3) st])
    then show ?case
      using 1(2) [unfolded run_parser.simps [of t] st prod.case] 1(1) [OF _ st [symmetric]] parser_step_moves [OF st]
      by (auto simp: rs_owner_def split: if_splits)
  qed
  have "rs_owner (rs_app (rs_run es)) (rs_stream (rs_run es)) (feed_start (rs_run es) buf now)" using o by (simp add: rs_owner_def feed_start_def)
  from keep [OF rs_feed_runs [OF assms(2)] this] show ?thesis by (simp add: feed_start_def)
qed

theorem rtmp_input_retained_witness:
  "rs_publishing (rs_run ex_session) \<and> (\<exists>s'. rs_feed (rs_run ex_session) [3] 1 = (s', True) \<and> rs_in s' = rs_in (rs_run ex_session) @ [3])"
proof -
  let ?t = "feed_start (rs_run ex_session) [3] 1"
  have b: "chunk_basic [3] 0 = Some (0, 3, 1)" by (simp add: chunk_basic_def Let_def)
  have "parse_chunks ?t = (?t\<lparr> rs_cs := cs_resize (rs_cs ?t) 3 \<rparr>, False)"
    using b ex_session_publishes(3,4) by (simp add: parse_chunks_def feed_start_def chunk_head_def chunk_mh_def RTMP_MAX_CHUNK_STREAM_def Let_def)
  then have "run_parser ?t = (?t\<lparr> rs_cs := cs_resize (rs_cs ?t) 3 \<rparr>, True)"
    by (rule run_parser_wait [rotated]) (use ex_session_publishes(2) in \<open>simp_all add: feed_start_def\<close>)
  then have f: "rs_feed (rs_run ex_session) [3] 1 = (?t\<lparr> rs_cs := cs_resize (rs_cs ?t) 3 \<rparr>, True)"
    using ex_session_publishes(1,2) by (simp add: rs_feed_def feed_start_def Let_def)
  then show ?thesis using rtmp_input_retained [OF ex_session_publishes(1) f] ex_session_publishes(1) by blast
qed

theorem rtmp_publish_gate_witness:
  "rs_publishing (rs_run ex_session) \<and> (\<exists>es1 es2. ex_session = es1 @ Accept # es2 \<and> rs_publish_pending (rs_run es1)
     \<and> rs_connected (rs_run es1) \<and> rs_path (rs_run es1) = rs_path (rs_run ex_session))"
  using rtmp_publish_gate [of ex_session] ex_session_publishes(1) by blast

theorem rtmp_memory_bounds_witness:
  "\<exists>s'. rs_to_peer (rs_run []) = [] \<and> rs_feed (rs_run []) ex_hello 1 = (s', True) \<and> length (rs_to_peer s') \<le> 262144
     \<and> (rs_publish_pending s' \<or> rs_avail s' < 1048594)"
proof -
  obtain s where s: "rs_feed (rs_run []) ex_hello 1 = (s, True)" using ex_hello_run by (auto simp: rs_run_def)
  moreover have "rs_to_peer (rs_run []) = []" by (simp add: rs_run_def rs_new_def)
  ultimately show ?thesis using rtmp_memory_bounds [of "[]" ex_hello 1 s] by blast
qed

end
