(* ===== verification/Mav_Link.thy ===== *)
theory Mav_Link
  imports Key_Db
begin

text \<open>
  One MAVLink link of a port pair (\<open>src/mavlink.cpp\<close>, class \<open>MAVLink\<close>): loading of
  the signing key, the signature policy of \<open>receive_message\<close>, re-signing in
  \<open>send_message\<close>, key rotation by SETUP_SIGNING and the signing timestamp on the
  link and in the key database.

  The parser, the packers and the message catalogue are generated code outside
  the repository: the record \<open>mav_lib\<close> holds the functions the source calls, with
  \<open>'p\<close> for the channel state they keep.  \<open>mav_signing\<close> is the structure the source
  hands them.  Times are microseconds.
\<close>

section \<open>What the generated code provides\<close>

record mav_msg =
  mm_msgid :: nat
  mm_sysid :: "32 word"
  mm_compid :: byte
  mm_seq :: byte
  mm_incompat :: byte
  mm_target :: "32 word"
  mm_payload :: bytes
  mm_signature :: bytes

datatype sign_status = Sign_none | Sign_ok | Sign_bad_signature | Sign_no_streams | Sign_too_many_streams
  | Sign_old_timestamp | Sign_replay

record mav_signing =
  sg_secret :: bytes
  sg_link_id :: nat
  sg_timestamp :: nat
  sg_sign_outgoing :: bool
  sg_last_status :: sign_status

text \<open>
  \<open>ml_parse\<close> is \<open>mavlink_parse_char\<close>: channel state, signing structure as wired, a byte; the
  results are both states, a message that is complete, and whether the \<open>accept_unsigned\<close> callback
  was asked.  \<open>ml_finalize\<close> gives \<open>None\<close> for a length of zero; its optional argument is the
  wide target of \<open>mavlink_finalize_message_buffer_target\<close>.
\<close>

record 'p mav_lib =
  ml_signed :: byte
  ml_target32 :: byte
  ml_heartbeat :: nat
  ml_setup_signing :: nat
  ml_parse :: "'p \<Rightarrow> mav_signing option \<Rightarrow> byte \<Rightarrow> 'p \<times> mav_signing option \<times> mav_msg option \<times> bool"
  ml_min_len :: "mav_msg \<Rightarrow> nat"
  ml_max_len :: "mav_msg \<Rightarrow> nat"
  ml_set_seq :: "'p \<Rightarrow> byte \<Rightarrow> 'p"
  ml_finalize :: "'p \<Rightarrow> mav_signing option \<Rightarrow> mav_msg \<Rightarrow> nat \<Rightarrow> (32 word) option \<Rightarrow> 'p \<times> mav_signing option \<times> mav_msg option"
  ml_frame :: "mav_msg \<Rightarrow> bytes"
  ml_setup :: "mav_msg \<Rightarrow> (64 word) \<times> bytes"
  ml_plain_status :: "32 word \<Rightarrow> byte \<Rightarrow> string \<Rightarrow> bytes"
  ml_status :: "'p \<Rightarrow> mav_signing option \<Rightarrow> 32 word \<Rightarrow> byte \<Rightarrow> string \<Rightarrow> 'p \<times> mav_signing option \<times> bytes"
  ml_show_secs :: "int \<Rightarrow> string"

section \<open>The link\<close>

record 'p mavlink =
  mv_key :: key_entry
  mv_chan :: nat
  mv_key_id :: int
  mv_is_tcp :: bool
  mv_key_loaded :: bool
  mv_got_signed :: bool
  mv_allow_ws :: bool
  mv_sendto :: "((32 word) \<times> (16 word)) option"
  mv_signing :: mav_signing
  mv_last_save :: int
  mv_last_warning :: int
  mv_last_sysid :: "32 word"
  mv_last_compid :: byte
  mv_bad_sigs :: nat
  mv_ws :: bool
  mv_parser :: 'p
  mv_wired :: bool

definition sg_zero :: mav_signing where
  "sg_zero = \<lparr> sg_secret = replicate 32 0, sg_link_id = 0, sg_timestamp = 0, sg_sign_outgoing = False, sg_last_status = Sign_none \<rparr>"

definition SECOND :: int where "SECOND = 1000000"
definition EPOCH_OFFSET :: int where "EPOCH_OFFSET = 1420070400"

text \<open>The signing structure as the channel status refers to it.\<close>

definition mv_sign :: "'p mavlink \<Rightarrow> mav_signing option" where
  "mv_sign m = (if mv_wired m then Some (mv_signing m) else None)"

definition mv_put :: "'p mavlink \<Rightarrow> 'p \<Rightarrow> mav_signing option \<Rightarrow> 'p mavlink" where
  "mv_put m p sg = m\<lparr> mv_parser := p, mv_signing := (case sg of None \<Rightarrow> mv_signing m | Some x \<Rightarrow> x) \<rparr>"

section \<open>Keys and timestamps\<close>

text \<open>\<open>load_key\<close> into the link's entry, which is overwritten also when the magic is wrong.\<close>

definition mv_load_key :: "'db tdb_ops \<Rightarrow> 'db \<Rightarrow> 'p mavlink \<Rightarrow> 'p mavlink \<times> bool" where
  "mv_load_key T db m = (case db_load_key T db (word_of_int (mv_key_id m)) of None \<Rightarrow> (m, False) | Some (ke, ok) \<Rightarrow> (m\<lparr> mv_key := ke \<rparr>, ok))"

definition all_zero_key :: "64 word \<Rightarrow> bytes \<Rightarrow> bool" where
  "all_zero_key ts secret = (ts = 0 \<and> (\<forall>b \<in> set secret. b = 0))"

text \<open>Wall clock in the 10 microsecond units of MAVLink signing.\<close>

definition now_mavlink :: "int \<Rightarrow> nat" where
  "now_mavlink now = (if now > EPOCH_OFFSET * SECOND then u64 (nat ((now - EPOCH_OFFSET * SECOND) div SECOND) * 100000) else 0)"

definition load_signing_key :: "'db tdb_ops \<Rightarrow> 'db \<Rightarrow> int \<Rightarrow> 'p mavlink \<Rightarrow> 'p mavlink" where
  "load_signing_key T db now m =
     (let (m1, ok) = mv_load_key T db m
      in if \<not> ok then m1
         else if all_zero_key (ke_timestamp (mv_key m1)) (secret_key (mv_key m1)) then m1\<lparr> mv_wired := False \<rparr>
         else
           let loaded = u64 (unat (ke_timestamp (mv_key m1)) + 1500000)
           in m1\<lparr> mv_key_loaded := True, mv_wired := True,
                  mv_signing := (mv_signing m1)\<lparr> sg_secret := secret_key (mv_key m1), sg_link_id := mv_chan m1,
                                  sg_timestamp := max (now_mavlink now) loaded, sg_sign_outgoing := True \<rparr> \<rparr>)"

definition raise_timestamp :: "nat \<Rightarrow> 'p mavlink \<Rightarrow> 'p mavlink" where
  "raise_timestamp t m =
     (if mv_wired m \<and> sg_timestamp (mv_signing m) < t then m\<lparr> mv_signing := (mv_signing m)\<lparr> sg_timestamp := t \<rparr> \<rparr> else m)"

definition wall_timestamp :: "int \<Rightarrow> nat" where
  "wall_timestamp now =
     (let s = nat (now div SECOND); e = nat EPOCH_OFFSET in u64 ((if s > e then s - e else s) * 100000))"

text \<open>\<open>update_signing_timestamp\<close>: the timestamp that every signing link is raised to, if it is due; a
  child process then saves it.\<close>

definition update_signing_timestamp :: "int \<Rightarrow> 'p mavlink \<Rightarrow> 'p mavlink \<times> nat option" where
  "update_signing_timestamp now m =
     (if now - mv_last_save m < 10 * SECOND then (m, None)
      else let t = wall_timestamp now in (raise_timestamp t (m\<lparr> mv_last_save := now \<rparr>), Some t))"

text \<open>\<open>save_signing_timestamp\<close>, given the timestamps of the signing links: none is stored beyond the
  wall clock.\<close>

definition save_step :: "nat \<Rightarrow> nat \<Rightarrow> key_entry \<times> bool \<Rightarrow> key_entry \<times> bool" where
  "save_step cap ts x =
     (let (ke, need) = x; v = min ts cap
      in if v > unat (ke_timestamp ke) then (ke\<lparr> ke_timestamp := word_of_nat v \<rparr>, True) else (ke, need))"

definition save_signing_timestamp :: "'db tdb_ops \<Rightarrow> 'db option \<Rightarrow> 32 word \<Rightarrow> nat list \<Rightarrow> int \<Rightarrow> 'db option" where
  "save_signing_timestamp T txn key_id stamps now =
     (case txn of
        None \<Rightarrow> None
      | Some db \<Rightarrow>
          (case db_load_key T db key_id of
             Some (ke, True) \<Rightarrow>
               let (ke1, need) = fold (save_step (now_mavlink now)) stamps (ke, False)
               in Some (if need then fst (db_save_key T db key_id ke1) else db)
           | _ \<Rightarrow> Some db))"

definition mv_init :: "'db tdb_ops \<Rightarrow> 'db \<Rightarrow> int \<Rightarrow> 'p mavlink \<Rightarrow> nat \<Rightarrow> bool \<Rightarrow> bool \<Rightarrow> bool \<Rightarrow> int \<Rightarrow> 'p mavlink \<times> nat option" where
  "mv_init T db now m chan signing_required allow_websocket is_tcp key_id =
     (let m1 = m\<lparr> mv_chan := chan, mv_key_id := key_id, mv_is_tcp := is_tcp, mv_got_signed := False, mv_key_loaded := False,
                  mv_last_save := 0, mv_last_warning := 0, mv_last_sysid := 0, mv_last_compid := 0, mv_bad_sigs := 0,
                  mv_allow_ws := allow_websocket, mv_sendto := None, mv_ws := False, mv_signing := sg_zero \<rparr>
      in if signing_required then update_signing_timestamp now (load_signing_key T db now m1) else (m1, None))"

section \<open>Sending\<close>

text \<open>What the socket answers to one \<open>send_message\<close>: dead, too little room, or whether the frame is
  taken whole.\<close>

datatype send_answer = Link_dead | Link_full | Link_sent bool

definition mv_send :: "'p mav_lib \<Rightarrow> send_answer \<Rightarrow> int \<Rightarrow> 'p mavlink \<Rightarrow> mav_msg \<Rightarrow> 'p mavlink \<times> bytes option \<times> bool \<times> nat option" where
  "mv_send L ans now m msg =
     (if mv_is_tcp m \<and> ans = Link_dead then (m, None, False, None)
      else if mv_is_tcp m \<and> ans = Link_full then (m, None, True, None)
      else if mv_key_id m \<noteq> -1 \<and> \<not> mv_got_signed m \<and> mm_msgid msg \<noteq> ml_heartbeat L then (m, None, True, None)
      else
        let (m1, raise, msg2) =
              (if mv_key_id m = -1 then (m, None, msg\<lparr> mm_incompat := mm_incompat msg AND NOT (ml_signed L) \<rparr>)
               else
                 let m0 = (if mm_msgid msg = ml_heartbeat L then m\<lparr> mv_last_sysid := mm_sysid msg, mv_last_compid := mm_compid msg \<rparr> else m);
                     (m1, raise) = (if mv_key_loaded m0 then update_signing_timestamp now m0 else (m0, None))
                 in (m1, raise, msg\<lparr> mm_incompat := mm_incompat msg OR ml_signed L \<rparr>))
        in if ml_min_len L msg2 = 0 \<and> ml_max_len L msg2 = 0 then (m1, None, False, raise)
           else
             let (p, sg, fin) = ml_finalize L (ml_set_seq L (mv_parser m1) (mm_seq msg)) (mv_sign m1) msg2 (ml_min_len L msg2)
                                  (if mm_incompat msg AND ml_target32 L \<noteq> 0 then Some (mm_target msg) else None);
                 m2 = mv_put m1 p sg
             in (case fin of
                   None \<Rightarrow> (m2, None, False, raise)
                 | Some msg3 \<Rightarrow>
                     let buf = ml_frame L msg3
                     in if buf = [] then (m2, None, False, raise) else (m2, Some buf, ans = Link_sent True, raise)))"

text \<open>A STATUSTEXT to the engineer: an unsigned frame, then one on the link's own channel.\<close>

definition STATUSTEXT_LEN :: nat where "STATUSTEXT_LEN = 50"

definition mav_printf :: "'p mav_lib \<Rightarrow> 'p mavlink \<Rightarrow> string \<Rightarrow> 'p mavlink \<times> bytes list" where
  "mav_printf L m txt =
     (let t = take STATUSTEXT_LEN txt; b1 = ml_plain_status L (mv_last_sysid m) (mv_last_compid m) t;
          (p, sg, b2) = ml_status L (mv_parser m) (mv_sign m) (mv_last_sysid m) (mv_last_compid m) t
      in (mv_put m p sg, filter (\<lambda>b. b \<noteq> []) [b1, b2]))"

definition periodic_warning :: "int \<Rightarrow> 'p mavlink \<Rightarrow> 'p mavlink \<times> bool" where
  "periodic_warning now m = (if now - mv_last_warning m > 2 * SECOND then (m\<lparr> mv_last_warning := now \<rparr>, True) else (m, False))"

definition warn :: "'p mav_lib \<Rightarrow> int \<Rightarrow> string \<Rightarrow> 'p mavlink \<Rightarrow> 'p mavlink \<times> bytes list" where
  "warn L now txt m = (let (m1, due) = periodic_warning now m in if due then mav_printf L m1 txt else (m1, []))"

section \<open>Key rotation\<close>

text \<open>\<open>txn\<close> is whether the transaction could be started.\<close>

definition handle_setup_signing :: "'p mav_lib \<Rightarrow> 'db tdb_ops \<Rightarrow> bool \<Rightarrow> 'db \<Rightarrow> int \<Rightarrow> 'p mavlink \<Rightarrow> mav_msg \<Rightarrow> 'p mavlink \<times> 'db" where
  "handle_setup_signing L T txn db now m msg =
     (let (ts, secret) = ml_setup L msg
      in if all_zero_key ts secret \<or> \<not> txn then (m, db)
         else
           let (m1, ok) = mv_load_key T db m
           in if \<not> ok then (m1, db)
              else
                let ke = (mv_key m1)\<lparr> ke_timestamp := ts, secret_key := take 32 secret \<rparr>;
                    db1 = fst (db_save_key T db (word_of_int (mv_key_id m)) ke)
                in (load_signing_key T db1 now (m1\<lparr> mv_key := ke, mv_got_signed := False \<rparr>), db1))"

section \<open>Receiving\<close>

text \<open>The answer to a message whose signature the parser refused.\<close>

definition bad_signature :: "'p mav_lib \<Rightarrow> int \<Rightarrow> 'p mavlink \<Rightarrow> mav_msg \<Rightarrow> 'p mavlink \<times> bytes list" where
  "bad_signature L now m msg =
     (let (m1, due) = periodic_warning now m; st = sg_last_status (mv_signing m1); m2 = m1\<lparr> mv_bad_sigs := u32 (mv_bad_sigs m1 + 1) \<rparr>;
          done = (\<lambda>m txt. let (m', outs) = mav_printf L m txt in (m'\<lparr> mv_got_signed := False \<rparr>, outs))
      in if \<not> due then (m1\<lparr> mv_got_signed := False \<rparr>, [])
         else if st = Sign_old_timestamp
         then done m1 (''Bad signing timestamp - old timestamp ('' @ ml_show_secs L (int (le_val (take 6 (drop 1 (mm_signature msg))))
                         - int (sg_timestamp (mv_signing m1))) @ ''s)'')
         else if st = Sign_no_streams then done m1 ''Bad signing timestamp - no streams''
         else if st = Sign_too_many_streams then done m1 ''Bad signing timestamp - bad streams''
         else if mv_bad_sigs m2 < 3 then (m2, [])
         else done m2 (if st = Sign_replay then ''Bad signing timestamp - replay'' else ''Bad support signing key''))"

text \<open>The policy for a complete message; \<open>bad\<close> is \<open>got_bad_signature\<close>.\<close>

definition check_message :: "'p mav_lib \<Rightarrow> 'db tdb_ops \<Rightarrow> bool \<Rightarrow> 'db \<Rightarrow> int \<Rightarrow> 'p mavlink \<Rightarrow> bool \<Rightarrow> mav_msg \<Rightarrow> 'p mavlink \<times> 'db \<times> bytes list \<times> bool" where
  "check_message L T txn db now m bad msg =
     (if mv_key_id m = -1 then (m, db, [], True)
      else if \<not> mv_key_loaded m then let (m1, outs) = warn L now ''Need to setup support signing key'' m in (m1, db, outs, False)
      else if mm_incompat msg AND ml_signed L = 0 then
        let (m1, outs) = warn L now ''Need to use support signing key'' m in (m1\<lparr> mv_got_signed := False \<rparr>, db, outs, False)
      else if bad then let (m1, outs) = bad_signature L now m msg in (m1, db, outs, False)
      else
        let m1 = m\<lparr> mv_bad_sigs := 0, mv_got_signed := True \<rparr>
        in if mm_msgid msg = ml_setup_signing L
           then let (m2, db1) = handle_setup_signing L T txn db now m1 msg in (m2, db1, [], False)
           else (m1, db, [], True))"

text \<open>\<open>receive_message\<close>: the message that was completed, if any, whether it is accepted, and the bytes
  behind it.  The flag collects what the callback notes on this channel.\<close>

fun receive_bytes :: "'p mav_lib \<Rightarrow> 'db tdb_ops \<Rightarrow> bool \<Rightarrow> 'db \<Rightarrow> int \<Rightarrow> 'p mavlink \<Rightarrow> bool \<Rightarrow> bytes \<Rightarrow> 'p mavlink \<times> 'db \<times> bytes list \<times> mav_msg option \<times> bool \<times> bytes" where
  "receive_bytes L T txn db now m bad [] = (m, db, [], None, False, [])"
| "receive_bytes L T txn db now m bad (b # bs) =
     (let (p, sg, msg, cb) = ml_parse L (mv_parser m) (mv_sign m) b; m1 = mv_put m p sg;
          bad1 = (bad \<or> cb \<and> mv_wired m \<and> sg_link_id (mv_signing m) = mv_chan m)
      in case msg of
           None \<Rightarrow> receive_bytes L T txn db now m1 bad1 bs
         | Some x \<Rightarrow> let (m2, db1, outs, ok) = check_message L T txn db now m1 bad1 x in (m2, db1, outs, Some x, ok, bs))"

definition receive_message :: "'p mav_lib \<Rightarrow> 'db tdb_ops \<Rightarrow> bool \<Rightarrow> 'db \<Rightarrow> int \<Rightarrow> 'p mavlink \<Rightarrow> bytes \<Rightarrow> 'p mavlink \<times> 'db \<times> bytes list \<times> mav_msg option \<times> bool \<times> bytes" where
  "receive_message L T txn db now m buf = receive_bytes L T txn db now m False buf"

section \<open>Contract of the generated code\<close>

text \<open>
  What the signature policy relies on.  The generated functions leave the secret and the link
  number of a signing structure alone and never turn its timestamp back; a signed message for which
  the callback was not asked has a signature that is valid for the secret.
\<close>

fun sign_keeps :: "mav_signing option \<Rightarrow> mav_signing option \<Rightarrow> bool" where
  "sign_keeps None None = True"
| "sign_keeps (Some x) (Some y) = (sg_secret y = sg_secret x \<and> sg_link_id y = sg_link_id x \<and> sg_timestamp x \<le> sg_timestamp y)"
| "sign_keeps _ _ = False"

definition mav_laws :: "'p mav_lib \<Rightarrow> (bytes \<Rightarrow> mav_msg \<Rightarrow> bool) \<Rightarrow> bool" where
  "mav_laws L valid =
     ((\<forall>p sg b. sign_keeps sg (fst (snd (ml_parse L p sg b))))
      \<and> (\<forall>p sg x n t. sign_keeps sg (fst (snd (ml_finalize L p sg x n t))))
      \<and> (\<forall>p sg i c t. sign_keeps sg (fst (snd (ml_status L p sg i c t))))
      \<and> (\<forall>msg. length (snd (ml_setup L msg)) = 32)
      \<and> (\<forall>p sg b p' sg' msg. ml_parse L p (Some sg) b = (p', sg', Some msg, False) \<and> mm_incompat msg AND ml_signed L \<noteq> 0
            \<longrightarrow> valid (sg_secret sg) msg))"

lemma laws_parse: "mav_laws L valid \<Longrightarrow> ml_parse L p sg b = (p', sg', r, cb) \<Longrightarrow> sign_keeps sg sg'"
  unfolding mav_laws_def by (metis fst_conv snd_conv)

lemma laws_finalize: "mav_laws L valid \<Longrightarrow> ml_finalize L p sg x n t = (p', sg', r) \<Longrightarrow> sign_keeps sg sg'"
  unfolding mav_laws_def by (metis fst_conv snd_conv)

lemma laws_status: "mav_laws L valid \<Longrightarrow> ml_status L p sg i c t = (p', sg', r) \<Longrightarrow> sign_keeps sg sg'"
  unfolding mav_laws_def by (metis fst_conv snd_conv)

lemma laws_valid:
  "mav_laws L valid \<Longrightarrow> ml_parse L p (Some sg) b = (p', sg', Some msg, False) \<Longrightarrow> mm_incompat msg AND ml_signed L \<noteq> 0 \<Longrightarrow>
   valid (sg_secret sg) msg"
  unfolding mav_laws_def by blast

lemma laws_setup: "mav_laws L valid \<Longrightarrow> ml_setup L msg = (ts, secret) \<Longrightarrow> length secret = 32"
  unfolding mav_laws_def by (metis snd_conv)

text \<open>A database whose stores succeed.\<close>

definition tdb_writable :: "'db tdb_ops \<Rightarrow> bool" where
  "tdb_writable T = (\<forall>db k v. snd (tdb_store T db k v))"

lemma writable_save: "tdb_writable T \<Longrightarrow> db_save_key T db p ke = (fst (db_save_key T db p ke), True)"
  by (simp add: tdb_writable_def db_save_key_def Let_def prod_eq_iff)

section \<open>Invariant of a link\<close>

text \<open>A loaded key is wired into the channel under the channel's own number, and only a link with a
  loaded key can count as authenticated.\<close>

definition mv_ok :: "'p mavlink \<Rightarrow> bool" where
  "mv_ok m = ((mv_key_loaded m \<longrightarrow> mv_wired m \<and> sg_link_id (mv_signing m) = mv_chan m) \<and> (mv_got_signed m \<longrightarrow> mv_key_loaded m))"

text \<open>What every operation but a key load and an accepted message leaves alone.\<close>

definition mv_calm :: "'p mavlink \<Rightarrow> 'p mavlink \<Rightarrow> bool" where
  "mv_calm m m' = (mv_key_loaded m' = mv_key_loaded m \<and> mv_wired m' = mv_wired m \<and> mv_chan m' = mv_chan m \<and> mv_key_id m' = mv_key_id m
     \<and> mv_is_tcp m' = mv_is_tcp m \<and> (mv_got_signed m' \<longrightarrow> mv_got_signed m)
     \<and> sg_secret (mv_signing m') = sg_secret (mv_signing m) \<and> sg_link_id (mv_signing m') = sg_link_id (mv_signing m)
     \<and> sg_timestamp (mv_signing m) \<le> sg_timestamp (mv_signing m'))"

lemma calm_refl [simp]: "mv_calm m m"
  by (simp add: mv_calm_def)

lemma calm_trans: "mv_calm a b \<Longrightarrow> mv_calm b c \<Longrightarrow> mv_calm a c"
  unfolding mv_calm_def by simp

lemma calm_ok: "mv_ok m \<Longrightarrow> mv_calm m m' \<Longrightarrow> mv_ok m'"
  by (auto simp: mv_ok_def mv_calm_def)

lemma calm_update [simp]:
  "mv_calm m (m'\<lparr> mv_last_save := t \<rparr>) \<longleftrightarrow> mv_calm m m'" "mv_calm m (m'\<lparr> mv_last_warning := t \<rparr>) \<longleftrightarrow> mv_calm m m'"
  "mv_calm m (m'\<lparr> mv_bad_sigs := n \<rparr>) \<longleftrightarrow> mv_calm m m'" "mv_calm (m\<lparr> mv_last_sysid := i, mv_last_compid := c \<rparr>) m' \<longleftrightarrow> mv_calm m m'"
  "mv_calm m (m'\<lparr> mv_last_sysid := i, mv_last_compid := c \<rparr>) \<longleftrightarrow> mv_calm m m'"
  by (simp_all add: mv_calm_def)

lemma calm_put: "sign_keeps (mv_sign m) sg \<Longrightarrow> mv_calm m (mv_put m p sg)"
  by (cases "mv_wired m"; cases sg) (auto simp: mv_sign_def mv_put_def mv_calm_def)

lemma calm_raise: "mv_calm m (raise_timestamp t m)"
  by (auto simp: mv_calm_def raise_timestamp_def)

lemma calm_stamp: "update_signing_timestamp now m = (m', r) \<Longrightarrow> mv_calm m m'"
  using calm_raise [of "m\<lparr> mv_last_save := now \<rparr>" "wall_timestamp now"]
  by (auto simp: update_signing_timestamp_def mv_calm_def Let_def split: if_splits)

lemma calm_printf:
  assumes "mav_laws L valid" "mav_printf L m txt = (m', outs)"
  shows "mv_calm m m'"
proof -
  obtain p sg b where st: "ml_status L (mv_parser m) (mv_sign m) (mv_last_sysid m) (mv_last_compid m) (take STATUSTEXT_LEN txt) = (p, sg, b)"
    by (metis surj_pair)
  show ?thesis
    using assms(2) calm_put [OF laws_status [OF assms(1) st]] by (simp add: mav_printf_def Let_def st del: filter.simps) blast
qed

lemma calm_periodic: "periodic_warning now m = (m', due) \<Longrightarrow> mv_calm m m'"
  by (auto simp: periodic_warning_def split: if_splits)

lemma calm_warn:
  assumes "mav_laws L valid" "warn L now txt m = (m', outs)"
  shows "mv_calm m m'"
proof -
  obtain m1 due where p: "periodic_warning now m = (m1, due)" by force
  show ?thesis
    using assms(2) calm_periodic [OF p] calm_trans [OF calm_periodic [OF p] calm_printf [OF assms(1)]]
    by (auto simp: warn_def p split: if_splits)
qed

lemma calm_unsign: "mv_calm m m' \<Longrightarrow> mv_calm m (m'\<lparr> mv_got_signed := False \<rparr>)"
  by (simp add: mv_calm_def)

lemma calm_bad:
  assumes "mav_laws L valid" "bad_signature L now m msg = (m', outs)"
  shows "mv_calm m m'"
proof -
  obtain m1 due where p: "periodic_warning now m = (m1, due)" by force
  have c: "mv_calm m m1" by (rule calm_periodic [OF p])
  have d: "mv_calm m (fst (let (m', outs) = mav_printf L m2 w in (m'\<lparr> mv_got_signed := False \<rparr>, outs)))" if "mv_calm m m2" for m2 w
    using calm_unsign [OF calm_trans [OF that calm_printf [OF assms(1) surjective_pairing]]] by (simp add: case_prod_beta)
  have b: "mv_calm m (m1\<lparr> mv_bad_sigs := n \<rparr>)" for n using c by simp
  have "mv_calm m (fst (bad_signature L now m msg))"
    unfolding bad_signature_def p Let_def prod.case using c d [OF c, unfolded Let_def] d [OF b, unfolded Let_def] b calm_unsign [OF c]
    by simp
  then show ?thesis by (simp add: assms(2))
qed

lemma calm_send:
  assumes "mav_laws L valid" "mv_send L ans now m msg = (m', f, ok, r)"
  shows "mv_calm m m'"
proof -
  let ?m0 = "if mm_msgid msg = ml_heartbeat L then m\<lparr> mv_last_sysid := mm_sysid msg, mv_last_compid := mm_compid msg \<rparr> else m"
  obtain m1 raise msg2 where pre: "(if mv_key_id m = -1 then (m, None, msg\<lparr> mm_incompat := mm_incompat msg AND NOT (ml_signed L) \<rparr>)
      else let m0 = ?m0; (m1, raise) = (if mv_key_loaded m0 then update_signing_timestamp now m0 else (m0, None))
           in (m1, raise, msg\<lparr> mm_incompat := mm_incompat msg OR ml_signed L \<rparr>)) = (m1, raise, msg2)"
    by (metis surj_pair)
  have "mv_calm m ?m0" by simp
  moreover have "mv_calm ?m0 (fst (update_signing_timestamp now ?m0))" by (rule calm_stamp [OF surjective_pairing])
  ultimately have c1: "mv_calm m m1"
    using pre by (auto simp: Let_def case_prod_beta split: if_splits dest: calm_trans)
  obtain p sg fin where fin: "ml_finalize L (ml_set_seq L (mv_parser m1) (mm_seq msg)) (mv_sign m1) msg2 (ml_min_len L msg2)
      (if mm_incompat msg AND ml_target32 L \<noteq> 0 then Some (mm_target msg) else None) = (p, sg, fin)"
    by (metis surj_pair)
  have c2: "mv_calm m (mv_put m1 p sg)" by (rule calm_trans [OF c1 calm_put [OF laws_finalize [OF assms(1) fin]]])
  define P where "P x = mv_calm m (fst x)" for x :: "'a mavlink \<times> bytes option \<times> bool \<times> nat option"
  have "P (mv_send L ans now m msg)"
    unfolding mv_send_def Let_def pre [unfolded Let_def] prod.case fin
    by (simp add: P_def c1 c2 split: option.split)
  then show ?thesis by (simp add: P_def assms(2))
qed

text \<open>A frame leaves a link that asks for signatures only for a heartbeat or once a signed message was
  accepted.\<close>

lemma send_gate:
  assumes "mv_send L ans now m msg = (m', Some f, ok, r)" "mv_key_id m \<noteq> -1"
  shows "mv_got_signed m \<or> mm_msgid msg = ml_heartbeat L"
  using assms by (auto simp: mv_send_def split: if_splits)

lemma load_key_same: "mv_load_key T db m = (m', ok) \<Longrightarrow> \<exists>ke. m' = m\<lparr> mv_key := ke \<rparr>"
  by (cases "db_load_key T db (word_of_int (mv_key_id m))") (auto simp: mv_load_key_def intro: exI [of _ "mv_key m"])

lemma ok_key [simp]: "mv_ok (m\<lparr> mv_key := ke \<rparr>) = mv_ok m"
  by (simp add: mv_ok_def)

lemma load_signing_cases:
  "load_signing_key T db now m =
     (case db_load_key T db (word_of_int (mv_key_id m)) of
        None \<Rightarrow> m
      | Some (ke, ok) \<Rightarrow>
          if \<not> ok then m\<lparr> mv_key := ke \<rparr>
          else if all_zero_key (ke_timestamp ke) (secret_key ke) then m\<lparr> mv_key := ke, mv_wired := False \<rparr>
          else m\<lparr> mv_key := ke, mv_key_loaded := True, mv_wired := True,
                  mv_signing := (mv_signing m)\<lparr> sg_secret := secret_key ke, sg_link_id := mv_chan m,
                    sg_timestamp := max (now_mavlink now) (u64 (unat (ke_timestamp ke) + 1500000)), sg_sign_outgoing := True \<rparr> \<rparr>)"
  by (simp add: load_signing_key_def mv_load_key_def Let_def split: option.split)

text \<open>Loading a key keeps the invariant unless an all-zero key meets a link that has one loaded.\<close>

lemma load_signing_ok:
  assumes "mv_ok m" "mv_key_loaded m \<longrightarrow>
      \<not> (\<exists>ke. db_load_key T db (word_of_int (mv_key_id m)) = Some (ke, True) \<and> all_zero_key (ke_timestamp ke) (secret_key ke))"
  shows "mv_ok (load_signing_key T db now m)"
  using assms by (auto simp: load_signing_cases mv_ok_def split: option.split)

lemma load_signing_id [simp]:
  "mv_key_id (load_signing_key T db now m) = mv_key_id m" "mv_chan (load_signing_key T db now m) = mv_chan m"
  "mv_is_tcp (load_signing_key T db now m) = mv_is_tcp m" "mv_got_signed (load_signing_key T db now m) = mv_got_signed m"
  by (simp_all add: load_signing_cases split: option.split)

lemma init_ok: "mv_init T db now m chan sr aw tcp kid = (m', r) \<Longrightarrow> mv_ok m' \<and> \<not> mv_got_signed m' \<and> mv_key_id m' = kid \<and> mv_chan m' = chan"
proof -
  assume i: "mv_init T db now m chan sr aw tcp kid = (m', r)"
  define m1 where "m1 = m\<lparr> mv_chan := chan, mv_key_id := kid, mv_is_tcp := tcp, mv_got_signed := False, mv_key_loaded := False,
     mv_last_save := 0, mv_last_warning := 0, mv_last_sysid := 0, mv_last_compid := 0, mv_bad_sigs := 0,
     mv_allow_ws := aw, mv_sendto := None, mv_ws := False, mv_signing := sg_zero \<rparr>"
  have m1: "mv_ok m1" "\<not> mv_got_signed m1" "mv_key_id m1 = kid" "mv_chan m1 = chan" "\<not> mv_key_loaded m1"
    by (simp_all add: m1_def mv_ok_def)
  show ?thesis
  proof (cases sr)
    case True
    then have u: "update_signing_timestamp now (load_signing_key T db now m1) = (m', r)" using i by (simp add: mv_init_def m1_def Let_def)
    from calm_ok [OF load_signing_ok calm_stamp [OF u]] calm_stamp [OF u] m1 show ?thesis by (auto simp: mv_calm_def)
  next
    case False
    then show ?thesis using i m1 by (simp add: mv_init_def m1_def Let_def)
  qed
qed

section \<open>Key rotation\<close>

lemma setup_cases:
  assumes "mav_laws L valid" "tdb_laws T" "tdb_writable T" "handle_setup_signing L T txn db now m msg = (m', db')"
  obtains (refused) ke where "m' = m\<lparr> mv_key := ke \<rparr>" "db' = db"
    | (rotated) ke ts secret ke' where "ml_setup L msg = (ts, secret)" "length secret = 32" "\<not> all_zero_key ts secret"
        "db_load_key T db (word_of_int (mv_key_id m)) = Some (ke, True)" "ke' = ke\<lparr> ke_timestamp := ts, secret_key := secret \<rparr>"
        "db_save_key T db (word_of_int (mv_key_id m)) ke' = (db', True)" "db_load_key T db' (word_of_int (mv_key_id m)) = Some (ke', True)"
        "m' = load_signing_key T db' now (m\<lparr> mv_key := ke', mv_got_signed := False \<rparr>)"
proof -
  obtain ts secret where sup: "ml_setup L msg = (ts, secret)" by force
  have len: "length secret = 32" by (rule laws_setup [OF assms(1) sup])
  have keep: "m = m\<lparr> mv_key := mv_key m \<rparr>" by simp
  show ?thesis
  proof (cases "all_zero_key ts secret \<or> \<not> txn")
    case True
    then have "m' = m" "db' = db" using assms(4) sup by (simp_all add: handle_setup_signing_def)
    then show ?thesis using refused keep by metis
  next
    case go: False
    show ?thesis
    proof (cases "db_load_key T db (word_of_int (mv_key_id m))")
      case None
      then have "m' = m" "db' = db" using assms(4) sup go by (simp_all add: handle_setup_signing_def mv_load_key_def)
      then show ?thesis using refused keep by metis
    next
      case (Some x)
      then obtain ke ok where ld: "db_load_key T db (word_of_int (mv_key_id m)) = Some (ke, ok)" by (cases x) simp
      show ?thesis
      proof (cases ok)
        case False
        then have "m' = m\<lparr> mv_key := ke \<rparr>" "db' = db" using assms(4) sup go ld by (simp_all add: handle_setup_signing_def mv_load_key_def)
        then show ?thesis by (rule refused)
      next
        case True
        define ke' where "ke' = ke\<lparr> ke_timestamp := ts, secret_key := secret \<rparr>"
        have v: "key_entry_valid ke'" "ke_magic ke' = KEY_MAGIC"
          using load_valid [OF ld] load_magic [OF ld] True len by (simp_all add: ke'_def key_entry_valid_def)
        have eq: "db' = fst (db_save_key T db (word_of_int (mv_key_id m)) ke')"
            "m' = load_signing_key T db' now (m\<lparr> mv_key := ke', mv_got_signed := False \<rparr>)"
          using assms(4) sup go ld True len by (auto simp: handle_setup_signing_def mv_load_key_def ke'_def Let_def)
        have sv: "db_save_key T db (word_of_int (mv_key_id m)) ke' = (db', True)" unfolding eq(1) by (rule writable_save [OF assms(3)])
        show ?thesis
          using rotated [OF sup len _ _ ke'_def sv _ eq(2)] go ld True save_then_load [OF assms(2) v(1) sv] v(2) by simp
      qed
    qed
  qed
qed

lemma link_setup_ok:
  assumes "mav_laws L valid" "tdb_laws T" "tdb_writable T" "mv_ok m" "handle_setup_signing L T txn db now m msg = (m', db')"
  shows "mv_ok m' \<and> mv_key_id m' = mv_key_id m \<and> mv_chan m' = mv_chan m \<and> mv_is_tcp m' = mv_is_tcp m"
proof (cases rule: setup_cases [OF assms(1-3,5)])
  case (1 ke)
  then show ?thesis using assms(4) by simp
next
  case (2 ke ts secret ke')
  have "\<not> all_zero_key (ke_timestamp ke') (secret_key ke')" using 2(3) by (simp add: 2(5))
  moreover have "mv_ok (m\<lparr> mv_key := ke', mv_got_signed := False \<rparr>)" using assms(4) by (simp add: mv_ok_def)
  ultimately show ?thesis using load_signing_ok [of "m\<lparr> mv_key := ke', mv_got_signed := False \<rparr>" T db' now] 2(7) by (simp add: 2(8))
qed

text \<open>Secrets that are trusted stay so under rotation: the link's and the stored one.\<close>

definition keys_in :: "bytes set \<Rightarrow> 'db tdb_ops \<Rightarrow> int \<Rightarrow> 'db \<Rightarrow> bool" where
  "keys_in A T kid db = (\<forall>ke. db_load_key T db (word_of_int kid) = Some (ke, True) \<longrightarrow> secret_key ke \<in> A)"

definition mv_in :: "bytes set \<Rightarrow> 'p mavlink \<Rightarrow> bool" where
  "mv_in A m = (mv_key_loaded m \<longrightarrow> sg_secret (mv_signing m) \<in> A)"

lemma calm_in: "mv_in A m \<Longrightarrow> mv_calm m m' \<Longrightarrow> mv_in A m'"
  by (simp add: mv_in_def mv_calm_def)

lemma load_in: "mv_in A m \<Longrightarrow> keys_in A T (mv_key_id m) db \<Longrightarrow> mv_in A (load_signing_key T db now m)"
  by (auto simp: mv_in_def keys_in_def load_signing_cases split: option.split)

lemma init_in: "keys_in A T kid db \<Longrightarrow> mv_init T db now m chan sr aw tcp kid = (m', r) \<Longrightarrow> mv_in A m'"
proof -
  assume k: "keys_in A T kid db" and i: "mv_init T db now m chan sr aw tcp kid = (m', r)"
  define m1 where "m1 = m\<lparr> mv_chan := chan, mv_key_id := kid, mv_is_tcp := tcp, mv_got_signed := False, mv_key_loaded := False,
     mv_last_save := 0, mv_last_warning := 0, mv_last_sysid := 0, mv_last_compid := 0, mv_bad_sigs := 0,
     mv_allow_ws := aw, mv_sendto := None, mv_ws := False, mv_signing := sg_zero \<rparr>"
  have m1: "mv_in A m1" "mv_key_id m1 = kid" by (simp_all add: m1_def mv_in_def)
  have eq: "(if sr then update_signing_timestamp now (load_signing_key T db now m1) else (m1, None)) = (m', r)"
    using i unfolding mv_init_def m1_def Let_def .
  show ?thesis using eq m1 load_in [of A m1 T db now] k calm_in [OF _ calm_stamp] by (auto split: if_splits)
qed

lemma setup_in:
  assumes "mav_laws L valid" "tdb_laws T" "tdb_writable T" "handle_setup_signing L T txn db now m msg = (m', db')"
    and "mv_in A m" "keys_in A T (mv_key_id m) db" "snd (ml_setup L msg) \<in> A"
  shows "mv_in A m' \<and> keys_in A T (mv_key_id m) db'"
proof (cases rule: setup_cases [OF assms(1-4)])
  case (1 ke)
  then show ?thesis using assms(5,6) by (simp add: mv_in_def)
next
  case (2 ke ts secret ke')
  have "keys_in A T (mv_key_id m) db'" using 2(1,7) assms(7) by (simp add: keys_in_def 2(5))
  moreover have "mv_in A (m\<lparr> mv_key := ke', mv_got_signed := False \<rparr>)" using assms(5) by (simp add: mv_in_def)
  ultimately show ?thesis using load_in [of A "m\<lparr> mv_key := ke', mv_got_signed := False \<rparr>" T db' now] by (simp add: 2(8))
qed

section \<open>Receiving\<close>

lemma check_message_cases:
  assumes "mav_laws L valid" "tdb_laws T" "tdb_writable T" "mv_ok m" "check_message L T txn db now m bad msg = (m', db', outs, ok)"
  defines "good \<equiv> mv_key_loaded m \<and> mm_incompat msg AND ml_signed L \<noteq> 0 \<and> \<not> bad"
  shows "mv_ok m' \<and> mv_key_id m' = mv_key_id m \<and> mv_chan m' = mv_chan m \<and> mv_is_tcp m' = mv_is_tcp m
    \<and> (ok \<longrightarrow> db' = db \<and> outs = [] \<and> (mv_key_id m = -1 \<or> good \<and> mm_msgid msg \<noteq> ml_setup_signing L \<and> mv_got_signed m'))
    \<and> (db' \<noteq> db \<longrightarrow> \<not> ok \<and> good \<and> mm_msgid msg = ml_setup_signing L)
    \<and> (mv_got_signed m' \<and> \<not> mv_got_signed m \<longrightarrow> good)
    \<and> (\<forall>A. mv_in A m \<and> keys_in A T (mv_key_id m) db \<and> (good \<and> mm_msgid msg = ml_setup_signing L \<longrightarrow> snd (ml_setup L msg) \<in> A)
          \<longrightarrow> mv_in A m' \<and> keys_in A T (mv_key_id m) db')"
proof -
  have calm: "mv_ok x \<and> mv_key_id x = mv_key_id m \<and> mv_chan x = mv_chan m \<and> mv_is_tcp x = mv_is_tcp m \<and> (mv_got_signed x \<longrightarrow> mv_got_signed m)
      \<and> (\<forall>A. mv_in A m \<longrightarrow> mv_in A x)" if "mv_calm m x" for x
    using calm_ok [OF assms(4) that] calm_in [OF _ that] that by (simp add: mv_calm_def)
  define m1 where "m1 = m\<lparr> mv_bad_sigs := 0, mv_got_signed := True \<rparr>"
  have m1: "mv_ok m1" if "mv_key_loaded m" using assms(4) that by (simp add: m1_def mv_ok_def)
  have m1_in: "mv_in A m1 = mv_in A m" "mv_key_id m1 = mv_key_id m" for A by (simp_all add: m1_def mv_in_def)
  consider (free) "mv_key_id m = -1" | (nokey) "mv_key_id m \<noteq> -1" "\<not> mv_key_loaded m"
    | (unsigned) "mv_key_id m \<noteq> -1" "mv_key_loaded m" "mm_incompat msg AND ml_signed L = 0"
    | (bad) "mv_key_id m \<noteq> -1" "mv_key_loaded m" "mm_incompat msg AND ml_signed L \<noteq> 0" bad
    | (rotate) "mv_key_id m \<noteq> -1" good "mm_msgid msg = ml_setup_signing L"
    | (accept) "mv_key_id m \<noteq> -1" good "mm_msgid msg \<noteq> ml_setup_signing L"
    unfolding good_def by blast
  then show ?thesis
  proof cases
    case free
    then show ?thesis using assms(4,5) by (simp add: check_message_def)
  next
    case nokey
    then show ?thesis
      using assms(5) calm [OF calm_warn [OF assms(1) surjective_pairing]] by (auto simp: check_message_def case_prod_beta)
  next
    case unsigned
    then show ?thesis
      using assms(5) calm [OF calm_unsign [OF calm_warn [OF assms(1) surjective_pairing]]] by (auto simp: check_message_def case_prod_beta)
  next
    case bad
    then show ?thesis
      using assms(5) calm [OF calm_bad [OF assms(1) surjective_pairing]] by (auto simp: check_message_def case_prod_beta)
  next
    case rotate
    then have s: "handle_setup_signing L T txn db now m1 msg = (m', db')" "\<not> ok"
      using assms(5) by (auto simp: check_message_def m1_def case_prod_beta Let_def good_def)
    have "mv_key_loaded m" using rotate(2) by (simp add: good_def)
    from link_setup_ok [OF assms(1-3) m1 [OF this] s(1)] setup_in [OF assms(1-3) s(1)] show ?thesis
      using s(2) rotate m1_in by (auto simp: m1_def)
  next
    case accept
    then have "m' = m1" "db' = db" "outs = []" ok using assms(5) by (auto simp: check_message_def m1_def good_def)
    then show ?thesis using accept m1 m1_in by (auto simp: m1_def good_def)
  qed
qed

lemma receive_shorter: "receive_bytes L T txn db now m bad buf = (m', db', outs, x, True, rest) \<Longrightarrow> length rest < length buf"
proof (induction buf arbitrary: m bad)
  case (Cons b bs)
  obtain p sg r cb where ps: "ml_parse L (mv_parser m) (mv_sign m) b = (p, sg, r, cb)" by (metis surj_pair)
  show ?case
  proof (cases r)
    case None
    then have "length rest < length bs" using Cons.prems ps by (intro Cons.IH) (simp add: Let_def)
    then show ?thesis by simp
  next
    case (Some y)
    then show ?thesis using Cons.prems ps by (auto simp: Let_def case_prod_beta)
  qed
qed simp

text \<open>A set of secrets that is closed under rotation by a signed SETUP_SIGNING.\<close>

definition rot_closed :: "'p mav_lib \<Rightarrow> (bytes \<Rightarrow> mav_msg \<Rightarrow> bool) \<Rightarrow> bytes set \<Rightarrow> bool" where
  "rot_closed L valid A = (\<forall>k msg. k \<in> A \<and> valid k msg \<and> mm_msgid msg = ml_setup_signing L \<longrightarrow> snd (ml_setup L msg) \<in> A)"

text \<open>One call on a link that holds the invariant: what it keeps, when it accepts a message, when it
  counts as authenticated, when it writes to the key database, and which secrets it can come to.\<close>

lemma receive_cases:
  assumes laws: "mav_laws L valid" "tdb_laws T" "tdb_writable T"
  shows "mv_ok m \<Longrightarrow> receive_bytes L T txn db now m bad buf = (m', db', outs, x, ok, rest) \<Longrightarrow>
    mv_ok m' \<and> mv_key_id m' = mv_key_id m \<and> mv_chan m' = mv_chan m \<and> mv_is_tcp m' = mv_is_tcp m
    \<and> (ok \<longrightarrow> db' = db \<and> outs = [] \<and> (\<exists>msg. x = Some msg \<and> (mv_key_id m = -1 \<or> valid (sg_secret (mv_signing m)) msg
         \<and> mm_incompat msg AND ml_signed L \<noteq> 0 \<and> mm_msgid msg \<noteq> ml_setup_signing L \<and> mv_got_signed m')))
    \<and> (db' \<noteq> db \<longrightarrow> \<not> ok \<and> (\<exists>msg. x = Some msg \<and> valid (sg_secret (mv_signing m)) msg \<and> mm_msgid msg = ml_setup_signing L))
    \<and> (mv_got_signed m' \<and> \<not> mv_got_signed m \<longrightarrow> mv_key_loaded m \<and> (\<exists>msg. x = Some msg \<and> valid (sg_secret (mv_signing m)) msg \<and> mm_incompat msg AND ml_signed L \<noteq> 0))
    \<and> (\<forall>A. rot_closed L valid A \<and> mv_in A m \<and> keys_in A T (mv_key_id m) db \<longrightarrow> mv_in A m' \<and> keys_in A T (mv_key_id m) db')"
proof (induction buf arbitrary: m bad)
  case (Cons b bs)
  obtain p sg y cb where ps: "ml_parse L (mv_parser m) (mv_sign m) b = (p, sg, y, cb)" by (metis surj_pair)
  define m1 where "m1 = mv_put m p sg"
  have c: "mv_calm m m1" unfolding m1_def by (rule calm_put [OF laws_parse [OF laws(1) ps]])
  have g: "mv_got_signed m1 = mv_got_signed m" by (simp add: m1_def mv_put_def)
  have cf: "mv_key_id m1 = mv_key_id m" "mv_chan m1 = mv_chan m" "mv_is_tcp m1 = mv_is_tcp m" "mv_key_loaded m1 = mv_key_loaded m"
      "sg_secret (mv_signing m1) = sg_secret (mv_signing m)" "\<And>A. mv_in A m1 = mv_in A m"
    using c by (simp_all add: mv_calm_def mv_in_def)
  have ok1: "mv_ok m1" by (rule calm_ok [OF Cons.prems(1) c])
  define bad1 where "bad1 = (bad \<or> cb \<and> mv_wired m \<and> sg_link_id (mv_signing m) = mv_chan m)"
  show ?case
  proof (cases y)
    case None
    then have rec: "receive_bytes L T txn db now m1 bad1 bs = (m', db', outs, x, ok, rest)"
      using Cons.prems(2) ps by (simp add: m1_def bad1_def Let_def)
    show ?thesis using Cons.IH [OF ok1 rec] unfolding cf g .
  next
    case (Some msg)
    then have chk: "check_message L T txn db now m1 bad1 msg = (m', db', outs, ok)" and x: "x = Some msg"
      using Cons.prems(2) ps by (auto simp: m1_def bad1_def Let_def split: prod.splits)
    have v: "valid (sg_secret (mv_signing m)) msg" if "mv_key_loaded m" "\<not> bad1" "mm_incompat msg AND ml_signed L \<noteq> 0"
    proof -
      have "mv_wired m" "sg_link_id (mv_signing m) = mv_chan m" using that(1) Cons.prems(1) by (auto simp: mv_ok_def)
      then show ?thesis using laws_valid [OF laws(1) _ that(3)] ps Some that(2) by (simp add: mv_sign_def bad1_def)
    qed
    have "snd (ml_setup L msg) \<in> A" if "rot_closed L valid A" "mv_in A m" "mv_key_loaded m" "mm_incompat msg AND ml_signed L \<noteq> 0" "\<not> bad1"
        "mm_msgid msg = ml_setup_signing L" for A
      using that v by (auto simp: rot_closed_def mv_in_def)
    then show ?thesis
      using check_message_cases [OF laws ok1 chk] v unfolding x cf g by auto
  qed
qed simp

text \<open>
  C2. What \<open>receive_message\<close> hands to the proxy on a link that requires
  signatures is signed with the link's key: the message carries the signature
  flag and a signature that is valid for the loaded secret, it is no
  SETUP_SIGNING, and the link counts as authenticated from then on.  The key
  database is written only on a SETUP_SIGNING that was signed with the current
  key.  The invariant of the link is kept.
\<close>

theorem mav_receive_authentic:
  assumes "mav_laws L valid" "tdb_laws T" "tdb_writable T" "mv_ok m" "mv_key_id m \<noteq> -1"
    and "receive_message L T txn db now m buf = (m', db', outs, x, ok, rest)"
  shows "mv_ok m' \<and> mv_key_id m' = mv_key_id m
    \<and> (ok \<longrightarrow> db' = db \<and> mv_got_signed m' \<and> (\<exists>msg. x = Some msg \<and> valid (sg_secret (mv_signing m)) msg
         \<and> mm_incompat msg AND ml_signed L \<noteq> 0 \<and> mm_msgid msg \<noteq> ml_setup_signing L))
    \<and> (mv_got_signed m' \<and> \<not> mv_got_signed m \<longrightarrow> (\<exists>msg. x = Some msg \<and> valid (sg_secret (mv_signing m)) msg))
    \<and> (db' \<noteq> db \<longrightarrow> (\<exists>msg. x = Some msg \<and> valid (sg_secret (mv_signing m)) msg \<and> mm_msgid msg = ml_setup_signing L))"
  using receive_cases [OF assms(1-4) assms(6) [unfolded receive_message_def]] assms(5) by blast


section \<open>The stored timestamp\<close>

lemma save_step_bounds:
  assumes "save_step cap ts (ke, need) = (ke', need')" "cap < 2 ^ 64"
  shows "unat (ke_timestamp ke) \<le> unat (ke_timestamp ke') \<and> unat (ke_timestamp ke') \<le> max (unat (ke_timestamp ke)) cap
    \<and> ke' = ke\<lparr> ke_timestamp := ke_timestamp ke' \<rparr> \<and> (need' \<longleftrightarrow> need \<or> ke' \<noteq> ke)"
proof (cases "min ts cap > unat (ke_timestamp ke)")
  case True
  have u: "unat (word_of_nat (min ts cap) :: 64 word) = min ts cap"
    using assms(2) by (simp add: unat_of_nat mod_less)
  then have "ke\<lparr> ke_timestamp := word_of_nat (min ts cap) \<rparr> \<noteq> ke" using True
    by (metis key_entry.select_convs(2) key_entry.surjective key_entry.update_convs(2) less_irrefl)
  then show ?thesis using assms(1) True u by (auto simp: save_step_def Let_def)
next
  case False
  then show ?thesis using assms(1) by (auto simp: save_step_def Let_def)
qed

lemma save_fold_bounds:
  assumes "cap < 2 ^ 64"
  shows "fold (save_step cap) stamps (ke, need) = (ke', need') \<Longrightarrow>
    unat (ke_timestamp ke) \<le> unat (ke_timestamp ke') \<and> unat (ke_timestamp ke') \<le> max (unat (ke_timestamp ke)) cap
    \<and> ke' = ke\<lparr> ke_timestamp := ke_timestamp ke' \<rparr> \<and> (\<not> need' \<longrightarrow> ke' = ke)"
proof (induction stamps arbitrary: ke need)
  case (Cons a stamps)
  obtain ke1 n1 where st: "save_step cap a (ke, need) = (ke1, n1)" by force
  have mono: "fold (save_step cap) xs (k, True) = (k', n') \<Longrightarrow> n'" for xs k k' n'
    by (induction xs arbitrary: k) (auto simp: save_step_def Let_def split: if_splits)
  have h: "\<not> need' \<longrightarrow> \<not> n1" using mono [of stamps ke1 ke' need'] Cons.prems st by auto
  note b1 = save_step_bounds [OF st assms]
  have b2: "unat (ke_timestamp ke1) \<le> unat (ke_timestamp ke') \<and> unat (ke_timestamp ke') \<le> max (unat (ke_timestamp ke1)) cap
      \<and> ke' = ke1\<lparr> ke_timestamp := ke_timestamp ke' \<rparr> \<and> (\<not> need' \<longrightarrow> ke' = ke1)"
    using Cons.IH [of ke1 n1] Cons.prems st by simp
  have "ke' = ke\<lparr> ke_timestamp := ke_timestamp ke' \<rparr>" using b1 b2 by (cases ke; cases ke1; cases ke') simp
  then show ?case using b1 b2 h by (auto simp: max_def split: if_splits)
qed simp

lemma u64_bound: "u64 n < 2 ^ 64"
  by (simp add: u64_def)

lemma now_mavlink_less: "now_mavlink now < 2 ^ 64"
  using u64_bound by (simp add: now_mavlink_def)

lemma save_timestamp_bounds:
  assumes "tdb_laws T" "tdb_writable T" "save_signing_timestamp T (Some db) kid stamps now = Some db'"
    and "db_load_key T db kid = Some (ke, True)"
  obtains ts where "db_load_key T db' kid = Some (ke\<lparr> ke_timestamp := ts \<rparr>, True)" "ke_timestamp ke \<le> ts"
    "unat ts \<le> max (unat (ke_timestamp ke)) (now_mavlink now)" "\<And>p. p \<noteq> kid \<Longrightarrow> db_load_key T db' p = db_load_key T db p"
proof -
  obtain ke1 need where f: "fold (save_step (now_mavlink now)) stamps (ke, False) = (ke1, need)" by force
  note b = save_fold_bounds [OF now_mavlink_less f]
  then have e: "ke1 = ke\<lparr> ke_timestamp := ke_timestamp ke1 \<rparr>" and le: "ke_timestamp ke \<le> ke_timestamp ke1" by (auto simp: word_le_nat_alt)
  have db': "db' = (if need then fst (db_save_key T db kid ke1) else db)"
    using assms(3,4) f by (simp add: save_signing_timestamp_def)
  have v: "key_entry_valid ke1" "ke_magic ke1 = KEY_MAGIC"
    using load_valid [OF assms(4)] load_magic [OF assms(4)] by (subst e, simp add: key_entry_valid_def)+
  have "db_load_key T db' kid = Some (ke1, True) \<and> (\<forall>p. p \<noteq> kid \<longrightarrow> db_load_key T db' p = db_load_key T db p)"
  proof (cases need)
    case True
    then have sv: "db_save_key T db kid ke1 = (db', True)" using db' writable_save [OF assms(2)] by simp
    show ?thesis using save_then_load [OF assms(1) v(1) sv] save_load_other [OF assms(1) sv] v(2) by simp
  next
    case False
    then show ?thesis using b assms(4) db' by simp
  qed
  then show ?thesis using that [of "ke_timestamp ke1"] e le b by simp
qed

lemma now_mavlink_mono:
  assumes "a \<le> b" "b < 10 ^ 19" shows "now_mavlink a \<le> now_mavlink b"
proof -
  have q: "now_mavlink x = nat ((x - EPOCH_OFFSET * SECOND) div SECOND) * 100000" if "x > EPOCH_OFFSET * SECOND" "x < 10 ^ 19" for x
  proof -
    have "(x - EPOCH_OFFSET * SECOND) div SECOND \<le> 10 ^ 19 div SECOND"
      using that by (intro zdiv_mono1) (simp_all add: EPOCH_OFFSET_def SECOND_def)
    then have "nat ((x - EPOCH_OFFSET * SECOND) div SECOND) * 100000 < 2 ^ 64" by (simp add: SECOND_def)
    then show ?thesis using that by (simp add: now_mavlink_def u64_id)
  qed
  show ?thesis
  proof (cases "a > EPOCH_OFFSET * SECOND")
    case True
    have "(a - EPOCH_OFFSET * SECOND) div SECOND \<le> (b - EPOCH_OFFSET * SECOND) div SECOND"
      using assms by (intro zdiv_mono1) (simp_all add: SECOND_def)
    then show ?thesis using q [of a] q [of b] True assms by simp
  next
    case False
    then show ?thesis by (simp add: now_mavlink_def)
  qed
qed

text \<open>A history of saves: the timestamps of the signing links and the clock at each.\<close>

definition save_history :: "'db tdb_ops \<Rightarrow> 32 word \<Rightarrow> (nat list \<times> int) list \<Rightarrow> 'db \<Rightarrow> 'db" where
  "save_history T kid = fold (\<lambda>(stamps, now) db. the (save_signing_timestamp T (Some db) kid stamps now))"

lemma save_total: "\<exists>db'. save_signing_timestamp T (Some db) kid stamps now = Some db'"
  by (auto simp: save_signing_timestamp_def case_prod_beta split: option.split bool.split)

text \<open>
  C31. Through any history of saves the stored signing timestamp only grows and
  never passes the wall clock: it stays below the larger of its first value and
  the latest clock, whatever the links carry, so the 15 seconds added at each
  load do not build up.  The rest of the entry is untouched, and a link that
  loads the key afterwards starts at least 15 seconds past what is stored.
\<close>

theorem signing_timestamp_no_drift:
  assumes "tdb_laws T" "tdb_writable T" "db_load_key T db kid = Some (ke, True)"
    and "\<forall>(stamps, now) \<in> set hist. now \<le> latest" "latest < 10 ^ 19"
  shows "\<exists>ts. db_load_key T (save_history T kid hist db) kid = Some (ke\<lparr> ke_timestamp := ts \<rparr>, True)
    \<and> ke_timestamp ke \<le> ts \<and> unat ts \<le> max (unat (ke_timestamp ke)) (now_mavlink latest)
    \<and> (\<forall>m now. word_of_int (mv_key_id m) = kid \<and> ts \<noteq> 0 \<longrightarrow>
          u64 (unat ts + 1500000) \<le> sg_timestamp (mv_signing (load_signing_key T (save_history T kid hist db) now m)))"
proof -
  have "\<exists>ts. db_load_key T (save_history T kid hist db) kid = Some (ke\<lparr> ke_timestamp := ts \<rparr>, True)
    \<and> ke_timestamp ke \<le> ts \<and> unat ts \<le> max (unat (ke_timestamp ke)) (now_mavlink latest)"
    using assms(3,4)
  proof (induction hist arbitrary: db ke)
    case Nil
    then show ?case by (intro exI [of _ "ke_timestamp ke"]) (simp add: save_history_def)
  next
    case (Cons x hist)
    obtain stamps now where x: "x = (stamps, now)" by force
    obtain db1 where sv: "save_signing_timestamp T (Some db) kid stamps now = Some db1"
      using save_total [of T db kid stamps now] by (elim exE)
    obtain ts where ts: "db_load_key T db1 kid = Some (ke\<lparr> ke_timestamp := ts \<rparr>, True)" "ke_timestamp ke \<le> ts"
        "unat ts \<le> max (unat (ke_timestamp ke)) (now_mavlink now)"
      using save_timestamp_bounds [OF assms(1,2) sv Cons.prems(1)] by blast
    have "unat ts \<le> max (unat (ke_timestamp ke)) (now_mavlink latest)"
      using ts(3) now_mavlink_mono [OF _ assms(5), of now] Cons.prems(2) x by (auto simp: max_def split: if_splits)
    moreover have "save_history T kid (x # hist) db = save_history T kid hist db1" by (simp add: save_history_def x sv)
    ultimately show ?case using Cons.IH [OF ts(1)] Cons.prems(2) ts(2) by (auto simp: max_def split: if_splits)
  qed
  then obtain ts where ts: "db_load_key T (save_history T kid hist db) kid = Some (ke\<lparr> ke_timestamp := ts \<rparr>, True)"
      "ke_timestamp ke \<le> ts" "unat ts \<le> max (unat (ke_timestamp ke)) (now_mavlink latest)" by blast
  have "u64 (unat ts + 1500000) \<le> sg_timestamp (mv_signing (load_signing_key T (save_history T kid hist db) now m))"
    if "word_of_int (mv_key_id m) = kid" "ts \<noteq> 0" for m :: "'p mavlink" and now
    using that ts(1) by (simp add: load_signing_cases all_zero_key_def)
  then show ?thesis using ts by blast
qed

section \<open>Examples\<close>

text \<open>A codec in which every byte is a message: bit 0 is the signature flag, bit 1 a bad signature.\<close>

definition ex_msg :: "byte \<Rightarrow> mav_msg" where
  "ex_msg b = \<lparr> mm_msgid = unat b div 4, mm_sysid = 1, mm_compid = 1, mm_seq = 0, mm_incompat = b AND 1, mm_target = 0, mm_payload = [b],
     mm_signature = replicate 13 0 \<rparr>"

definition ex_mav :: "unit mav_lib" where
  "ex_mav = \<lparr> ml_signed = 1, ml_target32 = 2, ml_heartbeat = 0, ml_setup_signing = 8,
     ml_parse = (\<lambda>p sg b. (p, sg, Some (ex_msg b), b AND 2 \<noteq> 0)), ml_min_len = (\<lambda>_. 1), ml_max_len = (\<lambda>_. 1), ml_set_seq = (\<lambda>p _. p),
     ml_finalize = (\<lambda>p sg x n t. (p, sg, Some x)), ml_frame = (\<lambda>x. mm_incompat x # mm_payload x), ml_setup = (\<lambda>x. (9, replicate 32 1)),
     ml_plain_status = (\<lambda>i c t. [1]), ml_status = (\<lambda>p sg i c t. (p, sg, [2])), ml_show_secs = (\<lambda>_. []) \<rparr>"

definition ex_valid :: "bytes \<Rightarrow> mav_msg \<Rightarrow> bool" where
  "ex_valid secret msg = (hd (mm_payload msg) AND 2 = 0)"

lemma sign_keeps_refl [simp]: "sign_keeps sg sg"
  by (cases sg) simp_all

lemma ex_laws: "mav_laws ex_mav ex_valid"
  by (auto simp: mav_laws_def ex_mav_def ex_valid_def ex_msg_def)

lemma mem_writable: "tdb_writable mem_tdb"
  by (simp add: tdb_writable_def mem_tdb_def)

definition ex_link :: "unit mavlink" where
  "ex_link = \<lparr> mv_key = sample_key_entry, mv_chan = 2, mv_key_id = 7, mv_is_tcp = False, mv_key_loaded = True, mv_got_signed = False,
     mv_allow_ws = False, mv_sendto = None, mv_signing = sg_zero\<lparr> sg_link_id := 2, sg_timestamp := 5 \<rparr>, mv_last_save = 0, mv_last_warning = 0,
     mv_last_sysid = 0, mv_last_compid = 0, mv_bad_sigs = 0, mv_ws = False, mv_parser = (), mv_wired = True \<rparr>"

lemma ex_link_ok: "mv_ok ex_link"
  by (simp add: mv_ok_def ex_link_def)

theorem mav_receive_authentic_witness:
  "receive_message ex_mav mem_tdb True [] 0 ex_link [5, 6] = (ex_link\<lparr> mv_bad_sigs := 0, mv_got_signed := True \<rparr>, [], [], Some (ex_msg 5), True, [6])
   \<and> mv_got_signed (fst (receive_message ex_mav mem_tdb True [] 0 ex_link [5, 6]))"
proof -
  have r: "receive_message ex_mav mem_tdb True [] 0 ex_link [5, 6]
      = (ex_link\<lparr> mv_bad_sigs := 0, mv_got_signed := True \<rparr>, [], [], Some (ex_msg 5), True, [6])"
    by (simp add: receive_message_def check_message_def ex_mav_def ex_msg_def ex_link_def mv_put_def mv_sign_def Let_def)
  have "mv_key_id ex_link \<noteq> -1" by (simp add: ex_link_def)
  from mav_receive_authentic [OF ex_laws mem_tdb_laws mem_writable ex_link_ok this r] show ?thesis by (simp add: r)
qed

definition ex_keys :: mem_db where
  "ex_keys = fst (db_save_key mem_tdb [] 7 (sample_key_entry\<lparr> ke_timestamp := 3 \<rparr>))"

lemma ex_keys_load: "db_load_key mem_tdb ex_keys 7 = Some (sample_key_entry\<lparr> ke_timestamp := 3 \<rparr>, True)"
proof -
  have "key_entry_valid (sample_key_entry\<lparr> ke_timestamp := 3 \<rparr>)" using sample_key_valid by (simp add: key_entry_valid_def)
  from save_then_load [OF mem_tdb_laws this writable_save [OF mem_writable], of "[]" 7] show ?thesis
    by (simp add: ex_keys_def sample_key_entry_def)
qed

theorem signing_timestamp_no_drift_witness:
  "\<exists>ts. db_load_key mem_tdb (save_history mem_tdb 7 [([2000000], 1420070401000000)] ex_keys) 7
      = Some (sample_key_entry\<lparr> ke_timestamp := ts \<rparr>, True) \<and> 3 \<le> ts \<and> unat ts \<le> 100000"
  using signing_timestamp_no_drift [OF mem_tdb_laws mem_writable ex_keys_load, of "[([2000000], 1420070401000000)]" 1420070401000000]
  by (auto simp: now_mavlink_def EPOCH_OFFSET_def SECOND_def u64_def)


end
