(* ===== verification/Tlog_Writer.thy ===== *)
theory Tlog_Writer
  imports Session_Names
begin

text \<open>
  The telemetry log of a session (\<open>src/tlog.cpp\<close>, class \<open>TlogWriter\<close>): a file of
  records, each an 8-byte big-endian timestamp in microseconds and the frame.
  The file is opened for appending and is unbuffered; what the file system
  answers to a call is an argument.
\<close>

record tlog =
  tl_open :: bool
  tl_path :: string
  tl_file :: bytes

definition tlog_new :: tlog where
  "tlog_new = \<lparr> tl_open = False, tl_path = [], tl_file = [] \<rparr>"

text \<open>\<open>mk\<close> is whether the directory could be made, \<open>file\<close> the contents found, \<open>None\<close> when \<open>fopen\<close> fails.\<close>

definition tlog_open :: "32 word \<Rightarrow> string \<Rightarrow> string \<Rightarrow> string \<Rightarrow> bool \<Rightarrow> bytes option \<Rightarrow> tlog \<Rightarrow> tlog \<times> bool" where
  "tlog_open port2 datedir name base_dir mk file t =
     (if tl_open t then (t, True)
      else if \<not> mk then (t, False)
      else
        let dir = fit 768 (base_dir @ ''/'' @ show_nat (unat port2) @ ''/'' @ datedir);
            path = fit 1024 (dir @ ''/'' @ name @ ''.tlog'')
        in (case file of None \<Rightarrow> (t, False) | Some f \<Rightarrow> (\<lparr> tl_open = True, tl_path = path, tl_file = f \<rparr>, True)))"

text \<open>\<open>w\<close> are the byte counts of the two \<open>fwrite\<close> calls, whose results the code does not look at.\<close>

definition tlog_record :: "nat \<Rightarrow> bytes \<Rightarrow> bytes" where
  "tlog_record us frame = be_bytes 8 (u64 us) @ frame"

definition write_frame :: "nat \<Rightarrow> nat \<times> nat \<Rightarrow> bytes \<Rightarrow> tlog \<Rightarrow> tlog" where
  "write_frame us w frame t =
     (if \<not> tl_open t \<or> frame = [] then t
      else t\<lparr> tl_file := tl_file t @ take (fst w) (be_bytes 8 (u64 us)) @ take (snd w) frame \<rparr>)"

definition tlog_close :: "tlog \<Rightarrow> tlog" where
  "tlog_close t = (if tl_open t then t\<lparr> tl_open := False \<rparr> else t)"

section \<open>The file holds the records in order\<close>

text \<open>Reading a log back needs the length of a frame, which the frame itself carries; \<open>flen\<close> stands
  for that reader.\<close>

function tlog_read :: "(bytes \<Rightarrow> nat) \<Rightarrow> bytes \<Rightarrow> (nat \<times> bytes) list" where
  "tlog_read flen f =
     (if length f \<le> 8 then []
      else let n = flen (drop 8 f) in (be_val (take 8 f), take n (drop 8 f)) # tlog_read flen (drop (8 + n) f))"
  by pat_completeness auto
termination
  by (relation "measure (\<lambda>(flen, f). length f)") auto

declare tlog_read.simps [simp del]

definition write_frames :: "(nat \<times> bytes) list \<Rightarrow> tlog \<Rightarrow> tlog" where
  "write_frames xs t = fold (\<lambda>(us, fr) t. write_frame us (8, length fr) fr t) xs t"

lemma write_frames_file:
  "tl_open t \<Longrightarrow> \<forall>x \<in> set xs. snd x \<noteq> [] \<Longrightarrow>
   tl_file (write_frames xs t) = tl_file t @ concat (map (\<lambda>(us, fr). tlog_record us fr) xs)"
  by (induction xs arbitrary: t) (auto simp: write_frames_def write_frame_def tlog_record_def length_be_bytes)

lemma tlog_read_concat:
  "\<forall>(us, fr) \<in> set xs. us < 2 ^ 64 \<and> fr \<noteq> [] \<and> (\<forall>rest. flen (fr @ rest) = length fr) \<Longrightarrow>
   tlog_read flen (concat (map (\<lambda>(us, fr). tlog_record us fr) xs)) = xs"
proof (induction xs)
  case (Cons x xs)
  obtain us fr where x: "x = (us, fr)" by (cases x)
  let ?rest = "concat (map (\<lambda>(us, fr). tlog_record us fr) xs)"
  have "us < 2 ^ 64" "fr \<noteq> []" "flen (fr @ ?rest) = length fr" using Cons.prems x by auto
  then have "tlog_read flen (be_bytes 8 us @ fr @ ?rest) = (us, fr) # tlog_read flen ?rest"
    by (subst tlog_read.simps) (simp add: length_be_bytes be_val_be_bytes Let_def not_le)
  then show ?case using Cons \<open>us < 2 ^ 64\<close> by (simp add: x tlog_record_def u64_id)
qed (simp add: tlog_read.simps)

text \<open>
  C40. A telemetry log written through its writer reads back as the frames given
  to it, in order, each with its timestamp: for frames that carry their own
  length, a file that was empty when opened and writes that complete.
\<close>

theorem tlog_roundtrip:
  assumes "tlog_open port2 datedir name base mk (Some []) tlog_new = (t, True)"
    and "\<forall>(us, fr) \<in> set xs. us < 2 ^ 64 \<and> fr \<noteq> [] \<and> (\<forall>rest. flen (fr @ rest) = length fr)"
  shows "tlog_read flen (tl_file (write_frames xs t)) = xs"
proof -
  have "tl_open t" "tl_file t = []"
    using assms(1) by (auto simp: tlog_open_def tlog_new_def Let_def split: if_splits)
  moreover have "\<forall>x \<in> set xs. snd x \<noteq> []" using assms(2) by auto
  ultimately show ?thesis using tlog_read_concat [OF assms(2)] by (simp add: write_frames_file)
qed

theorem tlog_roundtrip_witness:
  "tlog_read (\<lambda>f. unat (hd f)) (tl_file (write_frames [(5, [2, 7]), (9, [1])]
     (fst (tlog_open 5 ''d'' ''n'' ''logs'' True (Some []) tlog_new)))) = [(5, [2, 7]), (9, [1])]"
  by (rule tlog_roundtrip [of 5 "''d''" "''n''" "''logs''" True]) (simp_all add: tlog_open_def tlog_new_def Let_def)

end
