(* ===== verification/Port_Session.thy ===== *)
theory Port_Session
  imports Mav_Link Bin_Log Conn_Db Tlog_Writer Web_Socket
begin

text \<open>
  The session of one port pair (\<open>src/supportproxy.cpp\<close>, \<open>main_loop\<close>): one user
  link, up to 100 engineer links, the telemetry log and the binary log.

  \<open>session\<close> holds the local variables of the function, the sockets of the pair and
  the two databases.  One turn of the \<open>while (1)\<close> loop is \<open>session_turn\<close>; what the
  system answers during it (clocks, the ready sockets with their data, results of
  sends and of file and database calls) is a \<open>turn\<close>.  The phases of the loop body
  give a \<open>flow\<close>: go on with the next phase, \<open>continue\<close>, or \<open>break\<close>.  \<open>ps_trace\<close> records,
  in order, the engineer slots taken, the messages that authenticate an engineer link,
  the messages the links accept, every message
  handed to \<open>send_message\<close> with the frame that leaves, and the text frames of the links.
\<close>

definition MAX_COMM2_LINKS :: nat where "MAX_COMM2_LINKS = 100"
definition CONN2_PREAUTH_SECONDS :: int where "CONN2_PREAUTH_SECONDS = 5"
definition CONN1_BIDI_PREAUTH_SECONDS :: int where "CONN1_BIDI_PREAUTH_SECONDS = 5"
definition CHAN_COMM1 :: nat where "CHAN_COMM1 = 0"
definition CHAN_COMM2 :: "nat \<Rightarrow> nat" where "CHAN_COMM2 i = 2 + i"
definition SESSION_BUF :: nat where "SESSION_BUF = 10240"

type_synonym addr = "32 word \<times> 16 word"

section \<open>State\<close>

text \<open>\<open>c2_ws\<close> and \<open>ps_ws1\<close> are the WebSocket object, with whether it runs over TLS.\<close>

record 'p conn2 =
  c2_sock :: bool
  c2_used :: bool
  c2_tcp_active :: bool
  c2_mav :: "'p mavlink"
  c2_ws :: "bool option"
  c2_from :: addr
  c2_is_udp :: bool
  c2_last_pkt :: int
  c2_connected_at :: int
  c2_rx :: nat
  c2_tx :: nat

record pair_cfg =
  pf_port2 :: int
  pf_flags :: "32 word"
  pf_pid :: "32 word"
  pf_datedir :: string
  pf_name :: string

datatype sent = Opened nat | Signed nat mav_msg | Heard nat mav_msg | Heard_user mav_msg | To_user nat mav_msg "bytes option" | To_eng nat mav_msg "bytes option"
  | Text_user "bytes list" | Text_eng nat "bytes list" | Log_user "bl_msg list"

record ('p, 'db) session =
  ps_have_conn1 :: bool
  ps_last_pkt1 :: int
  ps_count1 :: nat
  ps_count2 :: nat
  ps_max2 :: nat
  ps_n2 :: nat
  ps_mav1 :: "'p mavlink"
  ps_conn2 :: "'p conn2 list"
  ps_tlog :: tlog
  ps_binlog :: binlog
  ps_peer :: addr
  ps_connected_at :: int
  ps_rx1 :: nat
  ps_tx1 :: nat
  ps_tcp1 :: bool
  ps_last_save :: int
  ps_sock1_udp :: bool
  ps_sock2_udp :: bool
  ps_sock1_tcp :: bool
  ps_sock2_listen :: bool
  ps_ws1 :: "bool option"
  ps_keys :: 'db
  ps_conns :: 'db
  ps_k :: nat
  ps_kb :: nat
  ps_trace :: "sent list"

record bin_lib =
  bb_block :: nat
  bb_status :: nat
  bb_block_of :: "mav_msg \<Rightarrow> log_block"
  bb_time_of :: "mav_msg \<Rightarrow> system_time_msg"

datatype select_result = Sel_eintr | Sel_none | Sel_ready

text \<open>A ready TCP socket: what \<open>WebSocket::detect\<close> says, whether the handshake is TLS, and the read
  (\<open>None\<close> for a negative result).\<close>

record tcp_in =
  ti_detect :: ws_detect_t
  ti_ssl :: bool
  ti_read :: "bytes option"

record turn =
  tn_drops :: bool
  tn_top :: int
  tn_select :: select_result
  tn_now :: int
  tn_wall :: int
  tn_user_udp :: "(addr \<times> bytes) option option"
  tn_connect :: bool
  tn_eng_udp :: "(addr \<times> bytes) option option"
  tn_user_accept :: "addr option option"
  tn_user_tcp :: "tcp_in option"
  tn_eng_accept :: "addr option option"
  tn_eng_tcp :: "nat \<Rightarrow> tcp_in option"
  tn_ans :: "nat \<Rightarrow> send_answer"
  tn_bl :: "nat \<Rightarrow> bl_env"
  tn_tl_open :: "bool \<times> bytes option"
  tn_tl :: "nat \<Rightarrow> nat \<times> nat \<times> nat"
  tn_txn :: bool
  tn_conn_txn :: bool
  tn_tick :: "bool list"
  tn_snap :: int
  tn_snap_txn :: bool

datatype 's flow = Go 's | Again 's | Stop 's

fun flow_state :: "'s flow \<Rightarrow> 's" where
  "flow_state (Go s) = s" | "flow_state (Again s) = s" | "flow_state (Stop s) = s"

fun flow_then :: "'s flow \<Rightarrow> ('s \<Rightarrow> 's flow) \<Rightarrow> 's flow" where
  "flow_then (Go s) f = f s" | "flow_then (Again s) f = Again s" | "flow_then (Stop s) f = Stop s"

text \<open>The parameters of a session: the generated code, the log decoders, the databases and the entry.\<close>

record ('p, 'db) pair_env =
  pe_lib :: "'p mav_lib"
  pe_bin :: bin_lib
  pe_tdb :: "'db tdb_ops"
  pe_cfg :: pair_cfg

definition pf_flag :: "('p, 'db) pair_env \<Rightarrow> 32 word \<Rightarrow> bool" where
  "pf_flag E m = (pf_flags (pe_cfg E) AND m \<noteq> 0)"

definition bidi :: "('p, 'db) pair_env \<Rightarrow> bool" where
  "bidi E = pf_flag E KEY_FLAG_BIDI_SIGN"

definition conn1_key_id :: "('p, 'db) pair_env \<Rightarrow> int" where
  "conn1_key_id E = (if bidi E then pf_port2 (pe_cfg E) else -1)"

section \<open>Engineer slots\<close>

definition put_conn2 :: "nat \<Rightarrow> 'p conn2 \<Rightarrow> ('p, 'db) session \<Rightarrow> ('p, 'db) session" where
  "put_conn2 i c s = s\<lparr> ps_conn2 := (ps_conn2 s)[i := c] \<rparr>"

definition c2_close :: "'p conn2 \<Rightarrow> 'p conn2" where
  "c2_close c = c\<lparr> c2_sock := False, c2_tcp_active := False, c2_used := False, c2_mav := (c2_mav c)\<lparr> mv_ws := False \<rparr>, c2_ws := None,
     c2_connected_at := 0, c2_rx := 0, c2_tx := 0 \<rparr>"

text \<open>The watermark falls while the slot below it is free.\<close>

fun shrink :: "'p conn2 list \<Rightarrow> nat \<Rightarrow> nat" where
  "shrink cs 0 = 0"
| "shrink cs (Suc n) = (if c2_used (cs ! n) then Suc n else shrink cs n)"

definition close_conn2 :: "nat \<Rightarrow> ('p, 'db) session \<Rightarrow> ('p, 'db) session" where
  "close_conn2 i s =
     (let s1 = put_conn2 i (c2_close (ps_conn2 s ! i)) s
      in s1\<lparr> ps_n2 := (if ps_n2 s > 0 then ps_n2 s - 1 else ps_n2 s), ps_max2 := shrink (ps_conn2 s1) (ps_max2 s) \<rparr>)"

fun free_conn2 :: "'p conn2 list \<Rightarrow> nat \<Rightarrow> nat option" where
  "free_conn2 [] i = None"
| "free_conn2 (c # cs) i = (if \<not> c2_used c then Some i else free_conn2 cs (i + 1))"

definition u8 :: "nat \<Rightarrow> nat" where "u8 n = n mod 256"

text \<open>A slot is taken: the counters.\<close>

definition take_slot :: "('p, 'db) session \<Rightarrow> ('p, 'db) session" where
  "take_slot s = (let n = u8 (ps_n2 s + 1) in s\<lparr> ps_n2 := n, ps_max2 := max (ps_max2 s) n \<rparr>)"

text \<open>A loop over the slots below the watermark, which is read again at every step.\<close>

definition each_slot :: "(nat \<Rightarrow> ('p, 'db) session \<Rightarrow> ('p, 'db) session) \<Rightarrow> ('p, 'db) session \<Rightarrow> ('p, 'db) session" where
  "each_slot f s = fold (\<lambda>i s. if i < ps_max2 s then f i s else s) [0..<MAX_COMM2_LINKS] s"

section \<open>Messages\<close>

definition raise_all :: "nat option \<Rightarrow> ('p, 'db) session \<Rightarrow> ('p, 'db) session" where
  "raise_all r s = (case r of None \<Rightarrow> s
     | Some t \<Rightarrow> s\<lparr> ps_mav1 := raise_timestamp t (ps_mav1 s),
                   ps_conn2 := map (\<lambda>c. c\<lparr> c2_mav := raise_timestamp t (c2_mav c) \<rparr>) (ps_conn2 s) \<rparr>)"

definition add_trace :: "sent \<Rightarrow> ('p, 'db) session \<Rightarrow> ('p, 'db) session" where
  "add_trace x s = s\<lparr> ps_trace := ps_trace s @ [x] \<rparr>"

definition add_traces :: "sent list \<Rightarrow> ('p, 'db) session \<Rightarrow> ('p, 'db) session" where
  "add_traces xs s = s\<lparr> ps_trace := ps_trace s @ xs \<rparr>"

definition send_user :: "('p, 'db) pair_env \<Rightarrow> turn \<Rightarrow> nat \<Rightarrow> mav_msg \<Rightarrow> ('p, 'db) session \<Rightarrow> ('p, 'db) session \<times> bool" where
  "send_user E tn i msg s =
     (let (m, f, ok, r) = mv_send (pe_lib E) (tn_ans tn (ps_k s)) (tn_now tn) (ps_mav1 s) msg
      in (add_trace (To_user i msg f) (raise_all r (s\<lparr> ps_mav1 := m, ps_k := ps_k s + 1 \<rparr>)), ok))"

definition send_eng :: "('p, 'db) pair_env \<Rightarrow> turn \<Rightarrow> nat \<Rightarrow> mav_msg \<Rightarrow> ('p, 'db) session \<Rightarrow> ('p, 'db) session \<times> bool" where
  "send_eng E tn i msg s =
     (let c = ps_conn2 s ! i; (m, f, ok, r) = mv_send (pe_lib E) (tn_ans tn (ps_k s)) (tn_now tn) (c2_mav c) msg
      in (add_trace (To_eng i msg f) (raise_all r ((put_conn2 i (c\<lparr> c2_mav := m \<rparr>) s)\<lparr> ps_k := ps_k s + 1 \<rparr>)), ok))"

definition bump_tx :: "nat \<Rightarrow> ('p, 'db) session \<Rightarrow> ('p, 'db) session" where
  "bump_tx i s = (let c = ps_conn2 s ! i in put_conn2 i (c\<lparr> c2_tx := u32 (c2_tx c + 1) \<rparr>) s)"

text \<open>A user message to one engineer.  On the UDP path a failed send closes a TCP slot and is
  ignored for a UDP slot; on the TCP path it closes either.\<close>

definition forward_one :: "('p, 'db) pair_env \<Rightarrow> turn \<Rightarrow> bool \<Rightarrow> mav_msg \<Rightarrow> nat \<Rightarrow> ('p, 'db) session \<Rightarrow> ('p, 'db) session" where
  "forward_one E tn udp_path msg i s =
     (let c = ps_conn2 s ! i
      in if \<not> c2_used c \<or> udp_path \<and> \<not> c2_is_udp c \<and> \<not> c2_sock c then s
         else let (s1, ok) = send_eng E tn i msg s
              in if ok \<or> udp_path \<and> c2_is_udp c then bump_tx i s1 else close_conn2 i s1)"

definition log_message :: "('p, 'db) pair_env \<Rightarrow> turn \<Rightarrow> mav_msg \<Rightarrow> ('p, 'db) session \<Rightarrow> ('p, 'db) session" where
  "log_message E tn msg s =
     (if pf_flag E KEY_FLAG_TLOG then
        let (t, ok) = tlog_open (word_of_int (pf_port2 (pe_cfg E))) (pf_datedir (pe_cfg E)) (pf_name (pe_cfg E)) ''logs''
                        (fst (tn_tl_open tn)) (snd (tn_tl_open tn)) (ps_tlog s);
            (us, w) = tn_tl tn (ps_kb s)
        in s\<lparr> ps_tlog := write_frame us w (ml_frame (pe_lib E) msg) t, ps_kb := ps_kb s + 1 \<rparr>
      else s)"

text \<open>\<open>binlog_handle_user_msg\<close>: whether the message is kept from the engineers.\<close>

definition binlog_user_msg :: "('p, 'db) pair_env \<Rightarrow> turn \<Rightarrow> mav_msg \<Rightarrow> ('p, 'db) session \<Rightarrow> ('p, 'db) session \<times> bool" where
  "binlog_user_msg E tn msg s =
     (if \<not> pf_flag E KEY_FLAG_BINLOG then (s, False)
      else
        let b1 = bl_observe (tn_bl tn (ps_kb s)) (ps_binlog s) (bb_time_of (pe_bin E) msg);
            b2 = (if mm_msgid msg = bb_block (pe_bin E) then fst (handle_block (tn_bl tn (ps_kb s + 1)) b1 (bb_block_of (pe_bin E) msg)) else b1)
        in (s\<lparr> ps_binlog := b2, ps_kb := ps_kb s + 2 \<rparr>, mm_msgid msg = bb_block (pe_bin E) \<or> mm_msgid msg = bb_status (pe_bin E)))"

definition user_message :: "('p, 'db) pair_env \<Rightarrow> turn \<Rightarrow> bool \<Rightarrow> mav_msg \<Rightarrow> ('p, 'db) session \<Rightarrow> ('p, 'db) session" where
  "user_message E tn udp_path msg s =
     (let (s1, strip) = binlog_user_msg E tn msg (log_message E tn msg (s\<lparr> ps_rx1 := u32 (ps_rx1 s + 1) \<rparr>))
      in if strip then s1 else each_slot (forward_one E tn udp_path msg) s1)"

text \<open>One \<open>receive_message\<close> of the user link and of an engineer link.\<close>

definition user_receive :: "('p, 'db) pair_env \<Rightarrow> turn \<Rightarrow> bytes \<Rightarrow> ('p, 'db) session \<Rightarrow> ('p, 'db) session \<times> mav_msg option \<times> bytes" where
  "user_receive E tn buf s =
     (let (m, db, outs, x, ok, rest) = receive_message (pe_lib E) (pe_tdb E) (tn_txn tn) (ps_keys s) (tn_now tn) (ps_mav1 s) buf
      in (add_traces (Text_user outs # (case x of Some msg \<Rightarrow> if ok then [Heard_user msg] else [] | None \<Rightarrow> []))
            (s\<lparr> ps_mav1 := m, ps_keys := db \<rparr>), if ok then x else None, rest))"

definition eng_receive :: "('p, 'db) pair_env \<Rightarrow> turn \<Rightarrow> nat \<Rightarrow> bytes \<Rightarrow> ('p, 'db) session \<Rightarrow> ('p, 'db) session \<times> mav_msg option \<times> bytes" where
  "eng_receive E tn i buf s =
     (let c = ps_conn2 s ! i;
          (m, db, outs, x, ok, rest) = receive_message (pe_lib E) (pe_tdb E) (tn_txn tn) (ps_keys s) (tn_now tn) (c2_mav c) buf;
          signed = (mv_got_signed m \<and> \<not> mv_got_signed (c2_mav c))
      in (add_traces (Text_eng i outs # (case x of Some msg \<Rightarrow> (if signed then [Signed i msg] else []) @ (if ok then [Heard i msg] else []) | None \<Rightarrow> []))
            ((put_conn2 i (c\<lparr> c2_mav := m \<rparr>) s)\<lparr> ps_keys := db \<rparr>), if ok then x else None, rest))"

lemma user_receive_shorter: "user_receive E tn buf s = (s', Some msg, rest) \<Longrightarrow> length rest < length buf"
  by (auto simp: user_receive_def receive_message_def split: prod.splits if_splits dest: receive_shorter)

lemma eng_receive_shorter: "eng_receive E tn i buf s = (s', Some msg, rest) \<Longrightarrow> length rest < length buf"
  by (auto simp: eng_receive_def receive_message_def Let_def split: prod.splits if_splits dest: receive_shorter)

function user_loop :: "('p, 'db) pair_env \<Rightarrow> turn \<Rightarrow> bool \<Rightarrow> bytes \<Rightarrow> ('p, 'db) session \<Rightarrow> ('p, 'db) session" where
  "user_loop E tn udp_path buf s =
     (if buf = [] then s
      else case user_receive E tn buf s of
             (s1, None, rest) \<Rightarrow> s1
           | (s1, Some msg, rest) \<Rightarrow> user_loop E tn udp_path rest (user_message E tn udp_path msg s1))"
  by pat_completeness auto
termination
  by (relation "measure (\<lambda>(E, tn, u, buf, s). length buf)") (auto dest: user_receive_shorter [OF sym])

text \<open>The validation of a datagram before the user side is latched: every message is dropped.\<close>

function bidi_loop :: "('p, 'db) pair_env \<Rightarrow> turn \<Rightarrow> bytes \<Rightarrow> ('p, 'db) session \<Rightarrow> ('p, 'db) session \<times> bool" where
  "bidi_loop E tn buf s =
     (if buf = [] then (s, False)
      else case user_receive E tn buf s of
             (s1, None, rest) \<Rightarrow> (s1, False)
           | (s1, Some msg, rest) \<Rightarrow> (fst (bidi_loop E tn rest s1), True))"
  by pat_completeness auto
termination
  by (relation "measure (\<lambda>(E, tn, buf, s). length buf)") (auto dest: user_receive_shorter [OF sym])

text \<open>Engineer messages go to the user; the result is whether a send failed.\<close>

function eng_loop :: "('p, 'db) pair_env \<Rightarrow> turn \<Rightarrow> nat \<Rightarrow> bytes \<Rightarrow> ('p, 'db) session \<Rightarrow> ('p, 'db) session \<times> bool" where
  "eng_loop E tn i buf s =
     (if buf = [] then (s, False)
      else case eng_receive E tn i buf s of
             (s1, None, rest) \<Rightarrow> (s1, False)
           | (s1, Some msg, rest) \<Rightarrow>
               let c = ps_conn2 s1 ! i; s2 = log_message E tn msg (put_conn2 i (c\<lparr> c2_rx := u32 (c2_rx c + 1) \<rparr>) s1);
                   (s3, ok) = send_user E tn i msg s2
               in if \<not> ok then (s3, True) else eng_loop E tn i rest (s3\<lparr> ps_tx1 := u32 (ps_tx1 s3 + 1) \<rparr>))"
  by pat_completeness auto
termination
  by (relation "measure (\<lambda>(E, tn, i, buf, s). length buf)") (auto dest: eng_receive_shorter [OF sym])

declare user_loop.simps [simp del] bidi_loop.simps [simp del] eng_loop.simps [simp del]

section \<open>Drop requests\<close>

definition drop_indices :: "'db tdb_ops \<Rightarrow> 'db \<Rightarrow> 32 word \<Rightarrow> (32 word) list" where
  "drop_indices T db port2 =
     List.map_filter (\<lambda>(k, d). if length k \<noteq> 8 \<or> length d < CONNENTRY_MIN_SIZE \<or> key_port2 k \<noteq> port2 then None
        else let e = conn_decode (zero_extend CONNENTRY_SIZE d)
             in if ce_magic e = CONN_MAGIC \<and> ce_flags e AND CONN_FLAG_DROP_REQUESTED \<noteq> 0 then Some (key_index k) else None)
       (tdb_records T db)"

definition drop_slot :: "32 word \<Rightarrow> ('p, 'db) session \<Rightarrow> ('p, 'db) session" where
  "drop_slot idx s =
     (let i = nat (sint idx) in if 1 \<le> sint idx \<and> i \<le> MAX_COMM2_LINKS \<and> c2_used (ps_conn2 s ! (i - 1)) then close_conn2 (i - 1) s else s)"

definition process_drops :: "('p, 'db) pair_env \<Rightarrow> bool \<Rightarrow> ('p, 'db) session \<Rightarrow> ('p, 'db) session \<times> bool" where
  "process_drops E txn s =
     (if \<not> txn then (s, False)
      else
        let port2 = word_of_int (pf_port2 (pe_cfg E)); ids = drop_indices (pe_tdb E) (ps_conns s) port2;
            s1 = s\<lparr> ps_conns := fold (\<lambda>i db. fst (conn_delete (pe_tdb E) db port2 i)) ids (ps_conns s) \<rparr>
        in (fold drop_slot ids s1, 0 \<in> set ids))"

section \<open>The phases of a turn\<close>

definition ph_drops :: "('p, 'db) pair_env \<Rightarrow> turn \<Rightarrow> ('p, 'db) session \<Rightarrow> ('p, 'db) session flow" where
  "ph_drops E tn s =
     (if tn_drops tn then let (s1, quit) = process_drops E (tn_conn_txn tn) s in if quit then Stop s1 else Go s1 else Go s)"

definition ph_select :: "turn \<Rightarrow> ('p, 'db) session \<Rightarrow> ('p, 'db) session flow" where
  "ph_select tn s =
     (if ps_have_conn1 s \<and> tn_top tn - ps_last_pkt1 s > 10 * SECOND then Stop s
      else case tn_select tn of Sel_eintr \<Rightarrow> Again s | Sel_none \<Rightarrow> Stop s | Sel_ready \<Rightarrow>
        Go (if ps_max2 s > MAX_COMM2_LINKS then s\<lparr> ps_max2 := MAX_COMM2_LINKS \<rparr> else s))"

text \<open>Slots past the pre-authentication deadline, and idle UDP slots.\<close>

definition slot_expired :: "turn \<Rightarrow> 'p conn2 \<Rightarrow> bool" where
  "slot_expired tn c =
     (c2_used c \<and> (\<not> mv_got_signed (c2_mav c) \<and> tn_wall tn - c2_connected_at c > CONN2_PREAUTH_SECONDS
                   \<or> c2_is_udp c \<and> tn_now tn - c2_last_pkt c > 10 * SECOND))"

definition expire_slot :: "turn \<Rightarrow> nat \<Rightarrow> ('p, 'db) session \<Rightarrow> ('p, 'db) session" where
  "expire_slot tn i s = (if slot_expired tn (ps_conn2 s ! i) then close_conn2 i s else s)"

definition ph_expire :: "('p, 'db) pair_env \<Rightarrow> turn \<Rightarrow> ('p, 'db) session \<Rightarrow> ('p, 'db) session flow" where
  "ph_expire E tn s =
     (let s1 = each_slot (expire_slot tn) s
      in if bidi E \<and> ps_have_conn1 s1 \<and> \<not> mv_got_signed (ps_mav1 s1) \<and> ps_tcp1 s1
            \<and> tn_wall tn - ps_connected_at s1 > CONN1_BIDI_PREAUTH_SECONDS
         then Stop s1 else Go s1)"

text \<open>Whether anything consumes what the user sends.\<close>

definition user_parse :: "('p, 'db) pair_env \<Rightarrow> turn \<Rightarrow> bool \<Rightarrow> bytes \<Rightarrow> ('p, 'db) session \<Rightarrow> ('p, 'db) session" where
  "user_parse E tn udp_path d s =
     (if ps_n2 s > 0 \<or> pf_flag E KEY_FLAG_BINLOG \<or> pf_flag E KEY_FLAG_TLOG \<or> pf_flag E KEY_FLAG_VIDEO
      then user_loop E tn udp_path d s else s)"

definition latch_user :: "turn \<Rightarrow> addr \<Rightarrow> bool \<Rightarrow> ('p, 'db) session \<Rightarrow> ('p, 'db) session" where
  "latch_user tn from tcp s =
     s\<lparr> ps_have_conn1 := True, ps_peer := from, ps_connected_at := tn_wall tn, ps_tcp1 := tcp, ps_last_save := 0 \<rparr>"

definition init_user :: "('p, 'db) pair_env \<Rightarrow> turn \<Rightarrow> bool \<Rightarrow> ('p, 'db) session \<Rightarrow> ('p, 'db) session" where
  "init_user E tn tcp s =
     (let (m, r) = mv_init (pe_tdb E) (ps_keys s) (tn_now tn) (ps_mav1 s) CHAN_COMM1 (bidi E) False tcp (conn1_key_id E)
      in raise_all r (s\<lparr> ps_mav1 := m \<rparr>))"

definition ph_user_udp :: "('p, 'db) pair_env \<Rightarrow> turn \<Rightarrow> ('p, 'db) session \<Rightarrow> ('p, 'db) session flow" where
  "ph_user_udp E tn s =
     (case tn_user_udp tn of
        None \<Rightarrow> Go s
      | Some got \<Rightarrow>
          if \<not> ps_sock1_udp s then Go s
          else
            let s0 = s\<lparr> ps_sock1_tcp := False \<rparr>
            in case got of
                 None \<Rightarrow> Stop s0
               | Some (from, d0) \<Rightarrow>
                   let d = take SESSION_BUF d0; s1 = s0\<lparr> ps_last_pkt1 := tn_now tn, ps_count1 := u32 (ps_count1 s0 + 1) \<rparr>
                   in if ps_have_conn1 s1 then Go (user_parse E tn True d s1)
                      else if bidi E then
                        let (s2, validated) = bidi_loop E tn d s1
                        in if \<not> validated then Again s2 else if \<not> tn_connect tn then Stop s2 else Go (latch_user tn from False s2)
                      else if \<not> tn_connect tn then Stop s1
                      else Go (user_parse E tn True d (latch_user tn from False (init_user E tn False s1))))"

definition find_udp :: "('p, 'db) session \<Rightarrow> addr \<Rightarrow> nat option" where
  "find_udp s from = find (\<lambda>i. c2_used (ps_conn2 s ! i) \<and> c2_is_udp (ps_conn2 s ! i) \<and> c2_from (ps_conn2 s ! i) = from) [0..<ps_max2 s]"

text \<open>A new slot: the counters, the link with the key of the port, the fields.\<close>

definition init_eng :: "('p, 'db) pair_env \<Rightarrow> turn \<Rightarrow> nat \<Rightarrow> bool \<Rightarrow> addr \<Rightarrow> ('p, 'db) session \<Rightarrow> ('p, 'db) session" where
  "init_eng E tn i udp from s =
     (let c = ps_conn2 s ! i;
          (m, r) = mv_init (pe_tdb E) (ps_keys s) (tn_now tn) (c2_mav c) (CHAN_COMM2 i) True (\<not> udp) (\<not> udp) (pf_port2 (pe_cfg E));
          m1 = (if udp then m\<lparr> mv_sendto := Some from \<rparr> else m);
          c1 = c\<lparr> c2_sock := \<not> udp, c2_used := True, c2_tcp_active := udp, c2_mav := m1, c2_from := from, c2_is_udp := udp,
                  c2_last_pkt := (if udp then tn_now tn else c2_last_pkt c), c2_connected_at := tn_wall tn, c2_rx := 0, c2_tx := 0 \<rparr>
      in (add_trace (Opened i) (raise_all r (put_conn2 i c1 (take_slot s))))\<lparr> ps_last_save := 0 \<rparr>)"

definition ph_eng_udp :: "('p, 'db) pair_env \<Rightarrow> turn \<Rightarrow> ('p, 'db) session \<Rightarrow> ('p, 'db) session flow" where
  "ph_eng_udp E tn s =
     (case tn_eng_udp tn of
        None \<Rightarrow> Go s
      | Some got \<Rightarrow>
          if \<not> ps_sock2_udp s then Go s
          else (case got of
                  None \<Rightarrow> Stop s
                | Some (from, d) \<Rightarrow>
                    let s1 = s\<lparr> ps_count2 := u32 (ps_count2 s + 1) \<rparr>;
                        (s2, idx) = (case find_udp s1 from of
                                       Some i \<Rightarrow> (put_conn2 i ((ps_conn2 s1 ! i)\<lparr> c2_last_pkt := tn_now tn \<rparr>) s1, Some i)
                                     | None \<Rightarrow> (case free_conn2 (ps_conn2 s1) 0 of
                                                 None \<Rightarrow> (s1, None) | Some i \<Rightarrow> (init_eng E tn i True from s1, Some i)))
                    in (case idx of
                          None \<Rightarrow> Go s2
                        | Some i \<Rightarrow>
                            if ps_have_conn1 s2 \<and> ps_count1 s2 > 0
                            then let (s3, failed) = eng_loop E tn i (take SESSION_BUF d) s2 in if failed then Stop s3 else Go s3
                            else Go s2)))"

definition ph_user_accept :: "('p, 'db) pair_env \<Rightarrow> turn \<Rightarrow> ('p, 'db) session \<Rightarrow> ('p, 'db) session flow" where
  "ph_user_accept E tn s =
     (if ps_have_conn1 s \<or> \<not> ps_sock1_tcp s then Go s
      else (case tn_user_accept tn of
              None \<Rightarrow> Go s
            | Some got \<Rightarrow>
                let s0 = s\<lparr> ps_sock1_udp := False \<rparr>
                in (case got of
                      None \<Rightarrow> Stop s0
                    | Some from \<Rightarrow> Again ((init_user E tn True (latch_user tn from True s0))\<lparr> ps_last_pkt1 := tn_now tn \<rparr>))))"

definition ph_user_tcp :: "('p, 'db) pair_env \<Rightarrow> turn \<Rightarrow> ('p, 'db) session \<Rightarrow> ('p, 'db) session flow" where
  "ph_user_tcp E tn s =
     (if \<not> ps_have_conn1 s \<or> \<not> ps_sock1_tcp s then Go s
      else (case tn_user_tcp tn of
              None \<Rightarrow> Go s
            | Some ti \<Rightarrow>
                let s0 = s\<lparr> ps_sock1_udp := False \<rparr>; probe = (ps_count1 s0 = 0 \<and> ps_ws1 s0 = None)
                in if probe \<and> ti_detect ti = WS_MORE then Again s0
                   else
                     let s1 = (if probe \<and> ti_detect ti = WS_YES
                               then s0\<lparr> ps_ws1 := Some (ti_ssl ti), ps_mav1 := (ps_mav1 s0)\<lparr> mv_ws := True \<rparr> \<rparr> else s0)
                     in (case ti_read ti of
                           None \<Rightarrow> Stop s1
                         | Some d \<Rightarrow>
                             if ps_ws1 s1 = None \<and> d = [] then Stop s1
                             else Go (user_parse E tn False (take (SESSION_BUF - 1) d)
                                       (s1\<lparr> ps_last_pkt1 := tn_now tn, ps_count1 := u32 (ps_count1 s1 + 1) \<rparr>)))))"

definition ph_eng_accept :: "('p, 'db) pair_env \<Rightarrow> turn \<Rightarrow> ('p, 'db) session \<Rightarrow> ('p, 'db) session flow" where
  "ph_eng_accept E tn s =
     (if \<not> ps_sock2_listen s then Go s
      else (case tn_eng_accept tn of
              None \<Rightarrow> Go s
            | Some None \<Rightarrow> Again s
            | Some (Some from) \<Rightarrow>
                if ps_n2 s \<ge> MAX_COMM2_LINKS then Again s
                else (case free_conn2 (ps_conn2 s) 0 of None \<Rightarrow> Again s | Some i \<Rightarrow> Again (init_eng E tn i False from s))))"

text \<open>One ready engineer socket: the result is whether the loop over the slots is left.\<close>

definition eng_tcp :: "('p, 'db) pair_env \<Rightarrow> turn \<Rightarrow> nat \<Rightarrow> ('p, 'db) session \<Rightarrow> ('p, 'db) session \<times> bool" where
  "eng_tcp E tn i s =
     (let c = ps_conn2 s ! i
      in if c2_is_udp c \<or> \<not> c2_used c \<or> \<not> c2_sock c then (s, False)
         else (case tn_eng_tcp tn i of
                 None \<Rightarrow> (s, False)
               | Some ti \<Rightarrow>
                   let probe = (\<not> c2_tcp_active c \<and> c2_ws c = None)
                   in if probe \<and> ti_detect ti = WS_MORE then (s, False)
                      else
                        let c1 = (if probe \<and> ti_detect ti = WS_YES
                                  then c\<lparr> c2_ws := Some (ti_ssl ti), c2_mav := (c2_mav c)\<lparr> mv_ws := True \<rparr> \<rparr> else c);
                            s1 = put_conn2 i c1 s
                        in (case ti_read ti of
                              None \<Rightarrow> (close_conn2 i s1, False)
                            | Some d \<Rightarrow>
                                if d = [] then (if c2_ws c1 = None then close_conn2 i s1 else s1, False)
                                else
                                  let s2 = (put_conn2 i (c1\<lparr> c2_tcp_active := True \<rparr>) s1)\<lparr> ps_count2 := u32 (ps_count2 s1 + 1) \<rparr>
                                  in if ps_have_conn1 s2 \<and> ps_count1 s2 > 0 then eng_loop E tn i (take (SESSION_BUF - 1) d) s2
                                     else (s2, False))))"

fun eng_tcp_loop :: "('p, 'db) pair_env \<Rightarrow> turn \<Rightarrow> nat list \<Rightarrow> ('p, 'db) session \<Rightarrow> ('p, 'db) session" where
  "eng_tcp_loop E tn [] s = s"
| "eng_tcp_loop E tn (i # is) s =
     (if i < ps_max2 s then let (s1, leave) = eng_tcp E tn i s in if leave then s1 else eng_tcp_loop E tn is s1 else s)"

definition ph_binlog :: "('p, 'db) pair_env \<Rightarrow> turn \<Rightarrow> ('p, 'db) session \<Rightarrow> ('p, 'db) session" where
  "ph_binlog E tn s =
     (if pf_flag E KEY_FLAG_BINLOG \<and> ps_have_conn1 s
      then let (b, ms) = bl_tick (tn_now tn) (ps_binlog s) (tn_tick tn) in add_trace (Log_user ms) (s\<lparr> ps_binlog := b \<rparr>) else s)"

section \<open>Rows of the connection database\<close>

definition conn_blank :: conn_entry where "conn_blank = conn_decode (replicate CONNENTRY_SIZE 0)"

definition ws_transport :: "bool \<Rightarrow> byte" where
  "ws_transport ssl = (if ssl then CONN_TRANSPORT_WSS else CONN_TRANSPORT_WS)"

text \<open>\<open>drop_mask & (1u << n)\<close>.  A shift by 32 and more is undefined in C; here, as on the machines the
  proxy runs on, the shift count is reduced modulo 32.\<close>

definition drop_flag :: "32 word \<Rightarrow> nat \<Rightarrow> 32 word" where
  "drop_flag drops n = (if bit drops (n mod 32) then CONN_FLAG_DROP_REQUESTED else 0)"

definition user_row :: "('p, 'db) pair_env \<Rightarrow> int \<Rightarrow> 32 word \<Rightarrow> ('p, 'db) session \<Rightarrow> conn_entry" where
  "user_row E now drops s =
     conn_blank\<lparr> ce_magic := CONN_MAGIC, connected_at := word_of_int (ps_connected_at s), last_update := word_of_int now,
       ce_port2 := word_of_int (pf_port2 (pe_cfg E)), conn_index := 0, ce_pid := pf_pid (pe_cfg E), rx_msgs := word_of_nat (ps_rx1 s),
       tx_msgs := word_of_nat (ps_tx1 s), peer_ip_be := fst (ps_peer s), peer_port_be := snd (ps_peer s),
       transport := (case ps_ws1 s of Some ssl \<Rightarrow> ws_transport ssl | None \<Rightarrow> if ps_tcp1 s then CONN_TRANSPORT_TCP else CONN_TRANSPORT_UDP),
       is_user := 1, authenticated := (if mv_got_signed (ps_mav1 s) then 1 else 0), ce_flags := drop_flag drops 0 \<rparr>"

definition eng_row :: "('p, 'db) pair_env \<Rightarrow> int \<Rightarrow> 32 word \<Rightarrow> nat \<Rightarrow> 'p conn2 \<Rightarrow> conn_entry" where
  "eng_row E now drops i c =
     conn_blank\<lparr> ce_magic := CONN_MAGIC, connected_at := word_of_int (c2_connected_at c), last_update := word_of_int now,
       ce_port2 := word_of_int (pf_port2 (pe_cfg E)), conn_index := word_of_nat (i + 1), ce_pid := pf_pid (pe_cfg E),
       rx_msgs := word_of_nat (c2_rx c), tx_msgs := word_of_nat (c2_tx c), peer_ip_be := fst (c2_from c), peer_port_be := snd (c2_from c),
       transport := (if c2_is_udp c then CONN_TRANSPORT_UDP
                     else case c2_ws c of Some ssl \<Rightarrow> ws_transport ssl | None \<Rightarrow> CONN_TRANSPORT_TCP),
       is_user := 0, ce_flags := drop_flag drops (i + 1) \<rparr>"

text \<open>The rewrite of the session's rows by the snapshot child.\<close>

definition snapshot_rows :: "('p, 'db) pair_env \<Rightarrow> int \<Rightarrow> ('p, 'db) session \<Rightarrow> 'db \<Rightarrow> 'db" where
  "snapshot_rows E now s db =
     (let T = pe_tdb E; port2 = word_of_int (pf_port2 (pe_cfg E)); drops = conn_drop_mask T db port2;
          db1 = fst (conn_delete_for_port2 T db port2);
          db2 = (if ps_have_conn1 s then fst (conn_write T db1 (user_row E now drops s)) else db1)
      in fold (\<lambda>i db. if c2_used (ps_conn2 s ! i) then fst (conn_write T db (eng_row E now drops i (ps_conn2 s ! i))) else db)
           [0..<ps_max2 s] db2)"

definition ph_snapshot :: "('p, 'db) pair_env \<Rightarrow> turn \<Rightarrow> ('p, 'db) session \<Rightarrow> ('p, 'db) session flow" where
  "ph_snapshot E tn s =
     (if tn_snap tn - ps_last_save s > 5 * SECOND then
        let (s1, quit) = process_drops E (tn_conn_txn tn) (s\<lparr> ps_last_save := tn_snap tn \<rparr>)
        in if quit then Stop s1
           else Go (if tn_snap_txn tn then s1\<lparr> ps_conns := snapshot_rows E (tn_wall tn) s1 (ps_conns s1) \<rparr> else s1)
      else Go s)"

section \<open>Turns and sessions\<close>

definition session_turn :: "('p, 'db) pair_env \<Rightarrow> turn \<Rightarrow> ('p, 'db) session \<Rightarrow> ('p, 'db) session flow" where
  "session_turn E tn s =
     flow_then (flow_then (flow_then (flow_then (flow_then (flow_then (flow_then (flow_then
       (ph_drops E tn s) (ph_select tn)) (ph_expire E tn)) (ph_user_udp E tn)) (ph_eng_udp E tn)) (ph_user_accept E tn))
       (ph_user_tcp E tn)) (ph_eng_accept E tn))
       (\<lambda>s. ph_snapshot E tn (ph_binlog E tn (eng_tcp_loop E tn [0..<MAX_COMM2_LINKS] s)))"

fun session_run :: "('p, 'db) pair_env \<Rightarrow> turn list \<Rightarrow> ('p, 'db) session \<Rightarrow> ('p, 'db) session" where
  "session_run E [] s = s"
| "session_run E (tn # tns) s =
     (case session_turn E tn s of Stop s1 \<Rightarrow> s1 | Go s1 \<Rightarrow> session_run E tns s1 | Again s1 \<Rightarrow> session_run E tns s1)"

text \<open>The state at the start of \<open>main_loop\<close>; \<open>socks\<close> are the four sockets of the pair, in their order, and
  \<open>blank\<close> a link object as constructed.\<close>

definition c2_new :: "'p mavlink \<Rightarrow> 'p conn2" where
  "c2_new blank = \<lparr> c2_sock = False, c2_used = False, c2_tcp_active = False, c2_mav = blank, c2_ws = None, c2_from = (0, 0), c2_is_udp = False,
     c2_last_pkt = 0, c2_connected_at = 0, c2_rx = 0, c2_tx = 0 \<rparr>"

definition session_zero :: "bool \<times> bool \<times> bool \<times> bool \<Rightarrow> 'p mavlink \<Rightarrow> nat \<Rightarrow> string \<Rightarrow> string \<Rightarrow> 'db \<Rightarrow> 'db \<Rightarrow> ('p, 'db) session" where
  "session_zero socks blank fsysid datedir name keys conns =
     \<lparr> ps_have_conn1 = False, ps_last_pkt1 = 0, ps_count1 = 0, ps_count2 = 0, ps_max2 = 0, ps_n2 = 0, ps_mav1 = blank,
       ps_conn2 = replicate MAX_COMM2_LINKS (c2_new blank), ps_tlog = tlog_new, ps_binlog = bl_new fsysid datedir name, ps_peer = (0, 0),
       ps_connected_at = 0, ps_rx1 = 0, ps_tx1 = 0, ps_tcp1 = False, ps_last_save = 0, ps_sock1_udp = fst socks,
       ps_sock2_udp = fst (snd socks), ps_sock1_tcp = fst (snd (snd socks)), ps_sock2_listen = snd (snd (snd socks)), ps_ws1 = None,
       ps_keys = keys, ps_conns = conns, ps_k = 0, ps_kb = 0, ps_trace = [] \<rparr>"

definition session_start :: "('p, 'db) pair_env \<Rightarrow> int \<Rightarrow> ('p, 'db) session \<Rightarrow> ('p, 'db) session" where
  "session_start E now s =
     (if bidi E \<and> ps_sock1_udp s then
        let (m, r) = mv_init (pe_tdb E) (ps_keys s) now (ps_mav1 s) CHAN_COMM1 True False False (conn1_key_id E)
        in raise_all r (s\<lparr> ps_mav1 := m \<rparr>)
      else s)"

text \<open>The counters added to the entry when the loop is left.\<close>

definition session_end :: "('p, 'db) pair_env \<Rightarrow> bool \<Rightarrow> ('p, 'db) session \<Rightarrow> ('p, 'db) session" where
  "session_end E txn s =
     (if ps_count1 s = 0 \<and> ps_count2 s = 0 \<or> \<not> txn then s
      else
        let port2 = word_of_int (pf_port2 (pe_cfg E))
        in (case db_load_key (pe_tdb E) (ps_keys s) port2 of
              Some (ke, True) \<Rightarrow>
                s\<lparr> ps_keys := fst (db_save_key (pe_tdb E) (ps_keys s) port2
                     (ke\<lparr> count1 := count1 ke + word_of_nat (ps_count1 s), count2 := count2 ke + word_of_nat (ps_count2 s),
                          connections := connections ke + 1 \<rparr>)) \<rparr>
            | _ \<Rightarrow> s))"

end
