(* ===== verification/Session_Inv.thy ===== *)
theory Session_Inv
  imports Port_Session
begin

text \<open>
  Invariants of a session (\<open>Port_Session\<close>): the locale \<open>session_invariant\<close> carries any
  property of the session's core that the primitive steps keep through the
  phases of a turn and through whole runs.  It is used for the table of engineer
  slots with its counters, and for the chain of trust from the stored key to
  every message that is forwarded.
\<close>

lemma nth_update_less: "j < length xs \<Longrightarrow> xs[i := v] ! j = (if i = j then v else xs ! j)"
  by (cases "i = j") auto

section \<open>The core of a session\<close>

definition ps_core :: "('p, 'db) session \<Rightarrow> nat \<times> nat \<times> 'p mavlink \<times> 'p conn2 list \<times> 'db \<times> sent list \<times> bool \<times> bool" where
  "ps_core s = (ps_max2 s, ps_n2 s, ps_mav1 s, ps_conn2 s, ps_keys s, ps_trace s, ps_have_conn1 s, ps_sock1_udp s)"

text \<open>A slot record that differs in bookkeeping only.\<close>

definition c2_like :: "'p conn2 \<Rightarrow> 'p conn2 \<Rightarrow> bool" where
  "c2_like c d = (c2_used d = c2_used c \<and> (\<exists>w. c2_mav d = (c2_mav c)\<lparr> mv_ws := w \<rparr>))"

lemma c2_like_intros [intro]:
  "c2_used d = c2_used c \<Longrightarrow> c2_mav d = c2_mav c \<Longrightarrow> c2_like c d"
  "c2_used d = c2_used c \<Longrightarrow> c2_mav d = (c2_mav c)\<lparr> mv_ws := w \<rparr> \<Longrightarrow> c2_like c d"
  unfolding c2_like_def by (auto intro: exI [of _ "mv_ws (c2_mav c)"])

section \<open>Preservation through the loop body\<close>

text \<open>Whether the binary log keeps a message ad the engineers.\<close>

definition stripped :: "('p, 'db) pair_env \<Rightarrow> mav_msg \<Rightarrow> bool" where
  "stripped E msg = (pf_flag E KEY_FLAG_BINLOG \<and> (mm_msgid msg = bb_block (pe_bin E) \<or> mm_msgid msg = bb_status (pe_bin E)))"

locale session_invariant =
  fixes E :: "('p, 'db) pair_env"
    and I :: "('p, 'db) session \<Rightarrow> bool"
  assumes core: "I s \<Longrightarrow> ps_core s' = ps_core s \<Longrightarrow> I s'"
    and size: "I s \<Longrightarrow> length (ps_conn2 s) = MAX_COMM2_LINKS \<and> ps_max2 s \<le> MAX_COMM2_LINKS"
    and udp_down: "I s \<Longrightarrow> I (s\<lparr> ps_sock1_udp := False \<rparr>)"
    and user_ws: "I s \<Longrightarrow> I (s\<lparr> ps_mav1 := (ps_mav1 s)\<lparr> mv_ws := w \<rparr> \<rparr>)"
    and latch: "I s \<Longrightarrow> bidi E \<Longrightarrow> ps_sock1_udp s \<Longrightarrow> I (s\<lparr> ps_have_conn1 := True \<rparr>)"
    and init: "I s \<Longrightarrow> I (init_user E tn tcp (s\<lparr> ps_have_conn1 := h \<rparr>))"
    and hear_user: "I s \<Longrightarrow> ps_have_conn1 s \<or> bidi E \<and> ps_sock1_udp s \<Longrightarrow> user_receive E tn buf s = (s', r, rest) \<Longrightarrow> I s'"
    and hear_eng: "I s \<Longrightarrow> i < ps_max2 s \<Longrightarrow> c2_used (ps_conn2 s ! i) \<Longrightarrow> eng_receive E tn i buf s = (s', r, rest) \<Longrightarrow> I s'"
    and tell_user: "I s \<Longrightarrow> Heard i msg \<in> set (ps_trace s) \<Longrightarrow> I (fst (send_user E tn i msg s))"
    and tell_eng: "I s \<Longrightarrow> i < ps_max2 s \<Longrightarrow> c2_used (ps_conn2 s ! i) \<Longrightarrow> Heard_user msg \<in> set (ps_trace s) \<Longrightarrow> \<not> stripped E msg
      \<Longrightarrow> I (fst (send_eng E tn i msg s))"
    and like: "I s \<Longrightarrow> c2_like (ps_conn2 s ! i) c \<Longrightarrow> I (put_conn2 i c s)"
    and shut: "I s \<Longrightarrow> i < MAX_COMM2_LINKS \<Longrightarrow> c2_used (ps_conn2 s ! i) \<Longrightarrow> I (close_conn2 i s)"
    and fresh: "I s \<Longrightarrow> free_conn2 (ps_conn2 s) 0 = Some i \<Longrightarrow> I (init_eng E tn i udp ad s) \<and> i < ps_max2 (init_eng E tn i udp ad s)"
    and status: "I s \<Longrightarrow> I (add_trace (Log_user ms) s)"

text \<open>What the steps do to the fields the side conditions speak about.\<close>

lemma raise_all_fields [simp]:
  "ps_max2 (raise_all r s) = ps_max2 s" "ps_n2 (raise_all r s) = ps_n2 s" "ps_trace (raise_all r s) = ps_trace s"
  "ps_keys (raise_all r s) = ps_keys s" "ps_have_conn1 (raise_all r s) = ps_have_conn1 s" "ps_sock1_udp (raise_all r s) = ps_sock1_udp s"
  "length (ps_conn2 (raise_all r s)) = length (ps_conn2 s)"
  by (simp_all add: raise_all_def split: option.split)

lemma raise_all_used [simp]:
  "i < length (ps_conn2 s) \<Longrightarrow> c2_used (ps_conn2 (raise_all r s) ! i) = c2_used (ps_conn2 s ! i)"
  by (simp add: raise_all_def split: option.split)

lemma put_conn2_fields [simp]:
  "ps_max2 (put_conn2 i c s) = ps_max2 s" "ps_n2 (put_conn2 i c s) = ps_n2 s" "ps_trace (put_conn2 i c s) = ps_trace s"
  "ps_keys (put_conn2 i c s) = ps_keys s" "ps_have_conn1 (put_conn2 i c s) = ps_have_conn1 s"
  "ps_sock1_udp (put_conn2 i c s) = ps_sock1_udp s" "ps_mav1 (put_conn2 i c s) = ps_mav1 s"
  "ps_conn2 (put_conn2 i c s) = (ps_conn2 s)[i := c]"
  by (simp_all add: put_conn2_def)

lemma add_trace_fields [simp]:
  "ps_max2 (add_trace x s) = ps_max2 s" "ps_n2 (add_trace x s) = ps_n2 s" "ps_trace (add_trace x s) = ps_trace s @ [x]"
  "ps_keys (add_trace x s) = ps_keys s" "ps_have_conn1 (add_trace x s) = ps_have_conn1 s" "ps_sock1_udp (add_trace x s) = ps_sock1_udp s"
  "ps_mav1 (add_trace x s) = ps_mav1 s" "ps_conn2 (add_trace x s) = ps_conn2 s" "ps_conns (add_trace x s) = ps_conns s"
  by (simp_all add: add_trace_def)

lemma add_traces_fields [simp]:
  "ps_max2 (add_traces x s) = ps_max2 s" "ps_n2 (add_traces x s) = ps_n2 s" "ps_trace (add_traces x s) = ps_trace s @ x"
  "ps_keys (add_traces x s) = ps_keys s" "ps_have_conn1 (add_traces x s) = ps_have_conn1 s" "ps_sock1_udp (add_traces x s) = ps_sock1_udp s"
  "ps_mav1 (add_traces x s) = ps_mav1 s" "ps_conn2 (add_traces x s) = ps_conn2 s"
  by (simp_all add: add_traces_def)

lemma shrink_le: "shrink cs n \<le> n"
  by (induction n) (auto intro: le_SucI)

lemma close_conn2_fields [simp]:
  "ps_trace (close_conn2 i s) = ps_trace s" "ps_have_conn1 (close_conn2 i s) = ps_have_conn1 s" "ps_keys (close_conn2 i s) = ps_keys s"
  "ps_sock1_udp (close_conn2 i s) = ps_sock1_udp s" "ps_mav1 (close_conn2 i s) = ps_mav1 s"
  "ps_conn2 (close_conn2 i s) = (ps_conn2 s)[i := c2_close (ps_conn2 s ! i)]"
  by (simp_all add: close_conn2_def Let_def)

text \<open>What a turn never takes away: the trace grows, and the user side stays latched.\<close>

definition ps_later :: "('p, 'db) session \<Rightarrow> ('p, 'db) session \<Rightarrow> bool" where
  "ps_later s s' = (set (ps_trace s) \<subseteq> set (ps_trace s') \<and> (ps_have_conn1 s \<longrightarrow> ps_have_conn1 s') \<and> ps_sock1_udp s' = ps_sock1_udp s)"

lemma later_refl [simp]: "ps_later s s"
  by (simp add: ps_later_def)

lemma later_trans: "ps_later a b \<Longrightarrow> ps_later b c \<Longrightarrow> ps_later a c"
  by (auto simp: ps_later_def)

lemma later_send_eng: "ps_later s (fst (send_eng E tn i msg s))"
  by (auto simp: ps_later_def send_eng_def Let_def case_prod_beta)

lemma later_send_user: "ps_later s (fst (send_user E tn i msg s))"
  by (auto simp: ps_later_def send_user_def case_prod_beta)

lemma later_forward: "ps_later s (forward_one E tn u msg i s)"
  using later_send_eng [of s E tn i msg]
  by (auto simp: ps_later_def forward_one_def bump_tx_def Let_def case_prod_beta)

lemma later_each:
  assumes "\<And>i s. ps_later s (f i s)" shows "ps_later s (each_slot f s)"
proof -
  have "ps_later s (fold (\<lambda>i s. if i < ps_max2 s then f i s else s) is s)" for "is" s
    by (induction "is" arbitrary: s) (auto intro: later_trans assms)
  then show ?thesis by (simp add: each_slot_def)
qed

lemma later_log: "ps_later s (log_message E tn msg s) \<and> ps_core (log_message E tn msg s) = ps_core s"
  by (simp add: log_message_def ps_later_def ps_core_def Let_def case_prod_beta)

lemma later_binlog: "binlog_user_msg E tn msg s = (s', b) \<Longrightarrow> ps_later s s' \<and> ps_core s' = ps_core s \<and> b = stripped E msg"
  by (auto simp: binlog_user_msg_def ps_later_def ps_core_def stripped_def Let_def split: if_splits)

lemma later_core: "ps_core s' = ps_core s \<Longrightarrow> ps_later s s'"
  by (auto simp: ps_core_def ps_later_def)

lemma later_user_message: "ps_later s (user_message E tn u msg s)"
proof -
  define s0 where "s0 = s\<lparr> ps_rx1 := u32 (ps_rx1 s + 1) \<rparr>"
  obtain s1 b where b: "binlog_user_msg E tn msg (log_message E tn msg s0) = (s1, b)" by force
  have "ps_later s s0" by (simp add: s0_def ps_later_def)
  moreover have "ps_later s0 s1" using later_trans [OF conjunct1 [OF later_log]] later_binlog [OF b] by blast
  moreover have "ps_later s1 (each_slot (forward_one E tn u msg) s1)" by (rule later_each [OF later_forward])
  ultimately have "ps_later s s1" "ps_later s (each_slot (forward_one E tn u msg) s1)" by (blast intro: later_trans)+
  moreover have "user_message E tn u msg s = (if b then s1 else each_slot (forward_one E tn u msg) s1)"
    by (simp only: user_message_def s0_def [symmetric] b Let_def prod.case)
  ultimately show ?thesis by simp
qed

text \<open>The receive steps.\<close>

lemma user_receive_later:
  assumes "user_receive E tn buf s = (s', r, rest)"
  shows "ps_later s s' \<and> (\<forall>msg. r = Some msg \<longrightarrow> Heard_user msg \<in> set (ps_trace s'))"
  using assms by (auto simp: user_receive_def ps_later_def split: prod.splits if_splits)

lemma eng_receive_later:
  assumes "eng_receive E tn i buf s = (s', r, rest)"
  shows "ps_max2 s' = ps_max2 s \<and> length (ps_conn2 s') = length (ps_conn2 s)
    \<and> (i < length (ps_conn2 s) \<longrightarrow> c2_used (ps_conn2 s' ! i) = c2_used (ps_conn2 s ! i))
    \<and> (\<forall>msg. r = Some msg \<longrightarrow> Heard i msg \<in> set (ps_trace s'))"
  using assms by (auto simp: eng_receive_def Let_def split: prod.splits if_splits)

lemma send_eng_slot:
  "ps_max2 (fst (send_eng E tn i msg s)) = ps_max2 s \<and> length (ps_conn2 (fst (send_eng E tn i msg s))) = length (ps_conn2 s)
   \<and> (j < length (ps_conn2 s) \<longrightarrow> c2_used (ps_conn2 (fst (send_eng E tn i msg s)) ! j) = c2_used (ps_conn2 s ! j)
        \<and> c2_is_udp (ps_conn2 (fst (send_eng E tn i msg s)) ! j) = c2_is_udp (ps_conn2 s ! j))"
  by (cases "i = j") (auto simp: send_eng_def Let_def case_prod_beta raise_all_def split: option.split)

lemma send_user_slot:
  "ps_max2 (fst (send_user E tn i msg s)) = ps_max2 s \<and> length (ps_conn2 (fst (send_user E tn i msg s))) = length (ps_conn2 s)
   \<and> (j < length (ps_conn2 s) \<longrightarrow> c2_used (ps_conn2 (fst (send_user E tn i msg s)) ! j) = c2_used (ps_conn2 s ! j))"
  by (auto simp: send_user_def case_prod_beta raise_all_def split: option.split)

lemma log_message_fields [simp]:
  "ps_max2 (log_message E tn msg s) = ps_max2 s" "ps_conn2 (log_message E tn msg s) = ps_conn2 s" "ps_trace (log_message E tn msg s) = ps_trace s"
  using later_log [of s E tn msg] by (simp_all add: ps_core_def)

context session_invariant
begin

lemma keep_core: "I s \<Longrightarrow> ps_core s' = ps_core s \<Longrightarrow> I s'"
  by (rule core)

lemma keep_log: "I s \<Longrightarrow> I (log_message E tn msg s)"
  using core later_log by blast

lemma keep_bump: "I s \<Longrightarrow> I (bump_tx i s)"
  unfolding bump_tx_def Let_def by (rule like) auto

lemma keep_forward:
  assumes "I s" "i < ps_max2 s" "Heard_user msg \<in> set (ps_trace s)" "\<not> stripped E msg"
  shows "I (forward_one E tn u msg i s)"
proof (cases "c2_used (ps_conn2 s ! i)")
  case True
  let ?s1 = "fst (send_eng E tn i msg s)"
  have I1: "I ?s1" by (rule tell_eng [OF assms(1,2) True assms(3,4)])
  have i: "i < MAX_COMM2_LINKS" "i < length (ps_conn2 s)" using size [OF assms(1)] assms(2) by simp_all
  have "c2_used (ps_conn2 ?s1 ! i)" using send_eng_slot [of E tn i msg s i] i True by simp
  then have "I (close_conn2 i ?s1)" by (intro shut [OF I1] i)
  then show ?thesis using assms(1) keep_bump [OF I1] by (simp add: forward_one_def Let_def case_prod_beta)
qed (use assms(1) in \<open>simp add: forward_one_def Let_def\<close>)

lemma keep_each:
  assumes "\<And>i s. I s \<Longrightarrow> P s \<Longrightarrow> i < ps_max2 s \<Longrightarrow> I (f i s) \<and> P (f i s)" "I s" "P s"
  shows "I (each_slot f s)"
proof -
  have "I s \<Longrightarrow> P s \<Longrightarrow> I (fold (\<lambda>i s. if i < ps_max2 s then f i s else s) is s)" for "is" s
    by (induction "is" arbitrary: s) (simp_all add: assms(1))
  then show ?thesis using assms(2,3) by (simp add: each_slot_def)
qed

lemma keep_user_message:
  assumes "I s" "Heard_user msg \<in> set (ps_trace s)"
  shows "I (user_message E tn u msg s)"
proof -
  define s0 where "s0 = s\<lparr> ps_rx1 := u32 (ps_rx1 s + 1) \<rparr>"
  obtain s1 b where b: "binlog_user_msg E tn msg (log_message E tn msg s0) = (s1, b)" by force
  have "I s0" using assms(1) by (rule core) (simp add: s0_def ps_core_def)
  then have I1: "I s1" using keep_log later_binlog [OF b] core by blast
  have h: "Heard_user msg \<in> set (ps_trace s1)"
    using assms(2) later_binlog [OF b] later_log [of s0 E tn msg] by (auto simp: ps_later_def s0_def)
  have "I (each_slot (forward_one E tn u msg) s1)" if "\<not> b"
  proof (rule keep_each [where P = "\<lambda>s. Heard_user msg \<in> set (ps_trace s)", OF _ I1 h])
    fix i x assume x: "I x" "Heard_user msg \<in> set (ps_trace x)" "i < ps_max2 x"
    have "\<not> stripped E msg" using later_binlog [OF b] that by simp
    then show "I (forward_one E tn u msg i x) \<and> Heard_user msg \<in> set (ps_trace (forward_one E tn u msg i x))"
      using keep_forward [OF x(1,3,2)] x(2) later_forward [of x E tn u msg i] by (auto simp: ps_later_def)
  qed
  moreover have "user_message E tn u msg s = (if b then s1 else each_slot (forward_one E tn u msg) s1)"
    by (simp only: user_message_def s0_def [symmetric] b Let_def prod.case)
  ultimately show ?thesis using I1 by simp
qed

lemma keep_user_loop: "I s \<Longrightarrow> ps_have_conn1 s \<or> bidi E \<and> ps_sock1_udp s \<Longrightarrow> I (user_loop E tn u buf s)"
proof (induction "length buf" arbitrary: buf s rule: less_induct)
  case less
  show ?case
  proof (cases "buf = []")
    case False
    obtain s1 r rest where rc: "user_receive E tn buf s = (s1, r, rest)" by (metis surj_pair)
    note I1 = hear_user [OF less.prems rc] and l1 = user_receive_later [OF rc]
    show ?thesis
    proof (cases r)
      case (Some msg)
      have "I (user_message E tn u msg s1)" using keep_user_message [OF I1] l1 Some by simp
      moreover have "ps_have_conn1 (user_message E tn u msg s1) \<or> bidi E \<and> ps_sock1_udp (user_message E tn u msg s1)"
        using less.prems(2) l1 later_user_message [of s1 E tn u msg] by (auto simp: ps_later_def)
      ultimately show ?thesis
        using less.hyps [of rest] user_receive_shorter [of E tn buf s s1 msg rest] rc Some False by (simp add: user_loop.simps [of E tn u buf])
    qed (use I1 rc False in \<open>simp add: user_loop.simps\<close>)
  qed (use less.prems in \<open>simp add: user_loop.simps\<close>)
qed

lemma keep_bidi_loop: "I s \<Longrightarrow> ps_have_conn1 s \<or> bidi E \<and> ps_sock1_udp s \<Longrightarrow> I (fst (bidi_loop E tn buf s)) \<and> ps_later s (fst (bidi_loop E tn buf s))"
proof (induction "length buf" arbitrary: buf s rule: less_induct)
  case less
  show ?case
  proof (cases "buf = []")
    case False
    obtain s1 r rest where rc: "user_receive E tn buf s = (s1, r, rest)" by (metis surj_pair)
    note I1 = hear_user [OF less.prems rc] and l1 = user_receive_later [OF rc]
    show ?thesis
    proof (cases r)
      case (Some msg)
      have "ps_have_conn1 s1 \<or> bidi E \<and> ps_sock1_udp s1" using less.prems(2) l1 by (auto simp: ps_later_def)
      then have "I (fst (bidi_loop E tn rest s1)) \<and> ps_later s1 (fst (bidi_loop E tn rest s1))"
        using less.hyps [of rest] user_receive_shorter [of E tn buf s s1 msg rest] rc Some I1 by simp
      then show ?thesis using l1 rc Some False by (auto simp: bidi_loop.simps [of E tn buf] intro: later_trans)
    qed (use I1 l1 rc False in \<open>simp add: bidi_loop.simps\<close>)
  qed (use less.prems in \<open>simp add: bidi_loop.simps\<close>)
qed

lemma keep_eng_loop: "I s \<Longrightarrow> i < ps_max2 s \<Longrightarrow> c2_used (ps_conn2 s ! i) \<Longrightarrow> I (fst (eng_loop E tn i buf s))"
proof (induction "length buf" arbitrary: buf s rule: less_induct)
  case less
  have len: "i < length (ps_conn2 s)" using size [OF less.prems(1)] less.prems(2) by simp
  show ?case
  proof (cases "buf = []")
    case False
    obtain s1 r rest where rc: "eng_receive E tn i buf s = (s1, r, rest)" by (metis surj_pair)
    note I1 = hear_eng [OF less.prems rc] and l1 = eng_receive_later [OF rc]
    show ?thesis
    proof (cases r)
      case (Some msg)
      let ?c = "ps_conn2 s1 ! i"
      define s2 where "s2 = log_message E tn msg (put_conn2 i (?c\<lparr> c2_rx := u32 (c2_rx ?c + 1) \<rparr>) s1)"
      have I2: "I s2" unfolding s2_def by (intro keep_log like [OF I1]) auto
      obtain s3 ok where sd: "send_user E tn i msg s2 = (s3, ok)" by force
      have f2: "ps_max2 s2 = ps_max2 s" "length (ps_conn2 s2) = length (ps_conn2 s)" "c2_used (ps_conn2 s2 ! i)" "Heard i msg \<in> set (ps_trace s2)"
        using l1 len less.prems(3) Some by (simp_all add: s2_def)
      have I3: "I s3" using tell_user [OF I2 f2(4), of tn] by (simp add: sd)
      define s4 where "s4 = s3\<lparr> ps_tx1 := u32 (ps_tx1 s3 + 1) \<rparr>"
      have I4: "I s4" using I3 by (rule core) (simp add: s4_def ps_core_def)
      have "I (fst (eng_loop E tn i rest s4))"
        using less.hyps [of rest s4] eng_receive_shorter [of E tn i buf s s1 msg rest] rc Some I4 less.prems(2) f2 len send_user_slot [of E tn i msg s2 i]
        by (simp add: s4_def sd)
      moreover have "eng_loop E tn i buf s = (if \<not> ok then (s3, True) else eng_loop E tn i rest s4)"
        using rc Some False sd by (subst eng_loop.simps) (simp add: Let_def s2_def s4_def)
      ultimately show ?thesis using I3 by simp
    qed (use I1 rc False in \<open>simp add: eng_loop.simps\<close>)
  qed (use less.prems in \<open>simp add: eng_loop.simps\<close>)
qed

lemma fresh_slot:
  assumes "I s" "free_conn2 (ps_conn2 s) 0 = Some i"
  shows "I (init_eng E tn i udp ad s) \<and> i < ps_max2 (init_eng E tn i udp ad s) \<and> c2_used (ps_conn2 (init_eng E tn i udp ad s) ! i)"
proof -
  note f = fresh [OF assms, of tn udp ad]
  have "i < length (ps_conn2 (init_eng E tn i udp ad s))" using f size by fastforce
  then show ?thesis using f by (auto simp: init_eng_def Let_def case_prod_beta raise_all_def take_slot_def split: option.split)
qed

lemma keep_drop_slot: "I s \<Longrightarrow> I (drop_slot idx s)"
  using shut [of s "nat (sint idx) - 1"] by (auto simp: drop_slot_def Let_def)

lemma keep_process_drops: "I s \<Longrightarrow> I (fst (process_drops E txn s))"
proof -
  assume s: "I s"
  have f: "I (fold drop_slot ids s)" if "I s" for ids s using that by (induction ids arbitrary: s) (simp_all add: keep_drop_slot)
  have "I (s\<lparr> ps_conns := db \<rparr>)" for db using s by (rule core) (simp add: ps_core_def)
  then show ?thesis using s f by (simp add: process_drops_def Let_def)
qed

lemma keep_ph_drops: "I s \<Longrightarrow> I (flow_state (ph_drops E tn s))"
  using keep_process_drops [of s "tn_conn_txn tn"] by (auto simp: ph_drops_def case_prod_beta)

lemma keep_ph_select: "I s \<Longrightarrow> I (flow_state (ph_select tn s))"
  using size [of s] by (auto simp: ph_select_def split: select_result.split)

lemma keep_ph_expire: "I s \<Longrightarrow> I (flow_state (ph_expire E tn s))"
proof -
  assume s: "I s"
  have "I (each_slot (expire_slot tn) s)"
  proof (rule keep_each [where P = "\<lambda>_. True", OF _ s])
    fix i x assume x: "I x" "i < ps_max2 x"
    then show "I (expire_slot tn i x) \<and> True"
      using size [OF x(1)] shut [OF x(1), of i] by (auto simp: expire_slot_def slot_expired_def)
  qed simp
  then show ?thesis by (simp add: ph_expire_def Let_def)
qed

lemma keep_user_parse: "I s \<Longrightarrow> ps_have_conn1 s \<Longrightarrow> I (user_parse E tn u d s)"
  by (simp add: user_parse_def keep_user_loop)

lemma keep_latch: "I s \<Longrightarrow> bidi E \<Longrightarrow> ps_sock1_udp s \<Longrightarrow> I (latch_user tn ad tcp s)"
  by (rule core [OF latch]) (simp_all add: latch_user_def ps_core_def)

lemma keep_init_latch: "I s \<Longrightarrow> I (latch_user tn ad tcp (init_user E tn tcp' s))"
  by (rule core [OF init [of s tn tcp' True]])
    (simp_all add: latch_user_def init_user_def ps_core_def case_prod_beta raise_all_def split: option.split)

lemma keep_init: "I s \<Longrightarrow> I (init_user E tn tcp s)"
  using init [of s tn tcp "ps_have_conn1 s"] by simp

lemma keep_ph_user_udp: "I s \<Longrightarrow> I (flow_state (ph_user_udp E tn s))"
proof (cases "tn_user_udp tn")
  case (Some got)
  assume s: "I s"
  have s0: "I (s\<lparr> ps_sock1_tcp := False \<rparr>)" using s by (rule core) (simp add: ps_core_def)
  show ?thesis
  proof (cases "ps_sock1_udp s \<and> got \<noteq> None")
    case True
    then obtain ad d0 where got: "got = Some (ad, d0)" and u: "ps_sock1_udp s" by auto
    define s1 where "s1 = s\<lparr> ps_sock1_tcp := False, ps_last_pkt1 := tn_now tn, ps_count1 := u32 (ps_count1 s + 1) \<rparr>"
    have s1: "I s1" "ps_sock1_udp s1" using s u by (auto intro: core simp: s1_def ps_core_def)
    define d where "d = take SESSION_BUF d0"
    have b: "I (fst (bidi_loop E tn d s1)) \<and> I (latch_user tn ad False (fst (bidi_loop E tn d s1)))" if "bidi E"
      using keep_bidi_loop [of s1 tn d] s1 that keep_latch by (auto simp: ps_later_def)
    have "I (user_parse E tn True d (latch_user tn ad False (init_user E tn False s1)))"
      using s1 by (intro keep_user_parse keep_init_latch) (auto simp: latch_user_def)
    moreover have "ph_user_udp E tn s = (if ps_have_conn1 s1 then Go (user_parse E tn True d s1)
        else if bidi E then if \<not> snd (bidi_loop E tn d s1) then Again (fst (bidi_loop E tn d s1)) else if \<not> tn_connect tn then Stop (fst (bidi_loop E tn d s1))
             else Go (latch_user tn ad False (fst (bidi_loop E tn d s1)))
        else if \<not> tn_connect tn then Stop s1 else Go (user_parse E tn True d (latch_user tn ad False (init_user E tn False s1))))"
      using Some got u by (simp add: ph_user_udp_def Let_def case_prod_beta s1_def d_def)
    ultimately show ?thesis using s1 b keep_user_parse [OF s1(1)] by simp
  qed (use Some s s0 in \<open>auto simp: ph_user_udp_def Let_def split: option.split\<close>)
qed (simp add: ph_user_udp_def)

lemma keep_ph_eng_udp: "I s \<Longrightarrow> I (flow_state (ph_eng_udp E tn s))"
proof (cases "tn_eng_udp tn")
  case (Some got)
  assume s: "I s"
  show ?thesis
  proof (cases "ps_sock2_udp s \<and> got \<noteq> None")
    case True
    then obtain ad d where got: "got = Some (ad, d)" and u: "ps_sock2_udp s" by auto
    define s1 where "s1 = s\<lparr> ps_count2 := u32 (ps_count2 s + 1) \<rparr>"
    have s1: "I s1" using s by (rule core) (simp add: s1_def ps_core_def)
    obtain s2 idx where st: "(case find_udp s1 ad of
          Some i \<Rightarrow> (put_conn2 i ((ps_conn2 s1 ! i)\<lparr> c2_last_pkt := tn_now tn \<rparr>) s1, Some i)
        | None \<Rightarrow> (case free_conn2 (ps_conn2 s1) 0 of None \<Rightarrow> (s1, None) | Some i \<Rightarrow> (init_eng E tn i True ad s1, Some i))) = (s2, idx)"
      by force
    have "I s2 \<and> (\<forall>i. idx = Some i \<longrightarrow> i < ps_max2 s2 \<and> c2_used (ps_conn2 s2 ! i))"
    proof (cases "find_udp s1 ad")
      case (Some i)
      then have i: "i < ps_max2 s1" "c2_used (ps_conn2 s1 ! i)" by (auto simp: find_udp_def find_Some_iff)
      have "I (put_conn2 i ((ps_conn2 s1 ! i)\<lparr> c2_last_pkt := tn_now tn \<rparr>) s1)" by (intro like [OF s1]) auto
      then show ?thesis using st Some i size [OF s1] by auto
    next
      case None
      then show ?thesis using st s1 fresh_slot [OF s1, of _ tn True ad] by (auto split: option.splits)
    qed
    moreover have "ph_eng_udp E tn s = (case idx of None \<Rightarrow> Go s2 | Some i \<Rightarrow>
        if ps_have_conn1 s2 \<and> ps_count1 s2 > 0
        then (case eng_loop E tn i (take SESSION_BUF d) s2 of (s3, failed) \<Rightarrow> if failed then Stop s3 else Go s3) else Go s2)"
      unfolding ph_eng_udp_def Some got option.case prod.case Let_def s1_def [symmetric] st using u by simp
    ultimately show ?thesis using keep_eng_loop [of s2] by (auto simp: case_prod_beta split: option.split)
  qed (use Some s in \<open>auto simp: ph_eng_udp_def split: option.split\<close>)
qed (simp add: ph_eng_udp_def)

lemma keep_ph_user_accept: "I s \<Longrightarrow> I (flow_state (ph_user_accept E tn s))"
proof -
  assume s: "I s"
  have a: "I (init_user E tn True ((s\<lparr> ps_sock1_udp := False \<rparr>)\<lparr> ps_have_conn1 := True \<rparr>))" by (rule init [OF udp_down [OF s]])
  have "I ((init_user E tn True (latch_user tn ad True (s\<lparr> ps_sock1_udp := False \<rparr>)))\<lparr> ps_last_pkt1 := tn_now tn \<rparr>)" for ad
    by (rule core [OF a]) (simp add: init_user_def latch_user_def ps_core_def case_prod_beta raise_all_def split: option.split)
  then show ?thesis using s udp_down [OF s] by (simp add: ph_user_accept_def Let_def split: option.split)
qed

lemma keep_ph_user_tcp: "I s \<Longrightarrow> I (flow_state (ph_user_tcp E tn s))"
proof (cases "ps_have_conn1 s \<and> ps_sock1_tcp s \<and> tn_user_tcp tn \<noteq> None")
  case True
  assume s: "I s"
  obtain ti where ti: "tn_user_tcp tn = Some ti" using True by auto
  define s0 where "s0 = s\<lparr> ps_sock1_udp := False \<rparr>"
  define probe where "probe = (ps_count1 s0 = 0 \<and> ps_ws1 s0 = None)"
  define s1 where "s1 = (if probe \<and> ti_detect ti = WS_YES
      then s0\<lparr> ps_ws1 := Some (ti_ssl ti), ps_mav1 := (ps_mav1 s0)\<lparr> mv_ws := True \<rparr> \<rparr> else s0)"
  have I0: "I s0" unfolding s0_def by (rule udp_down [OF s])
  have I1: "I s1" unfolding s1_def using I0 core [OF user_ws [OF I0, of True]] by (auto simp: ps_core_def)
  define s2 where "s2 = s1\<lparr> ps_last_pkt1 := tn_now tn, ps_count1 := u32 (ps_count1 s1 + 1) \<rparr>"
  have I2: "I s2" "ps_have_conn1 s2" using I1 True by (auto intro: core simp: s2_def s1_def s0_def ps_core_def)
  have "ph_user_tcp E tn s = (if probe \<and> ti_detect ti = WS_MORE then Again s0 else (case ti_read ti of None \<Rightarrow> Stop s1
      | Some d \<Rightarrow> if ps_ws1 s1 = None \<and> d = [] then Stop s1 else Go (user_parse E tn False (take (SESSION_BUF - 1) d) s2)))"
    unfolding ph_user_tcp_def ti Let_def option.case s0_def [symmetric] probe_def [symmetric] s1_def [symmetric] s2_def [symmetric] using True by simp
  then show ?thesis using I0 I1 keep_user_parse [OF I2] by (simp split: option.split)
qed (auto simp: ph_user_tcp_def)

lemma keep_ph_eng_accept: "I s \<Longrightarrow> I (flow_state (ph_eng_accept E tn s))"
  using fresh [of s _ tn False] by (auto simp: ph_eng_accept_def split: option.split)

lemma keep_eng_tcp:
  assumes "I s" "i < ps_max2 s"
  shows "I (fst (eng_tcp E tn i s))"
proof -
  define c where "c = ps_conn2 s ! i"
  have i: "i < MAX_COMM2_LINKS" "i < length (ps_conn2 s)" using size [OF assms(1)] assms(2) by simp_all
  show ?thesis
  proof (cases "c2_is_udp c \<or> \<not> c2_used c \<or> \<not> c2_sock c \<or> tn_eng_tcp tn i = None")
    case False
    then obtain ti where ti: "tn_eng_tcp tn i = Some ti" and u: "c2_used c" by auto
    define probe where "probe = (\<not> c2_tcp_active c \<and> c2_ws c = None)"
    define c1 where "c1 = (if probe \<and> ti_detect ti = WS_YES then c\<lparr> c2_ws := Some (ti_ssl ti), c2_mav := (c2_mav c)\<lparr> mv_ws := True \<rparr> \<rparr> else c)"
    define s1 where "s1 = put_conn2 i c1 s"
    have like1: "c2_like (ps_conn2 s ! i) c1" unfolding c1_def c_def by auto
    have I1: "I s1" unfolding s1_def by (rule like [OF assms(1) like1])
    have n1: "ps_conn2 s1 ! i = c1" "c2_used c1" using i u by (simp_all add: s1_def c1_def)
    define s2 where "s2 = (put_conn2 i (c1\<lparr> c2_tcp_active := True \<rparr>) s1)\<lparr> ps_count2 := u32 (ps_count2 s1 + 1) \<rparr>"
    have "I (put_conn2 i (c1\<lparr> c2_tcp_active := True \<rparr>) s1)" by (intro like [OF I1]) (auto simp: n1)
    then have I2: "I s2" by (rule core) (simp add: s2_def ps_core_def)
    have u2: "i < ps_max2 s2" "c2_used (ps_conn2 s2 ! i)" using assms(2) i n1 by (simp_all add: s2_def s1_def)
    have cl: "I (close_conn2 i s1)" using shut [OF I1 i(1)] n1 by simp
    have "fst (eng_tcp E tn i s) = (if probe \<and> ti_detect ti = WS_MORE then s else (case ti_read ti of None \<Rightarrow> close_conn2 i s1
        | Some d \<Rightarrow> if d = [] then (if c2_ws c1 = None then close_conn2 i s1 else s1)
            else if ps_have_conn1 s2 \<and> ps_count1 s2 > 0 then fst (eng_loop E tn i (take (SESSION_BUF - 1) d) s2) else s2))"
      unfolding eng_tcp_def Let_def c_def [symmetric] ti option.case probe_def [symmetric] c1_def [symmetric] s1_def [symmetric] s2_def [symmetric]
      using False by (simp split: option.split)
    then show ?thesis using assms(1) cl I1 I2 keep_eng_loop [OF I2 u2] by (simp split: option.split)
  qed (use assms(1) in \<open>auto simp: eng_tcp_def Let_def c_def\<close>)
qed

lemma keep_eng_tcp_loop: "I s \<Longrightarrow> I (eng_tcp_loop E tn is s)"
  by (induction "is" arbitrary: s) (use keep_eng_tcp in \<open>auto simp: case_prod_beta\<close>)

lemma keep_ph_binlog: "I s \<Longrightarrow> I (ph_binlog E tn s)"
proof -
  assume s: "I s"
  have "I (s\<lparr> ps_binlog := b \<rparr>)" for b using s by (rule core) (simp add: ps_core_def)
  then show ?thesis using s status by (simp add: ph_binlog_def case_prod_beta)
qed

lemma keep_ph_snapshot: "I s \<Longrightarrow> I (flow_state (ph_snapshot E tn s))"
proof -
  assume s: "I s"
  have s1: "I (fst (process_drops E (tn_conn_txn tn) (s\<lparr> ps_last_save := tn_snap tn \<rparr>)))"
    by (rule keep_process_drops [OF core [OF s]]) (simp add: ps_core_def)
  have "I ((fst (process_drops E (tn_conn_txn tn) (s\<lparr> ps_last_save := tn_snap tn \<rparr>)))\<lparr> ps_conns := db \<rparr>)" for db
    using s1 by (rule core) (simp add: ps_core_def)
  then show ?thesis using s s1 by (simp add: ph_snapshot_def case_prod_beta)
qed

lemma keep_then: "I (flow_state x) \<Longrightarrow> (\<And>s. I s \<Longrightarrow> I (flow_state (f s))) \<Longrightarrow> I (flow_state (flow_then x f))"
  by (cases x) simp_all

lemma keep_turn: "I s \<Longrightarrow> I (flow_state (session_turn E tn s))"
  unfolding session_turn_def
  by (intro keep_then keep_ph_drops keep_ph_select keep_ph_expire keep_ph_user_udp keep_ph_eng_udp keep_ph_user_accept keep_ph_user_tcp
      keep_ph_eng_accept keep_ph_snapshot keep_ph_binlog keep_eng_tcp_loop)

lemma keep_run: "I s \<Longrightarrow> I (session_run E tns s)"
proof (induction tns arbitrary: s)
  case (Cons tn tns)
  then show ?case using keep_turn [of s tn] by (auto split: flow.split)
qed simp

end

section \<open>The table of engineer slots\<close>

definition used_slots :: "('p, 'db) session \<Rightarrow> nat set" where
  "used_slots s = {i. i < length (ps_conn2 s) \<and> c2_used (ps_conn2 s ! i)}"

text \<open>The counter is the number of used slots, and the watermark is the end of the table's used part.\<close>

definition slots_ok :: "('p, 'db) session \<Rightarrow> bool" where
  "slots_ok s = (length (ps_conn2 s) = MAX_COMM2_LINKS \<and> ps_n2 s = card (used_slots s) \<and> used_slots s \<subseteq> {..<ps_max2 s}
     \<and> ps_max2 s \<le> MAX_COMM2_LINKS \<and> (ps_max2 s = 0 \<or> ps_max2 s - 1 \<in> used_slots s))"

lemma slots_cong:
  "slots_ok s \<Longrightarrow> length (ps_conn2 s') = length (ps_conn2 s) \<Longrightarrow> used_slots s' = used_slots s \<Longrightarrow> ps_n2 s' = ps_n2 s \<Longrightarrow> ps_max2 s' = ps_max2 s
    \<Longrightarrow> slots_ok s'"
  by (simp add: slots_ok_def)

lemma used_raise [simp]: "used_slots (raise_all r s) = used_slots s"
  by (auto simp: used_slots_def)

lemma used_put: "c2_used c = c2_used (ps_conn2 s ! i) \<Longrightarrow> used_slots (put_conn2 i c s) = used_slots s"
  by (auto simp: used_slots_def nth_update_less split: if_splits)

lemma used_simps [simp]:
  "used_slots (add_trace x s) = used_slots s" "used_slots (add_traces xs s) = used_slots s" "used_slots (s\<lparr> ps_mav1 := m \<rparr>) = used_slots s"
  "used_slots (s\<lparr> ps_keys := k \<rparr>) = used_slots s" "used_slots (s\<lparr> ps_k := n \<rparr>) = used_slots s"
  "used_slots (s\<lparr> ps_have_conn1 := b \<rparr>) = used_slots s" "used_slots (s\<lparr> ps_sock1_udp := b \<rparr>) = used_slots s"
  by (simp_all add: used_slots_def)

lemma shrink_spec: "(\<forall>j. shrink cs n \<le> j \<and> j < n \<longrightarrow> \<not> c2_used (cs ! j)) \<and> (shrink cs n = 0 \<or> c2_used (cs ! (shrink cs n - 1)))"
  by (induction n) (auto simp: less_Suc_eq)

lemma finite_used [simp]: "finite (used_slots s)"
  by (simp add: used_slots_def)

lemma slots_close:
  assumes "slots_ok s" "i < MAX_COMM2_LINKS" "c2_used (ps_conn2 s ! i)"
  shows "slots_ok (close_conn2 i s)"
proof -
  let ?cs = "(ps_conn2 s)[i := c2_close (ps_conn2 s ! i)]"
  have i: "i \<in> used_slots s" using assms by (simp add: used_slots_def slots_ok_def)
  have u: "used_slots (close_conn2 i s) = used_slots s - {i}"
    using assms(1,2) by (auto simp: used_slots_def nth_update_less c2_close_def split: if_splits)
  have "ps_n2 s = card (used_slots s)" using assms(1) by (simp add: slots_ok_def)
  moreover have "card (used_slots s) > 0" using i by (auto simp: card_gt_0_iff)
  ultimately have n: "ps_n2 (close_conn2 i s) = card (used_slots s - {i})" using i by (simp add: close_conn2_def Let_def)
  have m: "ps_max2 (close_conn2 i s) = shrink ?cs (ps_max2 s)" by (simp add: close_conn2_def Let_def)
  have le: "shrink ?cs (ps_max2 s) \<le> ps_max2 s" by (rule shrink_le)
  have "j < shrink ?cs (ps_max2 s)" if "j \<in> used_slots s - {i}" for j
  proof (rule ccontr)
    assume "\<not> j < shrink ?cs (ps_max2 s)"
    moreover have "j < ps_max2 s" using that assms(1) by (auto simp: slots_ok_def)
    ultimately have "\<not> c2_used (?cs ! j)" using shrink_spec [of ?cs "ps_max2 s"] by simp
    then show False using that by (auto simp: used_slots_def)
  qed
  moreover have "shrink ?cs (ps_max2 s) - 1 \<in> used_slots s - {i}" if "shrink ?cs (ps_max2 s) \<noteq> 0"
  proof -
    have "c2_used (?cs ! (shrink ?cs (ps_max2 s) - 1))" using shrink_spec [of ?cs "ps_max2 s"] that by auto
    moreover have "shrink ?cs (ps_max2 s) - 1 < length (ps_conn2 s)" using le that assms(1) unfolding slots_ok_def by linarith
    ultimately have "shrink ?cs (ps_max2 s) - 1 \<in> used_slots (close_conn2 i s)" by (simp add: used_slots_def)
    then show ?thesis using u by simp
  qed
  ultimately show ?thesis using assms(1) le by (auto simp: slots_ok_def u n m)
qed

lemma free_conn2_Some:
  "free_conn2 cs k = Some i \<Longrightarrow> k \<le> i \<and> i - k < length cs \<and> \<not> c2_used (cs ! (i - k)) \<and> (\<forall>j < i - k. c2_used (cs ! j))"
proof (induction cs arbitrary: k)
  case (Cons c cs)
  show ?case
  proof (cases "c2_used c")
    case True
    then have h: "Suc k \<le> i" "i - Suc k < length cs" "\<not> c2_used (cs ! (i - Suc k))" "\<forall>j < i - Suc k. c2_used (cs ! j)"
      using Cons.IH [of "k + 1"] Cons.prems by simp_all
    then obtain d where "i = Suc (k + d)" by (metis add_Suc le_Suc_ex)
    then show ?thesis using h True by (auto simp: less_Suc_eq_0_disj)
  qed (use Cons.prems in simp)
qed simp

lemma slots_fresh:
  assumes "slots_ok s" "free_conn2 (ps_conn2 s) 0 = Some i"
  shows "slots_ok (init_eng E tn i udp ad s) \<and> i < ps_max2 (init_eng E tn i udp ad s)"
proof -
  have f: "i < MAX_COMM2_LINKS" "i \<notin> used_slots s" "{..<i} \<subseteq> used_slots s"
    using free_conn2_Some [OF assms(2)] assms(1) by (auto simp: used_slots_def slots_ok_def)
  have s: "ps_n2 s = card (used_slots s)" "used_slots s \<subseteq> {..<ps_max2 s}" "ps_max2 s \<le> MAX_COMM2_LINKS"
      "ps_max2 s = 0 \<or> ps_max2 s - 1 \<in> used_slots s" "length (ps_conn2 s) = MAX_COMM2_LINKS"
    using assms(1) by (simp_all add: slots_ok_def)
  have ile: "i \<le> ps_n2 s" using card_mono [OF finite_used f(3)] s(1) by simp
  have "insert i (used_slots s) \<subseteq> {..<MAX_COMM2_LINKS}" using f(1) s(2,3) by auto
  then have "card (insert i (used_slots s)) \<le> MAX_COMM2_LINKS" by (metis card_lessThan card_mono finite_lessThan)
  then have nle: "ps_n2 s + 1 \<le> MAX_COMM2_LINKS" using f(2) s(1) by simp
  then have u8: "u8 (ps_n2 s + 1) = ps_n2 s + 1" by (simp add: u8_def MAX_COMM2_LINKS_def)
  have top: "ps_n2 s = i \<and> ps_max2 s = i" if "ps_max2 s < ps_n2 s + 1"
  proof -
    have "used_slots s = {..<ps_max2 s}" using s(1,2) that card_subset_eq [of "{..<ps_max2 s}" "used_slots s"] card_mono [of "{..<ps_max2 s}" "used_slots s"] by simp
    then show ?thesis using f(2,3) s(1) by auto
  qed
  have u: "used_slots (init_eng E tn i udp ad s) = insert i (used_slots s)"
    using s(5) f(1) by (auto simp: init_eng_def Let_def case_prod_beta take_slot_def raise_all_def used_slots_def nth_update_less split: option.split)
  have n: "ps_n2 (init_eng E tn i udp ad s) = ps_n2 s + 1" "ps_max2 (init_eng E tn i udp ad s) = max (ps_max2 s) (ps_n2 s + 1)"
      "length (ps_conn2 (init_eng E tn i udp ad s)) = length (ps_conn2 s)"
    using u8 by (simp_all add: init_eng_def Let_def case_prod_beta take_slot_def)
  have "used_slots s \<subseteq> {..<max (ps_max2 s) (ps_n2 s + 1)}" using s(2) by auto
  moreover have "max (ps_max2 s) (ps_n2 s + 1) - 1 \<in> insert i (used_slots s)"
    using top s(4) by (cases "ps_max2 s < ps_n2 s + 1") auto
  ultimately show ?thesis
    using s nle ile f(2) by (simp add: slots_ok_def u n)
qed

interpretation slots: session_invariant E slots_ok for E :: "('p, 'db) pair_env"
proof (unfold_locales, goal_cases)
  case (1 s s')
  then show ?case by (auto intro: slots_cong simp: ps_core_def used_slots_def)
next
  case (6 s tn tcp h)
  then show ?case by (rule slots_cong) (simp_all add: init_user_def case_prod_beta)
next
  case (7 s tn buf s' r rest)
  then show ?case by (auto intro: slots_cong simp: user_receive_def split: prod.splits)
next
  case (8 s i tn buf s' r rest)
  then show ?case using used_put [of "(ps_conn2 s ! i)\<lparr> c2_mav := _ \<rparr>" s i] by (auto intro!: slots_cong [of s] simp: eng_receive_def Let_def split: prod.splits)
next
  case (9 s i msg tn)
  then show ?case by (auto intro!: slots_cong [of s] simp: send_user_def case_prod_beta)
next
  case (10 s i msg tn)
  then show ?case using used_put [of "(ps_conn2 s ! i)\<lparr> c2_mav := _ \<rparr>" s i] by (auto intro!: slots_cong [of s] simp: send_eng_def Let_def case_prod_beta)
next
  case (11 s i c)
  then show ?case using used_put [of c s i] by (auto intro!: slots_cong [of s] simp: c2_like_def)
next
  case (2 s)
  then show ?case by (simp add: slots_ok_def)
next
  case (12 s i)
  then show ?case by (rule slots_close)
next
  case (13 s i tn udp ad)
  then show ?case by (rule slots_fresh)
qed (auto intro: slots_cong)

lemma slots_start: "slots_ok (session_start E now (session_zero socks blank f d n keys conns))"
proof -
  have z: "slots_ok (session_zero socks blank f d n keys conns)"
    by (auto simp: slots_ok_def used_slots_def session_zero_def c2_new_def)
  then show ?thesis by (auto intro: slots_cong [OF z] simp: session_start_def case_prod_beta)
qed

text \<open>The session after some turns.\<close>

definition session_state :: "('p, 'db) pair_env \<Rightarrow> turn list \<Rightarrow> int \<Rightarrow> bool \<times> bool \<times> bool \<times> bool \<Rightarrow> 'p mavlink \<Rightarrow> nat \<Rightarrow> string \<Rightarrow> string
    \<Rightarrow> 'db \<Rightarrow> 'db \<Rightarrow> ('p, 'db) session" where
  "session_state E tns now socks blank f d n keys conns = session_run E tns (session_start E now (session_zero socks blank f d n keys conns))"

lemma slots_reachable: "slots_ok (session_state E tns now socks blank f d n keys conns)"
  unfolding session_state_def by (rule slots.keep_run [OF slots_start])

text \<open>
  C3. In every session, after any sequence of turns: the counter of engineer
  links is the number of used slots and never exceeds 100, every used slot lies
  below the watermark that all scans stop at, and the watermark is tight.  So no
  engineer link drops out of the loops, and no slot is leaked.
\<close>

theorem session_slot_table:
  "let s = session_state E tns now socks blank f d n keys conns
   in ps_n2 s = card (used_slots s) \<and> ps_n2 s \<le> MAX_COMM2_LINKS \<and> used_slots s \<subseteq> {..<ps_max2 s}
      \<and> (ps_max2 s = 0 \<or> c2_used (ps_conn2 s ! (ps_max2 s - 1)))"
proof -
  let ?s = "session_state E tns now socks blank f d n keys conns"
  have ok: "slots_ok ?s" by (rule slots_reachable)
  have "used_slots ?s \<subseteq> {..<MAX_COMM2_LINKS}" using ok by (auto simp: slots_ok_def used_slots_def)
  then have "card (used_slots ?s) \<le> MAX_COMM2_LINKS" by (metis card_lessThan card_mono finite_lessThan)
  then show ?thesis using ok by (auto simp: slots_ok_def used_slots_def Let_def)
qed

text \<open>The scan over the slots reaches all that are used, although it lowers its own bound.\<close>

lemma expire_all:
  assumes "slots_ok s"
  shows "slots_ok (each_slot (expire_slot tn) s) \<and> (\<forall>j < MAX_COMM2_LINKS. \<not> slot_expired tn (ps_conn2 (each_slot (expire_slot tn) s) ! j))"
proof -
  let ?f = "\<lambda>i s. if i < ps_max2 s then expire_slot tn i s else s"
  have "n \<le> MAX_COMM2_LINKS \<Longrightarrow> slots_ok (fold ?f [0..<n] s) \<and> (\<forall>j < n. \<not> slot_expired tn (ps_conn2 (fold ?f [0..<n] s) ! j))" for n
  proof (induction n)
    case (Suc n)
    let ?s = "fold ?f [0..<n] s"
    have ih: "slots_ok ?s" "\<forall>j < n. \<not> slot_expired tn (ps_conn2 ?s ! j)" using Suc by simp_all
    have len: "length (ps_conn2 ?s) = MAX_COMM2_LINKS" using ih(1) by (simp add: slots_ok_def)
    show ?case
    proof (cases "slot_expired tn (ps_conn2 ?s ! n)")
      case True
      then have u: "c2_used (ps_conn2 ?s ! n)" by (simp add: slot_expired_def)
      then have "n \<in> used_slots ?s" using len Suc.prems by (simp add: used_slots_def)
      moreover have "used_slots ?s \<subseteq> {..<ps_max2 ?s}" using ih(1) by (simp add: slots_ok_def)
      ultimately have "n < ps_max2 ?s" by blast
      then have "fold ?f [0..<Suc n] s = close_conn2 n ?s" using True by (simp add: expire_slot_def)
      moreover have "slots_ok (close_conn2 n ?s)" using slots_close [OF ih(1) _ u] Suc.prems by simp
      moreover have "\<not> slot_expired tn (ps_conn2 (close_conn2 n ?s) ! j)" if "j < Suc n" for j
        using that ih(2) len Suc.prems by (auto simp: less_Suc_eq nth_update_less slot_expired_def c2_close_def)
      ultimately show ?thesis by simp
    next
      case False
      then have "fold ?f [0..<Suc n] s = ?s" by (simp add: expire_slot_def)
      then show ?thesis using ih False by (auto simp: less_Suc_eq)
    qed
  qed (use assms in simp)
  then show ?thesis by (simp add: each_slot_def)
qed


end
