(* ===== verification/Session_Trust.thy ===== *)
theory Session_Trust
  imports Session_Inv
begin

text \<open>
  The chain of trust of a session: from the key stored for the port, over key
  rotations that were signed with a trusted key, to every message that crosses
  between the two sides.
\<close>

section \<open>Trusted secrets and traces\<close>

text \<open>The secret stored at the start, and every secret that a message signed with a trusted one sets.\<close>

inductive_set authorised :: "'p mav_lib \<Rightarrow> (bytes \<Rightarrow> mav_msg \<Rightarrow> bool) \<Rightarrow> 'db tdb_ops \<Rightarrow> int \<Rightarrow> 'db \<Rightarrow> bytes set"
  for L valid T kid db where
  stored: "db_load_key T db (word_of_int kid) = Some (ke, True) \<Longrightarrow> secret_key ke \<in> authorised L valid T kid db"
| rotated: "k \<in> authorised L valid T kid db \<Longrightarrow> valid k msg \<Longrightarrow> mm_msgid msg = ml_setup_signing L \<Longrightarrow>
    snd (ml_setup L msg) \<in> authorised L valid T kid db"

lemma authorised_closed: "rot_closed L valid (authorised L valid T kid db)"
  by (auto simp: rot_closed_def intro: authorised.rotated)

lemma authorised_stored: "keys_in (authorised L valid T kid db) T kid db"
  by (auto simp: keys_in_def intro: authorised.stored)

text \<open>Whether slot \<open>i\<close> has authenticated since it was last taken.\<close>

definition authed :: "nat \<Rightarrow> sent list \<Rightarrow> bool" where
  "authed i tr = fold (\<lambda>x b. case x of Opened j \<Rightarrow> if j = i then False else b | Signed j _ \<Rightarrow> if j = i then True else b | _ \<Rightarrow> b) tr False"

lemma authed_Nil [simp]: "\<not> authed i []"
  by (simp add: authed_def)

lemma authed_snoc [simp]:
  "authed i (tr @ [Opened j]) = (j \<noteq> i \<and> authed i tr)" "authed i (tr @ [Signed j m]) = (j = i \<or> authed i tr)"
  "authed i (tr @ [Heard j m]) = authed i tr" "authed i (tr @ [Heard_user m]) = authed i tr" "authed i (tr @ [To_user j m f]) = authed i tr"
  "authed i (tr @ [To_eng j m f]) = authed i tr" "authed i (tr @ [Text_user bs]) = authed i tr" "authed i (tr @ [Text_eng j bs]) = authed i tr"
  "authed i (tr @ [Log_user ms]) = authed i tr"
  by (auto simp: authed_def)

text \<open>What an event may be after the events before it; \<open>A\<close> are the trusted secrets.\<close>

definition signed_by :: "'p mav_lib \<Rightarrow> (bytes \<Rightarrow> mav_msg \<Rightarrow> bool) \<Rightarrow> bytes set \<Rightarrow> mav_msg \<Rightarrow> bool" where
  "signed_by L valid A msg = (mm_incompat msg AND ml_signed L \<noteq> 0 \<and> (\<exists>k \<in> A. valid k msg))"

fun event_ok :: "('p, 'db) pair_env \<Rightarrow> (bytes \<Rightarrow> mav_msg \<Rightarrow> bool) \<Rightarrow> bytes set \<Rightarrow> sent list \<Rightarrow> sent \<Rightarrow> bool" where
  "event_ok E valid A pre (Signed i msg) = signed_by (pe_lib E) valid A msg"
| "event_ok E valid A pre (Heard i msg) = (signed_by (pe_lib E) valid A msg \<and> mm_msgid msg \<noteq> ml_setup_signing (pe_lib E))"
| "event_ok E valid A pre (Heard_user msg) = (bidi E \<longrightarrow> signed_by (pe_lib E) valid A msg)"
| "event_ok E valid A pre (To_user i msg f) = (Heard i msg \<in> set pre)"
| "event_ok E valid A pre (To_eng i msg f) = (Heard_user msg \<in> set pre \<and> \<not> stripped E msg
     \<and> (f = None \<or> mm_msgid msg = ml_heartbeat (pe_lib E) \<or> authed i pre))"
| "event_ok E valid A pre _ = True"

definition trace_ok :: "('p, 'db) pair_env \<Rightarrow> (bytes \<Rightarrow> mav_msg \<Rightarrow> bool) \<Rightarrow> bytes set \<Rightarrow> sent list \<Rightarrow> bool" where
  "trace_ok E valid A tr = (\<forall>k < length tr. event_ok E valid A (take k tr) (tr ! k))"

lemma trace_ok_Nil [simp]: "trace_ok E valid A []"
  by (simp add: trace_ok_def)

lemma trace_ok_snoc [simp]: "trace_ok E valid A (tr @ [x]) = (trace_ok E valid A tr \<and> event_ok E valid A tr x)"
  by (auto simp: trace_ok_def nth_append less_Suc_eq)

lemma trace_ok_split: "trace_ok E valid A (pre @ x # post) \<Longrightarrow> event_ok E valid A pre x"
  by (auto simp: trace_ok_def dest!: spec [of _ "length pre"])

section \<open>The invariant\<close>

definition trust_ok :: "('p, 'db) pair_env \<Rightarrow> (bytes \<Rightarrow> mav_msg \<Rightarrow> bool) \<Rightarrow> bytes set \<Rightarrow> ('p, 'db) session \<Rightarrow> bool" where
  "trust_ok E valid A s =
     (slots_ok s \<and> keys_in A (pe_tdb E) (pf_port2 (pe_cfg E)) (ps_keys s)
      \<and> mv_ok (ps_mav1 s) \<and> mv_in A (ps_mav1 s) \<and> (ps_have_conn1 s \<or> bidi E \<and> ps_sock1_udp s \<longrightarrow> mv_key_id (ps_mav1 s) = conn1_key_id E)
      \<and> (\<forall>i < MAX_COMM2_LINKS. mv_ok (c2_mav (ps_conn2 s ! i)) \<and> mv_in A (c2_mav (ps_conn2 s ! i))
           \<and> (c2_used (ps_conn2 s ! i) \<longrightarrow> mv_key_id (c2_mav (ps_conn2 s ! i)) = pf_port2 (pe_cfg E))
           \<and> (mv_got_signed (c2_mav (ps_conn2 s ! i)) \<longrightarrow> authed i (ps_trace s)))
      \<and> trace_ok E valid A (ps_trace s))"

text \<open>The part of the invariant about one slot.\<close>

definition slot_trust :: "('p, 'db) pair_env \<Rightarrow> bytes set \<Rightarrow> sent list \<Rightarrow> nat \<Rightarrow> 'p conn2 \<Rightarrow> bool" where
  "slot_trust E A tr i c = (mv_ok (c2_mav c) \<and> mv_in A (c2_mav c) \<and> (c2_used c \<longrightarrow> mv_key_id (c2_mav c) = pf_port2 (pe_cfg E))
     \<and> (mv_got_signed (c2_mav c) \<longrightarrow> authed i tr))"

lemma trust_ok_alt:
  "trust_ok E valid A s =
     (slots_ok s \<and> keys_in A (pe_tdb E) (pf_port2 (pe_cfg E)) (ps_keys s)
      \<and> mv_ok (ps_mav1 s) \<and> mv_in A (ps_mav1 s) \<and> (ps_have_conn1 s \<or> bidi E \<and> ps_sock1_udp s \<longrightarrow> mv_key_id (ps_mav1 s) = conn1_key_id E)
      \<and> (\<forall>i < MAX_COMM2_LINKS. slot_trust E A (ps_trace s) i (ps_conn2 s ! i)) \<and> trace_ok E valid A (ps_trace s))"
  unfolding trust_ok_def slot_trust_def ..

lemma trust_user_ok: "trust_ok E valid A s \<Longrightarrow> mv_ok (ps_mav1 s)"
  and trust_user_in: "trust_ok E valid A s \<Longrightarrow> mv_in A (ps_mav1 s)"
  by (simp_all add: trust_ok_def)

lemma trust_slots: "trust_ok E valid A s \<Longrightarrow> slots_ok s"
  by (simp add: trust_ok_def)

lemma trust_slot: "trust_ok E valid A s \<Longrightarrow> i < MAX_COMM2_LINKS \<Longrightarrow> slot_trust E A (ps_trace s) i (ps_conn2 s ! i)"
  by (simp add: trust_ok_alt)

lemma slot_trust_calm: "slot_trust E A tr i c \<Longrightarrow> c2_used d = c2_used c \<Longrightarrow> mv_calm (c2_mav c) (c2_mav d) \<Longrightarrow> slot_trust E A tr i d"
  using calm_ok [of "c2_mav c" "c2_mav d"] calm_in [of A "c2_mav c" "c2_mav d"] by (auto simp: slot_trust_def mv_calm_def)

lemma calm_ws [simp]: "mv_calm m (m'\<lparr> mv_ws := w \<rparr>) = mv_calm m m'"
  by (simp add: mv_calm_def)

lemma trust_raise:
  assumes "trust_ok E valid A s" shows "trust_ok E valid A (raise_all r s)"
proof (cases r)
  case (Some t)
  have "slot_trust E A (ps_trace s) i ((ps_conn2 s ! i)\<lparr> c2_mav := raise_timestamp t (c2_mav (ps_conn2 s ! i)) \<rparr>)" if "i < MAX_COMM2_LINKS" for i
    by (rule slot_trust_calm [OF trust_slot [OF assms that]]) (simp_all add: calm_raise)
  moreover have "slots_ok (raise_all r s)" by (rule slots_cong [OF trust_slots [OF assms]]) simp_all
  moreover have "length (ps_conn2 s) = MAX_COMM2_LINKS" using assms by (simp add: trust_ok_alt slots_ok_def)
  moreover have "mv_ok (raise_timestamp t (ps_mav1 s))" "mv_in A (raise_timestamp t (ps_mav1 s))"
      "mv_key_id (raise_timestamp t (ps_mav1 s)) = mv_key_id (ps_mav1 s)"
    using calm_ok [OF trust_user_ok [OF assms] calm_raise] calm_in [OF trust_user_in [OF assms] calm_raise] by (simp_all add: raise_timestamp_def)
  ultimately show ?thesis using assms Some by (simp add: trust_ok_alt raise_all_def)
qed (use assms in \<open>simp add: raise_all_def\<close>)

text \<open>The changes the steps are made of: a slot, an event, the user link, the key database.\<close>

lemma trust_core: "trust_ok E valid A s \<Longrightarrow> ps_core s' = ps_core s \<Longrightarrow> trust_ok E valid A s'"
  using slots.core [of s s'] by (simp add: trust_ok_def ps_core_def)

lemma trust_put:
  assumes "trust_ok E valid A s" "c2_used c = c2_used (ps_conn2 s ! i)" "i < MAX_COMM2_LINKS \<Longrightarrow> slot_trust E A (ps_trace s) i c"
  shows "trust_ok E valid A (put_conn2 i c s)"
proof -
  have "slots_ok (put_conn2 i c s)" by (rule slots_cong [OF trust_slots [OF assms(1)]]) (simp_all add: used_put [OF assms(2)])
  then show ?thesis using assms by (auto simp: trust_ok_alt nth_update_less slots_ok_def)
qed

lemma trust_event:
  assumes "trust_ok E valid A s" "event_ok E valid A (ps_trace s) x"
    "\<And>i. i < MAX_COMM2_LINKS \<Longrightarrow> mv_got_signed (c2_mav (ps_conn2 s ! i)) \<Longrightarrow> authed i (ps_trace s) \<Longrightarrow> authed i (ps_trace s @ [x])"
  shows "trust_ok E valid A (add_trace x s)"
proof -
  have "slots_ok (add_trace x s)" by (rule slots_cong [OF trust_slots [OF assms(1)]]) simp_all
  then show ?thesis using assms by (auto simp: trust_ok_alt slot_trust_def)
qed

lemma trust_user:
  assumes "trust_ok E valid A s" "mv_ok m" "mv_in A m" "ps_have_conn1 s \<or> bidi E \<and> ps_sock1_udp s \<Longrightarrow> mv_key_id m = conn1_key_id E"
  shows "trust_ok E valid A (s\<lparr> ps_mav1 := m \<rparr>)"
proof -
  have "slots_ok (s\<lparr> ps_mav1 := m \<rparr>)" by (rule slots_cong [OF trust_slots [OF assms(1)]]) simp_all
  then show ?thesis using assms by (simp add: trust_ok_alt)
qed

lemma trust_keys:
  assumes "trust_ok E valid A s" "keys_in A (pe_tdb E) (pf_port2 (pe_cfg E)) db"
  shows "trust_ok E valid A (s\<lparr> ps_keys := db \<rparr>)"
proof -
  have "slots_ok (s\<lparr> ps_keys := db \<rparr>)" by (rule slots_cong [OF trust_slots [OF assms(1)]]) simp_all
  then show ?thesis using assms by (simp add: trust_ok_alt)
qed

section \<open>The links\<close>

text \<open>What the session relies on: the generated code, a database that stores what it is given, and an
  engineer port that is not the number reserved for links without a key.\<close>

definition trust_env :: "('p, 'db) pair_env \<Rightarrow> (bytes \<Rightarrow> mav_msg \<Rightarrow> bool) \<Rightarrow> bytes set \<Rightarrow> bool" where
  "trust_env E valid A = (mav_laws (pe_lib E) valid \<and> tdb_laws (pe_tdb E) \<and> tdb_writable (pe_tdb E) \<and> pf_port2 (pe_cfg E) \<noteq> -1
     \<and> rot_closed (pe_lib E) valid A)"

lemma receive_free:
  assumes "mav_laws L valid"
  shows "mv_key_id m = -1 \<Longrightarrow> receive_bytes L T txn db now m bad buf = (m', db', outs, x, ok, rest) \<Longrightarrow> mv_calm m m' \<and> db' = db"
proof (induction buf arbitrary: m bad)
  case (Cons b bs)
  obtain p sg y cb where ps: "ml_parse L (mv_parser m) (mv_sign m) b = (p, sg, y, cb)" by (metis surj_pair)
  have c: "mv_calm m (mv_put m p sg)" by (rule calm_put [OF laws_parse [OF assms ps]])
  then have k: "mv_key_id (mv_put m p sg) = -1" using Cons.prems(1) by (simp add: mv_calm_def)
  show ?case
  proof (cases y)
    case None
    then show ?thesis using Cons.IH [OF k] Cons.prems(2) ps calm_trans [OF c] by (auto simp: Let_def)
  next
    case (Some msg)
    then show ?thesis using Cons.prems(2) ps k c by (simp add: Let_def check_message_def)
  qed
qed simp

lemma link_receive:
  assumes env: "trust_env E valid A" and m: "mv_ok m" "mv_in A m" "mv_key_id m \<in> {-1, pf_port2 (pe_cfg E)}"
    and db: "keys_in A (pe_tdb E) (pf_port2 (pe_cfg E)) db"
    and rc: "receive_message (pe_lib E) (pe_tdb E) txn db now m buf = (m', db', outs, x, ok, rest)"
  shows "mv_ok m' \<and> mv_in A m' \<and> mv_key_id m' = mv_key_id m \<and> keys_in A (pe_tdb E) (pf_port2 (pe_cfg E)) db'
    \<and> (ok \<and> mv_key_id m \<noteq> -1 \<longrightarrow> (\<exists>msg. x = Some msg \<and> signed_by (pe_lib E) valid A msg \<and> mm_msgid msg \<noteq> ml_setup_signing (pe_lib E)))
    \<and> (mv_got_signed m' \<and> \<not> mv_got_signed m \<longrightarrow> (\<exists>msg. x = Some msg \<and> signed_by (pe_lib E) valid A msg))"
proof -
  have laws: "mav_laws (pe_lib E) valid" "tdb_laws (pe_tdb E)" "tdb_writable (pe_tdb E)" "rot_closed (pe_lib E) valid A"
    using env by (simp_all add: trust_env_def)
  note r = receive_cases [OF laws(1-3) m(1) rc [unfolded receive_message_def]]
  have free: "mv_calm m m' \<and> db' = db" if "mv_key_id m = -1"
    using receive_free [OF laws(1) that rc [unfolded receive_message_def]] .
  have "mv_in A m' \<and> keys_in A (pe_tdb E) (pf_port2 (pe_cfg E)) db'"
  proof (cases "mv_key_id m = -1")
    case True
    then show ?thesis using free db calm_in [OF m(2)] by simp
  next
    case False
    then have "mv_key_id m = pf_port2 (pe_cfg E)" using m(3) by simp
    then show ?thesis using r laws(4) m(2) db by auto
  qed
  moreover have "mv_key_loaded m" if "mv_got_signed m'" using r that m(1) by (auto simp: mv_ok_def)
  then have "sg_secret (mv_signing m) \<in> A" if "mv_got_signed m'" using that m(2) by (simp add: mv_in_def)
  ultimately show ?thesis using r by (auto simp: signed_by_def)
qed

lemma link_init:
  assumes "sr \<Longrightarrow> keys_in A T kid db" "mv_init T db now m chan sr aw tcp kid = (m', r)"
  shows "mv_ok m' \<and> mv_in A m' \<and> mv_key_id m' = kid \<and> \<not> mv_got_signed m'"
proof -
  have "mv_in A m'" if "\<not> sr" using assms(2) that by (auto simp: mv_init_def mv_in_def Let_def)
  then show ?thesis using init_ok [OF assms(2)] init_in [OF _ assms(2)] assms(1) by blast
qed

section \<open>The invariant is kept\<close>

lemma trust_calm_user:
  assumes "trust_ok E valid A s" "mv_calm (ps_mav1 s) m"
  shows "trust_ok E valid A (s\<lparr> ps_mav1 := m \<rparr>)"
  using assms calm_ok [OF _ assms(2)] calm_in [OF _ assms(2)] by (intro trust_user) (auto simp: trust_ok_alt mv_calm_def)

lemma trust_hear_user:
  assumes env: "trust_env E valid A" and s: "trust_ok E valid A s" and live: "ps_have_conn1 s \<or> bidi E \<and> ps_sock1_udp s"
    and rc: "user_receive E tn buf s = (s', r, rest)"
  shows "trust_ok E valid A s'"
proof -
  obtain m db outs x ok rest' where r: "receive_message (pe_lib E) (pe_tdb E) (tn_txn tn) (ps_keys s) (tn_now tn) (ps_mav1 s) buf = (m, db, outs, x, ok, rest')"
    by (metis surj_pair)
  have k: "mv_key_id (ps_mav1 s) = conn1_key_id E" "mv_ok (ps_mav1 s)" "mv_in A (ps_mav1 s)"
      "keys_in A (pe_tdb E) (pf_port2 (pe_cfg E)) (ps_keys s)"
    using s live by (simp_all add: trust_ok_alt)
  have "mv_key_id (ps_mav1 s) \<in> {-1, pf_port2 (pe_cfg E)}" using k(1) by (simp add: conn1_key_id_def)
  note l = link_receive [OF env k(2,3) this k(4) r]
  have "pf_port2 (pe_cfg E) \<noteq> -1" using env by (simp add: trust_env_def)
  then have u: "x = Some msg \<Longrightarrow> ok \<Longrightarrow> event_ok E valid A tr (Heard_user msg)" for msg tr
    using l k(1) by (auto simp: conn1_key_id_def)
  define s1 where "s1 = add_trace (Text_user outs) (s\<lparr> ps_mav1 := m, ps_keys := db \<rparr>)"
  have s1: "trust_ok E valid A s1"
    unfolding s1_def using l k(1) by (intro trust_event trust_keys trust_user s) simp_all
  have "s' = (case x of Some msg \<Rightarrow> if ok then add_trace (Heard_user msg) s1 else s1 | None \<Rightarrow> s1)"
    using rc r by (auto simp: user_receive_def s1_def add_trace_def add_traces_def split: option.split)
  then show ?thesis using s1 u by (auto intro!: trust_event split: option.split)
qed

lemma trust_hear_eng:
  assumes env: "trust_env E valid A" and s: "trust_ok E valid A s" and i: "i < MAX_COMM2_LINKS" "c2_used (ps_conn2 s ! i)"
    and rc: "eng_receive E tn i buf s = (s', r, rest)"
  shows "trust_ok E valid A s'"
proof -
  let ?c = "ps_conn2 s ! i"
  obtain m db outs x ok rest' where r: "receive_message (pe_lib E) (pe_tdb E) (tn_txn tn) (ps_keys s) (tn_now tn) (c2_mav ?c) buf = (m, db, outs, x, ok, rest')"
    by (metis surj_pair)
  have k: "mv_key_id (c2_mav ?c) = pf_port2 (pe_cfg E)" "mv_ok (c2_mav ?c)" "mv_in A (c2_mav ?c)"
      "keys_in A (pe_tdb E) (pf_port2 (pe_cfg E)) (ps_keys s)" "mv_got_signed (c2_mav ?c) \<Longrightarrow> authed i (ps_trace s)"
    using s trust_slot [OF s i(1)] i(2) by (simp_all add: trust_ok_alt slot_trust_def)
  have len: "i < length (ps_conn2 s)" using trust_slots [OF s] i(1) by (simp add: slots_ok_def)
  have "mv_key_id (c2_mav ?c) \<in> {-1, pf_port2 (pe_cfg E)}" using k(1) by simp
  note l = link_receive [OF env k(2,3) this k(4) r]
  have port: "pf_port2 (pe_cfg E) \<noteq> -1" using env by (simp add: trust_env_def)
  define signed where "signed = (mv_got_signed m \<and> \<not> mv_got_signed (c2_mav ?c))"
  define c' where "c' = ?c\<lparr> c2_mav := m \<rparr>"
  define xs where "xs = (case x of Some msg \<Rightarrow> (if signed then [Signed i msg] else []) @ (if ok then [Heard i msg] else []) | None \<Rightarrow> [])"
  have eq: "s' = add_traces (Text_eng i outs # xs) ((put_conn2 i c' s)\<lparr> ps_keys := db \<rparr>)"
    using rc unfolding eng_receive_def Let_def r prod.case signed_def [symmetric] xs_def [symmetric] c'_def [symmetric] by simp
  define tr where "tr = ps_trace s @ Text_eng i outs # xs"
  have sg: "x = Some msg \<Longrightarrow> signed \<Longrightarrow> signed_by (pe_lib E) valid A msg" for msg using l by (auto simp: signed_def)
  have hd: "x = Some msg \<Longrightarrow> ok \<Longrightarrow> signed_by (pe_lib E) valid A msg \<and> mm_msgid msg \<noteq> ml_setup_signing (pe_lib E)" for msg
    using l k(1) port by auto
  have "trace_ok E valid A (ps_trace s)" using s by (simp add: trust_ok_alt)
  then have "trace_ok E valid A (ps_trace s @ [Text_eng i outs])" by simp
  then have t: "trace_ok E valid A tr"
  proof (cases x)
    case (Some msg)
    have eqs: "tr = ((ps_trace s @ [Text_eng i outs]) @ (if signed then [Signed i msg] else [])) @ (if ok then [Heard i msg] else [])"
      by (simp add: tr_def xs_def Some)
    have ok1: "trace_ok E valid A ((ps_trace s @ [Text_eng i outs]) @ (if signed then [Signed i msg] else []))"
      using \<open>trace_ok E valid A (ps_trace s @ [Text_eng i outs])\<close> sg [OF Some] by (cases signed) (simp_all del: append_assoc)
    show ?thesis unfolding eqs using ok1 hd [OF Some] by (cases ok) (simp_all del: append_assoc)
  qed (simp add: tr_def xs_def)
  have mono: "authed j (ps_trace s) \<Longrightarrow> authed j tr" for j
    by (cases x) (auto simp: tr_def xs_def authed_def)
  have got: "authed i tr" if "mv_got_signed m"
  proof (cases signed)
    case True
    then obtain msg where "x = Some msg" using l by (auto simp: signed_def)
    then show ?thesis using True by (simp add: tr_def xs_def authed_def)
  qed (use that k(5) mono in \<open>auto simp: signed_def\<close>)
  have slots: "slots_ok s'"
    by (rule slots_cong [OF trust_slots [OF s]]) (simp_all add: eq used_put [of c' s i, simplified c'_def] c'_def)
  have "slot_trust E A tr j (ps_conn2 s' ! j)" if "j < MAX_COMM2_LINKS" for j
  proof (cases "j = i")
    case True
    then show ?thesis using l k(1) got len i(2) by (simp add: eq c'_def slot_trust_def)
  next
    case False
    then show ?thesis using trust_slot [OF s that] mono by (simp add: eq slot_trust_def)
  qed
  then show ?thesis using slots l t s by (simp add: trust_ok_alt) (simp add: eq tr_def)
qed

lemma trust_tell_user:
  assumes env: "trust_env E valid A" and s: "trust_ok E valid A s" and h: "Heard i msg \<in> set (ps_trace s)"
  shows "trust_ok E valid A (fst (send_user E tn i msg s))"
proof -
  obtain m f ok r where sd: "mv_send (pe_lib E) (tn_ans tn (ps_k s)) (tn_now tn) (ps_mav1 s) msg = (m, f, ok, r)" by (metis surj_pair)
  have "mav_laws (pe_lib E) valid" using env by (simp add: trust_env_def)
  note c = calm_send [OF this sd]
  have "trust_ok E valid A (s\<lparr> ps_mav1 := m, ps_k := ps_k s + 1 \<rparr>)"
    by (rule trust_core [OF trust_calm_user [OF s c]]) (simp add: ps_core_def)
  then have "trust_ok E valid A (add_trace (To_user i msg f) (raise_all r (s\<lparr> ps_mav1 := m, ps_k := ps_k s + 1 \<rparr>)))"
    using h by (intro trust_event trust_raise) simp_all
  then show ?thesis by (simp add: send_user_def sd)
qed

lemma trust_tell_eng:
  assumes env: "trust_env E valid A" and s: "trust_ok E valid A s" and i: "i < MAX_COMM2_LINKS" "c2_used (ps_conn2 s ! i)"
    and h: "Heard_user msg \<in> set (ps_trace s)" "\<not> stripped E msg"
  shows "trust_ok E valid A (fst (send_eng E tn i msg s))"
proof -
  let ?c = "ps_conn2 s ! i"
  obtain m f ok r where sd: "mv_send (pe_lib E) (tn_ans tn (ps_k s)) (tn_now tn) (c2_mav ?c) msg = (m, f, ok, r)" by (metis surj_pair)
  have laws: "mav_laws (pe_lib E) valid" "pf_port2 (pe_cfg E) \<noteq> -1" using env by (simp_all add: trust_env_def)
  note c = calm_send [OF laws(1) sd] and t = trust_slot [OF s i(1)]
  define s1 where "s1 = (put_conn2 i (?c\<lparr> c2_mav := m \<rparr>) s)\<lparr> ps_k := ps_k s + 1 \<rparr>"
  have "trust_ok E valid A (put_conn2 i (?c\<lparr> c2_mav := m \<rparr>) s)"
    by (rule trust_put [OF s]) (use slot_trust_calm [OF t, of "?c\<lparr> c2_mav := m \<rparr>"] c in simp_all)
  then have s1: "trust_ok E valid A s1" by (rule trust_core) (simp add: s1_def ps_core_def)
  have "f = None \<or> mm_msgid msg = ml_heartbeat (pe_lib E) \<or> authed i (ps_trace s)"
    using send_gate [of "pe_lib E" _ _ "c2_mav ?c" msg m _ ok r] sd t i(2) laws(2) by (cases f) (auto simp: slot_trust_def)
  then have "trust_ok E valid A (add_trace (To_eng i msg f) (raise_all r s1))"
    using h s1 by (intro trust_event trust_raise) (simp_all add: s1_def)
  then show ?thesis by (simp add: send_eng_def sd s1_def)
qed

lemma trust_init_user:
  assumes s: "trust_ok E valid A s"
  shows "trust_ok E valid A (init_user E tn tcp (s\<lparr> ps_have_conn1 := h \<rparr>))"
proof -
  obtain m r where i: "mv_init (pe_tdb E) (ps_keys s) (tn_now tn) (ps_mav1 s) CHAN_COMM1 (bidi E) False tcp (conn1_key_id E) = (m, r)" by force
  have "bidi E \<Longrightarrow> keys_in A (pe_tdb E) (conn1_key_id E) (ps_keys s)" using s by (simp add: trust_ok_alt conn1_key_id_def)
  note l = link_init [OF this i]
  have "slots_ok (s\<lparr> ps_have_conn1 := h, ps_mav1 := m \<rparr>)" by (rule slots_cong [OF trust_slots [OF s]]) simp_all
  then have "trust_ok E valid A (s\<lparr> ps_have_conn1 := h, ps_mav1 := m \<rparr>)" using s l by (simp add: trust_ok_alt)
  then show ?thesis by (simp add: init_user_def i trust_raise)
qed

lemma trust_fresh:
  assumes s: "trust_ok E valid A s" and f: "free_conn2 (ps_conn2 s) 0 = Some i"
  shows "trust_ok E valid A (init_eng E tn i udp ad s)"
proof -
  let ?c = "ps_conn2 s ! i"
  obtain m r where im: "mv_init (pe_tdb E) (ps_keys s) (tn_now tn) (c2_mav ?c) (CHAN_COMM2 i) True (\<not> udp) (\<not> udp) (pf_port2 (pe_cfg E)) = (m, r)" by force
  note l = link_init [OF _ im, of A]
  have k: "keys_in A (pe_tdb E) (pf_port2 (pe_cfg E)) (ps_keys s)" using s by (simp add: trust_ok_alt)
  have len: "length (ps_conn2 s) = MAX_COMM2_LINKS" using trust_slots [OF s] by (simp add: slots_ok_def)
  define c' where "c' = ?c\<lparr> c2_sock := \<not> udp, c2_used := True, c2_tcp_active := udp, c2_mav := (if udp then m\<lparr> mv_sendto := Some ad \<rparr> else m),
     c2_from := ad, c2_is_udp := udp, c2_last_pkt := (if udp then tn_now tn else c2_last_pkt ?c), c2_connected_at := tn_wall tn, c2_rx := 0, c2_tx := 0 \<rparr>"
  define s1 where "s1 = add_trace (Opened i) (put_conn2 i c' (take_slot s))"
  have eq: "init_eng E tn i udp ad s = (add_trace (Opened i) (raise_all r (put_conn2 i c' (take_slot s))))\<lparr> ps_last_save := 0 \<rparr>"
    unfolding init_eng_def Let_def im prod.case c'_def [symmetric] ..
  also have "ps_core \<dots> = ps_core (raise_all r s1)"
    by (cases r) (simp_all add: ps_core_def raise_all_def s1_def add_trace_def)
  finally have core: "ps_core (init_eng E tn i udp ad s) = ps_core (raise_all r s1)" .
  have "slots_ok (init_eng E tn i udp ad s)" using slots_fresh [OF trust_slots [OF s] f] by simp
  then have "slots_ok (raise_all r s1)" using slots.core core by metis
  then have "slots_ok s1" by (rule slots_cong) simp_all
  moreover have new: "slot_trust E A (ps_trace s @ [Opened i]) i c'"
    using l k by (cases udp) (simp_all add: slot_trust_def c'_def mv_ok_def mv_in_def)
  moreover have "slot_trust E A (ps_trace s @ [Opened i]) j (ps_conn2 s ! j)" if "j \<noteq> i" "j < MAX_COMM2_LINKS" for j
    using trust_slot [OF s that(2)] that(1) by (simp add: slot_trust_def)
  then have "slot_trust E A (ps_trace s1) j (ps_conn2 s1 ! j)" if "j < MAX_COMM2_LINKS" for j
    using that new len by (cases "j = i") (simp_all add: s1_def take_slot_def Let_def)
  ultimately have "trust_ok E valid A s1" using s by (simp add: trust_ok_alt) (simp add: s1_def take_slot_def Let_def)
  then show ?thesis by (rule trust_core [OF trust_raise core])
qed

lemma trust_close:
  assumes s: "trust_ok E valid A s" and i: "i < MAX_COMM2_LINKS" "c2_used (ps_conn2 s ! i)"
  shows "trust_ok E valid A (close_conn2 i s)"
proof -
  have "slot_trust E A (ps_trace s) i (c2_close (ps_conn2 s ! i))"
    using trust_slot [OF s i(1)] by (simp add: slot_trust_def c2_close_def mv_ok_def mv_in_def)
  moreover have "length (ps_conn2 s) = MAX_COMM2_LINKS" using trust_slots [OF s] by (simp add: slots_ok_def)
  ultimately show ?thesis using s slots_close [OF trust_slots [OF s] i] by (auto simp: trust_ok_alt nth_update_less)
qed

lemma trust_like:
  assumes s: "trust_ok E valid A s" and "c2_like (ps_conn2 s ! i) c"
  shows "trust_ok E valid A (put_conn2 i c s)"
proof -
  obtain w where c: "c2_used c = c2_used (ps_conn2 s ! i)" "c2_mav c = (c2_mav (ps_conn2 s ! i))\<lparr> mv_ws := w \<rparr>"
    using assms(2) by (auto simp: c2_like_def)
  show ?thesis by (rule trust_put [OF s c(1)]) (use slot_trust_calm [OF trust_slot [OF s]] c in simp)
qed

lemma trust_invariant:
  assumes env: "trust_env E valid A"
  shows "session_invariant E (trust_ok E valid A)"
proof (unfold_locales, goal_cases)
  case (1 s s')
  then show ?case by (rule trust_core)
next
  case (2 s)
  then show ?case using slots.size trust_slots by blast
next
  case (3 s)
  have "slots_ok (s\<lparr> ps_sock1_udp := False \<rparr>)" by (rule slots_cong [OF trust_slots [OF 3]]) simp_all
  then show ?case using 3 by (simp add: trust_ok_alt)
next
  case (4 s w)
  then show ?case by (rule trust_calm_user) simp
next
  case (5 s)
  have "slots_ok (s\<lparr> ps_have_conn1 := True \<rparr>)" by (rule slots_cong [OF trust_slots [OF 5(1)]]) simp_all
  then show ?case using 5 by (simp add: trust_ok_alt)
next
  case (6 s tn tcp h)
  then show ?case by (rule trust_init_user)
next
  case (7 s tn buf s' r rest)
  then show ?case by (rule trust_hear_user [OF env])
next
  case (8 s i tn buf s' r rest)
  then have "i < MAX_COMM2_LINKS" using slots.size [OF trust_slots [OF 8(1)]] by simp
  from trust_hear_eng [OF env 8(1) this 8(3,4)] show ?case .
next
  case (9 s i msg tn)
  then show ?case by (rule trust_tell_user [OF env])
next
  case (10 s i msg tn)
  then have "i < MAX_COMM2_LINKS" using slots.size [OF trust_slots [OF 10(1)]] by simp
  with 10 show ?case by (simp add: trust_tell_eng [OF env])
next
  case (11 s i c)
  then show ?case by (rule trust_like)
next
  case (12 s i)
  then show ?case by (rule trust_close)
next
  case (13 s i tn udp ad)
  then show ?case using trust_fresh [OF 13] slots_fresh [OF trust_slots [OF 13(1)] 13(2)] by simp
next
  case (14 s ms)
  then show ?case by (rule trust_event) simp_all
qed

lemma trust_start:
  assumes env: "trust_env E valid A" and blank: "\<not> mv_key_loaded blank" "\<not> mv_got_signed blank"
    and keys: "keys_in A (pe_tdb E) (pf_port2 (pe_cfg E)) keys"
  shows "trust_ok E valid A (session_start E now (session_zero socks blank f d n keys conns))"
proof -
  define z where "z = session_zero socks blank f d n keys conns"
  have z: "ps_keys z = keys" "ps_mav1 z = blank" "\<not> ps_have_conn1 z" "ps_trace z = []" "ps_conn2 z = replicate MAX_COMM2_LINKS (c2_new blank)"
    by (simp_all add: z_def session_zero_def)
  have sl: "slots_ok z" using slots_start [of "E\<lparr> pe_cfg := (pe_cfg E)\<lparr> pf_flags := 0 \<rparr> \<rparr>"] by (simp add: session_start_def bidi_def pf_flag_def z_def)
  have st: "slot_trust E A [] i (c2_new blank)" for i using blank by (simp add: slot_trust_def c2_new_def mv_ok_def mv_in_def)
  have cond: "trust_ok E valid A (z\<lparr> ps_mav1 := m \<rparr>)"
    if "mv_ok m" "mv_in A m" "bidi E \<and> ps_sock1_udp z \<longrightarrow> mv_key_id m = conn1_key_id E" for m
  proof -
    have "slots_ok (z\<lparr> ps_mav1 := m \<rparr>)" by (rule slots_cong [OF sl]) simp_all
    then show ?thesis using that z st keys by (simp add: trust_ok_alt)
  qed
  show ?thesis
  proof (cases "bidi E \<and> ps_sock1_udp z")
    case True
    obtain m r where i: "mv_init (pe_tdb E) (ps_keys z) now (ps_mav1 z) CHAN_COMM1 True False False (conn1_key_id E) = (m, r)" by force
    have "keys_in A (pe_tdb E) (conn1_key_id E) (ps_keys z)" using keys True z(1) by (simp add: conn1_key_id_def)
    note l = link_init [OF this i]
    have "trust_ok E valid A (raise_all r (z\<lparr> ps_mav1 := m \<rparr>))" using l by (intro trust_raise cond) simp_all
    then show ?thesis using True i by (simp add: session_start_def z_def [symmetric])
  next
    case False
    have "trust_ok E valid A (z\<lparr> ps_mav1 := blank \<rparr>)" using blank False by (intro cond) (auto simp: mv_ok_def mv_in_def)
    moreover have "z\<lparr> ps_mav1 := blank \<rparr> = z" by (simp flip: z(2))
    ultimately show ?thesis using False by (auto simp: session_start_def z_def [symmetric])
  qed
qed

lemma trace_ok_member: "trace_ok E valid A (pre @ x # post) \<Longrightarrow> y \<in> set pre \<Longrightarrow> \<exists>p. event_ok E valid A p y"
proof -
  assume t: "trace_ok E valid A (pre @ x # post)" and "y \<in> set pre"
  then obtain a b where "pre = a @ y # b" by (meson split_list)
  then show ?thesis using trace_ok_split [of E valid A a y "b @ x # post"] t by auto
qed

section \<open>The chain of trust\<close>


section \<open>An example session\<close>

definition ex_pair :: "(unit, mem_db) pair_env" where
  "ex_pair = \<lparr> pe_lib = ex_mav,
     pe_bin = \<lparr> bb_block = 184, bb_status = 185, bb_block_of = (\<lambda>_. ex_blk 0),
       bb_time_of = (\<lambda>_. \<lparr> st_is_system_time = False, st_is_autopilot = False, st_sysid = 0, st_time_boot_ms = 0 \<rparr>) \<rparr>,
     pe_tdb = mem_tdb, pe_cfg = \<lparr> pf_port2 = 7, pf_flags = 0, pf_pid = 0, pf_datedir = [], pf_name = [] \<rparr> \<rparr>"

text \<open>A turn in which the user's first datagram and a signed one from an engineer arrive.\<close>

definition ex_turn :: turn where
  "ex_turn = \<lparr> tn_drops = False, tn_top = 0, tn_select = Sel_ready, tn_now = 0, tn_wall = 0, tn_user_udp = Some (Some ((1, 1), [4])), tn_connect = True,
     tn_eng_udp = Some (Some ((2, 2), [5])), tn_user_accept = None, tn_user_tcp = None, tn_eng_accept = None, tn_eng_tcp = (\<lambda>_. None),
     tn_ans = (\<lambda>_. Link_sent True), tn_bl = (\<lambda>_. ex_env), tn_tl_open = (False, None), tn_tl = (\<lambda>_. (0, 0, 0)), tn_txn = True, tn_conn_txn = True,
     tn_tick = [], tn_snap = 0, tn_snap_txn = True \<rparr>"

definition ex_blank :: "unit mavlink" where
  "ex_blank = ex_link\<lparr> mv_key_loaded := False, mv_wired := False \<rparr>"

lemma each_slot_none: "ps_max2 s = 0 \<Longrightarrow> each_slot f s = s"
proof -
  assume z: "ps_max2 s = 0"
  have "fold (\<lambda>i s. if i < ps_max2 s then f i s else s) is s = s" for "is" using z by (induction "is") simp_all
  then show ?thesis by (simp add: each_slot_def)
qed

definition ex_user :: "unit mavlink" where
  "ex_user = fst (mv_init mem_tdb ex_keys 0 ex_blank 0 False False False (-1))"

definition ex_eng :: "unit mavlink" where
  "ex_eng = fst (mv_init mem_tdb ex_keys 0 ex_blank 2 True False False 7)\<lparr> mv_sendto := Some (2, 2) \<rparr>"

lemma ex_user_fields: "mv_init mem_tdb ex_keys 0 ex_blank 0 False False False (-1) = (ex_user, None)" "mv_key_id ex_user = -1" "\<not> mv_is_tcp ex_user"
  by (simp_all add: ex_user_def mv_init_def Let_def)

lemma ex_eng_fields:
  "mv_init mem_tdb ex_keys 0 ex_blank 2 True False False 7 = (fst (mv_init mem_tdb ex_keys 0 ex_blank 2 True False False 7), None)"
  "mv_key_id ex_eng = 7" "mv_key_loaded ex_eng" "\<not> mv_got_signed ex_eng"
  by (simp_all add: ex_eng_def mv_init_def Let_def load_signing_cases ex_keys_load all_zero_key_def update_signing_timestamp_def SECOND_def)

lemmas ex_session_simps = ex_pair_def ex_turn_def bidi_def pf_flag_def conn1_key_id_def CHAN_COMM1_def CHAN_COMM2_def MAX_COMM2_LINKS_def SESSION_BUF_def

lemma ex_receive:
  "receive_message ex_mav mem_tdb True ex_keys 0 ex_eng [5]
   = (mv_put ex_eng () (mv_sign ex_eng)\<lparr> mv_bad_sigs := 0, mv_got_signed := True \<rparr>, ex_keys, [], Some (ex_msg 5), True, [])"
  using ex_eng_fields by (simp add: receive_message_def check_message_def ex_mav_def ex_msg_def mv_put_def Let_def)

lemma ex_send: "\<exists>m. mv_send ex_mav (Link_sent True) 0 ex_user (ex_msg 5) = (m, Some [0, 5], True, None)"
  using ex_user_fields by (simp add: mv_send_def ex_mav_def ex_msg_def Let_def)

text \<open>The states of that turn: as the session starts, with the user latched, with the engineer's slot.\<close>

definition ex_s0 :: "(unit, mem_db) session" where
  "ex_s0 = session_zero (True, True, True, True) ex_blank 0 [] [] ex_keys []"

definition ex_s1 :: "(unit, mem_db) session" where
  "ex_s1 = ex_s0\<lparr> ps_sock1_tcp := False, ps_last_pkt1 := 0, ps_count1 := 1, ps_mav1 := ex_user, ps_have_conn1 := True, ps_peer := (1, 1),
     ps_connected_at := 0, ps_tcp1 := False, ps_last_save := 0 \<rparr>"

definition ex_c1 :: "unit conn2" where
  "ex_c1 = (c2_new ex_blank)\<lparr> c2_sock := False, c2_used := True, c2_tcp_active := True, c2_mav := ex_eng, c2_from := (2, 2), c2_is_udp := True,
     c2_last_pkt := 0, c2_connected_at := 0, c2_rx := 0, c2_tx := 0 \<rparr>"

definition ex_s2 :: "(unit, mem_db) session" where
  "ex_s2 = (add_trace (Opened 0) (put_conn2 0 ex_c1 (take_slot (ex_s1\<lparr> ps_count2 := u32 (ps_count2 ex_s1 + 1) \<rparr>))))\<lparr> ps_last_save := 0 \<rparr>"

lemma ex_s0_fields:
  "ps_max2 ex_s0 = 0" "ps_n2 ex_s0 = 0" "\<not> ps_have_conn1 ex_s0" "ps_sock1_udp ex_s0" "ps_keys ex_s0 = ex_keys" "ps_mav1 ex_s0 = ex_blank"
  "ps_count1 ex_s0 = 0" "ps_sock2_udp ex_s0" "ps_conn2 ex_s0 = replicate 100 (c2_new ex_blank)" "ps_trace ex_s0 = []" "ps_k ex_s0 = 0"
  by (simp_all add: ex_s0_def session_zero_def MAX_COMM2_LINKS_def)

lemma ex_s1_fields:
  "ps_conn2 ex_s1 = replicate 100 (c2_new ex_blank)" "ps_max2 ex_s1 = 0" "ps_sock2_udp ex_s1" "ps_keys ex_s1 = ex_keys" "ps_have_conn1 ex_s1"
  "ps_count1 ex_s1 = 1" "ps_n2 ex_s1 = 0" "ps_trace ex_s1 = []" "ps_mav1 ex_s1 = ex_user" "ps_k ex_s1 = 0" "\<not> ps_sock1_tcp ex_s1"
  using ex_s0_fields by (simp_all add: ex_s1_def)

lemma ex_s2_fields:
  "ps_conn2 ex_s2 ! 0 = ex_c1" "length (ps_conn2 ex_s2) = 100" "ps_keys ex_s2 = ex_keys" "ps_trace ex_s2 = [Opened 0]" "ps_mav1 ex_s2 = ex_user"
  "ps_k ex_s2 = 0" "ps_max2 ex_s2 = 1" "ps_have_conn1 ex_s2" "\<not> ps_sock1_tcp ex_s2" "ps_last_save ex_s2 = 0" "ps_count1 ex_s2 = 1"
  using ex_s1_fields by (simp_all add: ex_s2_def take_slot_def Let_def u8_def add_trace_def put_conn2_def)

lemma ex_user_phase: "ph_user_udp ex_pair ex_turn ex_s0 = Go ex_s1"
  using ex_s0_fields ex_user_fields(1)
  by (simp add: ph_user_udp_def ex_session_simps user_parse_def latch_user_def init_user_def raise_all_def ex_s1_def u32_def)

lemma ex_init_eng: "init_eng ex_pair ex_turn 0 True (2, 2) (ex_s1\<lparr> ps_count2 := u32 (ps_count2 ex_s1 + 1) \<rparr>) = ex_s2"
proof -
  obtain e where e: "mv_init mem_tdb ex_keys 0 ex_blank 2 True False False 7 = (e, None)" "ex_eng = e\<lparr> mv_sendto := Some (2, 2) \<rparr>"
    using ex_eng_fields(1) by (metis ex_eng_def fst_conv)
  have b: "c2_mav (c2_new ex_blank) = ex_blank" by (simp add: c2_new_def)
  show ?thesis using ex_s1_fields e b unfolding init_eng_def by (simp add: ex_session_simps raise_all_def ex_s2_def ex_c1_def Let_def)
qed

lemma ex_eng_phase:
  "ph_eng_udp ex_pair ex_turn ex_s1 = (case eng_loop ex_pair ex_turn 0 [5] ex_s2 of (s3, failed) \<Rightarrow> if failed then Stop s3 else Go s3)"
proof -
  have f: "free_conn2 (ps_conn2 ex_s1) 0 = Some 0" using ex_s1_fields(1) by (simp add: numeral_eq_Suc c2_new_def)
  have t: "tn_eng_udp ex_turn = Some (Some ((2, 2), [5]))" "take SESSION_BUF [5 :: byte] = [5]" by (simp_all add: ex_turn_def SESSION_BUF_def)
  have u: "find_udp (ex_s1\<lparr> ps_count2 := u32 (ps_count2 ex_s1 + 1) \<rparr>) (2, 2) = None" using ex_s1_fields by (simp add: find_udp_def)
  show ?thesis unfolding ph_eng_udp_def t option.case prod.case Let_def u using ex_s1_fields(3) f ex_init_eng ex_s2_fields(8,11) by simp
qed

lemma ex_loop:
  "\<exists>s3. eng_loop ex_pair ex_turn 0 [5] ex_s2 = (s3, False) \<and> ps_max2 s3 = 1 \<and> c2_is_udp (ps_conn2 s3 ! 0) \<and> ps_have_conn1 s3 \<and> \<not> ps_sock1_tcp s3
     \<and> ps_last_save s3 = 0
     \<and> ps_trace s3 = [Opened 0, Text_eng 0 [], Signed 0 (ex_msg 5), Heard 0 (ex_msg 5), To_user 0 (ex_msg 5) (Some [0, 5])]"
proof -
  define m' where "m' = mv_put ex_eng () (mv_sign ex_eng)\<lparr> mv_bad_sigs := 0, mv_got_signed := True \<rparr>"
  define s3 where "s3 = add_traces [Text_eng 0 [], Signed 0 (ex_msg 5), Heard 0 (ex_msg 5)] ((put_conn2 0 (ex_c1\<lparr> c2_mav := m' \<rparr>) ex_s2)\<lparr> ps_keys := ex_keys \<rparr>)"
  have "\<not> mv_got_signed ex_eng" "mv_got_signed m'" "c2_mav ex_c1 = ex_eng" using ex_eng_fields by (simp_all add: m'_def ex_c1_def)
  then have r: "eng_receive ex_pair ex_turn 0 [5] ex_s2 = (s3, Some (ex_msg 5), [])"
    using ex_s2_fields ex_receive [folded m'_def] by (simp add: eng_receive_def Let_def s3_def ex_pair_def ex_turn_def)
  define s4 where "s4 = put_conn2 0 ((ps_conn2 s3 ! 0)\<lparr> c2_rx := u32 (c2_rx (ps_conn2 s3 ! 0) + 1) \<rparr>) s3"
  have l: "log_message ex_pair ex_turn (ex_msg 5) s4 = s4" by (simp add: log_message_def ex_session_simps)
  have n4: "ps_mav1 s4 = ex_user" "ps_k s4 = 0" "ps_tx1 s4 = ps_tx1 ex_s2"
    using ex_s2_fields by (simp_all add: s4_def s3_def add_traces_def put_conn2_def)
  obtain m where m: "mv_send ex_mav (Link_sent True) 0 ex_user (ex_msg 5) = (m, Some [0, 5], True, None)" using ex_send by blast
  define s5 where "s5 = add_trace (To_user 0 (ex_msg 5) (Some [0, 5])) (s4\<lparr> ps_mav1 := m, ps_k := 1 \<rparr>)"
  have sd: "send_user ex_pair ex_turn 0 (ex_msg 5) s4 = (s5, True)"
    using n4 m by (simp add: send_user_def raise_all_def ex_pair_def ex_turn_def s5_def)
  have "eng_loop ex_pair ex_turn 0 [5] ex_s2 = eng_loop ex_pair ex_turn 0 [] (s5\<lparr> ps_tx1 := u32 (ps_tx1 s5 + 1) \<rparr>)"
    by (subst eng_loop.simps) (simp only: r Let_def s4_def [symmetric] l sd prod.case option.case list.distinct if_False not_True_eq_False)
  then have "eng_loop ex_pair ex_turn 0 [5] ex_s2 = (s5\<lparr> ps_tx1 := u32 (ps_tx1 s5 + 1) \<rparr>, False)" by (simp add: eng_loop.simps)
  then show ?thesis using ex_s2_fields by (simp add: s5_def s4_def s3_def add_trace_def add_traces_def put_conn2_def ex_c1_def)
qed

lemma ex_trace:
  "ps_trace (session_state ex_pair [ex_turn] 0 (True, True, True, True) ex_blank 0 [] [] ex_keys [])
   = [Opened 0, Text_eng 0 [], Signed 0 (ex_msg 5), Heard 0 (ex_msg 5), To_user 0 (ex_msg 5) (Some [0, 5])]"
proof -
  obtain s3 where s3: "eng_loop ex_pair ex_turn 0 [5] ex_s2 = (s3, False)" "ps_max2 s3 = 1" "c2_is_udp (ps_conn2 s3 ! 0)" "ps_have_conn1 s3" "\<not> ps_sock1_tcp s3"
      "ps_last_save s3 = 0" "ps_trace s3 = [Opened 0, Text_eng 0 [], Signed 0 (ex_msg 5), Heard 0 (ex_msg 5), To_user 0 (ex_msg 5) (Some [0, 5])]"
    using ex_loop by blast
  have st: "session_start ex_pair 0 (session_zero (True, True, True, True) ex_blank 0 [] [] ex_keys []) = ex_s0"
    by (simp add: session_start_def ex_session_simps ex_s0_def)
  have p1: "flow_then (flow_then (ph_drops ex_pair ex_turn ex_s0) (ph_select ex_turn)) (ph_expire ex_pair ex_turn) = Go ex_s0"
    using ex_s0_fields by (simp add: ph_drops_def ph_select_def ph_expire_def each_slot_none ex_session_simps)
  have p4: "ph_user_accept ex_pair ex_turn s3 = Go s3" "ph_user_tcp ex_pair ex_turn s3 = Go s3" "ph_eng_accept ex_pair ex_turn s3 = Go s3"
    using s3 by (simp_all add: ph_user_accept_def ph_user_tcp_def ph_eng_accept_def ex_turn_def)
  have l: "[0..<MAX_COMM2_LINKS] = 0 # 1 # [2..<100]" by (simp add: MAX_COMM2_LINKS_def upt_conv_Cons)
  have p5: "eng_tcp_loop ex_pair ex_turn [0..<MAX_COMM2_LINKS] s3 = s3" unfolding l using s3 by (simp add: eng_tcp_def Let_def)
  have p6: "ph_binlog ex_pair ex_turn s3 = s3" "ph_snapshot ex_pair ex_turn s3 = Go s3"
    using s3 by (simp_all add: ph_binlog_def ph_snapshot_def ex_session_simps SECOND_def)
  have "session_turn ex_pair ex_turn ex_s0 = Go s3"
    unfolding session_turn_def p1 by (simp add: ex_user_phase ex_eng_phase s3(1) p4 p5 p6)
  then show ?thesis by (simp add: session_state_def st s3(7))
qed


end
