(* ===== verification/Port_Table.thy ===== *)
theory Port_Table
  imports Video_Slot Key_Db Conn_Db
begin

text \<open>
  The parent process (\<open>src/supportproxy.cpp\<close>, outside \<open>main_loop\<close>): the table of
  port pairs, its reconciliation with \<open>keys.tdb\<close>, the listening sockets, the
  session child and the video child of each pair, and the loop that waits for
  traffic, reaps children and reloads.

  The list of \<open>listen_port\<close> structures is a list, newest first; \<open>host\<close> holds what
  the functions share beside it.  A socket is \<open>None\<close> for a descriptor of -1.  What the
  system answers (descriptors, process numbers, whether a transaction starts)
  comes from \<open>sys\<close>, indexed by the number of answers used so far.
\<close>

section \<open>State\<close>

text \<open>The settings taken from a record; all of them are replaced together.\<close>

record port_cfg =
  pc_port1 :: "32 word"
  pc_port2 :: "32 word"
  pc_flags :: "32 word"
  pc_fc_sysid :: "32 word"
  pc_tz :: "32 word"
  pc_video_ports :: "(32 word) list"
  pc_video_flags :: "32 word"
  pc_video_flags_hi :: "32 word"

record listen_port =
  lp_cfg :: port_cfg
  lp_sock1_udp :: "nat option"
  lp_sock2_udp :: "nat option"
  lp_sock1_tcp :: "nat option"
  lp_sock2_listen :: "nat option"
  lp_pid :: int
  lp_video_pid :: int
  lp_respawn_after :: int
  lp_seen :: bool
  lp_removed :: bool

record 'db host =
  ho_conns :: 'db
  ho_cleanup_pid :: int
  ho_sigterm :: "int list"
  ho_epoll :: "nat list"
  ho_last_reload :: int
  ho_k :: nat

record sys =
  sy_socket :: "nat \<Rightarrow> nat option"
  sy_fork :: "nat \<Rightarrow> int"
  sy_conn_txn :: "nat \<Rightarrow> bool"

type_synonym 'db parent = "listen_port list \<times> 'db host"

definition kill_term :: "int \<Rightarrow> 'db host \<Rightarrow> 'db host" where
  "kill_term pid h = h\<lparr> ho_sigterm := pid # ho_sigterm h \<rparr>"

definition next_answer :: "'db host \<Rightarrow> 'db host" where
  "next_answer h = h\<lparr> ho_k := ho_k h + 1 \<rparr>"

section \<open>Sockets\<close>

definition lp_socks :: "listen_port \<Rightarrow> nat option list" where
  "lp_socks p = [lp_sock1_udp p, lp_sock2_udp p, lp_sock1_tcp p, lp_sock2_listen p]"

definition close_sockets :: "listen_port \<Rightarrow> listen_port" where
  "close_sockets p = p\<lparr> lp_sock1_udp := None, lp_sock2_udp := None, lp_sock1_tcp := None, lp_sock2_listen := None \<rparr>"

text \<open>A socket that is open is kept; otherwise one attempt is made.\<close>

definition open_one :: "sys \<Rightarrow> nat option \<Rightarrow> 'db host \<Rightarrow> nat option \<times> 'db host" where
  "open_one W s h = (case s of Some fd \<Rightarrow> (Some fd, h) | None \<Rightarrow> (sy_socket W (ho_k h), next_answer h))"

definition open_sockets :: "sys \<Rightarrow> listen_port \<Rightarrow> 'db host \<Rightarrow> listen_port \<times> 'db host" where
  "open_sockets W p h =
     (let (a, h1) = open_one W (lp_sock1_udp p) h; (b, h2) = open_one W (lp_sock2_udp p) h1;
          (c, h3) = open_one W (lp_sock1_tcp p) h2; (d, h4) = open_one W (lp_sock2_listen p) h3
      in (p\<lparr> lp_sock1_udp := a, lp_sock2_udp := b, lp_sock1_tcp := c, lp_sock2_listen := d \<rparr>, h4))"

section \<open>Records of the key database\<close>

definition video_cfg_differs :: "port_cfg \<Rightarrow> port_cfg \<Rightarrow> bool" where
  "video_cfg_differs old new =
     (pc_flags old AND KEY_FLAG_VIDEO \<noteq> pc_flags new AND KEY_FLAG_VIDEO
      \<or> pc_video_flags old \<noteq> pc_video_flags new \<or> pc_video_flags_hi old \<noteq> pc_video_flags_hi new
      \<or> (\<exists>i < KEY_MAX_VIDEO_PORTS. pc_video_ports old ! i \<noteq> pc_video_ports new ! i))"

definition video_stop_child :: "listen_port \<Rightarrow> 'db host \<Rightarrow> 'db host" where
  "video_stop_child p h = (if lp_video_pid p = 0 then h else kill_term (lp_video_pid p) h)"

definition new_port :: "port_cfg \<Rightarrow> listen_port" where
  "new_port c = \<lparr> lp_cfg = c, lp_sock1_udp = None, lp_sock2_udp = None, lp_sock1_tcp = None, lp_sock2_listen = None, lp_pid = 0,
     lp_video_pid = 0, lp_respawn_after = 0, lp_seen = True, lp_removed = False \<rparr>"

text \<open>The branches of \<open>upsert_port\<close> for an entry that is known.\<close>

definition refresh_port :: "sys \<Rightarrow> port_cfg \<Rightarrow> listen_port \<Rightarrow> 'db host \<Rightarrow> listen_port \<times> 'db host" where
  "refresh_port W c p h =
     (let h1 = (if video_cfg_differs (lp_cfg p) c then video_stop_child p h else h); p1 = p\<lparr> lp_seen := True \<rparr>
      in if lp_removed p then
           let p2 = p1\<lparr> lp_removed := False, lp_cfg := c \<rparr> in if lp_pid p = 0 then open_sockets W p2 h1 else (p2, h1)
         else if pc_port1 (lp_cfg p) \<noteq> pc_port1 c then
           let p2 = (close_sockets p1)\<lparr> lp_cfg := c \<rparr>; h2 = (if lp_pid p \<noteq> 0 then kill_term (lp_pid p) h1 else h1)
           in if lp_pid p = 0 then open_sockets W p2 h2 else (p2, h2)
         else (p1\<lparr> lp_cfg := c \<rparr>, h1))"

text \<open>Runs \<open>f\<close> on the first entry with the property.\<close>

fun update_first :: "(listen_port \<Rightarrow> bool) \<Rightarrow> (listen_port \<Rightarrow> 'db host \<Rightarrow> listen_port \<times> 'db host) \<Rightarrow> listen_port list \<Rightarrow> 'db host
    \<Rightarrow> 'db parent option" where
  "update_first P f [] h = None"
| "update_first P f (p # ps) h =
     (if P p then (let (p1, h1) = f p h in Some (p1 # ps, h1))
      else (case update_first P f ps h of None \<Rightarrow> None | Some (ps1, h1) \<Rightarrow> Some (p # ps1, h1)))"

definition upsert_port :: "sys \<Rightarrow> port_cfg \<Rightarrow> 'db parent \<Rightarrow> 'db parent" where
  "upsert_port W c st =
     (case update_first (\<lambda>p. pc_port2 (lp_cfg p) = pc_port2 c) (refresh_port W c) (fst st) (snd st) of
        Some st1 \<Rightarrow> st1
      | None \<Rightarrow> let (p, h) = open_sockets W (new_port c) (snd st) in (p # fst st, h))"

definition cfg_of :: "32 word \<Rightarrow> key_entry \<Rightarrow> port_cfg" where
  "cfg_of port2 k = \<lparr> pc_port1 = port1 k, pc_port2 = port2, pc_flags = ke_flags k, pc_fc_sysid = fc_sysid k, pc_tz = tz_offset_hours k,
     pc_video_ports = map (video_port_of k) [0..<KEY_MAX_VIDEO_PORTS], pc_video_flags = video_flags k, pc_video_flags_hi = video_flags_hi k \<rparr>"

definition record_cfg :: "bytes \<times> bytes \<Rightarrow> port_cfg option" where
  "record_cfg kd =
     (if length (fst kd) \<noteq> 4 \<or> length (snd kd) < KEYENTRY_MIN_SIZE then None
      else Some (cfg_of (u32_of (fst kd)) (key_decode (zero_extend KEYENTRY_SIZE (snd kd)))))"

definition handle_record :: "sys \<Rightarrow> bytes \<times> bytes \<Rightarrow> 'db parent \<Rightarrow> 'db parent" where
  "handle_record W kd st = (case record_cfg kd of None \<Rightarrow> st | Some c \<Rightarrow> upsert_port W c st)"

text \<open>A loop over the table.\<close>

fun each_port :: "(listen_port \<Rightarrow> 'db host \<Rightarrow> listen_port \<times> 'db host) \<Rightarrow> listen_port list \<Rightarrow> 'db host \<Rightarrow> 'db parent" where
  "each_port f [] h = ([], h)"
| "each_port f (p # ps) h = (let (p1, h1) = f p h; (ps1, h2) = each_port f ps h1 in (p1 # ps1, h2))"

section \<open>Children\<close>

text \<open>\<open>fork_video_child\<close> as the parent sees it; a negative answer stands for a failed \<open>pipe\<close> or \<open>fork\<close>.\<close>

definition fork_video_child :: "sys \<Rightarrow> listen_port \<Rightarrow> 'db host \<Rightarrow> listen_port \<times> 'db host" where
  "fork_video_child W p h =
     (let pid = sy_fork W (ho_k h) in (if pid < 0 then p else p\<lparr> lp_video_pid := pid \<rparr>, next_answer h))"

definition wants_video :: "listen_port \<Rightarrow> bool" where
  "wants_video p = (\<not> lp_removed p \<and> video_entry_wants_child (pc_flags (lp_cfg p)) (pc_video_ports (lp_cfg p)))"

definition reconcile_one :: "sys \<Rightarrow> int \<Rightarrow> listen_port \<Rightarrow> 'db host \<Rightarrow> listen_port \<times> 'db host" where
  "reconcile_one W now p h =
     (if wants_video p \<and> lp_video_pid p = 0 \<and> now \<ge> lp_respawn_after p then fork_video_child W p h
      else if \<not> wants_video p \<and> lp_video_pid p \<noteq> 0 then (p, video_stop_child p h)
      else (p, h))"

definition reconcile_video_children :: "sys \<Rightarrow> int \<Rightarrow> 'db parent \<Rightarrow> 'db parent" where
  "reconcile_video_children W now st = each_port (reconcile_one W now) (fst st) (snd st)"

definition fork_cleanup_child :: "sys \<Rightarrow> 'db host \<Rightarrow> 'db host" where
  "fork_cleanup_child W h =
     (let pid = sy_fork W (ho_k h) in (next_answer h)\<lparr> ho_cleanup_pid := (if pid < 0 then ho_cleanup_pid h else pid) \<rparr>)"

text \<open>One child that \<open>waitpid\<close> returned; the flag is whether it was a session child.\<close>

definition reap_port :: "'db tdb_ops \<Rightarrow> sys \<Rightarrow> int \<Rightarrow> int \<Rightarrow> listen_port \<Rightarrow> 'db host \<Rightarrow> listen_port \<times> 'db host" where
  "reap_port T W now pid p h =
     (let txn = sy_conn_txn W (ho_k h); h1 = next_answer h; port2 = pc_port2 (lp_cfg p)
      in if lp_video_pid p = pid
         then (p\<lparr> lp_video_pid := 0, lp_respawn_after := now + 2 \<rparr>, h1\<lparr> ho_conns := conn_remove_video T txn (ho_conns h) port2 \<rparr>)
         else
           let h2 = (if txn then h1\<lparr> ho_conns := fst (conn_delete_index_range T (ho_conns h) port2 0 (VIDEO_CONN_INDEX_BASE - 1)) \<rparr> else h1);
               p1 = p\<lparr> lp_pid := 0 \<rparr>
           in if lp_removed p then (p1, h2) else open_sockets W p1 h2)"

definition check_child :: "'db tdb_ops \<Rightarrow> sys \<Rightarrow> int \<Rightarrow> int \<Rightarrow> 'db parent \<Rightarrow> 'db parent \<times> bool" where
  "check_child T W now pid st =
     (if pid = ho_cleanup_pid (snd st) then ((fst st, fork_cleanup_child W ((snd st)\<lparr> ho_cleanup_pid := 0 \<rparr>)), False)
      else
        (case update_first (\<lambda>p. lp_video_pid p = pid \<or> lp_pid p = pid) (reap_port T W now pid) (fst st) (snd st) of
           None \<Rightarrow> (st, False)
         | Some st1 \<Rightarrow> (st1, (case find (\<lambda>p. lp_video_pid p = pid \<or> lp_pid p = pid) (fst st) of Some p \<Rightarrow> lp_video_pid p \<noteq> pid | None \<Rightarrow> False))))"

fun check_children :: "'db tdb_ops \<Rightarrow> sys \<Rightarrow> int \<Rightarrow> int list \<Rightarrow> 'db parent \<Rightarrow> 'db parent \<times> bool" where
  "check_children T W now [] st = (st, False)"
| "check_children T W now (pid # pids) st =
     (if pid \<le> 0 then (st, False)
      else let (st1, r1) = check_child T W now pid st; (st2, r2) = check_children T W now pids st1 in (st2, r1 \<or> r2))"

section \<open>Traffic\<close>

definition epoll_del_sockets :: "listen_port \<Rightarrow> 'db host \<Rightarrow> 'db host" where
  "epoll_del_sockets p h = h\<lparr> ho_epoll := filter (\<lambda>fd. Some fd \<notin> set (lp_socks p)) (ho_epoll h) \<rparr>"

definition handle_connection :: "sys \<Rightarrow> listen_port \<Rightarrow> 'db host \<Rightarrow> listen_port \<times> 'db host" where
  "handle_connection W p h =
     (let pid = sy_fork W (ho_k h); h1 = next_answer h
      in if pid < 0 then (p, h1) else (close_sockets (p\<lparr> lp_pid := pid \<rparr>), epoll_del_sockets p h1))"

definition handle_event :: "sys \<Rightarrow> nat \<Rightarrow> 'db parent \<Rightarrow> 'db parent" where
  "handle_event W fd st =
     (case update_first (\<lambda>p. lp_pid p = 0 \<and> \<not> lp_removed p \<and> Some fd \<in> set (lp_socks p)) (handle_connection W) (fst st) (snd st) of
        Some st1 \<Rightarrow> st1 | None \<Rightarrow> st)"

section \<open>Reload\<close>

definition remove_unseen :: "'db tdb_ops \<Rightarrow> sys \<Rightarrow> listen_port \<Rightarrow> 'db host \<Rightarrow> listen_port \<times> 'db host" where
  "remove_unseen T W p h =
     (if \<not> lp_seen p \<and> \<not> lp_removed p then
        let h1 = (if lp_pid p \<noteq> 0 then kill_term (lp_pid p) h else h); h2 = video_stop_child p h1
        in (close_sockets (p\<lparr> lp_removed := True \<rparr>),
            (next_answer h2)\<lparr> ho_conns := conn_remove_port2 T (sy_conn_txn W (ho_k h2)) (ho_conns h2) (pc_port2 (lp_cfg p)) \<rparr>)
      else (p, h))"

definition reopen_idle :: "sys \<Rightarrow> listen_port \<Rightarrow> 'db host \<Rightarrow> listen_port \<times> 'db host" where
  "reopen_idle W p h = (if lp_pid p = 0 \<and> \<not> lp_removed p then open_sockets W p h else (p, h))"

text \<open>\<open>reload_ports\<close>; \<open>keys\<close> is the database if its transaction could be started.\<close>

definition reload_ports :: "'db tdb_ops \<Rightarrow> sys \<Rightarrow> int \<Rightarrow> 'db option \<Rightarrow> 'db parent \<Rightarrow> 'db parent" where
  "reload_ports T W now keys st =
     (let st0 = (map (\<lambda>p. p\<lparr> lp_seen := False \<rparr>) (fst st), snd st)
      in case keys of
           None \<Rightarrow> st0
         | Some db \<Rightarrow>
             let st1 = fold (handle_record W) (tdb_records T db) st0;
                 st2 = each_port (remove_unseen T W) (fst st1) (snd st1);
                 st3 = each_port (reopen_idle W) (fst st2) (snd st2)
             in reconcile_video_children W now st3)"

section \<open>The waiting loop\<close>

definition rebuild_epoll_set :: "'db parent \<Rightarrow> 'db parent" where
  "rebuild_epoll_set st =
     (fst st, (snd st)\<lparr> ho_epoll :=
        concat (map (\<lambda>p. if lp_pid p \<noteq> 0 \<or> lp_removed p then [] else List.map_filter id (lp_socks p)) (fst st)) \<rparr>)"

text \<open>One turn of \<open>wait_connection\<close>: what \<open>epoll_wait\<close> returns (\<open>None\<close> for \<open>EINTR\<close>), the processes
  \<open>waitpid\<close> returns, the clocks and the key database.\<close>

record 'db wait_turn =
  wt_events :: "nat list option"
  wt_reaped :: "int list"
  wt_time :: int
  wt_now :: int
  wt_keys :: "'db option"

definition wait_turn_step :: "'db tdb_ops \<Rightarrow> sys \<Rightarrow> 'db wait_turn \<Rightarrow> 'db parent \<Rightarrow> 'db parent" where
  "wait_turn_step T W t st =
     (case wt_events t of
        None \<Rightarrow> st
      | Some fds \<Rightarrow>
          let st1 = fold (handle_event W) fds st; (st2, reaped) = check_children T W (wt_time t) (wt_reaped t) st1
          in if reaped \<or> wt_now t - ho_last_reload (snd st2) > 5 * 1000000
             then rebuild_epoll_set (reload_ports T W (wt_time t) (wt_keys t) (fst st2, (snd st2)\<lparr> ho_last_reload := wt_now t \<rparr>))
             else st2)"

text \<open>\<open>main\<close> up to the loop: \<open>conns\<close> is the connection database that \<open>conn_recreate_empty\<close> leaves.\<close>

definition parent_start :: "'db tdb_ops \<Rightarrow> sys \<Rightarrow> 'db \<Rightarrow> int \<Rightarrow> int \<Rightarrow> 'db \<Rightarrow> 'db parent" where
  "parent_start T W conns time now keys =
     (let h = \<lparr> ho_conns = conns, ho_cleanup_pid = 0, ho_sigterm = [], ho_epoll = [], ho_last_reload = 0, ho_k = 0 \<rparr>;
          st1 = reconcile_video_children W time (fold (handle_record W) (tdb_records T keys) ([], h))
      in rebuild_epoll_set (fst st1, (fork_cleanup_child W (snd st1))\<lparr> ho_last_reload := now \<rparr>))"

definition parent_run :: "'db tdb_ops \<Rightarrow> sys \<Rightarrow> 'db wait_turn list \<Rightarrow> 'db parent \<Rightarrow> 'db parent" where
  "parent_run T W = fold (wait_turn_step T W)"

section \<open>Invariant of the table\<close>

definition lp_port2 :: "listen_port \<Rightarrow> 32 word" where
  "lp_port2 p = pc_port2 (lp_cfg p)"

definition listening :: "listen_port \<Rightarrow> bool" where
  "listening p = (set (lp_socks p) \<noteq> {None})"

text \<open>A pair listens only while it has no session child and is in the database; the children of a
  removed pair have been told to exit.\<close>

definition port_ok :: "int set \<Rightarrow> listen_port \<Rightarrow> bool" where
  "port_ok S p = ((listening p \<longrightarrow> lp_pid p = 0 \<and> \<not> lp_removed p)
     \<and> (lp_removed p \<longrightarrow> (lp_pid p \<noteq> 0 \<longrightarrow> lp_pid p \<in> S) \<and> (lp_video_pid p \<noteq> 0 \<longrightarrow> lp_video_pid p \<in> S)))"

definition table_ok :: "'db parent \<Rightarrow> bool" where
  "table_ok st = (distinct (map lp_port2 (fst st)) \<and> (\<forall>p \<in> set (fst st). port_ok (set (ho_sigterm (snd st))) p))"

lemma port_ok_mono: "port_ok S p \<Longrightarrow> S \<subseteq> S' \<Longrightarrow> port_ok S' p"
  by (auto simp: port_ok_def)

text \<open>What a step on one entry owes the table.\<close>

locale entry_step =
  fixes P :: "listen_port \<Rightarrow> bool" and f :: "listen_port \<Rightarrow> 'db host \<Rightarrow> listen_port \<times> 'db host"
  assumes same: "P p \<Longrightarrow> f p h = (p', h') \<Longrightarrow> lp_port2 p' = lp_port2 p"
    and log: "f p h = (p', h') \<Longrightarrow> set (ho_sigterm h) \<subseteq> set (ho_sigterm h')"
    and keep: "P p \<Longrightarrow> f p h = (p', h') \<Longrightarrow> port_ok (set (ho_sigterm h)) p \<Longrightarrow> port_ok (set (ho_sigterm h')) p'"
begin

lemma first_ports: "update_first P f ps h = Some (ps', h') \<Longrightarrow>
    map lp_port2 ps' = map lp_port2 ps \<and> set (ho_sigterm h) \<subseteq> set (ho_sigterm h')
    \<and> ((\<forall>p \<in> set ps. port_ok (set (ho_sigterm h)) p) \<longrightarrow> (\<forall>p \<in> set ps'. port_ok (set (ho_sigterm h')) p))"
proof (induction ps arbitrary: ps')
  case (Cons p ps)
  show ?case
  proof (cases "P p")
    case True
    obtain p1 h1 where f: "f p h = (p1, h1)" by force
    then have "ps' = p1 # ps" "h' = h1" using Cons.prems True by simp_all
    then show ?thesis using same [OF True f] log [OF f] keep [OF True f] port_ok_mono by auto
  next
    case False
    then obtain ps1 where u: "update_first P f ps h = Some (ps1, h')" "ps' = p # ps1" using Cons.prems by (auto split: option.splits)
    then show ?thesis using Cons.IH [OF u(1)] port_ok_mono by auto
  qed
qed simp

lemma table_first: "table_ok st \<Longrightarrow> update_first P f (fst st) (snd st) = Some st' \<Longrightarrow> table_ok st'"
  using first_ports [of "fst st" "snd st" "fst st'" "snd st'"] by (simp add: table_ok_def)

lemma each_ports:
  assumes "\<And>p. P p"
  shows "each_port f ps h = (ps', h') \<Longrightarrow> map lp_port2 ps' = map lp_port2 ps \<and> set (ho_sigterm h) \<subseteq> set (ho_sigterm h')
    \<and> ((\<forall>p \<in> set ps. port_ok (set (ho_sigterm h)) p) \<longrightarrow> (\<forall>p \<in> set ps'. port_ok (set (ho_sigterm h')) p))"
proof (induction ps arbitrary: h ps')
  case (Cons p ps)
  obtain p1 h1 where f: "f p h = (p1, h1)" by force
  obtain ps2 h2 where e: "each_port f ps h1 = (ps2, h2)" by force
  have r: "ps' = p1 # ps2" "h' = h2" using Cons.prems f e by simp_all
  have ih: "map lp_port2 ps2 = map lp_port2 ps" "set (ho_sigterm h1) \<subseteq> set (ho_sigterm h')"
      "(\<forall>p \<in> set ps. port_ok (set (ho_sigterm h1)) p) \<longrightarrow> (\<forall>p \<in> set ps2. port_ok (set (ho_sigterm h')) p)"
    using Cons.IH [of h1 ps2] e r(2) by simp_all
  note s = same [OF assms f] log [OF f] keep [OF assms f]
  have "\<forall>q \<in> set ps'. port_ok (set (ho_sigterm h')) q" if "\<forall>q \<in> set (p # ps). port_ok (set (ho_sigterm h)) q"
    using that s ih port_ok_mono r(1) by (metis list.set_intros(1) list.set_intros(2) set_ConsD)
  then show ?case using s ih r(1) by auto
qed simp

lemma table_each: "(\<And>p. P p) \<Longrightarrow> table_ok st \<Longrightarrow> table_ok (each_port f (fst st) (snd st))"
  using each_ports [of "fst st" "snd st" "fst (each_port f (fst st) (snd st))" "snd (each_port f (fst st) (snd st))"]
  by (simp add: table_ok_def)

end

subsection \<open>The steps\<close>

lemma open_one_log [simp]: "ho_sigterm (snd (open_one W s h)) = ho_sigterm h"
  by (simp add: open_one_def next_answer_def split: option.split)

lemma open_sockets_fields [simp]:
  "lp_cfg (fst (open_sockets W p h)) = lp_cfg p" "lp_pid (fst (open_sockets W p h)) = lp_pid p"
  "lp_video_pid (fst (open_sockets W p h)) = lp_video_pid p" "lp_removed (fst (open_sockets W p h)) = lp_removed p"
  "lp_seen (fst (open_sockets W p h)) = lp_seen p" "ho_sigterm (snd (open_sockets W p h)) = ho_sigterm h"
  by (simp_all add: open_sockets_def case_prod_beta)

lemma close_sockets_fields [simp]:
  "lp_cfg (close_sockets p) = lp_cfg p" "lp_pid (close_sockets p) = lp_pid p" "lp_video_pid (close_sockets p) = lp_video_pid p"
  "lp_removed (close_sockets p) = lp_removed p" "lp_seen (close_sockets p) = lp_seen p" "\<not> listening (close_sockets p)"
  by (simp_all add: close_sockets_def listening_def lp_socks_def)

lemma listening_update [simp]:
  "listening (p\<lparr> lp_seen := b \<rparr>) = listening p" "listening (p\<lparr> lp_removed := b \<rparr>) = listening p" "listening (p\<lparr> lp_cfg := c \<rparr>) = listening p"
  "listening (p\<lparr> lp_pid := i \<rparr>) = listening p" "listening (p\<lparr> lp_video_pid := i \<rparr>) = listening p" "listening (p\<lparr> lp_respawn_after := i \<rparr>) = listening p"
  by (simp_all add: listening_def lp_socks_def)

lemma host_log [simp]:
  "ho_sigterm (next_answer h) = ho_sigterm h" "ho_sigterm (kill_term pid h) = pid # ho_sigterm h" "ho_sigterm (epoll_del_sockets p h) = ho_sigterm h"
  by (simp_all add: next_answer_def kill_term_def epoll_del_sockets_def)

lemma video_stop_log: "set (ho_sigterm (video_stop_child p h)) = set (ho_sigterm h) \<union> (if lp_video_pid p = 0 then {} else {lp_video_pid p})"
  by (simp add: video_stop_child_def)

lemma open_ok: "lp_pid p = 0 \<Longrightarrow> \<not> lp_removed p \<Longrightarrow> port_ok S (fst (open_sockets W p h))"
  by (simp add: port_ok_def)

interpretation refresh: entry_step "\<lambda>p. lp_port2 p = pc_port2 c" "refresh_port W c" for W c
proof (unfold_locales, goal_cases)
  case (1 p h p' h')
  then show ?case by (auto simp: refresh_port_def Let_def lp_port2_def case_prod_beta split: if_splits dest!: arg_cong [where f = fst])
next
  case (2 p h p' h')
  then show ?case by (auto simp: refresh_port_def Let_def video_stop_log split: if_splits dest!: arg_cong [where f = snd])
next
  case (3 p h p' h')
  define h1 where "h1 = (if video_cfg_differs (lp_cfg p) c then video_stop_child p h else h)"
  have "port_ok (set (ho_sigterm (snd (refresh_port W c p h)))) (fst (refresh_port W c p h))"
    using 3(3) open_ok unfolding refresh_port_def Let_def h1_def [symmetric] by (auto simp: port_ok_def)
  then show ?case using 3(2) by simp
qed

interpretation reconcile: entry_step "\<lambda>_. True" "reconcile_one W now" for W now
proof (unfold_locales, goal_cases)
  case (1 p h p' h')
  then show ?case by (auto simp: reconcile_one_def fork_video_child_def Let_def lp_port2_def split: if_splits)
next
  case (2 p h p' h')
  then show ?case by (auto simp: reconcile_one_def fork_video_child_def Let_def video_stop_log split: if_splits)
next
  case (3 p h p' h')
  then show ?case
    by (auto simp: reconcile_one_def fork_video_child_def Let_def video_stop_log port_ok_def wants_video_def split: if_splits)
qed

interpretation reap: entry_step "\<lambda>p. lp_video_pid p = pid \<or> lp_pid p = pid" "reap_port T W now pid" for T W now pid
proof (unfold_locales, goal_cases)
  case (1 p h p' h')
  then show ?case by (auto simp: reap_port_def Let_def lp_port2_def split: if_splits dest!: arg_cong [where f = fst])
next
  case (2 p h p' h')
  then show ?case by (auto simp: reap_port_def Let_def split: if_splits dest!: arg_cong [where f = snd])
next
  case (3 p h p' h')
  have "port_ok (set (ho_sigterm (snd (reap_port T W now pid p h)))) (fst (reap_port T W now pid p h))"
    using 3(3) open_ok unfolding reap_port_def Let_def by (auto simp: port_ok_def)
  then show ?case using 3(2) by simp
qed

interpretation connection: entry_step "\<lambda>p. lp_pid p = 0 \<and> \<not> lp_removed p \<and> Some fd \<in> set (lp_socks p)" "handle_connection W" for W fd
proof (unfold_locales, goal_cases)
  case (1 p h p' h')
  then show ?case by (auto simp: handle_connection_def Let_def lp_port2_def split: if_splits)
next
  case (2 p h p' h')
  then show ?case by (auto simp: handle_connection_def Let_def split: if_splits)
next
  case (3 p h p' h')
  then show ?case by (auto simp: handle_connection_def Let_def port_ok_def split: if_splits)
qed

interpretation unseen: entry_step "\<lambda>_. True" "remove_unseen T W" for T W
proof (unfold_locales, goal_cases)
  case (1 p h p' h')
  then show ?case by (auto simp: remove_unseen_def Let_def lp_port2_def split: if_splits)
next
  case (2 p h p' h')
  then show ?case by (auto simp: remove_unseen_def Let_def video_stop_log split: if_splits)
next
  case (3 p h p' h')
  then show ?case by (auto simp: remove_unseen_def Let_def port_ok_def video_stop_log split: if_splits)
qed

interpretation reopen: entry_step "\<lambda>_. True" "reopen_idle W" for W
proof (unfold_locales, goal_cases)
  case (1 p h p' h')
  then show ?case by (auto simp: reopen_idle_def lp_port2_def split: if_splits dest!: arg_cong [where f = fst])
next
  case (2 p h p' h')
  then show ?case by (auto simp: reopen_idle_def split: if_splits dest!: arg_cong [where f = snd])
next
  case (3 p h p' h')
  have "port_ok (set (ho_sigterm (snd (reopen_idle W p h)))) (fst (reopen_idle W p h))"
    using 3(3) open_ok by (auto simp: reopen_idle_def)
  then show ?case using 3(2) by simp
qed

subsection \<open>Whole operations\<close>

lemma update_first_None: "update_first P f ps h = None \<longleftrightarrow> (\<forall>p \<in> set ps. \<not> P p)"
  by (induction ps) (auto split: option.splits prod.splits)

lemma table_upsert:
  assumes "table_ok st" shows "table_ok (upsert_port W c st)"
proof (cases "update_first (\<lambda>p. lp_port2 p = pc_port2 c) (refresh_port W c) (fst st) (snd st)")
  case None
  then have "pc_port2 c \<notin> lp_port2 ` set (fst st)" by (auto simp: update_first_None)
  then show ?thesis
    using assms None open_ok [of "new_port c" _ W "snd st"]
    by (simp add: upsert_port_def lp_port2_def [symmetric] case_prod_beta table_ok_def) (simp add: lp_port2_def new_port_def)
next
  case (Some st')
  then show ?thesis using refresh.table_first [OF assms] by (simp add: upsert_port_def lp_port2_def [symmetric])
qed

lemma table_record: "table_ok st \<Longrightarrow> table_ok (handle_record W kd st)"
  by (simp add: handle_record_def table_upsert split: option.split)

lemma table_records: "table_ok st \<Longrightarrow> table_ok (fold (handle_record W) kds st)"
  by (induction kds arbitrary: st) (simp_all add: table_record)

lemma table_reconcile: "table_ok st \<Longrightarrow> table_ok (reconcile_video_children W now st)"
  by (simp add: reconcile_video_children_def reconcile.table_each)

lemma table_reload:
  assumes "table_ok st" shows "table_ok (reload_ports T W now keys st)"
proof -
  have "table_ok (map (\<lambda>p. p\<lparr> lp_seen := False \<rparr>) (fst st), snd st)"
    using assms by (auto simp: table_ok_def port_ok_def comp_def) (simp add: lp_port2_def cong: map_cong)
  then show ?thesis
    by (auto simp: reload_ports_def Let_def intro!: table_reconcile reopen.table_each unseen.table_each table_records split: option.split)
qed

lemma table_child: "table_ok st \<Longrightarrow> table_ok (fst (check_child T W now pid st))"
proof -
  assume st: "table_ok st"
  have "table_ok (fst st, fork_cleanup_child W ((snd st)\<lparr> ho_cleanup_pid := 0 \<rparr>))"
    using st by (simp add: table_ok_def fork_cleanup_child_def Let_def)
  then show ?thesis using st reap.table_first [OF st] by (simp add: check_child_def split: option.split)
qed

lemma table_children: "table_ok st \<Longrightarrow> table_ok (fst (check_children T W now pids st))"
proof (induction pids arbitrary: st)
  case (Cons pid pids)
  show ?case using Cons.IH [OF table_child [OF Cons.prems]] Cons.prems by (simp add: case_prod_beta)
qed simp

lemma table_event: "table_ok st \<Longrightarrow> table_ok (handle_event W fd st)"
  using connection.table_first [of st] by (simp add: handle_event_def split: option.split)

lemma table_events: "table_ok st \<Longrightarrow> table_ok (fold (handle_event W) fds st)"
  by (induction fds arbitrary: st) (simp_all add: table_event)

lemma table_host: "table_ok (ps, h) \<Longrightarrow> ho_sigterm h' = ho_sigterm h \<Longrightarrow> table_ok (ps, h')"
  by (simp add: table_ok_def)

lemma table_rebuild: "table_ok st \<Longrightarrow> table_ok (rebuild_epoll_set st)"
  by (simp add: table_ok_def rebuild_epoll_set_def)

lemma table_turn: "table_ok st \<Longrightarrow> table_ok (wait_turn_step T W t st)"
proof -
  assume st: "table_ok st"
  have c: "table_ok (fst (check_children T W (wt_time t) (wt_reaped t) (fold (handle_event W) fds st)))" for fds
    by (intro table_children table_events st)
  then have "table_ok (fst (fst (check_children T W (wt_time t) (wt_reaped t) (fold (handle_event W) fds st))),
      (snd (fst (check_children T W (wt_time t) (wt_reaped t) (fold (handle_event W) fds st))))\<lparr> ho_last_reload := wt_now t \<rparr>)" for fds
    by (simp add: table_ok_def)
  then show ?thesis using c st by (auto simp: wait_turn_step_def Let_def case_prod_beta intro!: table_rebuild table_reload split: option.split)
qed

lemma table_run: "table_ok st \<Longrightarrow> table_ok (parent_run T W ts st)"
  unfolding parent_run_def by (induction ts arbitrary: st) (simp_all add: table_turn)

lemma table_start: "table_ok (parent_start T W conns time now keys)"
proof -
  define h where "h = \<lparr> ho_conns = conns, ho_cleanup_pid = 0, ho_sigterm = [], ho_epoll = [], ho_last_reload = 0, ho_k = 0 \<rparr>"
  have "table_ok (reconcile_video_children W time (fold (handle_record W) (tdb_records T keys) ([], h)))"
    by (intro table_reconcile table_records) (simp add: table_ok_def)
  then show ?thesis unfolding parent_start_def Let_def h_def [symmetric]
    by (intro table_rebuild) (simp add: table_ok_def fork_cleanup_child_def Let_def)
qed

text \<open>
  C10. At every moment of the parent's life the table has one entry per engineer
  port; no entry holds a listening socket while its session child owns the pair
  or after its record was removed from the key database; and every child that
  still runs for a removed record has been sent a SIGTERM.
\<close>

theorem parent_table_invariant:
  "case parent_run T W turns (parent_start T W conns time now keys) of (ps, h) \<Rightarrow>
     distinct (map lp_port2 ps)
     \<and> {p \<in> set ps. listening p \<and> \<not> (lp_pid p = 0 \<and> \<not> lp_removed p)} = {}
     \<and> {p \<in> set ps. lp_removed p \<and> {lp_pid p, lp_video_pid p} - {0} - set (ho_sigterm h) \<noteq> {}} = {}"
proof -
  have "table_ok (parent_run T W turns (parent_start T W conns time now keys))" by (rule table_run [OF table_start])
  then show ?thesis by (auto simp: table_ok_def port_ok_def case_prod_beta)
qed

section \<open>Reload and the key database\<close>

text \<open>The settings of the entries in use, and those of the records.\<close>

definition active_cfgs :: "listen_port list \<Rightarrow> port_cfg set" where
  "active_cfgs ps = lp_cfg ` {p \<in> set ps. \<not> lp_removed p}"

definition stored_cfgs :: "'db tdb_ops \<Rightarrow> 'db \<Rightarrow> port_cfg set" where
  "stored_cfgs T db = {c. \<exists>kd \<in> set (tdb_records T db). record_cfg kd = Some c}"

text \<open>What the traversal has done after the records with settings \<open>R\<close>.\<close>

definition seen_exactly :: "port_cfg set \<Rightarrow> listen_port list \<Rightarrow> bool" where
  "seen_exactly R ps = ((\<forall>p \<in> set ps. lp_seen p \<longrightarrow> \<not> lp_removed p) \<and> lp_cfg ` {p \<in> set ps. lp_seen p} = R)"

lemma refresh_view:
  "refresh_port W c p h = (p', h') \<Longrightarrow> lp_seen p' \<and> \<not> lp_removed p' \<and> lp_cfg p' = c"
  by (auto simp: refresh_port_def Let_def split: if_splits dest!: arg_cong [where f = fst])

lemma update_first_split:
  "update_first P f ps h = Some (ps', h') \<Longrightarrow>
    \<exists>a p b p'. ps = a @ p # b \<and> ps' = a @ p' # b \<and> P p \<and> f p h = (p', h')"
proof (induction ps arbitrary: ps')
  case (Cons p ps)
  show ?case
  proof (cases "P p")
    case True
    then show ?thesis using Cons.prems by (auto split: prod.splits intro: exI [of _ "[]"])
  next
    case False
    then obtain ps1 where u: "update_first P f ps h = Some (ps1, h')" "ps' = p # ps1" using Cons.prems by (auto split: option.splits)
    from Cons.IH [OF u(1)] obtain a q b q' where "ps = a @ q # b" "ps1 = a @ q' # b" "P q" "f q h = (q', h')" by blast
    then show ?thesis using u(2) by (intro exI [of _ "p # a"]) auto
  qed
qed simp

lemma seen_upsert:
  assumes "seen_exactly R (fst st)" "pc_port2 c \<notin> pc_port2 ` R"
  shows "seen_exactly (insert c R) (fst (upsert_port W c st))"
proof (cases "update_first (\<lambda>p. lp_port2 p = pc_port2 c) (refresh_port W c) (fst st) (snd st)")
  case None
  then show ?thesis
    using assms(1)
    by (simp add: upsert_port_def lp_port2_def [symmetric] case_prod_beta seen_exactly_def Collect_conv_if Collect_disj_eq conj_disj_distribR image_Un new_port_def)
next
  case (Some st')
  obtain a p b p' where s: "fst st = a @ p # b" "fst st' = a @ p' # b" "lp_port2 p = pc_port2 c" "refresh_port W c p (snd st) = (p', snd st')"
    using update_first_split [of "\<lambda>p. lp_port2 p = pc_port2 c" "refresh_port W c" "fst st" "snd st" "fst st'" "snd st'"] Some
    unfolding prod.collapse by blast
  have "\<not> lp_seen p"
  proof
    assume "lp_seen p"
    then have "lp_cfg p \<in> R" using assms(1) s(1) by (auto simp: seen_exactly_def)
    then show False using assms(2) s(3) by (metis image_eqI lp_port2_def)
  qed
  then show ?thesis
    using Some assms(1) s(1,2) refresh_view [OF s(4)] by (auto simp: upsert_port_def lp_port2_def [symmetric] seen_exactly_def)
qed

definition record_cfgs :: "(bytes \<times> bytes) list \<Rightarrow> port_cfg list" where
  "record_cfgs kds = List.map_filter record_cfg kds"

lemma record_cfgs_simps [simp]:
  "record_cfgs [] = []"
  "record_cfgs (kd # kds) = (case record_cfg kd of None \<Rightarrow> record_cfgs kds | Some c \<Rightarrow> c # record_cfgs kds)"
  by (simp_all add: record_cfgs_def map_filter_simps split: option.split)

lemma seen_records:
  "seen_exactly R (fst st) \<Longrightarrow> distinct (map pc_port2 (record_cfgs kds)) \<Longrightarrow> pc_port2 ` R \<inter> pc_port2 ` set (record_cfgs kds) = {}
    \<Longrightarrow> seen_exactly (R \<union> set (record_cfgs kds)) (fst (fold (handle_record W) kds st))"
proof (induction kds arbitrary: st R)
  case (Cons kd kds)
  show ?case
  proof (cases "record_cfg kd")
    case None
    moreover have "handle_record W kd st = st" using None by (simp add: handle_record_def)
    ultimately show ?thesis using Cons by simp
  next
    case (Some c)
    have "seen_exactly (insert c R) (fst (upsert_port W c st))" using Cons.prems Some by (intro seen_upsert) auto
    moreover have "distinct (map pc_port2 (record_cfgs kds))" "pc_port2 ` insert c R \<inter> pc_port2 ` set (record_cfgs kds) = {}"
      using Cons.prems(2,3) Some by auto
    ultimately have "seen_exactly (insert c R \<union> set (record_cfgs kds)) (fst (fold (handle_record W) kds (upsert_port W c st)))" by (rule Cons.IH)
    moreover have "handle_record W kd st = upsert_port W c st" using Some by (simp add: handle_record_def)
    ultimately show ?thesis using Some by simp
  qed
qed simp

lemma record_cfg_port: "record_cfg kd = Some c \<Longrightarrow> length (fst kd) = 4 \<and> fst kd = u32_field (pc_port2 c)"
  by (auto simp: record_cfg_def cfg_of_def u32_field_of split: if_splits)

lemma distinct_cfgs: "distinct (map fst kds) \<Longrightarrow> distinct (map pc_port2 (record_cfgs kds))"
proof (induction kds)
  case (Cons kd kds)
  have "fst kd \<in> fst ` set kds" if c: "record_cfg kd = Some c" "c' \<in> set (record_cfgs kds)" "pc_port2 c' = pc_port2 c" for c c'
  proof -
    obtain kd' where "kd' \<in> set kds" "record_cfg kd' = Some c'" using c(2) by (auto simp: record_cfgs_def map_filter_def)
    then show ?thesis using record_cfg_port [of kd c] record_cfg_port [of kd' c'] c by (metis image_eqI)
  qed
  then have "pc_port2 c \<notin> pc_port2 ` set (record_cfgs kds)" if "record_cfg kd = Some c" for c using that Cons.prems by fastforce
  then show ?case using Cons by (simp split: option.split)
qed simp

lemma each_port_view: "(\<And>p h. g (fst (f p h)) = k p) \<Longrightarrow> map g (fst (each_port f ps h)) = map k ps"
  by (induction ps arbitrary: h) (simp_all add: case_prod_beta)

lemma each_port_all: "(\<And>p h. Q p \<Longrightarrow> R (fst (f p h))) \<Longrightarrow> \<forall>p \<in> set ps. Q p \<Longrightarrow> \<forall>p \<in> set (fst (each_port f ps h)). R p"
  by (induction ps arbitrary: h) (auto simp: case_prod_beta)

definition lp_view :: "listen_port \<Rightarrow> port_cfg \<times> bool" where
  "lp_view p = (lp_cfg p, lp_removed p)"

lemma view_steps:
  "lp_view (fst (remove_unseen T W p h)) = (lp_cfg p, lp_removed p \<or> \<not> lp_seen p)"
  "lp_view (fst (reopen_idle W p h)) = lp_view p" "lp_view (fst (reconcile_one W now p h)) = lp_view p"
  by (auto simp: lp_view_def remove_unseen_def reopen_idle_def reconcile_one_def fork_video_child_def Let_def)

lemma active_view: "active_cfgs ps = fst ` {x \<in> set (map lp_view ps). \<not> snd x}"
  by (force simp: active_cfgs_def lp_view_def)

text \<open>Whether an idle pair in use has all its sockets.\<close>

definition idle_open :: "listen_port \<Rightarrow> bool" where
  "idle_open p = (lp_pid p = 0 \<and> \<not> lp_removed p \<longrightarrow> None \<notin> set (lp_socks p))"

lemma reopen_open:
  assumes "\<And>k. sy_socket W k \<noteq> None"
  shows "idle_open (fst (reopen_idle W p h))"
proof -
  have o: "fst (open_one W s g) \<noteq> None" for s and g :: "'a host" using assms by (simp add: open_one_def split: option.split)
  have "None \<notin> set (lp_socks (fst (open_sockets W p h)))"
    by (simp add: open_sockets_def case_prod_beta lp_socks_def o [symmetric] not_sym [OF o])
  then show ?thesis by (auto simp: idle_open_def reopen_idle_def)
qed

lemma reconcile_idle: "idle_open p \<Longrightarrow> idle_open (fst (reconcile_one W now p h))"
  by (auto simp: idle_open_def reconcile_one_def fork_video_child_def Let_def lp_socks_def)

lemma reload_active:
  assumes "tdb_laws T"
  shows "active_cfgs (fst (reload_ports T W now (Some db) st)) = stored_cfgs T db"
proof -
  define st0 where "st0 = (map (\<lambda>p. p\<lparr> lp_seen := False \<rparr>) (fst st), snd st)"
  define st1 where "st1 = fold (handle_record W) (tdb_records T db) st0"
  define R where "R = set (record_cfgs (tdb_records T db))"
  have "seen_exactly {} (fst st0)" by (auto simp: seen_exactly_def st0_def)
  from seen_records [OF this distinct_cfgs [OF distinct_records [OF assms]]]
  have s: "seen_exactly R (fst st1)" by (simp add: R_def st1_def)
  let ?ps = "fst (reload_ports T W now (Some db) st)"
  have "map lp_view ?ps = map (\<lambda>p. (lp_cfg p, lp_removed p \<or> \<not> lp_seen p)) (fst st1)"
    unfolding reload_ports_def Let_def st0_def [symmetric] option.case st1_def [symmetric] reconcile_video_children_def
    by (simp add: each_port_view [where g = lp_view, OF view_steps(3)] each_port_view [where g = lp_view, OF view_steps(2)]
        each_port_view [where g = lp_view, OF view_steps(1)])
  then have "active_cfgs ?ps = fst ` {x \<in> (\<lambda>p. (lp_cfg p, lp_removed p \<or> \<not> lp_seen p)) ` set (fst st1). \<not> snd x}"
    by (simp only: active_view set_map)
  also have "\<dots> = lp_cfg ` {p \<in> set (fst st1). \<not> lp_removed p \<and> lp_seen p}" by force
  also have "{p \<in> set (fst st1). \<not> lp_removed p \<and> lp_seen p} = {p \<in> set (fst st1). lp_seen p}" using s by (auto simp: seen_exactly_def)
  also have "lp_cfg ` \<dots> = R" using s by (simp add: seen_exactly_def)
  also have "R = stored_cfgs T db" by (force simp: R_def record_cfgs_def stored_cfgs_def map_filter_def)
  finally show ?thesis .
qed

lemma reload_idle:
  assumes "\<And>k. sy_socket W k \<noteq> None"
  shows "\<forall>p \<in> set (fst (reload_ports T W now (Some db) st)). idle_open p"
proof -
  have "\<forall>p \<in> set (fst (each_port (reopen_idle W) ps h)). idle_open p" for ps and h :: "'a host"
    by (rule each_port_all [where Q = "\<lambda>_. True"]) (simp_all add: reopen_open [OF assms])
  then show ?thesis unfolding reload_ports_def Let_def option.case reconcile_video_children_def
    by (rule each_port_all [where Q = idle_open and R = idle_open, rotated]) (simp_all add: reconcile_idle)
qed

text \<open>
  C4. A reload makes the table agree with the key database, whatever state the
  parent is in: the entries in use are exactly the records, with the settings
  the records have now, one entry per engineer port.  If every socket can be
  opened, every entry without a session child then listens on all four.  A
  reload that cannot open the database leaves the entries in use as they were.
\<close>

theorem parent_reload_exact:
  assumes "tdb_laws T"
  defines "S \<equiv> \<lambda>W turns conns time now keys. parent_run T W turns (parent_start T W conns time now keys)"
  shows "(case reload_ports T W time' (Some db) (S W turns conns time now keys) of (ps, h) \<Rightarrow>
      active_cfgs ps = stored_cfgs T db \<and> distinct (map lp_port2 ps)
      \<and> (range (sy_socket W) \<inter> {None} = {} \<longrightarrow> {p \<in> set ps. \<not> lp_removed p \<and> lp_pid p = 0 \<and> None \<in> set (lp_socks p)} = {}))
    \<and> active_cfgs (fst (reload_ports T W time' None (S W turns conns time now keys))) = active_cfgs (fst (S W turns conns time now keys))"
proof -
  let ?s = "S W turns conns time now keys" let ?r = "reload_ports T W time' (Some db) ?s"
  have "table_ok ?r" unfolding S_def by (intro table_reload table_run table_start)
  moreover have "active_cfgs (fst ?r) = stored_cfgs T db" by (rule reload_active [OF assms(1)])
  moreover have "{p \<in> set (fst ?r). \<not> lp_removed p \<and> lp_pid p = 0 \<and> None \<in> set (lp_socks p)} = {}" if "range (sy_socket W) \<inter> {None} = {}"
  proof -
    have "sy_socket W k \<noteq> None" for k using that by (metis disjoint_iff rangeI singletonI)
    from reload_idle [OF this, of T time' db ?s] show ?thesis by (auto simp: idle_open_def)
  qed
  moreover have "active_cfgs (fst (reload_ports T W time' None ?s)) = active_cfgs (fst ?s)"
    by (simp add: reload_ports_def active_view lp_view_def comp_def image_image)
  ultimately show ?thesis by (simp add: case_prod_beta table_ok_def)
qed

definition ex_world :: sys where
  "ex_world = \<lparr> sy_socket = Some, sy_fork = (\<lambda>k. 100 + int k), sy_conn_txn = (\<lambda>_. True) \<rparr>"

theorem parent_reload_exact_witness:
  "case reload_ports mem_tdb ex_world 0 (Some [(u32_field 7, replicate 96 0)]) (parent_run mem_tdb ex_world [] (parent_start mem_tdb ex_world [] 0 0 [])) of
     (ps, h) \<Rightarrow> active_cfgs ps = stored_cfgs mem_tdb [(u32_field 7, replicate 96 0)] \<and> active_cfgs ps \<noteq> {}
       \<and> {p \<in> set ps. \<not> lp_removed p \<and> lp_pid p = 0 \<and> None \<in> set (lp_socks p)} = {}"
proof -
  have "record_cfg (u32_field 7, replicate 96 0) \<noteq> None" by (simp add: record_cfg_def KEYENTRY_MIN_SIZE_def u32_field_def)
  then have "stored_cfgs mem_tdb [(u32_field 7, replicate 96 0)] \<noteq> {}" by (auto simp: stored_cfgs_def mem_tdb_def)
  moreover have "range (sy_socket ex_world) \<inter> {None} = {}" by (auto simp: ex_world_def)
  ultimately show ?thesis
    using parent_reload_exact [where W = ex_world and time' = 0 and db = "[(u32_field 7, replicate 96 0)]" and turns = "[]"
        and conns = "[]" and time = 0 and now = 0 and keys = "[]", OF mem_tdb_laws] by (simp add: case_prod_beta)
qed

end
