(* ===== verification/Spec2Isabelle.thy ===== *)
theory Spec2Isabelle
  imports Video_Ring Ts_Builder Mkv_Scanner Web_Socket Key_Db Conn_Db Http_Req Video_Auth Bin_Log Rtsp_View Video_Child Rtsp_Guard Sha_256 Rtmp_Wire Session_Trust Port_Table
begin

text \<open>
  SupportProxy: a verification library for the C++ sources under \<open>src/\<close>.

  \<^bold>\<open>The program.\<close>  SupportProxy connects the vehicle of a user with support engineers.
  The parent (\<open>src/supportproxy.cpp\<close>) keeps a table of port pairs read from
  \<open>keys.tdb\<close>, listens on every pair and forks a session child for a pair in
  use, a video child for an entry with video ports, and a cleanup child.  A session
  child (\<open>main_loop\<close>) forwards MAVLink between one user and up to 100
  engineers, whose messages must be signed with the key of the entry
  (\<open>src/mavlink.cpp\<close>), and writes telemetry and binary logs
  (\<open>src/tlog.cpp\<close>, \<open>src/binlog.cpp\<close>).  A video child (\<open>src/video.cpp\<close>) has up to
  five slots; a slot takes one publisher (MPEG-TS or RTP over UDP, Matroska over
  HTTP, RTSP, RTMP), keeps its stream in a ring, records it and serves viewers over
  HTTP, raw TCP, WebSocket and RTSP.  The processes share \<open>keys.tdb\<close> and
  \<open>connections.tdb\<close>.

  \<^bold>\<open>How the code is modelled.\<close>  A struct or class is a \<open>record\<close>, an enum a \<open>datatype\<close>, a
  method a function from the old object to the new one and its result.  Sizes and
  positions are natural numbers, reduced by \<open>u32\<close> or \<open>u64\<close> where the counter of the
  code may wrap; fields of a file or of the network are \<open>word\<close>s of their width.  What the
  kernel, the file system, the clock or another process answers is an argument of
  the definition that asks: a read is \<open>net_read\<close>, the writes of a call are a
  list of \<open>net_write\<close>, a database that does not open is \<open>None\<close>.  Every theorem is for
  all such answers unless it says otherwise.  Error returns are values.

  \<^bold>\<open>Theories.\<close>
  \<^item> \<open>SP_Prelude\<close>: bytes, counters, multi-byte fields, \<open>strtoll\<close>, the collections
    \<open>buf_simps\<close> and \<open>enc_simps\<close>.
  \<^item> \<open>Record_Store\<close>, \<open>Key_Db\<close>, \<open>Conn_Db\<close>: TDB as a store of byte strings
    (\<open>tdb_ops\<close> with \<open>tdb_laws\<close>; \<open>mem_tdb\<close> is an instance), the on-disk records
    of \<open>src/keydb.h\<close> and \<open>src/conntdb.h\<close> with their offsets, defaults for short
    records, load, save and range deletes.  Both are instances of the locale
    \<open>record_layout\<close>: a reader gets back what a writer stored.
  \<^item> \<open>Mav_Link\<close>: \<open>MAVLink\<close>.  A link accepts only messages signed with a key that was
    in force, a rotation is kept, the stored timestamp never runs ahead of the
    clock by more than the cap.
  \<^item> \<open>Port_Session\<close>, \<open>Session_Inv\<close>, \<open>Session_Trust\<close>: \<open>main_loop\<close>, phase by phase, with a
    trace of what crosses between the sides.  The locale \<open>session_invariant\<close> lifts
    a property of one step to all sessions; its instances are the table
    of engineers, the pre-authentication deadlines and the chain of
    trust from the stored key to every forwarded message.
  \<^item> \<open>Port_Table\<close>: the parent.  The locale \<open>entry_step\<close> is the contract of a change of
    one entry, with six instances.  Shown: the invariant of the table over
    any run, and that a reload leaves exactly the records of the
    database in use.
  \<^item> \<open>Bin_Log\<close>, \<open>Tlog_Writer\<close>, \<open>Session_Names\<close>, \<open>Log_Cleanup\<close>: the log files, their
    names, retention and quotas.
  \<^item> \<open>Sha_256\<close>: the hash of the signing code, equal to the standard for every
    split of a message.
  \<^item> \<open>Http_Req\<close>, \<open>Web_Socket\<close>: request parsing, redaction of credentials in
    logged targets, and the WebSocket endpoint over plain sockets and TLS.
  \<^item> \<open>Video_Auth\<close>: who may publish and who may watch.
  \<^item> \<open>Video_Ring\<close>, \<open>Ts_Scanner\<close>, \<open>Ts_Builder\<close>, \<open>Mkv_Scanner\<close>: the ring (locale
    \<open>byte_history\<close>: a reader sees the bytes written, or is told they are
    gone), the scanners that find where a viewer may join (locale
    \<open>join_scanner\<close>), and the stream builder of the self-test as
    a source of well-formed streams.
  \<^item> \<open>Sock_Out\<close>, \<open>Video_View\<close>, \<open>Rtsp_View\<close>: viewers.  The locales \<open>viewer_link\<close> and
    \<open>viewer_course\<close> carry delivery over a plain socket and a
    WebSocket: what a viewer has been sent is the join prefix and
    the stream from its join point, in order and unchanged.
  \<^item> \<open>Rtmp_Session\<close>, \<open>Rtmp_Wire\<close>: RTMP publishers.  The locale \<open>rtmp_invariant\<close> carries the
    parser's invariants: no media before the publish is accepted,
    bounded memory; media written by a peer reaches FLV unchanged.
  \<^item> \<open>Video_Rec\<close>, \<open>Rtsp_Backend\<close>: the recorder and the ffmpeg process.
  \<^item> \<open>Video_Slot\<close>, \<open>Video_Child\<close>, \<open>Rtsp_Guard\<close>: the slots and the event loop of the video
    child.  The locale \<open>slot_invariant\<close> lifts what every handler keeps to the
    life of the process: the limits on viewers and handshakes, one
    publisher per slot, no publisher without admission, release of
    silent publishers, and that the RTSP splice passes only requests
    with the right password.

  \<^bold>\<open>Properties.\<close>  The theorem that states a property follows a text block with its number,
  C1 to C40, in the theory of its component; a theorem with
  hypotheses is followed by a witness at concrete values.

  \<^bold>\<open>Loops and bounds.\<close>  There is no fuel: loops are structural recursion on the input or
  on the answers, or \<open>function\<close>s with a measure (the bytes left, the
  space left in the buffer).  The endless loops of the processes are
  runs over a list of turns, and theorems about them hold for every list.
  Positions in a stream are below \<open>2 ^ 64\<close> where a theorem says so; a
  call of \<open>sha256_update\<close> has less than \<open>2 ^ 29\<close> bytes.  Limits of the
  code (32 viewers, 8 per address, 4 handshakes, 100 engineers, message
  and queue sizes) are definitions with the values of the code.

  \<^bold>\<open>Parameters.\<close>  Code outside the repository is an argument with named hypotheses:
  the generated MAVLink library (\<open>mav_laws\<close>), TDB (\<open>tdb_laws\<close>, \<open>tdb_writable\<close>),
  OpenSSL's digests, base64 and TLS records, the time zone functions.

  \<^bold>\<open>Not modelled.\<close>
  \<^item> Log lines, socket options, \<open>epoll\<close> masks, signal dispositions and descriptor
    inheritance; \<open>src/util.cpp\<close>, which only wraps system calls, appears as their
    answers.  An event names the socket it is for, so a descriptor number
    that is reused within one batch of events is not represented.
  \<^item> A session sees \<open>keys.tdb\<close> change only by its own writes, and a transaction that
    opens commits.  The sequence numbers of STATUSTEXT warnings are not
    tracked.
  \<^item> The flag word of a connection row is computed with the shift count
    reduced modulo 32, as the usual hardware does; the language leaves it
    undefined for the higher slots.
  \<^item> The self-test, the seeded fuzz driver and the sleep loop of the cleanup child; the
    directory scan of the binary log writer is an answer of the file system.
  \<^item> The web administration, command line tools, tests and deployment scripts,
    which are not C++; they write the databases the proxy reads.
\<close>

end
